(* ===== verification/Prelude.thy ===== *)
theory Prelude
  imports Main "HOL-Library.Word"
begin

text \<open>
  Shared vocabulary of the development: the status values every fallible routine of the
  replication layer returns, the numeric limits of the source, the theorem collections the
  component theories fill, and generic lemmas on lists and arithmetic that several of them use.
\<close>

section \<open>Theorem collections\<close>

text \<open>
  \<open>ivs_simps\<close> collects rewriting facts about interval lists, \<open>frame_simps\<close> the facts that an
  operation leaves a field of its state alone.
\<close>

named_theorems ivs_simps
named_theorems frame_simps

section \<open>Return status\<close>

text \<open>\<open>enum_return_status\<close> of \<^verbatim>\<open>sql/rpl_gtid.h\<close>.\<close>

datatype enum_return_status =
    RETURN_STATUS_OK
  | RETURN_STATUS_UNREPORTED_ERROR
  | RETURN_STATUS_REPORTED_ERROR

section \<open>Limits\<close>

text \<open>
  A group number (\<open>rpl_gno\<close>) is a signed 64-bit integer. It is modelled as an \<open>int\<close>; the value
  \<open>GNO_END\<close> (\<open>INT64_MAX\<close>) is the first number that is not a legal group number.
\<close>

definition GNO_END :: int where
  "GNO_END = 9223372036854775807"

lemma GNO_END_pos [simp]: "0 < GNO_END" "1 \<le> GNO_END" "1 < GNO_END"
  by (simp_all add: GNO_END_def)

section \<open>Lists\<close>

lemma sum_list_list_update:
  fixes xs :: "nat list"
  assumes "i < length xs"
  shows "sum_list (xs[i := v]) + xs ! i = sum_list xs + v"
  using assms by (induction xs arbitrary: i) (auto split: nat.splits)

lemma concat_length_update:
  assumes "i < length xs"
  shows "length (concat (xs[i := v])) + length (xs ! i) = length (concat xs) + length v"
  using sum_list_list_update [of i "map length xs" "length v"] assms
  by (simp add: length_concat map_update)

section \<open>Sets\<close>

lemma Diff_Un_Diff: "A - (B \<union> C) = A - B - C"
  by blast

section \<open>Bytes and C strings\<close>

type_synonym byte = "8 word"

text \<open>
  A \<open>const char *\<close> is the list of the characters from the pointer to the terminating zero;
  reading at the end of the list gives that zero.
\<close>

fun cpeek :: "string \<Rightarrow> nat" where
  "cpeek [] = 0"
| "cpeek (c # s) = of_char c"

text \<open>The test \<open>*s == c\<close> for a character other than zero.\<close>

fun starts :: "char \<Rightarrow> string \<Rightarrow> bool" where
  "starts c [] = False"
| "starts c (d # s) = (d = c)"

lemma starts_obtain:
  assumes "starts c s"
  obtains s' where "s = c # s'"
  using assms by (cases s) auto

lemma cpeek_nonzero: "cpeek ss \<noteq> 0 \<Longrightarrow> ss \<noteq> []"
  by (cases ss) auto

end
