(* ===== verification/Gno_Intervals.thy ===== *)
theory Gno_Intervals
  imports Prelude
begin

text \<open>
  The linked lists of intervals at the bottom of \<open>Gtid_set\<close> (\<^verbatim>\<open>sql/rpl_gtid_set.cc\<close>,
  \<^verbatim>\<open>sql/rpl_gtid.h\<close>). An \<open>Interval_iterator\<close> is the address of a \<open>next\<close> pointer; it is modelled as
  a zipper, the intervals before the iterator and those from its current element on. The free
  list and the chunks of interval memory are a pool of cells: a free cell carries no information
  until it is handed out, so the free list is modelled by its length.
\<close>

section \<open>Intervals, iterators and the memory pool\<close>

record interval =
  iv_start :: int
  iv_end :: int

type_synonym ivit = "interval list \<times> interval list"

definition ivit_init :: "interval list \<Rightarrow> ivit" where
  "ivit_init ivs = ([], ivs)"

fun ivit_get :: "ivit \<Rightarrow> interval option" where
  "ivit_get (pre, []) = None"
| "ivit_get (pre, iv # rest) = Some iv"

fun ivit_next :: "ivit \<Rightarrow> ivit" where
  "ivit_next (pre, []) = (pre, [])"
| "ivit_next (pre, iv # rest) = (pre @ [iv], rest)"

fun ivit_insert :: "interval \<Rightarrow> ivit \<Rightarrow> ivit" where
  "ivit_insert iv (pre, cur) = (pre, iv # cur)"

definition ivit_list :: "ivit \<Rightarrow> interval list" where
  "ivit_list it = fst it @ snd it"

text \<open>
  \<open>free_intervals\<close> is the length of the free list, \<open>chunks\<close> the sizes of the allocated chunks,
  newest first, \<open>lent\<close> the number of cells handed in by \<open>add_interval_memory\<close>. The flag
  \<open>corrupt\<close> is set when the code links a cell outside any allocated array into the free list.
  The last two fields are the cached length of the printed set, which every change invalidates.
\<close>

record pool =
  free_intervals :: nat
  chunks :: "nat list"
  lent :: nat
  corrupt :: bool
  has_cached_string_length :: bool
  cached_string_length :: nat

definition pool_init :: pool where
  "pool_init = \<lparr>free_intervals = 0, chunks = [], lent = 0, corrupt = False,
                has_cached_string_length = False, cached_string_length = 0\<rparr>"

text \<open>\<open>cached_string_length\<close> is a \<open>size_t\<close>; one caller stores \<open>-1\<close> in it.\<close>

definition invalidate_cache :: "nat \<Rightarrow> pool \<Rightarrow> pool" where
  "invalidate_cache len p = p\<lparr>has_cached_string_length := False, cached_string_length := len\<rparr>"

definition SIZE_T_MAX :: nat where
  "SIZE_T_MAX = 18446744073709551615"

definition CHUNK_GROW_SIZE :: nat where
  "CHUNK_GROW_SIZE = 8"

text \<open>
  The loop links cell \<open>i\<close> to cell \<open>i + 1\<close>, the last cell to the old head, and the head becomes
  cell 0. For an empty array the last cell is the one before the array and cell 0 lies outside it.
\<close>

definition add_interval_memory_lock_taken :: "nat \<Rightarrow> pool \<Rightarrow> pool" where
  "add_interval_memory_lock_taken n_ivs p =
     (if n_ivs = 0 then p\<lparr>corrupt := True\<rparr>
      else p\<lparr>free_intervals := free_intervals p + n_ivs\<rparr>)"

definition add_interval_memory :: "nat \<Rightarrow> pool \<Rightarrow> pool" where
  "add_interval_memory n p = add_interval_memory_lock_taken n (p\<lparr>lent := lent p + n\<rparr>)"

definition create_new_chunk :: "nat \<Rightarrow> pool \<Rightarrow> pool" where
  "create_new_chunk n p = add_interval_memory_lock_taken n (p\<lparr>chunks := n # chunks p\<rparr>)"

definition get_free_interval :: "pool \<Rightarrow> pool" where
  "get_free_interval p =
     (let p1 = (if free_intervals p = 0 then create_new_chunk CHUNK_GROW_SIZE p else p)
      in p1\<lparr>free_intervals := free_intervals p1 - 1\<rparr>)"

definition put_free_interval :: "pool \<Rightarrow> pool" where
  "put_free_interval p = p\<lparr>free_intervals := free_intervals p + 1\<rparr>"

section \<open>Adding and removing one interval\<close>

text \<open>
  The inner loop of \<open>add_gno_interval\<close>: as long as the new interval reaches the next one, the
  current one is unlinked and its cell goes back to the free list.
\<close>

fun merge_following :: "int \<Rightarrow> interval list \<Rightarrow> pool \<Rightarrow> interval list \<times> pool" where
  "merge_following e (iv # nxt # rest) p =
     (if e \<ge> iv_start nxt then merge_following e (nxt # rest) (put_free_interval p)
      else (iv # nxt # rest, p))"
| "merge_following e cur p = (cur, p)"

fun add_gno_loop :: "ivit \<Rightarrow> int \<Rightarrow> int \<Rightarrow> pool \<Rightarrow> ivit \<times> pool" where
  "add_gno_loop (pre, []) s e p =
     (ivit_insert \<lparr>iv_start = s, iv_end = e\<rparr> (pre, []), get_free_interval p)"
| "add_gno_loop (pre, iv # rest) s e p =
     (if iv_end iv \<ge> s then
        (if iv_start iv > e then
           (ivit_insert \<lparr>iv_start = s, iv_end = e\<rparr> (pre, iv # rest), get_free_interval p)
         else
           (let s' = (if iv_start iv < s then iv_start iv else s) in
            (case merge_following e (iv # rest) p of
               (iv' # rest', p') \<Rightarrow>
                 ((pre, iv'\<lparr>iv_start := s',
                            iv_end := (if iv_end iv' < e then e else iv_end iv')\<rparr> # rest'), p')
             | ([], p') \<Rightarrow> ((pre, []), p'))))
      else add_gno_loop (ivit_next (pre, iv # rest)) s e p)"

definition add_gno_interval :: "ivit \<Rightarrow> int \<Rightarrow> int \<Rightarrow> pool \<Rightarrow> ivit \<times> pool" where
  "add_gno_interval it s e p = add_gno_loop it s e (invalidate_cache 0 p)"

text \<open>\<open>remove_gno_interval\<close>: the three phases of the source, in its order.\<close>

fun skip_before :: "int \<Rightarrow> ivit \<Rightarrow> ivit" where
  "skip_before s (pre, []) = (pre, [])"
| "skip_before s (pre, iv # rest) =
     (if iv_end iv > s then (pre, iv # rest) else skip_before s (pre @ [iv], rest))"

fun drop_covered :: "int \<Rightarrow> interval list \<Rightarrow> pool \<Rightarrow> interval list \<times> pool" where
  "drop_covered e [] p = ([], p)"
| "drop_covered e (iv # rest) p =
     (if iv_end iv \<le> e then drop_covered e rest (put_free_interval p) else (iv # rest, p))"

definition remove_tail :: "int \<Rightarrow> ivit \<Rightarrow> pool \<Rightarrow> ivit \<times> pool" where
  "remove_tail e it p =
     (case drop_covered e (snd it) p of
        ([], p') \<Rightarrow> ((fst it, []), p')
      | (iv # rest, p') \<Rightarrow>
          ((fst it, (if iv_start iv < e then iv\<lparr>iv_start := e\<rparr> else iv) # rest), p'))"

definition remove_gno_steps :: "ivit \<Rightarrow> int \<Rightarrow> int \<Rightarrow> pool \<Rightarrow> ivit \<times> pool" where
  "remove_gno_steps it0 s e p =
     (case skip_before s it0 of
        (pre, []) \<Rightarrow> ((pre, []), p)
      | (pre, iv # rest) \<Rightarrow>
          if iv_start iv < s then
            if iv_end iv > e then
              (ivit_insert \<lparr>iv_start = e, iv_end = iv_end iv\<rparr> (pre @ [iv\<lparr>iv_end := s\<rparr>], rest),
               get_free_interval p)
            else
              (case rest of
                 [] \<Rightarrow> ((pre @ [iv\<lparr>iv_end := s\<rparr>], []), p)
               | _ # _ \<Rightarrow> remove_tail e (pre @ [iv\<lparr>iv_end := s\<rparr>], rest) p)
          else remove_tail e (pre, iv # rest) p)"

definition remove_gno_interval :: "ivit \<Rightarrow> int \<Rightarrow> int \<Rightarrow> pool \<Rightarrow> ivit \<times> pool" where
  "remove_gno_interval it s e p = remove_gno_steps it s e (invalidate_cache SIZE_T_MAX p)"

section \<open>Whole lists\<close>

fun add_gno_intervals_from :: "ivit \<Rightarrow> interval list \<Rightarrow> pool \<Rightarrow> ivit \<times> pool" where
  "add_gno_intervals_from it [] p = (it, p)"
| "add_gno_intervals_from it (o_iv # rest) p =
     (case add_gno_interval it (iv_start o_iv) (iv_end o_iv) p of
        (it', p') \<Rightarrow> add_gno_intervals_from it' rest p')"

fun remove_gno_intervals_from :: "ivit \<Rightarrow> interval list \<Rightarrow> pool \<Rightarrow> ivit \<times> pool" where
  "remove_gno_intervals_from it [] p = (it, p)"
| "remove_gno_intervals_from it (o_iv # rest) p =
     (case remove_gno_interval it (iv_start o_iv) (iv_end o_iv) p of
        (it', p') \<Rightarrow>
          if ivit_get it' = None then (it', p') else remove_gno_intervals_from it' rest p')"

fun contains_gno :: "interval list \<Rightarrow> int \<Rightarrow> bool" where
  "contains_gno [] g = False"
| "contains_gno (iv # rest) g =
     (if g < iv_start iv then False else if g < iv_end iv then True else contains_gno rest g)"

fun last_gno :: "int \<Rightarrow> interval list \<Rightarrow> int" where
  "last_gno g [] = g"
| "last_gno g (iv # rest) = last_gno (iv_end iv - 1) rest"

fun intervals_equal :: "interval list \<Rightarrow> interval list \<Rightarrow> bool" where
  "intervals_equal (iv # rest) (o_iv # o_rest) =
     (if \<not> (iv_start iv = iv_start o_iv \<and> iv_end iv = iv_end o_iv) then False
      else intervals_equal rest o_rest)"
| "intervals_equal [] [] = True"
| "intervals_equal _ _ = False"

text \<open>
  \<open>is_interval_subset\<close> and \<open>is_interval_intersection_nonempty\<close> walk two lists at once. Both read
  through the current interval of their first list without a test for the end of the list; the
  result \<open>None\<close> is that null dereference.
\<close>

fun is_interval_subset :: "interval list \<Rightarrow> interval list \<Rightarrow> bool option" where
  "is_interval_subset sub [] = Some False"
| "is_interval_subset [] (super # supers) = None"
| "is_interval_subset (sub # subs) (super # supers) =
     (if iv_start sub > iv_end super then
        (if supers = [] then Some False else is_interval_subset (sub # subs) supers)
      else if iv_start sub < iv_start super \<or> iv_end sub > iv_end super then Some False
      else if subs = [] then Some True
      else is_interval_subset subs (super # supers))"

fun is_interval_intersection_nonempty :: "interval list \<Rightarrow> interval list \<Rightarrow> bool option" where
  "is_interval_intersection_nonempty ivs1 [] = Some False"
| "is_interval_intersection_nonempty [] (iv2 # rest2) = None"
| "is_interval_intersection_nonempty (iv1 # rest1) (iv2 # rest2) =
     (if iv_end iv2 \<le> iv_start iv1 then
        (if rest2 = [] then Some False
         else is_interval_intersection_nonempty (iv1 # rest1) rest2)
      else if iv_start iv2 < iv_end iv1 then Some True
      else if rest1 = [] then Some False
      else is_interval_intersection_nonempty rest1 (iv2 # rest2))"

section \<open>What an interval list denotes, and its invariant\<close>

definition iv_set :: "interval \<Rightarrow> int set" where
  "iv_set iv = {iv_start iv ..< iv_end iv}"

definition gnos :: "interval list \<Rightarrow> int set" where
  "gnos ivs = (\<Union>iv \<in> set ivs. iv_set iv)"

definition iv_ok :: "interval \<Rightarrow> bool" where
  "iv_ok iv \<longleftrightarrow> 1 \<le> iv_start iv \<and> iv_start iv < iv_end iv \<and> iv_end iv \<le> GNO_END"

text \<open>Increasing, and with a gap between neighbours: touching intervals are always merged.\<close>

definition wf_ivs :: "interval list \<Rightarrow> bool" where
  "wf_ivs ivs \<longleftrightarrow> list_all iv_ok ivs \<and> sorted_wrt (\<lambda>a b. iv_end a < iv_start b) ivs"

lemma gnos_simps [simp]:
  "gnos [] = {}"
  "gnos (iv # ivs) = {iv_start iv ..< iv_end iv} \<union> gnos ivs"
  "gnos (ivs @ ivs') = gnos ivs \<union> gnos ivs'"
  by (auto simp: gnos_def iv_set_def)

lemma gnos_iff: "g \<in> gnos ivs \<longleftrightarrow> (\<exists>iv \<in> set ivs. iv_start iv \<le> g \<and> g < iv_end iv)"
  by (auto simp: gnos_def iv_set_def)

lemma wf_ivs_Nil [simp]: "wf_ivs []"
  by (simp add: wf_ivs_def)

lemma wf_ivs_Cons [simp]:
  "wf_ivs (iv # ivs) \<longleftrightarrow> iv_ok iv \<and> (\<forall>b \<in> set ivs. iv_end iv < iv_start b) \<and> wf_ivs ivs"
  by (auto simp: wf_ivs_def)

lemma wf_ivs_append:
  "wf_ivs (xs @ ys) \<longleftrightarrow>
     wf_ivs xs \<and> wf_ivs ys \<and> (\<forall>a \<in> set xs. \<forall>b \<in> set ys. iv_end a < iv_start b)"
  by (auto simp: wf_ivs_def sorted_wrt_append)

lemma wf_ivs_iv_ok: "wf_ivs ivs \<Longrightarrow> iv \<in> set ivs \<Longrightarrow> iv_ok iv"
  by (auto simp: wf_ivs_def list_all_iff)

lemma gnos_bounds: "wf_ivs ivs \<Longrightarrow> g \<in> gnos ivs \<Longrightarrow> 1 \<le> g \<and> g < GNO_END"
  by (auto simp: gnos_iff wf_ivs_def list_all_iff iv_ok_def)

section \<open>The pool: no cell is lost and none is used twice\<close>

text \<open>
  The cells in use are those allocated or lent, less the free ones. An operation on a list
  changes this number by exactly what it adds to the list.
\<close>

definition cells_used :: "pool \<Rightarrow> int" where
  "cells_used p = int (sum_list (chunks p)) + int (lent p) - int (free_intervals p)"

definition pool_inv :: "nat \<Rightarrow> pool \<Rightarrow> bool" where
  "pool_inv used p \<longleftrightarrow> \<not> corrupt p \<and> cells_used p = int used"

definition same_balance :: "interval list \<Rightarrow> pool \<Rightarrow> interval list \<Rightarrow> pool \<Rightarrow> bool" where
  "same_balance ivs p ivs' p' \<longleftrightarrow>
     cells_used p' - int (length ivs') = cells_used p - int (length ivs) \<and> corrupt p' = corrupt p"

lemma pool_inv_init [simp]: "pool_inv 0 pool_init"
  by (simp add: pool_inv_def pool_init_def cells_used_def)

lemma cells_used_get [simp]:
  "cells_used (get_free_interval p) = cells_used p + 1" "corrupt (get_free_interval p) = corrupt p"
  by (auto simp: cells_used_def get_free_interval_def create_new_chunk_def Let_def
      add_interval_memory_lock_taken_def CHUNK_GROW_SIZE_def)

lemma cells_used_put [simp]:
  "cells_used (put_free_interval p) = cells_used p - 1" "corrupt (put_free_interval p) = corrupt p"
  by (simp_all add: cells_used_def put_free_interval_def)

lemma cells_used_invalidate [simp]:
  "cells_used (invalidate_cache len p) = cells_used p" "corrupt (invalidate_cache len p) = corrupt p"
  by (simp_all add: cells_used_def invalidate_cache_def)

lemma cells_used_create [simp]:
  "0 < k \<Longrightarrow> cells_used (create_new_chunk k p) = cells_used p"
  "0 < k \<Longrightarrow> corrupt (create_new_chunk k p) = corrupt p"
  by (simp_all add: cells_used_def create_new_chunk_def add_interval_memory_lock_taken_def)

lemma cells_used_lend [simp]:
  "0 < k \<Longrightarrow> cells_used (add_interval_memory k p) = cells_used p"
  "0 < k \<Longrightarrow> corrupt (add_interval_memory k p) = corrupt p"
  by (simp_all add: cells_used_def add_interval_memory_def add_interval_memory_lock_taken_def)

lemma same_balance_refl [simp]: "same_balance ivs p ivs p"
  by (simp add: same_balance_def)

lemma same_balance_trans:
  "same_balance a p b q \<Longrightarrow> same_balance b q c r \<Longrightarrow> same_balance a p c r"
  by (simp add: same_balance_def)

lemma same_balance_frame: "same_balance (pre @ a) p (pre @ b) q \<longleftrightarrow> same_balance a p b q"
  by (simp add: same_balance_def)

lemma merge_following_balance:
  "merge_following e cur p = (cur', p') \<Longrightarrow> same_balance cur p cur' p'"
  by (induction e cur p rule: merge_following.induct) (auto simp: same_balance_def split: if_splits)

lemma drop_covered_balance:
  "drop_covered e cur p = (cur', p') \<Longrightarrow> same_balance cur p cur' p'"
  by (induction e cur p rule: drop_covered.induct) (auto simp: same_balance_def split: if_splits)

lemma merge_following_Cons:
  "\<exists>iv' rest' p'. merge_following e (iv # rest) p = (iv' # rest', p')"
  by (induction rest arbitrary: iv p) auto

lemma ivit_list_simps [simp]:
  "ivit_list (pre, cur) = pre @ cur"
  by (simp add: ivit_list_def)

lemma add_gno_loop_balance:
  "add_gno_loop it s e p = (it', p') \<Longrightarrow> same_balance (ivit_list it) p (ivit_list it') p'"
proof (induction it s e p rule: add_gno_loop.induct)
  case (1 pre s e p)
  then show ?case by (auto simp: same_balance_def)
next
  case (2 pre iv rest s e p)
  obtain iv' rest' p2 where m: "merge_following e (iv # rest) p = (iv' # rest', p2)"
    using merge_following_Cons by blast
  from merge_following_balance [OF m] 2 m show ?case
    by (auto simp: same_balance_def split: if_splits)
qed

lemma skip_before_list: "ivit_list (skip_before s it) = ivit_list it"
  by (induction s it rule: skip_before.induct) auto

lemma remove_tail_balance:
  assumes "remove_tail e it p = (it', p')"
  shows "same_balance (ivit_list it) p (ivit_list it') p'"
proof -
  obtain cur' p2 where d: "drop_covered e (snd it) p = (cur', p2)" by fastforce
  from drop_covered_balance [OF d] d assms show ?thesis
    by (auto simp: remove_tail_def ivit_list_def same_balance_def split: list.splits)
qed

lemma remove_gno_steps_balance:
  assumes "remove_gno_steps it s e p = (it', p')"
  shows "same_balance (ivit_list it) p (ivit_list it') p'"
proof -
  obtain pre cur where sb: "skip_before s it = (pre, cur)" by fastforce
  with skip_before_list [of s it] have len: "length (ivit_list it) = length pre + length cur"
    by (metis ivit_list_simps length_append)
  show ?thesis
  proof (cases cur)
    case Nil
    with assms sb have "it' = (pre, [])" "p' = p" by (auto simp: remove_gno_steps_def)
    with len Nil show ?thesis by (simp add: same_balance_def)
  next
    case (Cons iv rest)
    with assms sb len show ?thesis
      by (auto simp: remove_gno_steps_def same_balance_def dest!: remove_tail_balance
          split: if_splits list.splits)
  qed
qed

lemma gno_interval_balance:
  "add_gno_interval it s e p = (it', p') \<Longrightarrow> same_balance (ivit_list it) p (ivit_list it') p'"
  "remove_gno_interval it s e p = (it', p') \<Longrightarrow> same_balance (ivit_list it) p (ivit_list it') p'"
  by (auto simp: add_gno_interval_def remove_gno_interval_def same_balance_def
      dest!: add_gno_loop_balance remove_gno_steps_balance)

lemma add_gno_intervals_from_balance:
  "add_gno_intervals_from it others p = (it', p') \<Longrightarrow>
     same_balance (ivit_list it) p (ivit_list it') p'"
  by (induction it others p rule: add_gno_intervals_from.induct)
    (auto dest: gno_interval_balance intro: same_balance_trans split: prod.splits)

lemma remove_gno_intervals_from_balance:
  "remove_gno_intervals_from it others p = (it', p') \<Longrightarrow>
     same_balance (ivit_list it) p (ivit_list it') p'"
  by (induction it others p rule: remove_gno_intervals_from.induct)
    (auto dest: gno_interval_balance intro: same_balance_trans split: prod.splits if_splits)

section \<open>Adding an interval is set union\<close>

text \<open>
  What \<open>merge_following\<close> leaves: it drops a block of intervals that the new interval covers and
  stops on the last one it touches.
\<close>

definition absorbs :: "interval list \<Rightarrow> int \<Rightarrow> interval list \<Rightarrow> interval \<Rightarrow> interval list \<Rightarrow> bool" where
  "absorbs cur e dropped iv' rest' \<longleftrightarrow>
     cur = dropped @ iv' # rest' \<and> (\<forall>d \<in> set dropped. iv_end d < iv_start iv') \<and>
     iv_start iv' \<le> e \<and> (\<forall>b \<in> set rest'. e < iv_start b)"

lemma merge_following_absorbs:
  assumes "wf_ivs (iv # rest)" and "iv_start iv \<le> e"
  shows "\<exists>dropped iv' rest' p'. merge_following e (iv # rest) p = (iv' # rest', p')
    \<and> absorbs (iv # rest) e dropped iv' rest'"
  using assms
proof (induction rest arbitrary: iv p)
  case Nil
  then show ?case by (auto simp: absorbs_def intro: exI [of _ "[]"])
next
  case (Cons nxt rest)
  show ?case
  proof (cases "e \<ge> iv_start nxt")
    case True
    with Cons obtain dropped iv' rest' p' where
      "merge_following e (nxt # rest) (put_free_interval p) = (iv' # rest', p')"
      "absorbs (nxt # rest) e dropped iv' rest'"
      by (metis wf_ivs_Cons)
    moreover from this(2) Cons.prems have "absorbs (iv # nxt # rest) e (iv # dropped) iv' rest'"
      by (auto simp: absorbs_def)
    ultimately show ?thesis using True by fastforce
  next
    case False
    with Cons.prems have "absorbs (iv # nxt # rest) e [] iv (nxt # rest)"
      by (auto simp: absorbs_def iv_ok_def)
    with False show ?thesis by fastforce
  qed
qed

lemma absorbs_start:
  assumes "absorbs (iv # rest) e dropped iv' rest'" and "wf_ivs (iv # rest)"
    and "x \<in> set (dropped @ [iv'])"
  shows "iv_start iv \<le> iv_start x"
proof -
  have "x \<in> set (iv # rest)" using assms(1,3) by (auto simp: absorbs_def)
  with assms(2) show ?thesis by (auto simp: iv_ok_def)
qed

lemma absorbs_gnos:
  assumes a: "absorbs (iv # rest) e dropped iv' rest'" and wf: "wf_ivs (iv # rest)"
    and reach: "s \<le> iv_end iv"
  shows "gnos (iv # rest) \<union> {s ..< e} =
    {min (iv_start iv) s ..< max (iv_end iv') e} \<union> gnos rest'" (is "?l = ?new \<union> _")
proof -
  have eq: "gnos (iv # rest) = gnos dropped \<union> {iv_start iv' ..< iv_end iv'} \<union> gnos rest'"
    using a by (simp only: absorbs_def) (simp add: Un_assoc)
  have "gnos dropped \<subseteq> ?new"
  proof
    fix g assume "g \<in> gnos dropped"
    then obtain x where x: "x \<in> set dropped" "iv_start x \<le> g" "g < iv_end x"
      by (auto simp: gnos_iff)
    with absorbs_start [OF a wf, of x] a show "g \<in> ?new" by (fastforce simp: absorbs_def)
  qed
  moreover have "{iv_start iv' ..< iv_end iv'} \<union> {s ..< e} \<subseteq> ?new"
    using absorbs_start [OF a wf, of iv'] by auto
  moreover have "?new \<subseteq> ?l"
  proof
    fix g assume g: "g \<in> ?new"
    show "g \<in> ?l"
    proof (cases "g < s")
      case True
      with g reach show ?thesis by auto
    next
      case False
      with g a eq show ?thesis by (auto simp: absorbs_def)
    qed
  qed
  ultimately show ?thesis unfolding eq by blast
qed

lemma absorbs_wf:
  assumes a: "absorbs (iv # rest) e dropped iv' rest'" and wf: "wf_ivs (pre @ iv # rest)"
    and pre: "\<forall>a \<in> set pre. iv_end a < s" and b: "1 \<le> s" "s < e" "e \<le> GNO_END"
  shows "wf_ivs (pre @ iv'\<lparr>iv_start := min (iv_start iv) s, iv_end := max (iv_end iv') e\<rparr> # rest')"
proof -
  have "iv # rest = dropped @ iv' # rest'" using a by (simp add: absorbs_def)
  with wf have "wf_ivs (pre @ dropped @ iv' # rest')" by simp
  moreover have "\<forall>a \<in> set pre. iv_end a < iv_start iv" "iv_ok iv"
    using wf by (auto simp: wf_ivs_append)
  ultimately show ?thesis
    using a pre b by (auto simp: wf_ivs_append iv_ok_def absorbs_def)
qed

lemma gnos_insert_before:
  assumes "wf_ivs (pre @ cur)" and "\<forall>a \<in> set pre. iv_end a < s" and "1 \<le> s" and "s < e"
    and "e \<le> GNO_END" and "\<forall>b \<in> set cur. e < iv_start b"
  shows "wf_ivs (pre @ \<lparr>iv_start = s, iv_end = e\<rparr> # cur)"
    and "gnos (pre @ \<lparr>iv_start = s, iv_end = e\<rparr> # cur) = gnos (pre @ cur) \<union> {s ..< e}"
  using assms by (auto simp: wf_ivs_append iv_ok_def)

text \<open>
  The contract of \<open>add_gno_interval\<close>: everything before the iterator ends before the new
  interval. Afterwards the list is well formed again, denotes the union, and the iterator
  stands on the interval that contains the new one.
\<close>

definition ivit_on :: "ivit \<Rightarrow> int \<Rightarrow> int \<Rightarrow> bool" where
  "ivit_on it s e \<longleftrightarrow> (\<exists>iv. ivit_get it = Some iv \<and> iv_start iv \<le> s \<and> e \<le> iv_end iv)"

lemma add_gno_loop_correct:
  assumes "wf_ivs (pre @ cur)" and "\<forall>a \<in> set pre. iv_end a < s"
    and "1 \<le> s" and "s < e" and "e \<le> GNO_END"
  shows "\<exists>pre' cur' p'. add_gno_loop (pre, cur) s e p = ((pre', cur'), p') \<and>
    wf_ivs (pre' @ cur') \<and> gnos (pre' @ cur') = gnos (pre @ cur) \<union> {s ..< e} \<and>
    ivit_on (pre', cur') s e"
  using assms
proof (induction cur arbitrary: pre)
  case Nil
  then show ?case using gnos_insert_before [of pre "[]" s e] by (auto simp: ivit_on_def)
next
  case (Cons iv rest)
  consider (skip) "iv_end iv < s" | (before) "s \<le> iv_end iv" "e < iv_start iv"
    | (merge) "s \<le> iv_end iv" "iv_start iv \<le> e" by linarith
  then show ?case
  proof cases
    case skip
    then show ?thesis using Cons.IH [of "pre @ [iv]"] Cons.prems by simp
  next
    case before
    then have "\<forall>b \<in> set (iv # rest). e < iv_start b"
      using Cons.prems(1) by (auto simp: wf_ivs_append iv_ok_def)
    from before gnos_insert_before [OF Cons.prems this] show ?thesis by (simp add: ivit_on_def)
  next
    case merge
    have wf: "wf_ivs (iv # rest)" using Cons.prems(1) by (simp add: wf_ivs_append)
    obtain dropped iv' rest' p' where m: "merge_following e (iv # rest) p = (iv' # rest', p')"
      and a: "absorbs (iv # rest) e dropped iv' rest'"
      using merge_following_absorbs [OF wf merge(2)] by blast
    let ?new = "iv'\<lparr>iv_start := min (iv_start iv) s, iv_end := max (iv_end iv') e\<rparr>"
    have "add_gno_loop (pre, iv # rest) s e p = ((pre, ?new # rest'), p')"
      using m merge by (auto simp: Let_def min_def max_def)
    moreover have "gnos (pre @ ?new # rest') = gnos (pre @ iv # rest) \<union> {s ..< e}"
      using absorbs_gnos [OF a wf merge(1)] by (simp add: Un_assoc)
    ultimately show ?thesis
      using absorbs_wf [OF a Cons.prems] by (auto simp: ivit_on_def)
  qed
qed

lemma add_gno_interval_correct:
  assumes "wf_ivs (pre @ cur)" and "\<forall>a \<in> set pre. iv_end a < s"
    and "1 \<le> s" and "s < e" and "e \<le> GNO_END"
  shows "\<exists>pre' cur' p'. add_gno_interval (pre, cur) s e p = ((pre', cur'), p') \<and>
    wf_ivs (pre' @ cur') \<and> gnos (pre' @ cur') = gnos (pre @ cur) \<union> {s ..< e} \<and>
    ivit_on (pre', cur') s e"
  unfolding add_gno_interval_def using assms by (rule add_gno_loop_correct)

section \<open>Removing an interval is set difference\<close>

lemma skip_before_split:
  "\<exists>sk cur'. skip_before s (pre, cur) = (pre @ sk, cur') \<and> cur = sk @ cur' \<and>
     (\<forall>a \<in> set sk. iv_end a \<le> s) \<and> (\<forall>iv rest. cur' = iv # rest \<longrightarrow> s < iv_end iv)"
proof (induction cur arbitrary: pre)
  case Nil
  then show ?case by simp
next
  case (Cons iv rest)
  show ?case
  proof (cases "iv_end iv > s")
    case True
    then show ?thesis by (intro exI [of _ "[]"] exI [of _ "iv # rest"]) auto
  next
    case False
    obtain sk cur' where "skip_before s (pre @ [iv], rest) = ((pre @ [iv]) @ sk, cur')"
      "rest = sk @ cur'" "\<forall>a \<in> set sk. iv_end a \<le> s"
      "\<forall>iv rest. cur' = iv # rest \<longrightarrow> s < iv_end iv"
      using Cons.IH [of "pre @ [iv]"] by blast
    with False show ?thesis by (intro exI [of _ "iv # sk"] exI [of _ cur']) auto
  qed
qed

lemma drop_covered_split:
  "\<exists>dr cur' p'. drop_covered e cur p = (cur', p') \<and> cur = dr @ cur' \<and>
     (\<forall>d \<in> set dr. iv_end d \<le> e) \<and> (\<forall>iv rest. cur' = iv # rest \<longrightarrow> e < iv_end iv)"
proof (induction cur arbitrary: p)
  case Nil
  then show ?case by simp
next
  case (Cons iv rest)
  show ?case
  proof (cases "iv_end iv \<le> e")
    case True
    obtain dr cur' p' where "drop_covered e rest (put_free_interval p) = (cur', p')"
      "rest = dr @ cur'" "\<forall>d \<in> set dr. iv_end d \<le> e"
      "\<forall>iv rest. cur' = iv # rest \<longrightarrow> e < iv_end iv"
      using Cons.IH by blast
    with True show ?thesis by (intro exI [of _ "iv # dr"] exI [of _ cur'] exI [of _ p']) auto
  next
    case False
    then show ?thesis by (intro exI [of _ "[]"] exI [of _ "iv # rest"] exI [of _ p]) auto
  qed
qed

text \<open>
  The result of a removal through an iterator: well formed, the set difference, and nothing
  before the iterator reaches past the start of the removed interval.
\<close>

definition removed :: "ivit \<Rightarrow> interval list \<Rightarrow> int \<Rightarrow> int \<Rightarrow> bool" where
  "removed it ivs s e \<longleftrightarrow>
     wf_ivs (ivit_list it) \<and> gnos (ivit_list it) = gnos ivs - {s ..< e} \<and>
     (\<forall>a \<in> set (fst it). iv_end a \<le> s)"

lemma gnos_minus_before:
  "\<forall>a \<in> set ivs. iv_end a \<le> s \<Longrightarrow> gnos ivs - {s ..< e} = gnos ivs"
  by (force simp: gnos_iff)

lemma gnos_minus_after:
  "\<forall>a \<in> set ivs. e \<le> iv_start a \<Longrightarrow> gnos ivs - {s ..< e} = gnos ivs"
  by (force simp: gnos_iff)

lemma gnos_minus_covered:
  "\<forall>a \<in> set ivs. s \<le> iv_start a \<and> iv_end a \<le> e \<Longrightarrow> gnos ivs - {s ..< e} = {}"
  by (force simp: gnos_iff)

lemma remove_tail_correct:
  assumes wf: "wf_ivs (pre @ cur)" and pre: "\<forall>a \<in> set pre. iv_end a \<le> s"
    and cur: "\<forall>a \<in> set cur. s \<le> iv_start a" and "s < e"
  shows "removed (fst (remove_tail e (pre, cur) p)) (pre @ cur) s e"
proof -
  obtain dr cur' p' where d: "drop_covered e cur p = (cur', p')" "cur = dr @ cur'"
      "\<forall>d \<in> set dr. iv_end d \<le> e" "\<forall>iv rest. cur' = iv # rest \<longrightarrow> e < iv_end iv"
    using drop_covered_split [of e cur p] by blast
  have gone: "gnos dr - {s ..< e} = {}"
    using cur d(2,3) by (intro gnos_minus_covered) auto
  note keep = gnos_minus_before [OF pre, of e]
  show ?thesis
  proof (cases cur')
    case Nil
    then have "fst (remove_tail e (pre, cur) p) = (pre, [])" using d(1) by (simp add: remove_tail_def)
    moreover have "gnos (pre @ cur) - {s ..< e} = gnos pre"
      by (simp only: gnos_simps d(2) Nil Un_Diff gone keep Un_empty_right)
    ultimately show ?thesis using wf pre by (simp add: removed_def wf_ivs_append)
  next
    case (Cons iv rest)
    have e_iv: "e < iv_end iv" and s_iv: "s \<le> iv_start iv" using d(2,4) Cons cur by simp_all
    have wf2: "wf_ivs (pre @ dr @ iv # rest)" using wf d(2) Cons by simp
    then have "\<forall>b \<in> set rest. e \<le> iv_start b"
      using e_iv by (auto simp: wf_ivs_append)
    then have after: "gnos rest - {s ..< e} = gnos rest" by (rule gnos_minus_after)
    let ?iv = "if iv_start iv < e then iv\<lparr>iv_start := e\<rparr> else iv"
    have "{iv_start iv ..< iv_end iv} - {s ..< e} = {iv_start ?iv ..< iv_end ?iv}"
      using e_iv s_iv \<open>s < e\<close> by auto
    then have "gnos (pre @ ?iv # rest) = gnos (pre @ cur) - {s ..< e}"
      by (simp only: gnos_simps d(2) Cons Un_Diff gone after keep Un_empty_left)
    moreover have "wf_ivs (pre @ ?iv # rest)"
      using wf2 e_iv pre \<open>s < e\<close> by (auto simp: wf_ivs_append iv_ok_def)
    ultimately show ?thesis using d(1) Cons pre by (simp add: remove_tail_def removed_def)
  qed
qed

lemma remove_gno_steps_correct:
  assumes wf: "wf_ivs (pre @ cur)" and pre: "\<forall>a \<in> set pre. iv_end a \<le> s" and "s < e"
  shows "removed (fst (remove_gno_steps (pre, cur) s e p)) (pre @ cur) s e"
proof -
  obtain sk cur' where k: "skip_before s (pre, cur) = (pre @ sk, cur')" "cur = sk @ cur'"
      "\<forall>a \<in> set sk. iv_end a \<le> s" "\<forall>iv rest. cur' = iv # rest \<longrightarrow> s < iv_end iv"
    using skip_before_split [of s pre cur] by blast
  have before: "\<forall>a \<in> set (pre @ sk). iv_end a \<le> s" using pre k(3) by auto
  note keep = gnos_minus_before [OF before, of e]
  show ?thesis
  proof (cases cur')
    case Nil
    with k(1) have "fst (remove_gno_steps (pre, cur) s e p) = (pre @ sk, [])"
      by (simp add: remove_gno_steps_def)
    with Nil k(2) wf before keep show ?thesis by (simp add: removed_def)
  next
    case (Cons iv rest)
    have s_iv: "s < iv_end iv" using k(4) Cons by simp
    have wf2: "wf_ivs ((pre @ sk) @ iv # rest)" using wf k(2) Cons by simp
    then have later: "\<forall>b \<in> set rest. s \<le> iv_start b"
      using s_iv by (auto simp: wf_ivs_append)
    have eq: "gnos (pre @ cur) = gnos (pre @ sk) \<union> ({iv_start iv ..< iv_end iv} \<union> gnos rest)"
      using k(2) Cons by (simp add: Un_assoc)
    consider (split) "iv_start iv < s" "e < iv_end iv" | (cut) "iv_start iv < s" "iv_end iv \<le> e"
      | (cover) "s \<le> iv_start iv" by linarith
    then show ?thesis
    proof cases
      case split
      let ?l = "iv\<lparr>iv_end := s\<rparr>" and ?r = "\<lparr>iv_start = e, iv_end = iv_end iv\<rparr>"
      have "\<forall>b \<in> set rest. e \<le> iv_start b"
        using wf2 split by (auto simp: wf_ivs_append)
      note rest = gnos_minus_after [OF this, of s]
      have "{iv_start iv ..< iv_end iv} - {s ..< e} = {iv_start iv ..< s} \<union> {e ..< iv_end iv}"
        using split \<open>s < e\<close> by auto
      then have "gnos (pre @ cur) - {s ..< e} = gnos (((pre @ sk) @ [?l]) @ ?r # rest)"
        unfolding eq Un_Diff rest keep by (simp add: Un_assoc)
      moreover have "wf_ivs (((pre @ sk) @ [?l]) @ ?r # rest)"
        using wf2 split \<open>s < e\<close> by (auto simp: wf_ivs_append iv_ok_def)
      moreover have "fst (remove_gno_steps (pre, cur) s e p) = ((pre @ sk) @ [?l], ?r # rest)"
        using split k(1) Cons by (simp add: remove_gno_steps_def)
      ultimately show ?thesis using before by (simp add: removed_def)
    next
      case cut
      let ?pre = "(pre @ sk) @ [iv\<lparr>iv_end := s\<rparr>]"
      have wfp: "wf_ivs (?pre @ rest)"
        using wf2 cut s_iv by (auto simp: wf_ivs_append iv_ok_def)
      have bp: "\<forall>a \<in> set ?pre. iv_end a \<le> s" using before by simp
      have "{iv_start iv ..< iv_end iv} - {s ..< e} = {iv_start iv ..< s} - {s ..< e}"
        using cut s_iv by auto
      then have eq2: "gnos (pre @ cur) - {s ..< e} = gnos (?pre @ rest) - {s ..< e}"
        unfolding eq Un_Diff by (simp add: Un_Diff Un_assoc)
      have "removed (fst (remove_gno_steps (pre, cur) s e p)) (?pre @ rest) s e"
      proof (cases rest)
        case Nil
        then have "fst (remove_gno_steps (pre, cur) s e p) = (?pre, [])"
          using cut k(1) Cons by (simp add: remove_gno_steps_def)
        then show ?thesis
          using Nil wfp bp gnos_minus_before [OF bp, of e] by (simp add: removed_def)
      next
        case (Cons nxt rest2)
        then have "remove_gno_steps (pre, cur) s e p = remove_tail e (?pre, rest) p"
          using cut k(1) \<open>cur' = iv # rest\<close> by (simp add: remove_gno_steps_def)
        then show ?thesis
          using remove_tail_correct [OF wfp bp later \<open>s < e\<close>, of p] by simp
      qed
      then show ?thesis unfolding removed_def eq2 .
    next
      case cover
      with later Cons have "\<forall>a \<in> set cur'. s \<le> iv_start a" by auto
      from remove_tail_correct [OF _ before this \<open>s < e\<close>, of p] wf2 cover k Cons
      show ?thesis by (simp add: remove_gno_steps_def)
    qed
  qed
qed

lemma remove_gno_interval_correct:
  assumes "wf_ivs (pre @ cur)" and "\<forall>a \<in> set pre. iv_end a \<le> s" and "s < e"
  shows "removed (fst (remove_gno_interval (pre, cur) s e p)) (pre @ cur) s e"
  unfolding remove_gno_interval_def using assms by (rule remove_gno_steps_correct)

section \<open>Whole lists: union and difference\<close>

lemma ivit_on_prefix:
  assumes "wf_ivs (pre @ cur)" and "ivit_on (pre, cur) s e" and "s < e" and "e < s'"
  shows "\<forall>a \<in> set pre. iv_end a < s'"
proof -
  from assms(2) obtain iv rest where "cur = iv # rest" "iv_start iv \<le> s"
    by (cases cur) (auto simp: ivit_on_def)
  with assms(1,3,4) show ?thesis by (force simp: wf_ivs_append)
qed

lemma add_gno_intervals_from_correct:
  assumes "wf_ivs (pre @ cur)" and "wf_ivs others"
    and "\<And>iv. iv \<in> set others \<Longrightarrow> \<forall>a \<in> set pre. iv_end a < iv_start iv"
  shows "\<exists>it' p'. add_gno_intervals_from (pre, cur) others p = (it', p') \<and>
    wf_ivs (ivit_list it') \<and> gnos (ivit_list it') = gnos (pre @ cur) \<union> gnos others"
  using assms
proof (induction others arbitrary: pre cur p)
  case Nil
  then show ?case by simp
next
  case (Cons iv rest)
  have ok: "1 \<le> iv_start iv" "iv_start iv < iv_end iv" "iv_end iv \<le> GNO_END"
    using Cons.prems(2) by (simp_all add: iv_ok_def)
  obtain pre' cur' p' where step:
      "add_gno_interval (pre, cur) (iv_start iv) (iv_end iv) p = ((pre', cur'), p')"
      "wf_ivs (pre' @ cur')" "gnos (pre' @ cur') = gnos (pre @ cur) \<union> {iv_start iv ..< iv_end iv}"
      "ivit_on (pre', cur') (iv_start iv) (iv_end iv)"
    using add_gno_interval_correct [OF Cons.prems(1) _ ok, of p] Cons.prems(3) [of iv] by auto
  have "\<forall>a \<in> set pre'. iv_end a < iv_start b" if "b \<in> set rest" for b
    using ivit_on_prefix [OF step(2,4) ok(2)] Cons.prems(2) that by simp
  with Cons.IH [OF step(2), of p'] Cons.prems(2) step(1,3) show ?case
    by (auto simp: Un_assoc)
qed

lemma remove_gno_intervals_from_correct:
  assumes "wf_ivs (pre @ cur)" and "wf_ivs others"
    and "\<And>iv. iv \<in> set others \<Longrightarrow> \<forall>a \<in> set pre. iv_end a \<le> iv_start iv"
  shows "wf_ivs (ivit_list (fst (remove_gno_intervals_from (pre, cur) others p))) \<and>
    gnos (ivit_list (fst (remove_gno_intervals_from (pre, cur) others p))) =
      gnos (pre @ cur) - gnos others"
  using assms
proof (induction others arbitrary: pre cur p)
  case Nil
  then show ?case by simp
next
  case (Cons iv rest)
  have lt: "iv_start iv < iv_end iv" using Cons.prems(2) by (simp add: iv_ok_def)
  obtain pre' cur' p' where step:
      "remove_gno_interval (pre, cur) (iv_start iv) (iv_end iv) p = ((pre', cur'), p')"
    by (metis surj_pair)
  with remove_gno_interval_correct [OF Cons.prems(1) Cons.prems(3) lt, of p]
  have r: "wf_ivs (pre' @ cur')" "\<forall>a \<in> set pre'. iv_end a \<le> iv_start iv"
      "gnos (pre' @ cur') = gnos (pre @ cur) - {iv_start iv ..< iv_end iv}"
    by (simp_all add: removed_def)
  have later: "\<forall>a \<in> set pre'. iv_end a \<le> iv_start b" if "b \<in> set rest" for b
    using r(2) lt Cons.prems(2) that by force
  have "wf_ivs rest" using Cons.prems(2) by simp
  note IH = Cons.IH [OF _ this]
  show ?case
  proof (cases cur')
    case Nil
    have "gnos pre' \<inter> gnos rest = {}"
      using later by (force simp: gnos_iff)
    then have "gnos pre' - gnos rest = gnos pre'" by (rule Diff_triv)
    with Nil step r show ?thesis by (simp add: Diff_Un_Diff)
  next
    case (Cons c cs)
    then have "remove_gno_intervals_from (pre, cur) (iv # rest) p =
        remove_gno_intervals_from (pre', cur') rest p'"
      using step by simp
    with IH [OF r(1) later, of p'] r(3) show ?thesis
      by (simp add: Diff_Un_Diff)
  qed
qed

section \<open>Queries\<close>

lemma gnos_after:
  "\<forall>b \<in> set ivs. g < iv_start b \<Longrightarrow> g \<notin> gnos ivs"
  by (force simp: gnos_iff)

lemma contains_gno_iff: "wf_ivs ivs \<Longrightarrow> contains_gno ivs g \<longleftrightarrow> g \<in> gnos ivs"
proof (induction ivs)
  case Nil
  then show ?case by simp
next
  case (Cons iv rest)
  then have "g < iv_start iv \<Longrightarrow> g \<notin> gnos rest"
    by (intro gnos_after) (force simp: iv_ok_def)
  with Cons show ?case by auto
qed

lemma gnos_Nil_iff: "wf_ivs ivs \<Longrightarrow> gnos ivs = {} \<longleftrightarrow> ivs = []"
  by (cases ivs) (auto simp: iv_ok_def)

lemma finite_gnos [simp]: "finite (gnos ivs)"
  by (simp add: gnos_def iv_set_def)

lemma last_gno_Max: "wf_ivs ivs \<Longrightarrow> ivs \<noteq> [] \<Longrightarrow> last_gno g ivs = Max (gnos ivs)"
proof (induction ivs arbitrary: g)
  case Nil
  then show ?case by simp
next
  case (Cons iv rest)
  show ?case
  proof (cases "rest = []")
    case True
    have "Max {iv_start iv ..< iv_end iv} = iv_end iv - 1"
      using Cons.prems by (intro Max_eqI) (auto simp: iv_ok_def)
    with True show ?thesis by simp
  next
    case False
    with Cons.prems have ne: "gnos rest \<noteq> {}" "{iv_start iv ..< iv_end iv} \<noteq> {}"
      by (auto simp: gnos_Nil_iff iv_ok_def)
    have "\<forall>g \<in> gnos rest. iv_end iv < g" using Cons.prems by (force simp: gnos_iff)
    then have "iv_end iv < Max (gnos rest)" using ne by simp
    then have "Max {iv_start iv ..< iv_end iv} \<le> Max (gnos rest)"
      using ne by (intro Max.boundedI) auto
    with ne have "Max (gnos (iv # rest)) = Max (gnos rest)" by (simp add: Max_Un max_def)
    with False Cons show ?thesis by simp
  qed
qed

lemma is_interval_subset_correct:
  "wf_ivs subs \<Longrightarrow> wf_ivs supers \<Longrightarrow> subs \<noteq> []
     \<Longrightarrow> is_interval_subset subs supers = Some (gnos subs \<subseteq> gnos supers)"
proof (induction subs supers rule: is_interval_subset.induct)
  case (1 sub)
  then show ?case by (simp add: gnos_Nil_iff)
next
  case (2 super supers)
  then show ?case by simp
next
  case (3 sub subs super supers)
  have ok: "iv_start sub < iv_end sub" "iv_start super < iv_end super"
    using "3.prems" by (simp_all add: iv_ok_def)
  consider (skip) "iv_start sub > iv_end super" | (low) "iv_start sub < iv_start super"
    | (high) "iv_start sub \<le> iv_end super" "iv_end sub > iv_end super"
    | (cover) "iv_start super \<le> iv_start sub" "iv_end sub \<le> iv_end super" by linarith
  then show ?case
  proof cases
    case skip
    then have "gnos (sub # subs) \<inter> {iv_start super ..< iv_end super} = {}"
      using "3.prems"(1) ok by (force simp: gnos_iff)
    then have eq: "gnos (sub # subs) \<subseteq> gnos (super # supers) \<longleftrightarrow> gnos (sub # subs) \<subseteq> gnos supers"
      by auto
    show ?thesis
    proof (cases "supers = []")
      case True
      with skip eq ok show ?thesis by auto
    next
      case False
      then have "is_interval_subset (sub # subs) (super # supers) =
          is_interval_subset (sub # subs) supers" using skip by simp
      also have "\<dots> = Some (gnos (sub # subs) \<subseteq> gnos supers)"
        using "3.IH"(1) [OF skip False] "3.prems" by simp
      finally show ?thesis using eq by simp
    qed
  next
    case low
    then have "iv_start sub \<notin> gnos (super # supers)"
      using "3.prems"(2) ok by (intro gnos_after) force
    moreover have "iv_start sub \<in> gnos (sub # subs)" using ok by simp
    ultimately show ?thesis using low ok by auto
  next
    case high
    then have "iv_end super \<notin> gnos (super # supers)"
      using "3.prems"(2) gnos_after [of supers "iv_end super"] by simp
    moreover have "iv_end super \<in> gnos (sub # subs)" using high by simp
    ultimately show ?thesis using high by auto
  next
    case cover
    then have sub: "{iv_start sub ..< iv_end sub} \<subseteq> gnos (super # supers)" by auto
    show ?thesis
    proof (cases "subs = []")
      case True
      with cover sub ok show ?thesis by simp
    next
      case False
      have "\<not> iv_start sub > iv_end super" using cover ok by linarith
      with cover False ok have "is_interval_subset (sub # subs) (super # supers) =
          is_interval_subset subs (super # supers)" by simp
      also have "\<dots> = Some (gnos subs \<subseteq> gnos (super # supers))"
        using "3.IH"(2) \<open>\<not> iv_start sub > iv_end super\<close> cover False "3.prems" by simp
      finally show ?thesis using sub by simp
    qed
  qed
qed

lemma is_interval_intersection_correct:
  "wf_ivs ivs1 \<Longrightarrow> wf_ivs ivs2 \<Longrightarrow> ivs1 \<noteq> []
     \<Longrightarrow> is_interval_intersection_nonempty ivs1 ivs2 = Some (gnos ivs1 \<inter> gnos ivs2 \<noteq> {})"
proof (induction ivs1 ivs2 rule: is_interval_intersection_nonempty.induct)
  case (1 ivs1)
  then show ?case by simp
next
  case (2 iv2 rest2)
  then show ?case by simp
next
  case (3 iv1 rest1 iv2 rest2)
  have ok: "iv_start iv1 < iv_end iv1" "iv_start iv2 < iv_end iv2"
    using "3.prems" by (simp_all add: iv_ok_def)
  consider (skip) "iv_end iv2 \<le> iv_start iv1"
    | (meet) "iv_start iv1 < iv_end iv2" "iv_start iv2 < iv_end iv1"
    | (ahead) "iv_start iv1 < iv_end iv2" "iv_end iv1 \<le> iv_start iv2" by linarith
  then show ?case
  proof cases
    case skip
    then have "gnos (iv1 # rest1) \<inter> {iv_start iv2 ..< iv_end iv2} = {}"
      using "3.prems"(1) ok by (force simp: gnos_iff)
    then have eq: "gnos (iv1 # rest1) \<inter> gnos (iv2 # rest2) = gnos (iv1 # rest1) \<inter> gnos rest2"
      by auto
    with 3 skip show ?thesis by (cases "rest2 = []") simp_all
  next
    case meet
    then have "max (iv_start iv1) (iv_start iv2) \<in> gnos (iv1 # rest1) \<inter> gnos (iv2 # rest2)"
      using ok by auto
    then have "gnos (iv1 # rest1) \<inter> gnos (iv2 # rest2) \<noteq> {}" by blast
    moreover have "is_interval_intersection_nonempty (iv1 # rest1) (iv2 # rest2) = Some True"
      using meet by simp
    ultimately show ?thesis by simp
  next
    case ahead
    then have "{iv_start iv1 ..< iv_end iv1} \<inter> gnos (iv2 # rest2) = {}"
      using "3.prems"(2) ok by (force simp: gnos_iff)
    then have eq: "gnos (iv1 # rest1) \<inter> gnos (iv2 # rest2) = gnos rest1 \<inter> gnos (iv2 # rest2)"
      by auto
    with 3 ahead show ?thesis by (cases "rest1 = []") simp_all
  qed
qed

text \<open>
  A well-formed list is determined by the set it denotes, so comparing interval by interval
  decides set equality.
\<close>

lemma gnos_hd_least: "wf_ivs (iv # ivs) \<Longrightarrow> Least (\<lambda>g. g \<in> gnos (iv # ivs)) = iv_start iv"
  by (intro Least_equality) (force simp: iv_ok_def gnos_iff)+

lemma wf_ivs_unique_hd:
  assumes "wf_ivs (a # as)" and "wf_ivs (b # bs)" and "gnos (a # as) = gnos (b # bs)"
  shows "iv_start a = iv_start b" and "iv_end a = iv_end b"
proof -
  show st: "iv_start a = iv_start b"
    using gnos_hd_least [OF assms(1)] gnos_hd_least [OF assms(2)] unfolding assms(3) by metis
  have gap: "iv_end x \<notin> gnos (x # xs)" if "wf_ivs (x # xs)" for x xs
    using that gnos_after [of xs "iv_end x"] by simp
  have "iv_end y \<le> iv_end x" if "wf_ivs (x # xs)" "wf_ivs (y # ys)"
      "gnos (x # xs) = gnos (y # ys)" "iv_start x = iv_start y" for x y :: interval and xs ys
  proof (rule ccontr)
    assume "\<not> iv_end y \<le> iv_end x"
    then have "iv_end x \<in> gnos (y # ys)" using that(1,4) by (simp add: iv_ok_def)
    with gap [OF that(1)] that(3) show False by metis
  qed
  from this [OF assms st] this [OF assms(2,1) assms(3) [symmetric] st [symmetric]]
  show "iv_end a = iv_end b" by simp
qed

lemma wf_ivs_unique: "wf_ivs xs \<Longrightarrow> wf_ivs ys \<Longrightarrow> gnos xs = gnos ys \<Longrightarrow> xs = ys"
proof (induction xs arbitrary: ys)
  case Nil
  then show ?case using gnos_Nil_iff [of ys] by simp
next
  case (Cons a as)
  then obtain b bs where ys: "ys = b # bs"
    by (metis gnos_Nil_iff list.exhaust list.distinct(1))
  note hd = wf_ivs_unique_hd [OF Cons.prems(1) Cons.prems(2,3) [unfolded ys]]
  have "gnos zs = gnos (z # zs) - {iv_start z ..< iv_end z}" if "wf_ivs (z # zs)"
    for z :: interval and zs
  proof -
    have "\<forall>g \<in> gnos zs. iv_end z < g" using that by (force simp: gnos_iff)
    then show ?thesis by auto
  qed
  with Cons.prems ys hd have "gnos as = gnos bs" by metis
  with Cons ys hd show ?case by simp
qed

lemma intervals_equal_eq: "intervals_equal xs ys \<longleftrightarrow> xs = ys"
  by (induction xs ys rule: intervals_equal.induct) auto

lemma intervals_equal_correct:
  "wf_ivs xs \<Longrightarrow> wf_ivs ys \<Longrightarrow> intervals_equal xs ys \<longleftrightarrow> gnos xs = gnos ys"
  using wf_ivs_unique by (auto simp: intervals_equal_eq)

end
