(* ===== verification/Uuid.thy ===== *)
theory Uuid
  imports Prelude
begin

text \<open>
  The binary and textual forms of a server identifier: \<^verbatim>\<open>libbinlogevents/src/uuid.cpp\<close>. A UUID
  is its sixteen bytes; the text is read through a pointer, so the parser returns the bytes and
  the text that follows.
\<close>

section \<open>Definitions\<close>

type_synonym sid = "byte list"

definition BYTE_LENGTH :: nat where
  "BYTE_LENGTH = 16"

definition TEXT_LENGTH :: nat where
  "TEXT_LENGTH = 36"

definition bytes_per_section :: "nat list" where
  "bytes_per_section = [4, 2, 2, 2, 6]"

text \<open>The 256-entry table, by its three runs of entries that are not \<open>-1\<close>.\<close>

definition hex_to_byte :: "nat \<Rightarrow> int" where
  "hex_to_byte c =
     (if 48 \<le> c \<and> c \<le> 57 then int c - 48
      else if 65 \<le> c \<and> c \<le> 70 then int c - 55
      else if 97 \<le> c \<and> c \<le> 102 then int c - 87
      else -1)"

definition byte_to_hex :: "nat \<Rightarrow> char" where
  "byte_to_hex n = ''0123456789abcdef'' ! n"

text \<open>The inner loop of \<open>parse\<close>: \<open>n\<close> bytes, two digits each.\<close>

fun parse_bytes :: "nat \<Rightarrow> string \<Rightarrow> (byte list \<times> string) option" where
  "parse_bytes 0 ss = Some ([], ss)"
| "parse_bytes (Suc n) ss =
     (let hi = hex_to_byte (cpeek ss) in
      if hi = -1 then None
      else let lo = hex_to_byte (cpeek (tl ss)) in
      if lo = -1 then None
      else (case parse_bytes n (tl (tl ss)) of
              None \<Rightarrow> None
            | Some (bs, rest) \<Rightarrow> Some (word_of_int (hi * 16 + lo) # bs, rest)))"

text \<open>The outer loop; \<open>i\<close> is the index of the section.\<close>

fun parse_sections :: "nat \<Rightarrow> nat list \<Rightarrow> string \<Rightarrow> (byte list \<times> string) option" where
  "parse_sections i [] ss = Some ([], ss)"
| "parse_sections i (n # ns) ss =
     (if i > 0 \<and> cpeek ss \<noteq> of_char (CHR ''-'') then None
      else case parse_bytes n (if i > 0 then tl ss else ss) of
             None \<Rightarrow> None
           | Some (bs, ss') \<Rightarrow>
               (case parse_sections (Suc i) ns ss' of
                  None \<Rightarrow> None
                | Some (bs', rest) \<Rightarrow> Some (bs @ bs', rest)))"

definition uuid_parse :: "string \<Rightarrow> (sid \<times> string) option" where
  "uuid_parse s = parse_sections 0 bytes_per_section s"

fun valid_bytes :: "nat \<Rightarrow> string \<Rightarrow> string option" where
  "valid_bytes 0 ss = Some ss"
| "valid_bytes (Suc n) ss =
     (if hex_to_byte (cpeek ss) = -1 then None
      else if hex_to_byte (cpeek (tl ss)) = -1 then None
      else valid_bytes n (tl (tl ss)))"

fun valid_sections :: "nat \<Rightarrow> nat list \<Rightarrow> string \<Rightarrow> bool" where
  "valid_sections i [] ss = True"
| "valid_sections i (n # ns) ss =
     (if i > 0 \<and> cpeek ss \<noteq> of_char (CHR ''-'') then False
      else case valid_bytes n (if i > 0 then tl ss else ss) of
             None \<Rightarrow> False
           | Some ss' \<Rightarrow> valid_sections (Suc i) ns ss')"

definition uuid_is_valid :: "string \<Rightarrow> bool" where
  "uuid_is_valid s = valid_sections 0 bytes_per_section s"

definition print_byte :: "byte \<Rightarrow> string" where
  "print_byte b = [byte_to_hex (unat (drop_bit 4 b)), byte_to_hex (unat (take_bit 4 b))]"

fun print_sections :: "nat \<Rightarrow> nat list \<Rightarrow> byte list \<Rightarrow> string" where
  "print_sections i [] u = []"
| "print_sections i (n # ns) u =
     (if i > 0 then [CHR ''-''] else []) @ concat (map print_byte (take n u)) @
     print_sections (Suc i) ns (drop n u)"

definition uuid_to_string :: "sid \<Rightarrow> string" where
  "uuid_to_string u = print_sections 0 bytes_per_section u"

section \<open>Digits\<close>

lemma hex_to_byte_range: "hex_to_byte c \<noteq> -1 \<Longrightarrow> 0 \<le> hex_to_byte c \<and> hex_to_byte c < 16"
  by (auto simp: hex_to_byte_def split: if_splits)

lemma hex_to_byte_0 [simp]: "hex_to_byte 0 = -1"
  by (simp add: hex_to_byte_def)

lemma hex_digits:
  "list_all (\<lambda>n. hex_to_byte (of_char (byte_to_hex n)) = int n)
     [0, 1, 2, 3, 4, 5, 6, 7, 8, 9, 10, 11, 12, 13, 14, 15]"
  by (simp add: hex_to_byte_def byte_to_hex_def)

lemma nibble_cases:
  "(n :: nat) < 16 \<Longrightarrow> n \<in> set [0, 1, 2, 3, 4, 5, 6, 7, 8, 9, 10, 11, 12, 13, 14, 15]"
  by simp presburger

lemma hex_to_byte_to_hex: "n < 16 \<Longrightarrow> hex_to_byte (of_char (byte_to_hex n)) = int n"
  using hex_digits nibble_cases unfolding list_all_iff by blast

lemma unat_high_nibble: "unat (drop_bit 4 (b :: byte)) = unat b div 16"
  by (simp add: drop_bit_eq_div unat_div)

lemma unat_low_nibble: "unat (take_bit 4 (b :: byte)) = unat b mod 16"
  by (simp add: take_bit_eq_mod unat_mod)

lemma unat_byte_less: "unat (b :: byte) < 256"
  using unsigned_less [of b, where ?'a = nat] by simp

section \<open>Printing and parsing\<close>

lemma length_print_byte [simp]: "length (print_byte b) = 2"
  by (simp add: print_byte_def)

lemma parse_bytes_print:
  "parse_bytes (length bs) (concat (map print_byte bs) @ rest) = Some (bs, rest)"
proof (induction bs)
  case Nil
  then show ?case by simp
next
  case (Cons b bs)
  have "unat b div 16 < 16" "unat b mod 16 < 16" using unat_byte_less [of b] by auto
  moreover have "word_of_int (int (unat b div 16) * 16 + int (unat b mod 16)) = b"
  proof -
    have "int (unat b div 16) * 16 + int (unat b mod 16) = int (unat b)"
      by (metis div_mult_mod_eq of_nat_add of_nat_mult of_nat_numeral)
    then show ?thesis by simp
  qed
  ultimately show ?case
    using Cons by (simp add: print_byte_def unat_high_nibble unat_low_nibble hex_to_byte_to_hex)
qed

lemma parse_sections_print:
  "sum_list ns = length u \<Longrightarrow> parse_sections i ns (print_sections i ns u @ rest) = Some (u, rest)"
proof (induction i ns u rule: print_sections.induct)
  case (1 i u)
  then show ?case by simp
next
  case (2 i n ns u)
  have len: "length (take n u) = n" "sum_list ns = length (drop n u)" using "2.prems" by auto
  have "parse_bytes n (concat (map print_byte (take n u)) @ r) = Some (take n u, r)" for r
    using parse_bytes_print [of "take n u" r] len(1) by simp
  with 2 len show ?case by (auto simp: case_prod_beta)
qed

lemma uuid_roundtrip:
  "length u = BYTE_LENGTH \<Longrightarrow> uuid_parse (uuid_to_string u @ rest) = Some (u, rest)"
  unfolding uuid_parse_def uuid_to_string_def
  by (rule parse_sections_print) (simp add: bytes_per_section_def BYTE_LENGTH_def)

lemma parse_bytes_length: "parse_bytes n ss = Some (bs, rest) \<Longrightarrow> length bs = n"
  by (induction n arbitrary: ss bs) (auto simp: Let_def split: if_splits option.splits)

lemma parse_sections_length: "parse_sections i ns ss = Some (bs, rest) \<Longrightarrow> length bs = sum_list ns"
  by (induction ns arbitrary: i ss bs)
    (auto simp: parse_bytes_length split: if_splits option.splits)

lemma uuid_parse_length: "uuid_parse s = Some (u, rest) \<Longrightarrow> length u = BYTE_LENGTH"
  unfolding uuid_parse_def
  by (drule parse_sections_length) (simp add: bytes_per_section_def BYTE_LENGTH_def)

text \<open>The text of a UUID that parsed: exactly 36 characters are consumed.\<close>

lemma parse_bytes_consumes:
  "parse_bytes n ss = Some (bs, rest) \<Longrightarrow> rest = drop (2 * n) ss \<and> 2 * n \<le> length ss"
proof (induction n arbitrary: ss bs)
  case 0
  then show ?case by simp
next
  case (Suc n)
  then have "hex_to_byte (cpeek ss) \<noteq> -1" "hex_to_byte (cpeek (tl ss)) \<noteq> -1"
    by (auto simp: Let_def split: if_splits)
  then have "cpeek ss \<noteq> 0" "cpeek (tl ss) \<noteq> 0" by (metis hex_to_byte_0)+
  then obtain a b t where "ss = a # b # t" by (metis cpeek_nonzero list.exhaust list.sel(3))
  with Suc show ?case by (auto simp: Let_def split: if_splits option.splits)
qed

lemma parse_sections_consumes:
  "parse_sections i ns ss = Some (bs, rest) \<Longrightarrow>
     rest = drop (2 * sum_list ns + (if i = 0 then length ns - 1 else length ns)) ss"
proof (induction i ns ss arbitrary: bs rest rule: parse_sections.induct)
  case (1 i ss)
  then show ?case by simp
next
  case (2 i n ns ss)
  let ?ss = "if i > 0 then tl ss else ss"
  from "2.prems" obtain b1 s1 b2 where p: "parse_bytes n ?ss = Some (b1, s1)"
      "parse_sections (Suc i) ns s1 = Some (b2, rest)" "\<not> (i > 0 \<and> cpeek ss \<noteq> of_char (CHR ''-''))"
    by (auto split: if_splits option.splits)
  have "rest = drop (2 * sum_list ns + length ns) s1" using "2.IH" [OF p(3,1) _ p(2)] by simp
  moreover have "s1 = drop (2 * n) ?ss" using parse_bytes_consumes [OF p(1)] by simp
  ultimately show ?case by (auto simp: drop_Suc [symmetric] add_ac)
qed

lemma uuid_parse_rest: "uuid_parse s = Some (u, rest) \<Longrightarrow> rest = drop TEXT_LENGTH s"
  unfolding uuid_parse_def
  by (drule parse_sections_consumes) (simp add: bytes_per_section_def TEXT_LENGTH_def)

section \<open>Validation agrees with parsing\<close>

lemma valid_bytes_iff: "valid_bytes n ss = map_option snd (parse_bytes n ss)"
  by (induction n arbitrary: ss) (auto simp: Let_def split: option.splits)

lemma valid_sections_iff: "valid_sections i ns ss \<longleftrightarrow> parse_sections i ns ss \<noteq> None"
  by (induction i ns ss rule: valid_sections.induct)
    (auto simp: valid_bytes_iff split: option.splits)

lemma uuid_is_valid_iff: "uuid_is_valid s \<longleftrightarrow> uuid_parse s \<noteq> None"
  by (simp add: uuid_is_valid_def uuid_parse_def valid_sections_iff)

end
