(* ===== verification/Sid_Map.thy ===== *)
theory Sid_Map
  imports Uuid
begin

text \<open>
  \<open>Sid_map\<close> (\<^verbatim>\<open>sql/rpl_gtid_sid_map.cc\<close>, \<^verbatim>\<open>sql/rpl_gtid.h\<close>): the numbering of server
  identifiers. The array \<open>_sidno_to_sid\<close> and the hash \<open>_sid_to_sidno\<close> share their nodes; a node is
  represented by the SID it holds in the array and by the SIDNO it holds in the hash. The array
  \<open>_sorted\<close> lists the SIDNOs in the order of their SIDs. Allocation failures are arguments.
\<close>

section \<open>Definitions\<close>

record sid_map =
  sidno_to_sids :: "sid list"
  sid_hash :: "sid \<rightharpoonup> nat"
  sorted_sidnos :: "nat list"

definition sid_map_init :: sid_map where
  "sid_map_init = \<lparr>sidno_to_sids = [], sid_hash = Map.empty, sorted_sidnos = []\<rparr>"

definition sm_max_sidno :: "sid_map \<Rightarrow> nat" where
  "sm_max_sidno m = length (sidno_to_sids m)"

definition sidno_to_sid :: "sid_map \<Rightarrow> nat \<Rightarrow> sid" where
  "sidno_to_sid m sidno = sidno_to_sids m ! (sidno - 1)"

definition sid_to_sidno :: "sid_map \<Rightarrow> sid \<Rightarrow> nat" where
  "sid_to_sidno m sid = (case sid_hash m sid of None \<Rightarrow> 0 | Some sidno \<Rightarrow> sidno)"

definition get_sorted_sidno :: "sid_map \<Rightarrow> nat \<Rightarrow> nat" where
  "get_sorted_sidno m n = sorted_sidnos m ! n"

text \<open>\<open>memcmp\<close> on two arrays of the same length: the sign of the first difference.\<close>

fun memcmp :: "byte list \<Rightarrow> byte list \<Rightarrow> int" where
  "memcmp (a # as) (b # bs) = (if a < b then -1 else if b < a then 1 else memcmp as bs)"
| "memcmp _ _ = 0"

text \<open>
  The insertion loop of \<open>add_node\<close>. The argument \<open>i\<close> is the index of \<open>prev_sorted_p\<close>, so
  \<open>sorted_i\<close> is \<open>i - 1\<close>; at 0 the loop condition \<open>sorted_i >= 0\<close> fails.
\<close>

fun bubble_down :: "sid list \<Rightarrow> sid \<Rightarrow> nat \<Rightarrow> nat \<Rightarrow> nat list \<Rightarrow> nat list" where
  "bubble_down sids sid sidno 0 arr = arr[0 := sidno]"
| "bubble_down sids sid sidno (Suc i) arr =
     (if memcmp sid (sids ! (arr ! i - 1)) \<ge> 0 then arr[Suc i := sidno]
      else bubble_down sids sid sidno i (arr[Suc i := arr ! i]))"

text \<open>
  Which of the calls of \<open>add_node\<close> that can run out of memory succeed. \<open>ensure_ok\<close> is the
  disjunction \<open>this != global_sid_map || gtid_state->ensure_sidno() == RETURN_STATUS_OK\<close>.
  \<open>upgrade\<close> is what other threads do to the map while \<open>add_sid\<close> releases its read lock to take the
  write lock; it is the identity when the caller holds the write lock or there is no lock.
\<close>

record add_node_env =
  malloc_ok :: bool
  push_sid_ok :: bool
  push_sorted_ok :: bool
  hash_insert_ok :: bool
  ensure_ok :: bool
  upgrade :: "sid_map \<Rightarrow> sid_map"

definition env_ok :: add_node_env where
  "env_ok = \<lparr>malloc_ok = True, push_sid_ok = True, push_sorted_ok = True,
             hash_insert_ok = True, ensure_ok = True, upgrade = id\<rparr>"

definition add_node :: "add_node_env \<Rightarrow> nat \<Rightarrow> sid \<Rightarrow> sid_map \<Rightarrow> enum_return_status \<times> sid_map" where
  "add_node env sidno sid m =
     (if \<not> malloc_ok env then (RETURN_STATUS_REPORTED_ERROR, m)
      else if \<not> push_sid_ok env then (RETURN_STATUS_REPORTED_ERROR, m)
      else let m1 = m\<lparr>sidno_to_sids := sidno_to_sids m @ [sid]\<rparr> in
      if \<not> push_sorted_ok env
      then (RETURN_STATUS_REPORTED_ERROR, m1\<lparr>sidno_to_sids := butlast (sidno_to_sids m1)\<rparr>)
      else let m2 = m1\<lparr>sorted_sidnos := sorted_sidnos m1 @ [sidno]\<rparr> in
      if \<not> hash_insert_ok env
      then (RETURN_STATUS_REPORTED_ERROR,
            m2\<lparr>sorted_sidnos := butlast (sorted_sidnos m2),
               sidno_to_sids := butlast (sidno_to_sids m2)\<rparr>)
      else let m3 = m2\<lparr>sid_hash := (sid_hash m2)(sid \<mapsto> sidno)\<rparr> in
      if \<not> ensure_ok env
      then (RETURN_STATUS_REPORTED_ERROR,
            m3\<lparr>sorted_sidnos := butlast (sorted_sidnos m3),
               sidno_to_sids := butlast (sidno_to_sids m3)\<rparr>)
      else (RETURN_STATUS_OK,
            m3\<lparr>sorted_sidnos :=
                  bubble_down (sidno_to_sids m3) sid sidno (sidno - 1) (sorted_sidnos m3)\<rparr>))"

text \<open>\<open>add_sid\<close>; the result \<open>-1\<close> of a failed insertion is \<open>None\<close>.\<close>

definition add_sid :: "add_node_env \<Rightarrow> sid \<Rightarrow> sid_map \<Rightarrow> nat option \<times> sid_map" where
  "add_sid env sid m =
     (case sid_hash m sid of
        Some sidno \<Rightarrow> (Some sidno, m)
      | None \<Rightarrow>
          let m1 = upgrade env m in
          (case sid_hash m1 sid of
             Some sidno \<Rightarrow> (Some sidno, m1)
           | None \<Rightarrow>
               let sidno = sm_max_sidno m1 + 1 in
               (case add_node env sidno sid m1 of
                  (RETURN_STATUS_OK, m') \<Rightarrow> (Some sidno, m')
                | (_, m') \<Rightarrow> (None, m'))))"

lemma upgrade_ok [simp]: "upgrade env_ok = id"
  by (simp add: env_ok_def)

fun copy_from_sidno :: "add_node_env \<Rightarrow> sid list \<Rightarrow> nat \<Rightarrow> sid_map \<Rightarrow> enum_return_status \<times> sid_map" where
  "copy_from_sidno env [] sidno dest = (RETURN_STATUS_OK, dest)"
| "copy_from_sidno env (sid # sids) sidno dest =
     (case add_node env sidno sid dest of
        (RETURN_STATUS_OK, dest') \<Rightarrow> copy_from_sidno env sids (Suc sidno) dest'
      | (status, dest') \<Rightarrow> (status, dest'))"

definition sid_map_copy :: "add_node_env \<Rightarrow> sid_map \<Rightarrow> sid_map \<Rightarrow> enum_return_status \<times> sid_map" where
  "sid_map_copy env m dest = copy_from_sidno env (sidno_to_sids m) 1 dest"

section \<open>The order of SIDs\<close>

definition sid_less :: "sid \<Rightarrow> sid \<Rightarrow> bool" where
  "sid_less a b \<longleftrightarrow> memcmp a b < 0"

lemma memcmp_refl [simp]: "memcmp a a = 0"
  by (induction a) auto

lemma memcmp_swap: "memcmp b a = - memcmp a b"
  by (induction a b rule: memcmp.induct) auto

lemma memcmp_0: "length a = length b \<Longrightarrow> memcmp a b = 0 \<longleftrightarrow> a = b"
  by (induction a b rule: list_induct2) (auto simp: not_less order_le_less)

lemma sid_less_trans:
  "length a = length b \<Longrightarrow> length b = length c \<Longrightarrow> sid_less a b \<Longrightarrow> sid_less b c \<Longrightarrow> sid_less a c"
  unfolding sid_less_def
  by (induction a b c rule: list_induct3) (auto split: if_splits)

lemma sid_less_irrefl [simp]: "\<not> sid_less a a"
  by (simp add: sid_less_def)

lemma sid_less_asym: "sid_less a b \<Longrightarrow> \<not> sid_less b a"
  using memcmp_swap [of a b] by (simp add: sid_less_def)

lemma sid_less_linear: "length a = length b \<Longrightarrow> sid_less a b \<or> a = b \<or> sid_less b a"
  using memcmp_swap [of a b] memcmp_0 [of a b] unfolding sid_less_def by linarith

lemma memcmp_ge_iff: "length a = length b \<Longrightarrow> memcmp a b \<ge> 0 \<longleftrightarrow> \<not> sid_less a b"
  by (auto simp: sid_less_def)

section \<open>Invariant\<close>

definition sid_map_inv :: "sid_map \<Rightarrow> bool" where
  "sid_map_inv m \<longleftrightarrow>
     distinct (sidno_to_sids m) \<and> (\<forall>sid \<in> set (sidno_to_sids m). length sid = BYTE_LENGTH) \<and>
     (\<forall>sid sidno. sid_hash m sid = Some sidno \<longleftrightarrow>
        1 \<le> sidno \<and> sidno \<le> sm_max_sidno m \<and> sidno_to_sid m sidno = sid) \<and>
     set (sorted_sidnos m) = {1 .. sm_max_sidno m} \<and> length (sorted_sidnos m) = sm_max_sidno m \<and>
     sorted_wrt (\<lambda>a b. sid_less (sidno_to_sid m a) (sidno_to_sid m b)) (sorted_sidnos m)"

lemma sid_map_inv_init [simp]: "sid_map_inv sid_map_init"
  by (simp add: sid_map_inv_def sid_map_init_def sm_max_sidno_def)

lemma sid_map_inv_hash:
  "sid_map_inv m \<Longrightarrow> sid_hash m sid = Some sidno \<longleftrightarrow>
     1 \<le> sidno \<and> sidno \<le> sm_max_sidno m \<and> sidno_to_sid m sidno = sid"
  by (simp add: sid_map_inv_def)

lemma sid_map_inv_None:
  assumes "sid_map_inv m"
  shows "sid_hash m sid = None \<longleftrightarrow> sid \<notin> set (sidno_to_sids m)"
proof -
  have "sid \<in> set (sidno_to_sids m) \<longleftrightarrow> (\<exists>sidno. sid_hash m sid = Some sidno)"
  proof
    assume "sid \<in> set (sidno_to_sids m)"
    then obtain i where "i < length (sidno_to_sids m)" "sidno_to_sids m ! i = sid"
      by (auto simp: in_set_conv_nth)
    then have "sid_hash m sid = Some (Suc i)"
      by (simp add: sid_map_inv_hash [OF assms] sm_max_sidno_def sidno_to_sid_def)
    then show "\<exists>sidno. sid_hash m sid = Some sidno" ..
  next
    assume "\<exists>sidno. sid_hash m sid = Some sidno"
    then obtain sidno where "1 \<le> sidno" "sidno \<le> length (sidno_to_sids m)"
        "sidno_to_sids m ! (sidno - 1) = sid"
      by (auto simp: sid_map_inv_hash [OF assms] sm_max_sidno_def sidno_to_sid_def)
    then show "sid \<in> set (sidno_to_sids m)"
      by (metis Suc_diff_1 Suc_le_lessD less_le_trans nth_mem zero_less_one)
  qed
  then show ?thesis by auto
qed

lemma sid_to_sidno_inv:
  "sid_map_inv m \<Longrightarrow> 1 \<le> n \<Longrightarrow> n \<le> sm_max_sidno m \<Longrightarrow> sid_to_sidno m (sidno_to_sid m n) = n"
  using sid_map_inv_hash [of m "sidno_to_sid m n" n] by (simp add: sid_to_sidno_def)

section \<open>Insertion keeps the invariant\<close>

lemma bubble_down_split:
  "\<exists>as bs. xs = as @ bs \<and>
     bubble_down sids sid sidno (length xs) (xs @ z # ys) = as @ sidno # bs @ ys \<and>
     (\<forall>b \<in> set bs. memcmp sid (sids ! (b - 1)) < 0) \<and>
     (as \<noteq> [] \<longrightarrow> memcmp sid (sids ! (last as - 1)) \<ge> 0)"
proof (induction xs arbitrary: z ys rule: rev_induct)
  case Nil
  then show ?case by simp
next
  case (snoc x xs)
  show ?case
  proof (cases "memcmp sid (sids ! (x - 1)) \<ge> 0")
    case True
    then have "bubble_down sids sid sidno (length (xs @ [x])) ((xs @ [x]) @ z # ys) =
        (xs @ [x]) @ sidno # [] @ ys"
      by (simp add: nth_append list_update_append)
    with True show ?thesis by (intro exI [of _ "xs @ [x]"] exI [of _ "[]"]) simp
  next
    case False
    then have step: "bubble_down sids sid sidno (length (xs @ [x])) ((xs @ [x]) @ z # ys) =
        bubble_down sids sid sidno (length xs) (xs @ x # x # ys)"
      by (simp add: nth_append list_update_append)
    obtain as bs where "xs = as @ bs"
        "bubble_down sids sid sidno (length xs) (xs @ x # x # ys) = as @ sidno # bs @ x # ys"
        "\<forall>b \<in> set bs. memcmp sid (sids ! (b - 1)) < 0"
        "as \<noteq> [] \<longrightarrow> memcmp sid (sids ! (last as - 1)) \<ge> 0"
      using snoc.IH [of x "x # ys"] by blast
    with False step show ?thesis by (intro exI [of _ as] exI [of _ "bs @ [x]"]) simp
  qed
qed

lemma sidno_to_sid_append:
  "1 \<le> n \<Longrightarrow> n \<le> length sids \<Longrightarrow> (sids @ [sid]) ! (n - 1) = sids ! (n - 1)"
  by (cases n) (simp_all add: nth_append)

lemma insert_sorted:
  assumes srt: "sorted_wrt (\<lambda>a b. sid_less (k a) (k b)) (as @ bs)"
    and len: "\<And>a. a \<in> set as \<Longrightarrow> length (k a) = length (k n)"
    and above: "\<And>b. b \<in> set bs \<Longrightarrow> sid_less (k n) (k b)"
    and last: "as \<noteq> [] \<Longrightarrow> \<not> sid_less (k n) (k (last as))"
    and new: "\<And>a. a \<in> set as \<Longrightarrow> k a \<noteq> k n"
  shows "sorted_wrt (\<lambda>a b. sid_less (k a) (k b)) (as @ n # bs)"
proof -
  have below: "sid_less (k a) (k n)" if a: "a \<in> set as" for a
  proof -
    obtain pre l where as: "as = pre @ [l]" using a by (cases as rule: rev_cases) auto
    with len new last sid_less_linear [of "k l" "k n"] have l: "sid_less (k l) (k n)" by simp
    show ?thesis
    proof (cases "a = l")
      case False
      with a as have "a \<in> set pre" by simp
      with srt as have "sid_less (k a) (k l)" by (simp add: sorted_wrt_append)
      with l show ?thesis using sid_less_trans [of "k a" "k l" "k n"] len [OF a] len [of l] as by simp
    qed (use l in simp)
  qed
  show ?thesis using srt below above by (simp add: sorted_wrt_append)
qed

lemma bubble_down_sorted:
  assumes srt: "sorted_wrt (\<lambda>a b. sid_less (sids ! (a - 1)) (sids ! (b - 1))) xs"
    and xs: "set xs = {1 .. length sids}" and len: "length xs = length sids"
    and lens: "\<forall>s \<in> set sids. length s = BYTE_LENGTH" "length sid = BYTE_LENGTH"
    and new: "sid \<notin> set sids"
    and res: "res = bubble_down (sids @ [sid]) sid (Suc (length sids)) (length sids)
                (xs @ [Suc (length sids)])"
  shows "sorted_wrt (\<lambda>a b. sid_less ((sids @ [sid]) ! (a - 1)) ((sids @ [sid]) ! (b - 1))) res"
    and "set res = {1 .. Suc (length sids)}" and "length res = Suc (length sids)"
proof -
  let ?n = "Suc (length sids)" and ?k = "\<lambda>a. (sids @ [sid]) ! (a - 1)"
  obtain as bs where s: "xs = as @ bs" "res = as @ ?n # bs"
      "\<forall>b \<in> set bs. memcmp sid (?k b) < 0" "as \<noteq> [] \<longrightarrow> memcmp sid (?k (last as)) \<ge> 0"
    using bubble_down_split [of xs "sids @ [sid]" sid ?n ?n "[]"]
    unfolding len append_Nil2 res [symmetric] by blast
  have old: "?k a = sids ! (a - 1)" "sids ! (a - 1) \<in> set sids" if "a \<in> set xs" for a
  proof -
    have "1 \<le> a" "a \<le> length sids" using that xs by simp_all
    then show "?k a = sids ! (a - 1)" by (rule sidno_to_sid_append)
    show "sids ! (a - 1) \<in> set sids" using \<open>1 \<le> a\<close> \<open>a \<le> length sids\<close> by (intro nth_mem) linarith
  qed
  have at_n: "?k ?n = sid" by simp
  have "sorted_wrt (\<lambda>a b. sid_less (?k a) (?k b)) (as @ bs)"
    using sorted_wrt_mono_rel [OF _ srt, of "\<lambda>a b. sid_less (?k a) (?k b)"] old(1) s(1) by simp
  moreover have "length (?k a) = length (?k ?n)" if "a \<in> set as" for a
    using that old [of a] lens s(1) by (auto simp: at_n)
  moreover have "sid_less (?k ?n) (?k b)" if "b \<in> set bs" for b
    using that s(3) unfolding at_n sid_less_def by blast
  moreover have "\<not> sid_less (?k ?n) (?k (last as))" if "as \<noteq> []"
    using that s(4) unfolding at_n sid_less_def by linarith
  moreover have "?k a \<noteq> ?k ?n" if "a \<in> set as" for a
    using that old [of a] new s(1) by (auto simp: at_n)
  ultimately show "sorted_wrt (\<lambda>a b. sid_less (?k a) (?k b)) res"
    unfolding s(2) by (rule insert_sorted [where k = ?k])
  have "set res = insert ?n (set xs)" using s(1,2) by simp
  also have "\<dots> = {1 .. ?n}" unfolding xs by (rule atLeastAtMostSuc_conv [symmetric]) simp
  finally show "set res = {1 .. ?n}" .
  show "length res = ?n" using len s(1,2) by simp
qed

text \<open>The successful \<open>add_node\<close> with the next free number.\<close>

lemma add_node_ok:
  assumes inv: "sid_map_inv m" and new: "sid \<notin> set (sidno_to_sids m)"
    and len: "length sid = BYTE_LENGTH"
  obtains m' where "add_node env_ok (Suc (sm_max_sidno m)) sid m = (RETURN_STATUS_OK, m')"
    and "sid_map_inv m'" and "sidno_to_sids m' = sidno_to_sids m @ [sid]"
proof -
  let ?n = "Suc (sm_max_sidno m)"
  define res where "res = bubble_down (sidno_to_sids m @ [sid]) sid ?n (sm_max_sidno m)
      (sorted_sidnos m @ [?n])"
  define m' where "m' = \<lparr>sidno_to_sids = sidno_to_sids m @ [sid],
      sid_hash = (sid_hash m)(sid \<mapsto> ?n), sorted_sidnos = res\<rparr>"
  have add: "add_node env_ok ?n sid m = (RETURN_STATUS_OK, m')"
    by (simp add: add_node_def env_ok_def m'_def res_def)
  have I: "distinct (sidno_to_sids m)" "\<forall>s \<in> set (sidno_to_sids m). length s = BYTE_LENGTH"
      "set (sorted_sidnos m) = {1 .. length (sidno_to_sids m)}"
      "length (sorted_sidnos m) = length (sidno_to_sids m)"
      "sorted_wrt (\<lambda>a b. sid_less (sidno_to_sids m ! (a - 1)) (sidno_to_sids m ! (b - 1)))
         (sorted_sidnos m)"
    using inv unfolding sid_map_inv_def sm_max_sidno_def sidno_to_sid_def by blast+
  note sorted = bubble_down_sorted [OF I(5,3,4,2) len new, of res,
      unfolded res_def sm_max_sidno_def, OF refl, folded sm_max_sidno_def, folded res_def]
  have hash: "((sid_hash m)(sid \<mapsto> ?n)) x = Some k \<longleftrightarrow>
      1 \<le> k \<and> k \<le> ?n \<and> (sidno_to_sids m @ [sid]) ! (k - 1) = x" for x k
  proof (cases "k = ?n")
    case True
    have "sid_hash m x \<noteq> Some ?n" using sid_map_inv_hash [OF inv] by simp
    with True show ?thesis by (auto simp: sm_max_sidno_def)
  next
    case False
    have "sid_hash m sid = None" using new sid_map_inv_None [OF inv] by simp
    then have "((sid_hash m)(sid \<mapsto> ?n)) x = Some k \<longleftrightarrow> sid_hash m x = Some k"
      using False by auto
    also have "\<dots> \<longleftrightarrow> 1 \<le> k \<and> k \<le> sm_max_sidno m \<and> sidno_to_sids m ! (k - 1) = x"
      using sid_map_inv_hash [OF inv] by (simp add: sidno_to_sid_def)
    also have "\<dots> \<longleftrightarrow> 1 \<le> k \<and> k \<le> ?n \<and> (sidno_to_sids m @ [sid]) ! (k - 1) = x"
      using False sidno_to_sid_append [of k "sidno_to_sids m" sid]
      by (auto simp: sm_max_sidno_def le_Suc_eq)
    finally show ?thesis .
  qed
  have f: "sidno_to_sids m' = sidno_to_sids m @ [sid]" "sid_hash m' = (sid_hash m)(sid \<mapsto> ?n)"
      "sorted_sidnos m' = res" "sm_max_sidno m' = ?n"
    by (simp_all add: m'_def sm_max_sidno_def)
  have "sid_map_inv m'"
    unfolding sid_map_inv_def sidno_to_sid_def f
    using I(1,2) new len by (intro conjI allI hash sorted) simp_all
  with add that show thesis by (simp add: m'_def)
qed

lemma sid_map_inv_length:
  "sid_map_inv m \<Longrightarrow> 1 \<le> n \<Longrightarrow> n \<le> sm_max_sidno m \<Longrightarrow> length (sidno_to_sid m n) = BYTE_LENGTH"
  by (auto simp: sid_map_inv_def sm_max_sidno_def sidno_to_sid_def)

text \<open>Numbers once given out never change their meaning.\<close>

definition sm_extends :: "sid_map \<Rightarrow> sid_map \<Rightarrow> bool" where
  "sm_extends m m' \<longleftrightarrow> (\<exists>sids. sidno_to_sids m' = sidno_to_sids m @ sids)"

lemma sm_extends_refl [simp]: "sm_extends m m"
  by (simp add: sm_extends_def)

lemma sm_extends_trans: "sm_extends a b \<Longrightarrow> sm_extends b c \<Longrightarrow> sm_extends a c"
  by (auto simp: sm_extends_def)

lemma sm_extends_max: "sm_extends m m' \<Longrightarrow> sm_max_sidno m \<le> sm_max_sidno m'"
  by (auto simp: sm_extends_def sm_max_sidno_def)

lemma sm_extends_sid:
  "sm_extends m m' \<Longrightarrow> 1 \<le> n \<Longrightarrow> n \<le> sm_max_sidno m \<Longrightarrow> sidno_to_sid m' n = sidno_to_sid m n"
  by (cases n) (auto simp: sm_extends_def sm_max_sidno_def sidno_to_sid_def nth_append)

lemma add_sid_ok:
  assumes inv: "sid_map_inv m" and len: "length sid = BYTE_LENGTH"
  obtains n m' where "add_sid env_ok sid m = (Some n, m')" and "sid_map_inv m'"
    and "sm_extends m m'" and "1 \<le> n" and "n \<le> sm_max_sidno m'" and "sidno_to_sid m' n = sid"
proof (cases "sid_hash m sid")
  case None
  then have "sid \<notin> set (sidno_to_sids m)" using sid_map_inv_None [OF inv] by simp
  then obtain m' where m': "add_node env_ok (Suc (sm_max_sidno m)) sid m = (RETURN_STATUS_OK, m')"
      "sid_map_inv m'" "sidno_to_sids m' = sidno_to_sids m @ [sid]"
    using add_node_ok [OF inv _ len] by blast
  with None that [of "Suc (sm_max_sidno m)" m'] show thesis
    by (simp add: add_sid_def sm_extends_def sm_max_sidno_def sidno_to_sid_def)
next
  case (Some n)
  with that [of n m] sid_map_inv_hash [OF inv, of sid n] inv show thesis
    by (simp add: add_sid_def)
qed

lemma add_sid_other_threads:
  "add_sid (env_ok\<lparr>upgrade := others\<rparr>) sid m =
     (if sid_to_sidno m sid \<noteq> 0 \<or> sid_hash m sid \<noteq> None then (Some (sid_to_sidno m sid), m)
      else add_sid env_ok sid (others m))"
  by (auto simp: add_sid_def sid_to_sidno_def add_node_def env_ok_def Let_def split: option.splits)

lemma add_sid_max: "add_sid env_ok sid m = (Some n, m') \<Longrightarrow> sm_max_sidno m' \<le> sm_max_sidno m + 1"
  by (auto simp: add_sid_def add_node_def env_ok_def Let_def sm_max_sidno_def split: option.splits)

lemma add_sid_upgrade:
  assumes inv: "sid_map_inv m" and len: "length sid = BYTE_LENGTH"
    and others: "sid_map_inv (others m)" "sm_extends m (others m)"
  obtains n m' where "add_sid (env_ok\<lparr>upgrade := others\<rparr>) sid m = (Some n, m')" and "sid_map_inv m'"
    and "sm_extends m m'" and "sid_to_sidno m' sid = n" and "sidno_to_sid m' n = sid"
    and "sid_to_sidno m sid \<noteq> 0 \<longrightarrow> m' = m \<and> n = sid_to_sidno m sid"
    and "sid_to_sidno m sid = 0 \<longrightarrow> sm_extends (others m) m' \<and> sm_max_sidno m' \<le> sm_max_sidno (others m) + 1"
proof (cases "sid_hash m sid")
  case None
  then have 0: "sid_to_sidno m sid = 0" by (simp add: sid_to_sidno_def)
  show thesis
  proof (rule add_sid_ok [OF others(1) len])
    fix n m'
    assume r: "add_sid env_ok sid (others m) = (Some n, m')" "sid_map_inv m'" "sm_extends (others m) m'"
      "1 \<le> n" "n \<le> sm_max_sidno m'" "sidno_to_sid m' n = sid"
    show thesis
    proof (rule that)
      show "add_sid (env_ok\<lparr>upgrade := others\<rparr>) sid m = (Some n, m')"
        using r(1) None 0 by (simp add: add_sid_other_threads)
      show "sid_to_sidno m' sid = n" using sid_to_sidno_inv [OF r(2,4,5)] r(6) by simp
      show "sm_extends m m'" using others(2) r(3) by (rule sm_extends_trans)
    qed (use r 0 add_sid_max [OF r(1)] in simp_all)
  qed
next
  case (Some n)
  then have "sid_to_sidno m sid = n" "n \<noteq> 0" "sidno_to_sid m n = sid"
    using sid_map_inv_hash [OF inv, of sid n] by (simp_all add: sid_to_sidno_def)
  with Some inv show thesis by (intro that [of n m]) (simp_all add: add_sid_other_threads)
qed

lemma copy_from_sidno_ok:
  assumes "sid_map_inv dest" and "distinct (sidno_to_sids dest @ sids)"
    and "\<forall>sid \<in> set sids. length sid = BYTE_LENGTH" and "sidno = Suc (sm_max_sidno dest)"
  shows "\<exists>dest'. copy_from_sidno env_ok sids sidno dest = (RETURN_STATUS_OK, dest') \<and>
    sid_map_inv dest' \<and> sidno_to_sids dest' = sidno_to_sids dest @ sids"
  using assms
proof (induction sids arbitrary: dest sidno)
  case Nil
  then show ?case by simp
next
  case (Cons sid sids)
  then obtain d where d: "add_node env_ok sidno sid dest = (RETURN_STATUS_OK, d)"
      "sid_map_inv d" "sidno_to_sids d = sidno_to_sids dest @ [sid]"
    using add_node_ok [OF Cons.prems(1), of sid] by (metis distinct_append disjoint_iff list.set_intros(1))
  then have "\<exists>dest'. copy_from_sidno env_ok sids (Suc sidno) d = (RETURN_STATUS_OK, dest') \<and>
      sid_map_inv dest' \<and> sidno_to_sids dest' = sidno_to_sids d @ sids"
    using Cons.prems by (intro Cons.IH) (auto simp: sm_max_sidno_def)
  with d show ?case by auto
qed

lemma add_node_rollback:
  assumes "ensure_ok env" and "add_node env sidno sid m = (status, m')"
    and "status \<noteq> RETURN_STATUS_OK"
  shows "status = RETURN_STATUS_REPORTED_ERROR" and "m' = m"
  using assms by (auto simp: add_node_def Let_def split: if_splits)

lemma add_node_ensure_fails:
  assumes "add_node (env_ok\<lparr>ensure_ok := False\<rparr>) sidno sid m = (status, m')"
  shows "status = RETURN_STATUS_REPORTED_ERROR" and "sidno_to_sids m' = sidno_to_sids m"
    and "sorted_sidnos m' = sorted_sidnos m" and "sid_hash m' = (sid_hash m)(sid \<mapsto> sidno)"
  using assms by (auto simp: add_node_def env_ok_def Let_def)

section \<open>The numbering as an interface\<close>

text \<open>
  What the users of a \<open>Sid_map\<close> rely on: SIDNOs and SIDs correspond one to one. \<open>by_sid\<close> reads a
  set of (SIDNO, GNO) pairs as a set of (SID, GNO) pairs.
\<close>

locale sid_mapping =
  fixes max_of :: "'m \<Rightarrow> nat" and sid_of :: "'m \<Rightarrow> nat \<Rightarrow> 'sid"
    and sidno_of :: "'m \<Rightarrow> 'sid \<Rightarrow> nat" and inv :: "'m \<Rightarrow> bool"
  assumes sidno_of_sid: "inv m \<Longrightarrow> 1 \<le> n \<Longrightarrow> n \<le> max_of m \<Longrightarrow> sidno_of m (sid_of m n) = n"
    and sid_of_sidno: "inv m \<Longrightarrow> sidno_of m s \<noteq> 0 \<Longrightarrow>
      sidno_of m s \<le> max_of m \<and> sid_of m (sidno_of m s) = s"
begin

definition by_sid :: "'m \<Rightarrow> (nat \<times> 'g) set \<Rightarrow> ('sid \<times> 'g) set" where
  "by_sid m A = (\<lambda>(n, g). (sid_of m n, g)) ` A"

definition within :: "'m \<Rightarrow> (nat \<times> 'g) set \<Rightarrow> bool" where
  "within m A \<longleftrightarrow> A \<subseteq> {1 .. max_of m} \<times> UNIV"

lemma sid_of_inject:
  "inv m \<Longrightarrow> 1 \<le> a \<Longrightarrow> a \<le> max_of m \<Longrightarrow> 1 \<le> b \<Longrightarrow> b \<le> max_of m \<Longrightarrow>
     sid_of m a = sid_of m b \<longleftrightarrow> a = b"
  using sidno_of_sid by metis

lemma by_sid_inj: "inv m \<Longrightarrow> inj_on (\<lambda>(n, g). (sid_of m n, g)) ({1 .. max_of m} \<times> UNIV)"
  by (auto simp: inj_on_def sid_of_inject)

lemma by_sid_Un: "by_sid m (A \<union> B) = by_sid m A \<union> by_sid m B"
  by (simp add: by_sid_def image_Un)

lemma by_sid_Diff:
  "inv m \<Longrightarrow> within m A \<Longrightarrow> within m B \<Longrightarrow> by_sid m (A - B) = by_sid m A - by_sid m B"
  unfolding by_sid_def within_def by (rule inj_on_image_set_diff [OF by_sid_inj]) auto

lemma by_sid_eq:
  "inv m \<Longrightarrow> within m A \<Longrightarrow> within m B \<Longrightarrow> by_sid m A = by_sid m B \<longleftrightarrow> A = B"
  unfolding by_sid_def within_def by (rule inj_on_image_eq_iff [OF by_sid_inj])

lemma by_sid_subset:
  "inv m \<Longrightarrow> within m A \<Longrightarrow> within m B \<Longrightarrow> by_sid m A \<subseteq> by_sid m B \<longleftrightarrow> A \<subseteq> B"
  unfolding subset_Un_eq by_sid_Un [symmetric] using by_sid_eq [of m "A \<union> B" B]
  by (auto simp: within_def)

lemma translate_inject:
  assumes "inv m" and "inv m'" and "1 \<le> a" "a \<le> max_of m" "1 \<le> b" "b \<le> max_of m"
    and "sidno_of m' (sid_of m a) = sidno_of m' (sid_of m b)" and "sidno_of m' (sid_of m a) \<noteq> 0"
  shows "a = b"
  using assms sid_of_sidno [OF assms(2)] sid_of_inject [OF assms(1,3-6)] by metis

end

interpretation sidmap: sid_mapping sm_max_sidno sidno_to_sid sid_to_sidno sid_map_inv
proof
  show "sid_to_sidno m (sidno_to_sid m n) = n"
    if "sid_map_inv m" "1 \<le> n" "n \<le> sm_max_sidno m" for m n
    using that by (rule sid_to_sidno_inv)
  show "sid_to_sidno m s \<le> sm_max_sidno m \<and> sidno_to_sid m (sid_to_sidno m s) = s"
    if h: "sid_map_inv m" "sid_to_sidno m s \<noteq> 0" for m s
  proof -
    obtain n where "sid_hash m s = Some n"
      using h(2) by (auto simp: sid_to_sidno_def split: option.splits)
    then show ?thesis using sid_map_inv_hash [OF h(1), of s n] by (simp add: sid_to_sidno_def)
  qed
qed

end
