(* ===== verification/Gtid_Set.thy ===== *)
theory Gtid_Set
  imports Gno_Intervals Sid_Map "HOL-Library.Monad_Syntax"
begin

text \<open>
  \<open>Gtid_set\<close> (\<^verbatim>\<open>sql/rpl_gtid_set.cc\<close>, \<^verbatim>\<open>sql/rpl_gtid.h\<close>): an array of interval lists indexed
  by SIDNO over one pool of interval cells, and a pointer to the \<open>Sid_map\<close> that numbers the SIDs.
  The maps live in a store indexed by address, because several sets share one map and the code
  compares map pointers. An access with a SIDNO outside the array is the value \<open>None\<close>.
\<close>

section \<open>State\<close>

record gtid_set =
  gs_sid_map :: "nat option"
  m_intervals :: "interval list list"
  gs_pool :: pool
  cached_string_format :: "nat option"

type_synonym sid_maps = "nat \<Rightarrow> sid_map"

definition gtid_set_init :: "nat option \<Rightarrow> gtid_set" where
  "gtid_set_init sm = \<lparr>gs_sid_map = sm, m_intervals = [], gs_pool = pool_init,
                       cached_string_format = None\<rparr>"

definition get_max_sidno :: "gtid_set \<Rightarrow> nat" where
  "get_max_sidno gs = length (m_intervals gs)"

definition ivs_at :: "gtid_set \<Rightarrow> nat \<Rightarrow> interval list option" where
  "ivs_at gs sidno =
     (if 1 \<le> sidno \<and> sidno \<le> get_max_sidno gs then Some (m_intervals gs ! (sidno - 1)) else None)"

definition store_ivs :: "nat \<Rightarrow> ivit \<times> pool \<Rightarrow> gtid_set \<Rightarrow> gtid_set" where
  "store_ivs sidno r gs =
     gs\<lparr>m_intervals := (m_intervals gs)[sidno - 1 := ivit_list (fst r)], gs_pool := snd r\<rparr>"

text \<open>
  \<open>sid_map == other->sid_map || other->sid_map == NULL || sid_map == NULL\<close>, the test by which
  every binary operation decides whether SIDNOs have to be translated.
\<close>

definition same_sid_map :: "gtid_set \<Rightarrow> gtid_set \<Rightarrow> bool" where
  "same_sid_map a b \<longleftrightarrow>
     gs_sid_map b = gs_sid_map a \<or> gs_sid_map b = None \<or> gs_sid_map a = None"

definition map_of_set :: "sid_maps \<Rightarrow> gtid_set \<Rightarrow> sid_map" where
  "map_of_set maps gs = maps (the (gs_sid_map gs))"

text \<open>
  Growing the array. \<open>push_ok n\<close> says whether the \<open>push_back\<close> that makes the array \<open>n\<close> long
  gets its memory; \<open>relock\<close> is what other threads do to the set between the release of the read
  lock and the acquisition of the write lock (the identity when there is no lock or the write
  lock is held). The condition that is tested again after the lock uses the old \<open>max_sidno\<close>.
\<close>

fun push_nulls :: "(nat \<Rightarrow> bool) \<Rightarrow> nat \<Rightarrow> interval list list \<Rightarrow> bool \<times> interval list list" where
  "push_nulls push_ok 0 arr = (True, arr)"
| "push_nulls push_ok (Suc n) arr =
     (if push_ok (Suc (length arr)) then push_nulls push_ok n (arr @ [[]]) else (False, arr))"

definition gs_ensure_sidno ::
  "(nat \<Rightarrow> bool) \<Rightarrow> (gtid_set \<Rightarrow> gtid_set) \<Rightarrow> nat \<Rightarrow> gtid_set \<Rightarrow> enum_return_status \<times> gtid_set" where
  "gs_ensure_sidno push_ok relock sidno gs =
     (let max_sidno = get_max_sidno gs in
      if sidno > max_sidno then
        let gs1 = relock gs in
        if sidno \<le> max_sidno then (RETURN_STATUS_OK, gs1)
        else (case push_nulls push_ok (sidno - max_sidno) (m_intervals gs1) of
                (True, arr) \<Rightarrow> (RETURN_STATUS_OK, gs1\<lparr>m_intervals := arr\<rparr>)
              | (False, arr) \<Rightarrow> (RETURN_STATUS_REPORTED_ERROR, gs1\<lparr>m_intervals := arr\<rparr>))
      else (RETURN_STATUS_OK, gs))"

text \<open>
  \<open>clear\<close> appends every list to the free list and keeps the array; on an array of length 0 it
  returns after the reset of the cache.
\<close>

definition gs_clear :: "gtid_set \<Rightarrow> gtid_set" where
  "gs_clear gs =
     (let gs1 = gs\<lparr>gs_pool := invalidate_cache 0 (gs_pool gs)\<rparr> in
      if get_max_sidno gs = 0 then gs1
      else gs1\<lparr>m_intervals := map (\<lambda>_. []) (m_intervals gs1),
               gs_pool := (gs_pool gs1)\<lparr>free_intervals :=
                 free_intervals (gs_pool gs1) + sum_list (map length (m_intervals gs1))\<rparr>\<rparr>)"

section \<open>Single GTIDs and whole lists\<close>

definition gs_add_gtid :: "nat \<Rightarrow> int \<Rightarrow> gtid_set \<Rightarrow> gtid_set option" where
  "gs_add_gtid sidno gno gs = do {
     ivs \<leftarrow> ivs_at gs sidno;
     Some (store_ivs sidno (add_gno_interval (ivit_init ivs) gno (gno + 1) (gs_pool gs)) gs) }"

definition gs_remove_gtid :: "nat \<Rightarrow> int \<Rightarrow> gtid_set \<Rightarrow> gtid_set option" where
  "gs_remove_gtid sidno gno gs =
     (if sidno \<le> get_max_sidno gs then do {
        ivs \<leftarrow> ivs_at gs sidno;
        Some (store_ivs sidno (remove_gno_interval (ivit_init ivs) gno (gno + 1) (gs_pool gs)) gs) }
      else Some gs)"

definition add_gno_intervals :: "nat \<Rightarrow> interval list \<Rightarrow> gtid_set \<Rightarrow> gtid_set option" where
  "add_gno_intervals sidno others gs = do {
     ivs \<leftarrow> ivs_at gs sidno;
     Some (store_ivs sidno (add_gno_intervals_from (ivit_init ivs) others (gs_pool gs)) gs) }"

definition remove_gno_intervals :: "nat \<Rightarrow> interval list \<Rightarrow> gtid_set \<Rightarrow> gtid_set option" where
  "remove_gno_intervals sidno others gs = do {
     ivs \<leftarrow> ivs_at gs sidno;
     Some (store_ivs sidno (remove_gno_intervals_from (ivit_init ivs) others (gs_pool gs)) gs) }"

definition remove_intervals_for_sidno :: "gtid_set \<Rightarrow> nat \<Rightarrow> gtid_set \<Rightarrow> gtid_set option" where
  "remove_intervals_for_sidno other sidno gs = do {
     others \<leftarrow> ivs_at other sidno;
     remove_gno_intervals sidno others gs }"

section \<open>Union and difference of sets\<close>

text \<open>
  What can fail in \<open>add_gtid_set\<close>: the insertion of SIDs into the map of this set and the growth
  of its array. The set \<open>other\<close> is a different object from this set.
\<close>

record gs_env =
  node_env :: add_node_env
  grow_ok :: "nat \<Rightarrow> bool"

definition gs_env_ok :: gs_env where
  "gs_env_ok = \<lparr>node_env = env_ok, grow_ok = (\<lambda>_. True)\<rparr>"

fun add_lists_from :: "gtid_set \<Rightarrow> nat list \<Rightarrow> gtid_set \<Rightarrow> gtid_set option" where
  "add_lists_from other [] gs = Some gs"
| "add_lists_from other (sidno # sidnos) gs = do {
     others \<leftarrow> ivs_at other sidno;
     gs' \<leftarrow> add_gno_intervals sidno others gs;
     add_lists_from other sidnos gs' }"

fun add_translated_from ::
  "gs_env \<Rightarrow> gtid_set \<Rightarrow> sid_map \<Rightarrow> nat list \<Rightarrow> sid_map \<Rightarrow> gtid_set
     \<Rightarrow> (enum_return_status \<times> sid_map \<times> gtid_set) option" where
  "add_translated_from env other other_sid_map [] sm gs = Some (RETURN_STATUS_OK, sm, gs)"
| "add_translated_from env other other_sid_map (other_sidno # sidnos) sm gs = do {
     others \<leftarrow> ivs_at other other_sidno;
     if others \<noteq> [] then
       (case add_sid (node_env env) (sidno_to_sid other_sid_map other_sidno) sm of
          (None, sm') \<Rightarrow> Some (RETURN_STATUS_REPORTED_ERROR, sm', gs)
        | (Some this_sidno, sm') \<Rightarrow>
            (case gs_ensure_sidno (grow_ok env) id this_sidno gs of
               (RETURN_STATUS_OK, gs1) \<Rightarrow> do {
                 gs2 \<leftarrow> add_gno_intervals this_sidno others gs1;
                 add_translated_from env other other_sid_map sidnos sm' gs2 }
             | (status, gs1) \<Rightarrow> Some (status, sm', gs1)))
     else add_translated_from env other other_sid_map sidnos sm gs }"

definition add_gtid_set ::
  "gs_env \<Rightarrow> gtid_set \<Rightarrow> sid_maps \<Rightarrow> gtid_set
     \<Rightarrow> (enum_return_status \<times> sid_maps \<times> gtid_set) option" where
  "add_gtid_set env other maps gs =
     (let sidnos = [1 ..< Suc (get_max_sidno other)] in
      if same_sid_map gs other then
        (case gs_ensure_sidno (grow_ok env) id (get_max_sidno other) gs of
           (RETURN_STATUS_OK, gs1) \<Rightarrow> do {
             gs2 \<leftarrow> add_lists_from other sidnos gs1;
             Some (RETURN_STATUS_OK, maps, gs2) }
         | (status, gs1) \<Rightarrow> Some (status, maps, gs1))
      else do {
        (status, sm, gs1) \<leftarrow>
          add_translated_from env other (map_of_set maps other) sidnos (map_of_set maps gs) gs;
        Some (status, maps(the (gs_sid_map gs) := sm), gs1) })"

fun remove_lists_from :: "gtid_set \<Rightarrow> nat list \<Rightarrow> gtid_set \<Rightarrow> gtid_set option" where
  "remove_lists_from other [] gs = Some gs"
| "remove_lists_from other (sidno # sidnos) gs = do {
     others \<leftarrow> ivs_at other sidno;
     gs' \<leftarrow> remove_gno_intervals sidno others gs;
     remove_lists_from other sidnos gs' }"

fun remove_translated_from ::
  "gtid_set \<Rightarrow> sid_map \<Rightarrow> nat list \<Rightarrow> sid_map \<Rightarrow> gtid_set \<Rightarrow> gtid_set option" where
  "remove_translated_from other other_sid_map [] sm gs = Some gs"
| "remove_translated_from other other_sid_map (other_sidno # sidnos) sm gs = do {
     others \<leftarrow> ivs_at other other_sidno;
     let this_sidno = sid_to_sidno sm (sidno_to_sid other_sid_map other_sidno) in
     if others \<noteq> [] \<and> this_sidno \<noteq> 0 then do {
       gs1 \<leftarrow> remove_gno_intervals this_sidno others gs;
       remove_translated_from other other_sid_map sidnos sm gs1 }
     else remove_translated_from other other_sid_map sidnos sm gs }"

definition remove_gtid_set :: "gtid_set \<Rightarrow> sid_maps \<Rightarrow> gtid_set \<Rightarrow> gtid_set option" where
  "remove_gtid_set other maps gs =
     (if same_sid_map gs other
      then remove_lists_from other [1 ..< Suc (min (get_max_sidno other) (get_max_sidno gs))] gs
      else remove_translated_from other (map_of_set maps other)
             [1 ..< Suc (get_max_sidno other)] (map_of_set maps gs) gs)"

text \<open>\<open>A \<inter> B\<close> as \<open>A - (A - B)\<close> over two temporary sets with the map of this set.\<close>

definition gs_intersection ::
  "gs_env \<Rightarrow> gtid_set \<Rightarrow> gtid_set \<Rightarrow> sid_maps \<Rightarrow> gtid_set
     \<Rightarrow> (enum_return_status \<times> sid_maps \<times> gtid_set) option" where
  "gs_intersection env this other maps result = do {
     (st1, maps1, this_minus_other) \<leftarrow> add_gtid_set env this maps (gtid_set_init (gs_sid_map this));
     if st1 \<noteq> RETURN_STATUS_OK then Some (st1, maps1, result) else do {
     this_minus_other1 \<leftarrow> remove_gtid_set other maps1 this_minus_other;
     (st2, maps2, inter) \<leftarrow> add_gtid_set env this maps1 (gtid_set_init (gs_sid_map this));
     if st2 \<noteq> RETURN_STATUS_OK then Some (st2, maps2, result) else do {
     inter1 \<leftarrow> remove_gtid_set this_minus_other1 maps2 inter;
     add_gtid_set env inter1 maps2 result }}}"

section \<open>Queries\<close>

text \<open>The callers of the next three pass a SIDNO of at least 1, as the code asserts.\<close>

definition contains_sidno :: "gtid_set \<Rightarrow> nat \<Rightarrow> bool" where
  "contains_sidno gs sidno =
     (if sidno > get_max_sidno gs then False else m_intervals gs ! (sidno - 1) \<noteq> [])"

definition contains_gtid :: "gtid_set \<Rightarrow> nat \<Rightarrow> int \<Rightarrow> bool" where
  "contains_gtid gs sidno gno =
     (if sidno > get_max_sidno gs then False else contains_gno (m_intervals gs ! (sidno - 1)) gno)"

definition get_last_gno :: "gtid_set \<Rightarrow> nat \<Rightarrow> int" where
  "get_last_gno gs sidno =
     (if sidno > get_max_sidno gs then 0 else last_gno 0 (m_intervals gs ! (sidno - 1)))"

definition n_intervals_of :: "gtid_set \<Rightarrow> nat \<Rightarrow> nat" where
  "n_intervals_of gs sidno = length (m_intervals gs ! (sidno - 1))"

text \<open>\<open>get_n_intervals()\<close>: the loop bound is \<open>sidno < max_sidno\<close>.\<close>

definition get_n_intervals :: "gtid_set \<Rightarrow> nat" where
  "get_n_intervals gs = sum_list (map (n_intervals_of gs) [1 ..< get_max_sidno gs])"

definition sidno_equals :: "gtid_set \<Rightarrow> nat \<Rightarrow> gtid_set \<Rightarrow> nat \<Rightarrow> bool" where
  "sidno_equals gs sidno other other_sidno =
     intervals_equal (m_intervals gs ! (sidno - 1)) (m_intervals other ! (other_sidno - 1))"

text \<open>
  \<open>equals\<close> without translation: the loops over the SIDNOs that only one array has stop before
  the last of them.
\<close>

definition equals_same_map :: "gtid_set \<Rightarrow> gtid_set \<Rightarrow> bool" where
  "equals_same_map gs other =
     (let max_sidno = get_max_sidno gs; other_max_sidno = get_max_sidno other;
          common_max_sidno = min max_sidno other_max_sidno in
      if max_sidno > common_max_sidno \<and>
         list_ex (contains_sidno gs) [common_max_sidno + 1 ..< max_sidno] then False
      else if \<not> max_sidno > common_max_sidno \<and> other_max_sidno > common_max_sidno \<and>
         list_ex (contains_sidno other) [common_max_sidno + 1 ..< other_max_sidno] then False
      else list_all (\<lambda>sidno. sidno_equals gs sidno other sidno) [1 ..< Suc common_max_sidno])"

text \<open>
  With translation both maps are walked in the order of their SIDs. An index into
  \<open>_sorted\<close> is represented by the part of the array from there on, so \<open>sid_i == map_max_sidno\<close>
  is the empty list.
\<close>

fun skip_absent :: "gtid_set \<Rightarrow> nat list \<Rightarrow> nat list" where
  "skip_absent gs [] = []"
| "skip_absent gs (sidno # rest) =
     (if contains_sidno gs sidno then sidno # rest else skip_absent gs rest)"

lemma skip_absent_shorter: "skip_absent gs xs = sidno # ys \<Longrightarrow> length ys < length xs"
  by (induction gs xs rule: skip_absent.induct) (auto split: if_splits)

function equals_loop ::
  "sid_map \<Rightarrow> gtid_set \<Rightarrow> sid_map \<Rightarrow> gtid_set \<Rightarrow> nat list \<Rightarrow> nat list \<Rightarrow> bool" where
  "equals_loop sm gs osm other ss os =
     (case (skip_absent gs ss, skip_absent other os) of
        (sidno # ss', other_sidno # os') \<Rightarrow>
          if sidno_to_sid sm sidno \<noteq> sidno_to_sid osm other_sidno then False
          else if \<not> sidno_equals gs sidno other other_sidno then False
          else equals_loop sm gs osm other ss' os'
      | (ss', os') \<Rightarrow> ss' = [] \<and> os' = [])"
  by pat_completeness auto
termination
proof (relation "measure (\<lambda>(sm, gs, osm, other, ss, os). length ss)", goal_cases)
  case (2 sm gs osm other ss os x y sidno ss' other_sidno os')
  then show ?case using skip_absent_shorter [of gs ss sidno ss'] by simp
qed simp

declare equals_loop.simps [simp del]

definition gs_equals :: "sid_maps \<Rightarrow> gtid_set \<Rightarrow> gtid_set \<Rightarrow> bool" where
  "gs_equals maps gs other =
     (if same_sid_map gs other then equals_same_map gs other
      else equals_loop (map_of_set maps gs) gs (map_of_set maps other) other
             (sorted_sidnos (map_of_set maps gs)) (sorted_sidnos (map_of_set maps other)))"

text \<open>
  \<open>is_subset\<close> and \<open>is_intersection_nonempty\<close> look up the number that the other set uses for a
  SID; \<open>None\<close> stands for the case in which a list is read past its end.
\<close>

definition sidno_in :: "sid_maps \<Rightarrow> gtid_set \<Rightarrow> gtid_set \<Rightarrow> nat \<Rightarrow> nat" where
  "sidno_in maps gs other sidno =
     (if same_sid_map gs other then sidno
      else sid_to_sidno (map_of_set maps other) (sidno_to_sid (map_of_set maps gs) sidno))"

fun is_subset_from :: "sid_maps \<Rightarrow> gtid_set \<Rightarrow> gtid_set \<Rightarrow> nat list \<Rightarrow> bool option" where
  "is_subset_from maps gs super [] = Some True"
| "is_subset_from maps gs super (sidno # sidnos) = do {
     ivs \<leftarrow> ivs_at gs sidno;
     if ivs \<noteq> [] then
       let super_sidno = sidno_in maps gs super sidno in
       if super_sidno = 0 then Some False
       else if super_sidno > get_max_sidno super then Some False
       else do {
         super_ivs \<leftarrow> ivs_at super super_sidno;
         r \<leftarrow> is_interval_subset ivs super_ivs;
         if \<not> r then Some False else is_subset_from maps gs super sidnos }
     else is_subset_from maps gs super sidnos }"

definition is_subset :: "sid_maps \<Rightarrow> gtid_set \<Rightarrow> gtid_set \<Rightarrow> bool option" where
  "is_subset maps gs super = is_subset_from maps gs super [1 ..< Suc (get_max_sidno gs)]"

definition is_subset_not_equals :: "sid_maps \<Rightarrow> gtid_set \<Rightarrow> gtid_set \<Rightarrow> bool option" where
  "is_subset_not_equals maps gs super = do {
     r \<leftarrow> is_subset maps gs super;
     Some (r \<and> \<not> gs_equals maps gs super) }"

definition is_subset_for_sid :: "gtid_set \<Rightarrow> gtid_set \<Rightarrow> nat \<Rightarrow> nat \<Rightarrow> bool option" where
  "is_subset_for_sid gs super superset_sidno subset_sidno =
     (if subset_sidno = 0 then Some True
      else if superset_sidno = 0 then Some False
      else do {
        subset_ivs \<leftarrow> ivs_at gs subset_sidno;
        superset_ivs \<leftarrow> ivs_at super superset_sidno;
        is_interval_subset subset_ivs superset_ivs })"

fun intersection_nonempty_from :: "sid_maps \<Rightarrow> gtid_set \<Rightarrow> gtid_set \<Rightarrow> nat list \<Rightarrow> bool option" where
  "intersection_nonempty_from maps gs other [] = Some False"
| "intersection_nonempty_from maps gs other (sidno # sidnos) = do {
     ivs \<leftarrow> ivs_at gs sidno;
     if ivs \<noteq> [] then
       let other_sidno = sidno_in maps gs other sidno in
       if other_sidno = 0 then intersection_nonempty_from maps gs other sidnos
       else if other_sidno > get_max_sidno other then intersection_nonempty_from maps gs other sidnos
       else do {
         other_ivs \<leftarrow> ivs_at other other_sidno;
         r \<leftarrow> is_interval_intersection_nonempty ivs other_ivs;
         if r then Some True else intersection_nonempty_from maps gs other sidnos }
     else intersection_nonempty_from maps gs other sidnos }"

definition is_intersection_nonempty :: "sid_maps \<Rightarrow> gtid_set \<Rightarrow> gtid_set \<Rightarrow> bool option" where
  "is_intersection_nonempty maps gs other =
     intersection_nonempty_from maps gs other [1 ..< Suc (get_max_sidno gs)]"

record gtid_interval =
  gi_sidno :: nat
  gno_start :: int
  gno_end :: int

definition get_gtid_intervals :: "sid_map \<Rightarrow> gtid_set \<Rightarrow> gtid_interval list" where
  "get_gtid_intervals sm gs =
     concat (map (\<lambda>sidno. if contains_sidno gs sidno
                          then map (\<lambda>iv. \<lparr>gi_sidno = sidno, gno_start = iv_start iv,
                                          gno_end = iv_end iv - 1\<rparr>) (m_intervals gs ! (sidno - 1))
                          else [])
             (sorted_sidnos sm))"

section \<open>The iterator over all GTIDs\<close>

record gtid_iterator =
  it_sidno :: nat
  it_gno :: int
  it_ivs :: "interval list"

fun next_sidno_from :: "nat \<Rightarrow> interval list list \<Rightarrow> gtid_iterator" where
  "next_sidno_from sidno [] = \<lparr>it_sidno = 0, it_gno = 0, it_ivs = []\<rparr>"
| "next_sidno_from sidno ([] # later) = next_sidno_from (sidno + 1) later"
| "next_sidno_from sidno ((iv # ivs) # later) =
     \<lparr>it_sidno = sidno, it_gno = iv_start iv, it_ivs = iv # ivs\<rparr>"

text \<open>\<open>next_sidno\<close> moves on from the current SIDNO to the first later one with an interval.\<close>

definition next_sidno :: "gtid_set \<Rightarrow> gtid_iterator \<Rightarrow> gtid_iterator" where
  "next_sidno gs it = next_sidno_from (it_sidno it + 1) (drop (it_sidno it) (m_intervals gs))"

definition git_init :: "gtid_set \<Rightarrow> gtid_iterator" where
  "git_init gs = next_sidno gs \<lparr>it_sidno = 0, it_gno = 0, it_ivs = []\<rparr>"

text \<open>\<open>next\<close> asserts that the iterator is not at its end; there \<open>ivit.get()\<close> is null.\<close>

definition git_next :: "gtid_set \<Rightarrow> gtid_iterator \<Rightarrow> gtid_iterator option" where
  "git_next gs it =
     (case it_ivs it of
        [] \<Rightarrow> None
      | iv # ivs \<Rightarrow>
          let gno = it_gno it + 1 in
          if gno = iv_end iv then
            (case ivs of
               [] \<Rightarrow> Some (next_sidno gs it)
             | iv' # _ \<Rightarrow> Some (it\<lparr>it_gno := iv_start iv', it_ivs := ivs\<rparr>))
          else Some (it\<lparr>it_gno := gno\<rparr>))"

definition git_get :: "gtid_iterator \<Rightarrow> nat \<times> int" where
  "git_get it = (it_sidno it, it_gno it)"

definition gs_is_empty :: "gtid_set \<Rightarrow> bool" where
  "gs_is_empty gs \<longleftrightarrow> fst (git_get (git_init gs)) = 0"

end
