(* ===== verification/Gtid_Set_Algebra.thy ===== *)
theory Gtid_Set_Algebra
  imports Gtid_Set
begin

text \<open>
  What the operations of \<open>Gtid_set\<close> compute: \<open>gtids\<close> reads a set as a set of (SIDNO, GNO) pairs,
  \<open>sid_gtids\<close> as a set of (SID, GNO) pairs. The invariant says that every list is normalised and
  that every interval cell is either free or in exactly one list.
\<close>

declare upt_Suc [simp del]

section \<open>Abstraction and invariant\<close>

definition gtids :: "gtid_set \<Rightarrow> (nat \<times> int) set" where
  "gtids gs = {(n, g). 1 \<le> n \<and> n \<le> get_max_sidno gs \<and> g \<in> gnos (m_intervals gs ! (n - 1))}"

definition gs_inv :: "gtid_set \<Rightarrow> bool" where
  "gs_inv gs \<longleftrightarrow>
     (\<forall>ivs \<in> set (m_intervals gs). wf_ivs ivs) \<and>
     pool_inv (sum_list (map length (m_intervals gs))) (gs_pool gs)"

lemma gs_inv_init [simp]: "gs_inv (gtid_set_init sm)"
  by (simp add: gs_inv_def gtid_set_init_def)

lemma gtid_set_init_simps [simp]:
  "gs_sid_map (gtid_set_init sm) = sm" "get_max_sidno (gtid_set_init sm) = 0"
  by (simp_all add: gtid_set_init_def get_max_sidno_def)

lemma gtids_init [simp]: "gtids (gtid_set_init sm) = {}"
  by (auto simp: gtids_def gtid_set_init_def get_max_sidno_def)

lemma ivs_at_Some [simp]:
  "ivs_at gs n = Some ivs \<longleftrightarrow>
     1 \<le> n \<and> n \<le> get_max_sidno gs \<and> ivs = m_intervals gs ! (n - 1)"
  by (auto simp: ivs_at_def)

lemma ivs_at_in [simp]:
  "1 \<le> n \<Longrightarrow> n \<le> get_max_sidno gs \<Longrightarrow> ivs_at gs n = Some (m_intervals gs ! (n - 1))"
  "Suc 0 \<le> n \<Longrightarrow> n \<le> get_max_sidno gs \<Longrightarrow> ivs_at gs n = Some (m_intervals gs ! (n - 1))"
  by simp_all

lemma gs_inv_wf: "gs_inv gs \<Longrightarrow> 1 \<le> n \<Longrightarrow> n \<le> get_max_sidno gs \<Longrightarrow> wf_ivs (m_intervals gs ! (n - 1))"
  by (auto simp: gs_inv_def get_max_sidno_def)

lemma gtids_iff:
  "1 \<le> n \<Longrightarrow> n \<le> get_max_sidno gs \<Longrightarrow> (n, g) \<in> gtids gs \<longleftrightarrow> g \<in> gnos (m_intervals gs ! (n - 1))"
  by (simp add: gtids_def)

lemma gtids_range: "(n, g) \<in> gtids gs \<Longrightarrow> 1 \<le> n \<and> n \<le> get_max_sidno gs"
  by (simp add: gtids_def)

lemma gtids_bounds: "gs_inv gs \<Longrightarrow> (n, g) \<in> gtids gs \<Longrightarrow> 1 \<le> g \<and> g < GNO_END"
  using gs_inv_wf gnos_bounds by (fastforce simp: gtids_def)

lemma contains_sidno_iff:
  assumes "gs_inv gs" and "1 \<le> n"
  shows "contains_sidno gs n \<longleftrightarrow> (\<exists>g. (n, g) \<in> gtids gs)"
proof (cases "n \<le> get_max_sidno gs")
  case True
  with assms gnos_Nil_iff [OF gs_inv_wf [OF assms True]] show ?thesis
    by (auto simp: contains_sidno_def gtids_iff)
qed (auto simp: contains_sidno_def gtids_def)

section \<open>Changing one list\<close>

lemma sum_length_update:
  "i < length xs \<Longrightarrow>
     int (sum_list (map length (xs[i := ys]))) =
     int (sum_list (map length xs)) - int (length (xs ! i)) + int (length ys)"
proof (induction xs arbitrary: i)
  case (Cons x xs)
  then show ?case by (cases i) auto
qed simp

definition replace_list :: "nat \<Rightarrow> int set \<Rightarrow> (nat \<times> int) set \<Rightarrow> (nat \<times> int) set" where
  "replace_list n G A = {(m, g) \<in> A. m \<noteq> n} \<union> {n} \<times> G"

lemma store_ivs_correct:
  assumes inv: "gs_inv gs" and n: "1 \<le> n" "n \<le> get_max_sidno gs"
    and wf: "wf_ivs (ivit_list (fst r))"
    and bal: "same_balance (m_intervals gs ! (n - 1)) (gs_pool gs) (ivit_list (fst r)) (snd r)"
  shows "gs_inv (store_ivs n r gs)"
    and "gtids (store_ivs n r gs) = replace_list n (gnos (ivit_list (fst r))) (gtids gs)"
proof -
  have i: "n - 1 < length (m_intervals gs)" using n by (simp add: get_max_sidno_def)
  have "pool_inv (sum_list (map length (m_intervals (store_ivs n r gs)))) (snd r)"
    using inv bal sum_length_update [OF i, of "ivit_list (fst r)"]
    by (simp add: gs_inv_def pool_inv_def same_balance_def store_ivs_def)
  moreover have "\<forall>ivs \<in> set (m_intervals (store_ivs n r gs)). wf_ivs ivs"
    using inv wf set_update_subset_insert [of "m_intervals gs" "n - 1" "ivit_list (fst r)"]
    by (auto simp: gs_inv_def store_ivs_def)
  ultimately show "gs_inv (store_ivs n r gs)" by (simp add: gs_inv_def store_ivs_def)
  show "gtids (store_ivs n r gs) = replace_list n (gnos (ivit_list (fst r))) (gtids gs)"
    using n i
    by (auto simp: gtids_def store_ivs_def replace_list_def get_max_sidno_def nth_list_update
        split: if_splits)
qed

lemma store_ivs_frame [simp]:
  "get_max_sidno (store_ivs n r gs) = get_max_sidno gs"
  "gs_sid_map (store_ivs n r gs) = gs_sid_map gs"
  by (simp_all add: store_ivs_def get_max_sidno_def)

lemma replace_list_same:
  "replace_list n (G \<union> {g. (n, g) \<in> A}) A = A \<union> {n} \<times> G"
  "replace_list n ({g. (n, g) \<in> A} - G) A = A - {n} \<times> G"
  by (auto simp: replace_list_def)

lemma gnos_at: "1 \<le> n \<Longrightarrow> n \<le> get_max_sidno gs \<Longrightarrow>
    gnos (m_intervals gs ! (n - 1)) = {g. (n, g) \<in> gtids gs}"
  by (simp add: gtids_iff)

lemma add_gno_intervals_correct:
  assumes inv: "gs_inv gs" and n: "1 \<le> n" "n \<le> get_max_sidno gs" and o: "wf_ivs others"
  obtains gs' where "add_gno_intervals n others gs = Some gs'" and "gs_inv gs'"
    and "gtids gs' = gtids gs \<union> {n} \<times> gnos others"
    and "get_max_sidno gs' = get_max_sidno gs" and "gs_sid_map gs' = gs_sid_map gs"
proof -
  let ?ivs = "m_intervals gs ! (n - 1)"
  obtain it p where r: "add_gno_intervals_from (ivit_init ?ivs) others (gs_pool gs) = (it, p)"
      "wf_ivs (ivit_list it)" "gnos (ivit_list it) = gnos ?ivs \<union> gnos others"
    using add_gno_intervals_from_correct [of "[]" ?ivs others "gs_pool gs"] gs_inv_wf [OF inv n] o
    by (auto simp: ivit_init_def)
  have bal: "same_balance ?ivs (gs_pool gs) (ivit_list it) p"
    using add_gno_intervals_from_balance [OF r(1)] by (simp add: ivit_init_def)
  note s = store_ivs_correct [OF inv n, of "(it, p)", simplified fst_conv snd_conv, OF r(2) bal]
  have "gtids (store_ivs n (it, p) gs) = gtids gs \<union> {n} \<times> gnos others"
    unfolding s(2) r(3) gnos_at [OF n] by (simp add: replace_list_same Un_commute)
  with s(1) r(1) n show thesis
    by (intro that [of "store_ivs n (it, p) gs"]) (simp_all add: add_gno_intervals_def)
qed

lemma remove_gno_intervals_correct:
  assumes inv: "gs_inv gs" and n: "1 \<le> n" "n \<le> get_max_sidno gs" and o: "wf_ivs others"
  obtains gs' where "remove_gno_intervals n others gs = Some gs'" and "gs_inv gs'"
    and "gtids gs' = gtids gs - {n} \<times> gnos others"
    and "get_max_sidno gs' = get_max_sidno gs" and "gs_sid_map gs' = gs_sid_map gs"
proof -
  let ?ivs = "m_intervals gs ! (n - 1)"
  let ?r = "remove_gno_intervals_from (ivit_init ?ivs) others (gs_pool gs)"
  have r: "wf_ivs (ivit_list (fst ?r))" "gnos (ivit_list (fst ?r)) = gnos ?ivs - gnos others"
    using remove_gno_intervals_from_correct [of "[]" ?ivs others "gs_pool gs"]
      gs_inv_wf [OF inv n] o
    by (auto simp: ivit_init_def)
  have bal: "same_balance ?ivs (gs_pool gs) (ivit_list (fst ?r)) (snd ?r)"
    using remove_gno_intervals_from_balance [of "ivit_init ?ivs" others "gs_pool gs" "fst ?r" "snd ?r"]
    by (simp add: ivit_init_def)
  note s = store_ivs_correct [OF inv n r(1) bal]
  have "gtids (store_ivs n ?r gs) = gtids gs - {n} \<times> gnos others"
    unfolding s(2) r(2) gnos_at [OF n] by (rule replace_list_same)
  with s(1) n show thesis
    by (intro that [of "store_ivs n ?r gs"]) (simp_all add: remove_gno_intervals_def)
qed

text \<open>A single GTID is the list of one interval.\<close>

lemma single_as_list:
  "gs_add_gtid n g gs = add_gno_intervals n [\<lparr>iv_start = g, iv_end = g + 1\<rparr>] gs"
  "n \<le> get_max_sidno gs \<Longrightarrow>
     gs_remove_gtid n g gs = remove_gno_intervals n [\<lparr>iv_start = g, iv_end = g + 1\<rparr>] gs"
  by (auto simp: gs_add_gtid_def add_gno_intervals_def gs_remove_gtid_def remove_gno_intervals_def
      split: prod.splits option.splits bind_splits)

section \<open>Growing and clearing\<close>

lemma push_nulls_ok: "push_nulls (\<lambda>_. True) n arr = (True, arr @ replicate n [])"
proof (induction n arbitrary: arr)
  case (Suc n)
  then show ?case by (simp add: replicate_append_same [symmetric])
qed simp

lemma gs_inv_grow:
  "gs_inv gs \<Longrightarrow> gs_inv (gs\<lparr>m_intervals := m_intervals gs @ replicate k []\<rparr>)"
  by (auto simp: gs_inv_def pool_inv_def)

lemma gtids_grow: "gtids (gs\<lparr>m_intervals := m_intervals gs @ replicate k []\<rparr>) = gtids gs"
proof -
  have "(n, g) \<in> gtids (gs\<lparr>m_intervals := m_intervals gs @ replicate k []\<rparr>) \<longleftrightarrow> (n, g) \<in> gtids gs"
    for n g by (cases n) (auto simp: gtids_def get_max_sidno_def nth_append split: if_splits)
  then show ?thesis by auto
qed

lemma gs_ensure_sidno_ok:
  assumes "gs_inv gs"
  obtains gs' where "gs_ensure_sidno (\<lambda>_. True) id n gs = (RETURN_STATUS_OK, gs')" and "gs_inv gs'"
    and "gtids gs' = gtids gs" and "get_max_sidno gs' = max n (get_max_sidno gs)"
    and "gs_sid_map gs' = gs_sid_map gs"
proof (cases "n > get_max_sidno gs")
  case True
  let ?gs = "gs\<lparr>m_intervals := m_intervals gs @ replicate (n - get_max_sidno gs) []\<rparr>"
  show thesis
  proof
    show "gs_ensure_sidno (\<lambda>_. True) id n gs = (RETURN_STATUS_OK, ?gs)"
      using True by (simp add: gs_ensure_sidno_def push_nulls_ok)
    show "get_max_sidno ?gs = max n (get_max_sidno gs)" using True by (simp add: get_max_sidno_def)
  qed (simp_all add: assms gs_inv_grow gtids_grow)
next
  case False
  with assms show thesis by (intro that [of gs]) (simp_all add: gs_ensure_sidno_def)
qed

lemma sum_length_nulls [simp]: "sum_list (map (length \<circ> (\<lambda>_. [])) xs) = 0"
  by (induction xs) auto

lemma gs_clear_correct:
  assumes "gs_inv gs"
  shows "gs_inv (gs_clear gs)" and "gtids (gs_clear gs) = {}"
    and "get_max_sidno (gs_clear gs) = get_max_sidno gs"
proof -
  from assms show "gs_inv (gs_clear gs)"
    by (auto simp: gs_clear_def gs_inv_def pool_inv_def cells_used_def invalidate_cache_def Let_def
        get_max_sidno_def)
  show "gtids (gs_clear gs) = {}"
    by (auto simp: gs_clear_def gtids_def get_max_sidno_def Let_def)
  show "get_max_sidno (gs_clear gs) = get_max_sidno gs"
    by (simp add: gs_clear_def get_max_sidno_def Let_def)
qed

section \<open>Union and difference over one numbering\<close>

definition gtids_in :: "nat set \<Rightarrow> gtid_set \<Rightarrow> (nat \<times> int) set" where
  "gtids_in N gs = {(n, g) \<in> gtids gs. n \<in> N}"

lemma gtids_in_insert:
  "1 \<le> n \<Longrightarrow> n \<le> get_max_sidno gs \<Longrightarrow>
     gtids_in (insert n N) gs = {n} \<times> gnos (m_intervals gs ! (n - 1)) \<union> gtids_in N gs"
  by (auto simp: gtids_in_def gtids_iff)

lemma gtids_in_simps [simp]:
  "gtids_in {} gs = {}"
  by (auto simp: gtids_in_def)

lemma gtids_in_all: "gtids_in {1 ..< Suc (get_max_sidno gs)} gs = gtids gs"
  by (auto simp: gtids_in_def dest: gtids_range)

lemma add_lists_from_correct:
  assumes "gs_inv gs" and "gs_inv other"
    and "\<forall>n \<in> set ns. 1 \<le> n \<and> n \<le> get_max_sidno other \<and> n \<le> get_max_sidno gs"
  shows "\<exists>gs'. add_lists_from other ns gs = Some gs' \<and> gs_inv gs' \<and>
    gtids gs' = gtids gs \<union> gtids_in (set ns) other \<and>
    get_max_sidno gs' = get_max_sidno gs \<and> gs_sid_map gs' = gs_sid_map gs"
  using assms
proof (induction other ns gs rule: add_lists_from.induct)
  case (1 other gs)
  then show ?case by simp
next
  case (2 other n ns gs)
  then have n: "1 \<le> n" "n \<le> get_max_sidno other" "n \<le> get_max_sidno gs" by auto
  let ?o = "m_intervals other ! (n - 1)"
  obtain gs1 where gs1: "add_gno_intervals n ?o gs = Some gs1" "gs_inv gs1"
      "gtids gs1 = gtids gs \<union> {n} \<times> gnos ?o" "get_max_sidno gs1 = get_max_sidno gs"
      "gs_sid_map gs1 = gs_sid_map gs"
    using add_gno_intervals_correct [OF 2(2) n(1,3) gs_inv_wf [OF 2(3) n(1,2)]] by metis
  obtain gs' where "add_lists_from other ns gs1 = Some gs'" "gs_inv gs'"
      "gtids gs' = gtids gs1 \<union> gtids_in (set ns) other" "get_max_sidno gs' = get_max_sidno gs1"
      "gs_sid_map gs' = gs_sid_map gs1"
    using 2(1) [of ?o gs1] 2(3,4) n gs1 by auto
  with gs1 n show ?case by (simp add: gtids_in_insert Un_assoc)
qed

lemma remove_lists_from_correct:
  assumes "gs_inv gs" and "gs_inv other"
    and "\<forall>n \<in> set ns. 1 \<le> n \<and> n \<le> get_max_sidno other \<and> n \<le> get_max_sidno gs"
  shows "\<exists>gs'. remove_lists_from other ns gs = Some gs' \<and> gs_inv gs' \<and>
    gtids gs' = gtids gs - gtids_in (set ns) other \<and>
    get_max_sidno gs' = get_max_sidno gs \<and> gs_sid_map gs' = gs_sid_map gs"
  using assms
proof (induction other ns gs rule: remove_lists_from.induct)
  case (1 other gs)
  then show ?case by simp
next
  case (2 other n ns gs)
  then have n: "1 \<le> n" "n \<le> get_max_sidno other" "n \<le> get_max_sidno gs" by auto
  let ?o = "m_intervals other ! (n - 1)"
  obtain gs1 where gs1: "remove_gno_intervals n ?o gs = Some gs1" "gs_inv gs1"
      "gtids gs1 = gtids gs - {n} \<times> gnos ?o" "get_max_sidno gs1 = get_max_sidno gs"
      "gs_sid_map gs1 = gs_sid_map gs"
    using remove_gno_intervals_correct [OF 2(2) n(1,3) gs_inv_wf [OF 2(3) n(1,2)]] by metis
  obtain gs' where "remove_lists_from other ns gs1 = Some gs'" "gs_inv gs'"
      "gtids gs' = gtids gs1 - gtids_in (set ns) other" "get_max_sidno gs' = get_max_sidno gs1"
      "gs_sid_map gs' = gs_sid_map gs1"
    using 2(1) [of ?o gs1] 2(3,4) n gs1 by auto
  with gs1 n show ?case by (simp add: gtids_in_insert Diff_Un_Diff)
qed

lemma add_gtid_set_same_map:
  assumes "gs_inv gs" and "gs_inv other" and "same_sid_map gs other"
  obtains gs' where "add_gtid_set gs_env_ok other maps gs = Some (RETURN_STATUS_OK, maps, gs')"
    and "gs_inv gs'" and "gtids gs' = gtids gs \<union> gtids other"
    and "get_max_sidno gs' = max (get_max_sidno other) (get_max_sidno gs)"
    and "gs_sid_map gs' = gs_sid_map gs"
proof -
  obtain gs1 where e: "gs_ensure_sidno (\<lambda>_. True) id (get_max_sidno other) gs = (RETURN_STATUS_OK, gs1)"
      "gs_inv gs1" "gtids gs1 = gtids gs" "get_max_sidno gs1 = max (get_max_sidno other) (get_max_sidno gs)"
      "gs_sid_map gs1 = gs_sid_map gs"
    using gs_ensure_sidno_ok [OF assms(1), of "get_max_sidno other"] by metis
  let ?ns = "[1 ..< Suc (get_max_sidno other)]"
  have "\<forall>n \<in> set ?ns. 1 \<le> n \<and> n \<le> get_max_sidno other \<and> n \<le> get_max_sidno gs1"
    using e(4) by auto
  from add_lists_from_correct [OF e(2) assms(2) this]
  obtain gs2 where "add_lists_from other ?ns gs1 = Some gs2" "gs_inv gs2"
      "gtids gs2 = gtids gs1 \<union> gtids other" "get_max_sidno gs2 = get_max_sidno gs1"
      "gs_sid_map gs2 = gs_sid_map gs1"
    unfolding set_upt gtids_in_all by blast
  with e assms(3) show thesis
    by (intro that [of gs2]) (simp_all add: add_gtid_set_def gs_env_ok_def)
qed

lemma remove_gtid_set_same_map:
  assumes "gs_inv gs" and "gs_inv other" and "same_sid_map gs other"
  obtains gs' where "remove_gtid_set other maps gs = Some gs'" and "gs_inv gs'"
    and "gtids gs' = gtids gs - gtids other"
    and "get_max_sidno gs' = get_max_sidno gs" and "gs_sid_map gs' = gs_sid_map gs"
proof -
  let ?ns = "[1 ..< Suc (min (get_max_sidno other) (get_max_sidno gs))]"
  have "\<forall>n \<in> set ?ns. 1 \<le> n \<and> n \<le> get_max_sidno other \<and> n \<le> get_max_sidno gs" by auto
  from remove_lists_from_correct [OF assms(1,2) this]
  obtain gs' where "remove_lists_from other ?ns gs = Some gs'" "gs_inv gs'"
      "gtids gs' = gtids gs - gtids_in (set ?ns) other" "get_max_sidno gs' = get_max_sidno gs"
      "gs_sid_map gs' = gs_sid_map gs"
    by blast
  moreover have "gtids gs - gtids_in (set ?ns) other = gtids gs - gtids other"
    by (auto simp: gtids_in_def gtids_def)
  ultimately show thesis using assms(3)
    by (intro that [of gs']) (simp_all add: remove_gtid_set_def)
qed

section \<open>Union and difference across two numberings\<close>

definition gs_ok :: "sid_maps \<Rightarrow> gtid_set \<Rightarrow> bool" where
  "gs_ok maps gs \<longleftrightarrow> gs_inv gs \<and> gs_sid_map gs \<noteq> None \<and> sid_map_inv (map_of_set maps gs) \<and>
     get_max_sidno gs \<le> sm_max_sidno (map_of_set maps gs)"

definition sid_gtids :: "sid_maps \<Rightarrow> gtid_set \<Rightarrow> (sid \<times> int) set" where
  "sid_gtids maps gs = sidmap.by_sid (map_of_set maps gs) (gtids gs)"

lemma within_gtids: "get_max_sidno gs \<le> sm_max_sidno sm \<Longrightarrow> sidmap.within sm (gtids gs)"
  by (auto simp: sidmap.within_def dest!: gtids_range)

lemma within_list:
  "1 \<le> n \<Longrightarrow> n \<le> sm_max_sidno sm \<Longrightarrow> sidmap.within sm ({n} \<times> G)"
  by (auto simp: sidmap.within_def)

lemma by_sid_list: "sidmap.by_sid sm ({n} \<times> G) = {sidno_to_sid sm n} \<times> G"
  by (auto simp: sidmap.by_sid_def)

lemma by_sid_extends:
  assumes "sm_extends sm sm'" and "sidmap.within sm A"
  shows "sidmap.by_sid sm' A = sidmap.by_sid sm A"
proof -
  have "sidno_to_sid sm' n = sidno_to_sid sm n" if "(n, g) \<in> A" for n g
    using assms that by (auto simp: sidmap.within_def intro!: sm_extends_sid)
  then show ?thesis by (force simp: sidmap.by_sid_def)
qed

lemma by_sid_absent:
  assumes "sid_map_inv sm" and "sidmap.within sm A" and "sid_to_sidno sm sid = 0"
  shows "(sid, g) \<notin> sidmap.by_sid sm A"
proof
  assume "(sid, g) \<in> sidmap.by_sid sm A"
  then obtain n where "(n, g) \<in> A" "sid = sidno_to_sid sm n" by (auto simp: sidmap.by_sid_def)
  with assms sid_to_sidno_inv [OF assms(1), of n] show False by (auto simp: sidmap.within_def)
qed

lemma gtids_in_by_sid:
  assumes "1 \<le> n" and "n \<le> get_max_sidno gs"
  shows "sidmap.by_sid sm (gtids_in (insert n N) gs) =
    {sidno_to_sid sm n} \<times> gnos (m_intervals gs ! (n - 1)) \<union> sidmap.by_sid sm (gtids_in N gs)"
  by (simp only: gtids_in_insert [OF assms] sidmap.by_sid_Un by_sid_list)

definition add_translated_post ::
  "sid_map \<Rightarrow> gtid_set \<Rightarrow> (sid \<times> int) set \<Rightarrow> sid_map \<Rightarrow> gtid_set \<Rightarrow> bool" where
  "add_translated_post sm gs S sm' gs' \<longleftrightarrow>
     gs_inv gs' \<and> sid_map_inv sm' \<and> sm_extends sm sm' \<and> get_max_sidno gs' \<le> sm_max_sidno sm' \<and>
     sidmap.by_sid sm' (gtids gs') = sidmap.by_sid sm (gtids gs) \<union> S \<and>
     gs_sid_map gs' = gs_sid_map gs \<and> get_max_sidno gs \<le> get_max_sidno gs'"

lemma add_translated_post_trans:
  "add_translated_post sm gs S sm1 gs1 \<Longrightarrow> add_translated_post sm1 gs1 T sm2 gs2 \<Longrightarrow>
     add_translated_post sm gs (S \<union> T) sm2 gs2"
  by (auto simp: add_translated_post_def intro: sm_extends_trans)

text \<open>
  One SID of another set or of an encoding: it is looked up or numbered, room is made, and its list
  is replaced by one with more GNOs.
\<close>

lemma sid_step:
  assumes inv: "gs_inv gs" "sid_map_inv sm" "get_max_sidno gs \<le> sm_max_sidno sm"
    and sid: "length sid = BYTE_LENGTH"
  obtains n sm1 gs1 where "add_sid env_ok sid sm = (Some n, sm1)"
    and "gs_ensure_sidno (\<lambda>_. True) id n gs = (RETURN_STATUS_OK, gs1)"
    and "1 \<le> n" and "n \<le> get_max_sidno gs1" and "gs_inv gs1"
    and "add_translated_post sm gs {} sm1 gs1"
    and "\<And>it p G. wf_ivs (ivit_list it) \<Longrightarrow>
      same_balance (m_intervals gs1 ! (n - 1)) (gs_pool gs1) (ivit_list it) p \<Longrightarrow>
      gnos (ivit_list it) = gnos (m_intervals gs1 ! (n - 1)) \<union> G \<Longrightarrow>
      add_translated_post sm gs ({sid} \<times> G) sm1 (store_ivs n (it, p) gs1)"
proof -
  obtain n sm1 where a: "add_sid env_ok sid sm = (Some n, sm1)" "sid_map_inv sm1"
      "sm_extends sm sm1" "1 \<le> n" "n \<le> sm_max_sidno sm1" "sidno_to_sid sm1 n = sid"
    using add_sid_ok [OF inv(2) sid] by metis
  obtain gs1 where e: "gs_ensure_sidno (\<lambda>_. True) id n gs = (RETURN_STATUS_OK, gs1)" "gs_inv gs1"
      "gtids gs1 = gtids gs" "get_max_sidno gs1 = max n (get_max_sidno gs)"
      "gs_sid_map gs1 = gs_sid_map gs"
    using gs_ensure_sidno_ok [OF inv(1), of n] by metis
  have n: "1 \<le> n" "n \<le> get_max_sidno gs1" using a e by simp_all
  note old = by_sid_extends [OF a(3) within_gtids [OF inv(3)]]
  have "add_translated_post sm gs {} sm1 gs1"
    using a e inv(3) sm_extends_max [OF a(3)] old by (simp add: add_translated_post_def)
  moreover have "add_translated_post sm gs ({sid} \<times> G) sm1 (store_ivs n (it, p) gs1)"
    if h: "wf_ivs (ivit_list it)"
      "same_balance (m_intervals gs1 ! (n - 1)) (gs_pool gs1) (ivit_list it) p"
      "gnos (ivit_list it) = gnos (m_intervals gs1 ! (n - 1)) \<union> G" for it p G
  proof -
    note st = store_ivs_correct [OF e(2) n, of "(it, p)", simplified fst_conv snd_conv, OF h(1,2)]
    have "gtids (store_ivs n (it, p) gs1) = gtids gs \<union> {n} \<times> G"
      unfolding st(2) h(3) gnos_at [OF n] e(3) [symmetric] by (simp add: replace_list_same Un_commute)
    then have "sidmap.by_sid sm1 (gtids (store_ivs n (it, p) gs1)) = sidmap.by_sid sm (gtids gs) \<union> {sid} \<times> G"
      by (simp only: sidmap.by_sid_Un by_sid_list a(6) old)
    with a e st(1) inv(3) sm_extends_max [OF a(3)] show ?thesis
      by (simp add: add_translated_post_def)
  qed
  ultimately show thesis using that [OF a(1) e(1) n e(2)] by blast
qed

lemma add_translated_step:
  assumes inv: "gs_inv gs" "sid_map_inv sm" "get_max_sidno gs \<le> sm_max_sidno sm"
    and sid: "length sid = BYTE_LENGTH" and wf: "wf_ivs others"
  obtains n sm1 gs1 gs2 where "add_sid env_ok sid sm = (Some n, sm1)"
    and "gs_ensure_sidno (\<lambda>_. True) id n gs = (RETURN_STATUS_OK, gs1)"
    and "add_gno_intervals n others gs1 = Some gs2"
    and "add_translated_post sm gs ({sid} \<times> gnos others) sm1 gs2"
proof (rule sid_step [OF inv sid])
  fix n sm1 and gs1 :: gtid_set
  let ?ivs = "m_intervals gs1 ! (n - 1)"
  assume s: "add_sid env_ok sid sm = (Some n, sm1)"
      "gs_ensure_sidno (\<lambda>_. True) id n gs = (RETURN_STATUS_OK, gs1)"
      "1 \<le> n" "n \<le> get_max_sidno gs1" "gs_inv gs1"
    and post: "\<And>it p G. wf_ivs (ivit_list it) \<Longrightarrow> same_balance ?ivs (gs_pool gs1) (ivit_list it) p \<Longrightarrow>
      gnos (ivit_list it) = gnos ?ivs \<union> G \<Longrightarrow>
      add_translated_post sm gs ({sid} \<times> G) sm1 (store_ivs n (it, p) gs1)"
  obtain it p where r: "add_gno_intervals_from (ivit_init ?ivs) others (gs_pool gs1) = (it, p)"
      "wf_ivs (ivit_list it)" "gnos (ivit_list it) = gnos ?ivs \<union> gnos others"
    using add_gno_intervals_from_correct [of "[]" ?ivs others "gs_pool gs1"] gs_inv_wf [OF s(5,3,4)] wf
    by (auto simp: ivit_init_def)
  have "same_balance ?ivs (gs_pool gs1) (ivit_list it) p"
    using add_gno_intervals_from_balance [OF r(1)] by (simp add: ivit_init_def)
  from post [OF r(2) this r(3)] s r(1) show thesis
    by (intro that [of n sm1 gs1 "store_ivs n (it, p) gs1"]) (simp_all add: add_gno_intervals_def)
qed

lemma add_translated_from_correct:
  assumes "gs_inv gs" and "gs_inv other" and "sid_map_inv sm" and "sid_map_inv osm"
    and "get_max_sidno gs \<le> sm_max_sidno sm" and "get_max_sidno other \<le> sm_max_sidno osm"
    and "\<forall>n \<in> set ns. 1 \<le> n \<and> n \<le> get_max_sidno other"
  shows "\<exists>sm' gs'. add_translated_from gs_env_ok other osm ns sm gs = Some (RETURN_STATUS_OK, sm', gs') \<and>
    add_translated_post sm gs (sidmap.by_sid osm (gtids_in (set ns) other)) sm' gs'"
  using assms
proof (induction ns arbitrary: sm gs)
  case Nil
  then show ?case by (simp add: add_translated_post_def sidmap.by_sid_def)
next
  case (Cons n ns)
  let ?o = "m_intervals other ! (n - 1)" and ?T = "sidmap.by_sid osm (gtids_in (set ns) other)"
  have n: "1 \<le> n" "n \<le> get_max_sidno other" using Cons.prems by auto
  have wf: "wf_ivs ?o" using gs_inv_wf [OF Cons.prems(2) n] .
  have sid: "length (sidno_to_sid osm n) = BYTE_LENGTH"
    using sid_map_inv_length [OF Cons.prems(4) n(1)] n(2) Cons.prems(6) by simp
  have goal: "sidmap.by_sid osm (gtids_in (set (n # ns)) other) =
      {sidno_to_sid osm n} \<times> gnos ?o \<union> ?T"
    using gtids_in_by_sid [OF n, of osm "set ns"] by simp
  show ?case
  proof (cases "?o = []")
    case True
    obtain sm' gs' where "add_translated_from gs_env_ok other osm ns sm gs = Some (RETURN_STATUS_OK, sm', gs')"
        "add_translated_post sm gs ?T sm' gs'"
      using Cons.IH [of gs sm] Cons.prems by auto
    with True n show ?thesis unfolding goal by (simp add: True)
  next
    case False
    obtain k sm1 gs1 gs2 where st: "add_sid env_ok (sidno_to_sid osm n) sm = (Some k, sm1)"
        "gs_ensure_sidno (\<lambda>_. True) id k gs = (RETURN_STATUS_OK, gs1)"
        "add_gno_intervals k ?o gs1 = Some gs2"
        "add_translated_post sm gs ({sidno_to_sid osm n} \<times> gnos ?o) sm1 gs2"
      using add_translated_step [OF Cons.prems(1,3,5) sid wf] by metis
    have "gs_inv gs2" "sid_map_inv sm1" "get_max_sidno gs2 \<le> sm_max_sidno sm1"
      using st(4) by (simp_all add: add_translated_post_def)
    then obtain sm' gs' where r: "add_translated_from gs_env_ok other osm ns sm1 gs2 = Some (RETURN_STATUS_OK, sm', gs')"
        "add_translated_post sm1 gs2 ?T sm' gs'"
      using Cons.IH [of gs2 sm1] Cons.prems by auto
    have "add_translated_post sm gs ({sidno_to_sid osm n} \<times> gnos ?o \<union> ?T) sm' gs'"
      using add_translated_post_trans [OF st(4) r(2)] .
    with False n st r(1) show ?thesis unfolding goal by (simp add: gs_env_ok_def)
  qed
qed

text \<open>
  \<open>remove_gtid_set\<close> translates a SID to a number of this set without making room for it; the array
  has to be long enough already.
\<close>

definition fits :: "sid_maps \<Rightarrow> gtid_set \<Rightarrow> gtid_set \<Rightarrow> bool" where
  "fits maps other gs \<longleftrightarrow> same_sid_map gs other \<or>
     (\<forall>n \<in> {1 .. get_max_sidno other}.
        contains_sidno other n \<longrightarrow> sidno_in maps other gs n \<le> get_max_sidno gs)"

lemma remove_translated_from_correct:
  assumes "gs_inv gs" and "gs_inv other" and "sid_map_inv sm"
    and "get_max_sidno gs \<le> sm_max_sidno sm"
    and "\<forall>n \<in> set ns. 1 \<le> n \<and> n \<le> get_max_sidno other \<and>
      (contains_sidno other n \<longrightarrow> sid_to_sidno sm (sidno_to_sid osm n) \<le> get_max_sidno gs)"
  shows "\<exists>gs'. remove_translated_from other osm ns sm gs = Some gs' \<and> gs_inv gs' \<and>
    sidmap.by_sid sm (gtids gs') =
      sidmap.by_sid sm (gtids gs) - sidmap.by_sid osm (gtids_in (set ns) other) \<and>
    get_max_sidno gs' = get_max_sidno gs \<and> gs_sid_map gs' = gs_sid_map gs"
  using assms
proof (induction ns arbitrary: gs)
  case Nil
  then show ?case by (simp add: sidmap.by_sid_def)
next
  case (Cons n ns)
  let ?o = "m_intervals other ! (n - 1)" and ?T = "sidmap.by_sid osm (gtids_in (set ns) other)"
  let ?sid = "sidno_to_sid osm n"
  let ?k = "sid_to_sidno sm ?sid"
  have n: "1 \<le> n" "n \<le> get_max_sidno other" using Cons.prems by auto
  have goal: "sidmap.by_sid osm (gtids_in (set (n # ns)) other) = {?sid} \<times> gnos ?o \<union> ?T"
    using gtids_in_by_sid [OF n, of osm "set ns"] by simp
  have IH: "\<exists>gs'. remove_translated_from other osm ns sm g = Some gs' \<and> gs_inv gs' \<and>
      sidmap.by_sid sm (gtids gs') = sidmap.by_sid sm (gtids g) - ?T \<and>
      get_max_sidno gs' = get_max_sidno gs \<and> gs_sid_map gs' = gs_sid_map gs"
    if "gs_inv g" "get_max_sidno g = get_max_sidno gs" "gs_sid_map g = gs_sid_map gs" for g
    using Cons.IH [of g] Cons.prems that by simp
  show ?case
  proof (cases "?o \<noteq> [] \<and> ?k \<noteq> 0")
    case True
    then have k: "1 \<le> ?k" "?k \<le> get_max_sidno gs"
      using Cons.prems(5) n by (auto simp: contains_sidno_def)
    obtain gs1 where r: "remove_gno_intervals ?k ?o gs = Some gs1" "gs_inv gs1"
        "gtids gs1 = gtids gs - {?k} \<times> gnos ?o" "get_max_sidno gs1 = get_max_sidno gs"
        "gs_sid_map gs1 = gs_sid_map gs"
      using remove_gno_intervals_correct [OF Cons.prems(1) k gs_inv_wf [OF Cons.prems(2) n]] by metis
    have "sidno_to_sid sm ?k = ?sid" using sidmap.sid_of_sidno [OF Cons.prems(3)] True by blast
    then have "sidmap.by_sid sm (gtids gs1) = sidmap.by_sid sm (gtids gs) - {?sid} \<times> gnos ?o"
      unfolding r(3) using Cons.prems(4) k
      by (subst sidmap.by_sid_Diff [OF Cons.prems(3) within_gtids within_list]) (simp_all add: by_sid_list)
    with IH [OF r(2,4,5)] r(1) True n show ?thesis unfolding goal by (auto simp: Diff_Un_Diff)
  next
    case False
    then have "sidmap.by_sid sm (gtids gs) \<inter> {?sid} \<times> gnos ?o = {}"
      using by_sid_absent [OF Cons.prems(3) within_gtids [OF Cons.prems(4)]] by auto
    then have "sidmap.by_sid sm (gtids gs) - {?sid} \<times> gnos ?o = sidmap.by_sid sm (gtids gs)"
      by (rule Diff_triv)
    with IH [of gs] Cons.prems(1) False n show ?thesis unfolding goal by (auto simp: Diff_Un_Diff)
  qed
qed

text \<open>The store of maps only grows.\<close>

definition maps_extend :: "sid_maps \<Rightarrow> sid_maps \<Rightarrow> bool" where
  "maps_extend maps maps' \<longleftrightarrow>
     (\<forall>a. sm_extends (maps a) (maps' a) \<and> (sid_map_inv (maps a) \<longrightarrow> sid_map_inv (maps' a)))"

lemma gs_ok_extend:
  assumes "maps_extend maps maps'" and "gs_ok maps gs"
  shows "gs_ok maps' gs" and "sid_gtids maps' gs = sid_gtids maps gs"
proof -
  have e: "sm_extends (map_of_set maps gs) (map_of_set maps' gs)"
      "sid_map_inv (map_of_set maps' gs)"
    using assms by (auto simp: maps_extend_def gs_ok_def map_of_set_def)
  show "gs_ok maps' gs" using e assms sm_extends_max [OF e(1)] by (simp add: gs_ok_def)
  show "sid_gtids maps' gs = sid_gtids maps gs"
    using assms(2) by (simp add: sid_gtids_def gs_ok_def by_sid_extends [OF e(1) within_gtids])
qed

lemma add_gtid_set_ok:
  assumes gs: "gs_ok maps gs" and other: "gs_ok maps other"
  obtains maps' gs' where "add_gtid_set gs_env_ok other maps gs = Some (RETURN_STATUS_OK, maps', gs')"
    and "maps_extend maps maps'" and "gs_ok maps' gs'"
    and "sid_gtids maps' gs' = sid_gtids maps gs \<union> sid_gtids maps other"
    and "gs_sid_map gs' = gs_sid_map gs"
proof (cases "same_sid_map gs other")
  case True
  then have same: "map_of_set maps other = map_of_set maps gs"
    using gs other by (auto simp: same_sid_map_def gs_ok_def map_of_set_def)
  obtain gs' where r: "add_gtid_set gs_env_ok other maps gs = Some (RETURN_STATUS_OK, maps, gs')"
      "gs_inv gs'" "gtids gs' = gtids gs \<union> gtids other"
      "get_max_sidno gs' = max (get_max_sidno other) (get_max_sidno gs)" "gs_sid_map gs' = gs_sid_map gs"
    using add_gtid_set_same_map [of gs other maps] gs other True unfolding gs_ok_def by metis
  have m: "map_of_set maps gs' = map_of_set maps gs" using r(5) by (simp add: map_of_set_def)
  show thesis
  proof (rule that [OF r(1)])
    show "maps_extend maps maps" by (simp add: maps_extend_def)
    show "gs_ok maps gs'" using gs other r m same by (simp add: gs_ok_def)
    show "sid_gtids maps gs' = sid_gtids maps gs \<union> sid_gtids maps other"
      by (simp add: sid_gtids_def m same r(3) sidmap.by_sid_Un)
  qed (use r(5) in simp)
next
  case False
  let ?ns = "[1 ..< Suc (get_max_sidno other)]" and ?a = "the (gs_sid_map gs)"
  have ns: "\<forall>n \<in> set ?ns. 1 \<le> n \<and> n \<le> get_max_sidno other" by auto
  obtain sm' gs' where r: "add_translated_from gs_env_ok other (map_of_set maps other) ?ns
        (map_of_set maps gs) gs = Some (RETURN_STATUS_OK, sm', gs')"
      "add_translated_post (map_of_set maps gs) gs (sidmap.by_sid (map_of_set maps other) (gtids other)) sm' gs'"
    using add_translated_from_correct [OF _ _ _ _ _ _ ns, of gs "map_of_set maps gs" "map_of_set maps other"]
      gs other
    unfolding gs_ok_def set_upt gtids_in_all by blast
  have m: "map_of_set (maps(?a := sm')) gs' = sm'" "gs_sid_map gs' = gs_sid_map gs"
    using r(2) by (simp_all add: map_of_set_def add_translated_post_def)
  show thesis
  proof (rule that [OF _ _ _ _ m(2)])
    show "add_gtid_set gs_env_ok other maps gs = Some (RETURN_STATUS_OK, maps(?a := sm'), gs')"
      using False r(1) by (simp add: add_gtid_set_def)
    show "maps_extend maps (maps(?a := sm'))"
      using r(2) by (auto simp: maps_extend_def add_translated_post_def map_of_set_def)
    show "gs_ok (maps(?a := sm')) gs'"
      using r(2) m gs unfolding gs_ok_def by (simp add: add_translated_post_def)
    show "sid_gtids (maps(?a := sm')) gs' = sid_gtids maps gs \<union> sid_gtids maps other"
      using r(2) by (simp add: sid_gtids_def m add_translated_post_def)
  qed
qed

lemma remove_gtid_set_ok:
  assumes gs: "gs_ok maps gs" and other: "gs_ok maps other" and fits: "fits maps other gs"
  obtains gs' where "remove_gtid_set other maps gs = Some gs'" and "gs_ok maps gs'"
    and "sid_gtids maps gs' = sid_gtids maps gs - sid_gtids maps other"
    and "gs_sid_map gs' = gs_sid_map gs" and "get_max_sidno gs' = get_max_sidno gs"
proof -
  let ?sm = "map_of_set maps gs" and ?osm = "map_of_set maps other"
  let ?ns = "[1 ..< Suc (get_max_sidno other)]"
  have I: "gs_inv gs" "gs_inv other" "sid_map_inv ?sm" "get_max_sidno gs \<le> sm_max_sidno ?sm"
      "get_max_sidno other \<le> sm_max_sidno ?osm"
    using gs other by (simp_all add: gs_ok_def)
  have "\<exists>gs'. remove_gtid_set other maps gs = Some gs' \<and> gs_inv gs' \<and>
      sidmap.by_sid ?sm (gtids gs') = sidmap.by_sid ?sm (gtids gs) - sidmap.by_sid ?osm (gtids other) \<and>
      get_max_sidno gs' = get_max_sidno gs \<and> gs_sid_map gs' = gs_sid_map gs"
  proof (cases "same_sid_map gs other")
    case True
    then have same: "?osm = ?sm"
      using gs other by (auto simp: same_sid_map_def gs_ok_def map_of_set_def)
    have w: "sidmap.within ?sm (gtids other)" using within_gtids [OF I(5)] same by simp
    show ?thesis
      using remove_gtid_set_same_map [OF I(1,2) True, of maps]
        sidmap.by_sid_Diff [OF I(3) within_gtids [OF I(4)] w] same
      by metis
  next
    case False
    then have "\<forall>n \<in> set ?ns. 1 \<le> n \<and> n \<le> get_max_sidno other \<and>
        (contains_sidno other n \<longrightarrow> sid_to_sidno ?sm (sidno_to_sid ?osm n) \<le> get_max_sidno gs)"
      using fits by (auto simp: fits_def sidno_in_def same_sid_map_def)
    from remove_translated_from_correct [OF I(1-4) this] False show ?thesis
      unfolding set_upt gtids_in_all by (simp add: remove_gtid_set_def)
  qed
  then obtain gs' where r: "remove_gtid_set other maps gs = Some gs'" "gs_inv gs'"
      "sidmap.by_sid ?sm (gtids gs') = sidmap.by_sid ?sm (gtids gs) - sidmap.by_sid ?osm (gtids other)"
      "get_max_sidno gs' = get_max_sidno gs" "gs_sid_map gs' = gs_sid_map gs"
    by blast
  then have "map_of_set maps gs' = ?sm" by (simp add: map_of_set_def)
  with r gs show thesis by (intro that [of gs']) (simp_all add: gs_ok_def sid_gtids_def)
qed

section \<open>Intersection, from the laws of union and difference\<close>

text \<open>
  \<open>Gtid_set::intersection\<close> is written over the other operations only. Its correctness is proved
  from what they promise: \<open>add\<close> and \<open>rem\<close> are union and difference, the world \<open>'m\<close> (the store of
  SID maps) only grows, \<open>num\<close> is the numbering a set is bound to.
\<close>

locale gtid_collection =
  fixes ok :: "'m \<Rightarrow> 'g \<Rightarrow> bool" and abs :: "'m \<Rightarrow> 'g \<Rightarrow> 'e set" and ext :: "'m \<Rightarrow> 'm \<Rightarrow> bool"
    and num :: "'g \<Rightarrow> 'n" and empty_like :: "'g \<Rightarrow> 'g" and fit :: "'m \<Rightarrow> 'g \<Rightarrow> 'g \<Rightarrow> bool"
    and add :: "'g \<Rightarrow> 'm \<Rightarrow> 'g \<Rightarrow> ('m \<times> 'g) option" and rem :: "'g \<Rightarrow> 'm \<Rightarrow> 'g \<Rightarrow> 'g option"
  assumes empty_law: "ok m a \<Longrightarrow> ok m (empty_like a) \<and> abs m (empty_like a) = {} \<and> num (empty_like a) = num a"
    and add_law: "ok m a \<Longrightarrow> ok m b \<Longrightarrow> \<exists>m' a'. add b m a = Some (m', a') \<and> ext m m' \<and> ok m' a' \<and>
      abs m' a' = abs m a \<union> abs m b \<and> num a' = num a"
    and ext_law: "ext m m' \<Longrightarrow> ok m a \<Longrightarrow> ok m' a \<and> abs m' a = abs m a"
    and rem_law: "ok m a \<Longrightarrow> ok m b \<Longrightarrow> fit m b a \<Longrightarrow> \<exists>a'. rem b m a = Some a' \<and> ok m a' \<and>
      abs m a' = abs m a - abs m b \<and> num a' = num a"
    and fit_same: "ok m a \<Longrightarrow> ok m b \<Longrightarrow> num a = num b \<Longrightarrow> fit m b a"
    and fit_copy: "ok m a \<Longrightarrow> ok m b \<Longrightarrow> add a m (empty_like a) = Some (m', a') \<Longrightarrow> fit m b a \<Longrightarrow> fit m' b a'"
begin

definition intersect_into :: "'g \<Rightarrow> 'g \<Rightarrow> 'm \<Rightarrow> 'g \<Rightarrow> ('m \<times> 'g) option" where
  "intersect_into this other m result = do {
     (m1, diff) \<leftarrow> add this m (empty_like this);
     diff1 \<leftarrow> rem other m1 diff;
     (m2, inter) \<leftarrow> add this m1 (empty_like this);
     inter1 \<leftarrow> rem diff1 m2 inter;
     add inter1 m2 result }"

lemma intersect_into_correct:
  assumes ok: "ok m this" "ok m other" "ok m result" and fit: "fit m other this"
  shows "\<exists>m' result'. intersect_into this other m result = Some (m', result') \<and> ok m' result' \<and>
    abs m' result' = abs m result \<union> (abs m this \<inter> abs m other) \<and> num result' = num result"
proof -
  have e: "ok m (empty_like this)" "abs m (empty_like this) = {}" "num (empty_like this) = num this"
    using empty_law [OF ok(1)] by simp_all
  obtain m1 d where d: "add this m (empty_like this) = Some (m1, d)" "ext m m1" "ok m1 d"
      "abs m1 d = abs m this" "num d = num this"
    using add_law [OF e(1) ok(1)] e by auto
  have w1: "ok m1 this" "abs m1 this = abs m this" "ok m1 other" "abs m1 other = abs m other"
      "ok m1 result" "abs m1 result = abs m result"
    using ext_law [OF d(2)] ok by auto
  obtain d1 where d1: "rem other m1 d = Some d1" "ok m1 d1" "abs m1 d1 = abs m this - abs m other"
      "num d1 = num this"
    using rem_law [OF d(3) w1(3) fit_copy [OF ok(1,2) d(1) fit]] d w1 by auto
  obtain m2 i where i: "add this m1 (empty_like this) = Some (m2, i)" "ext m1 m2" "ok m2 i"
      "abs m2 i = abs m this" "num i = num this"
    using add_law [of m1 "empty_like this" this] empty_law [OF w1(1)] w1 by auto
  have w2: "ok m2 d1" "abs m2 d1 = abs m this - abs m other" "ok m2 result"
      "abs m2 result = abs m result"
    using ext_law [OF i(2)] d1 w1 by auto
  obtain i1 where i1: "rem d1 m2 i = Some i1" "ok m2 i1"
      "abs m2 i1 = abs m this - (abs m this - abs m other)"
    using rem_law [OF i(3) w2(1) fit_same [OF i(3) w2(1)]] i d1 w2 by auto
  obtain m3 r where r: "add i1 m2 result = Some (m3, r)" "ok m3 r"
      "abs m3 r = abs m2 result \<union> abs m2 i1" "num r = num result"
    using add_law [OF w2(3) i1(2)] by auto
  with d d1 i i1 w2 show ?thesis by (auto simp: intersect_into_def)
qed

end

definition union_into :: "gtid_set \<Rightarrow> sid_maps \<Rightarrow> gtid_set \<Rightarrow> (sid_maps \<times> gtid_set) option" where
  "union_into other maps gs =
     (case add_gtid_set gs_env_ok other maps gs of
        Some (RETURN_STATUS_OK, maps', gs') \<Rightarrow> Some (maps', gs') | _ \<Rightarrow> None)"

lemma union_into_Some:
  "union_into other maps gs = Some (maps', gs') \<longleftrightarrow>
     add_gtid_set gs_env_ok other maps gs = Some (RETURN_STATUS_OK, maps', gs')"
  by (auto simp: union_into_def split: option.splits enum_return_status.splits)

lemma fits_copy:
  assumes "gs_ok maps a" and "fits maps b a"
    and "union_into a maps (gtid_set_init (gs_sid_map a)) = Some (maps', a')"
  shows "fits maps' b a'"
proof -
  obtain a1 where "add_gtid_set gs_env_ok a maps (gtid_set_init (gs_sid_map a)) = Some (RETURN_STATUS_OK, maps, a1)"
      "get_max_sidno a1 = max (get_max_sidno a) 0" "gs_sid_map a1 = gs_sid_map a"
    using add_gtid_set_same_map [of "gtid_set_init (gs_sid_map a)" a maps] assms(1)
    unfolding gs_ok_def same_sid_map_def gtid_set_init_simps using gs_inv_init by metis
  with assms(3) have "maps' = maps" "get_max_sidno a' = get_max_sidno a" "gs_sid_map a' = gs_sid_map a"
    by (simp_all add: union_into_Some)
  with assms(2) show ?thesis
    by (simp only: fits_def same_sid_map_def sidno_in_def map_of_set_def)
qed

interpretation gset: gtid_collection gs_ok sid_gtids maps_extend gs_sid_map
  "\<lambda>gs. gtid_set_init (gs_sid_map gs)" fits union_into remove_gtid_set
proof
  show "gs_ok m (gtid_set_init (gs_sid_map a)) \<and> sid_gtids m (gtid_set_init (gs_sid_map a)) = {} \<and>
      gs_sid_map (gtid_set_init (gs_sid_map a)) = gs_sid_map a" if "gs_ok m a" for m a
    using that by (simp add: gs_ok_def sid_gtids_def sidmap.by_sid_def map_of_set_def)
  show "\<exists>m' a'. union_into b m a = Some (m', a') \<and> maps_extend m m' \<and> gs_ok m' a' \<and>
      sid_gtids m' a' = sid_gtids m a \<union> sid_gtids m b \<and> gs_sid_map a' = gs_sid_map a"
    if h: "gs_ok m a" "gs_ok m b" for m a b
    using add_gtid_set_ok [OF h] unfolding union_into_Some by metis
  show "\<exists>a'. remove_gtid_set b m a = Some a' \<and> gs_ok m a' \<and>
      sid_gtids m a' = sid_gtids m a - sid_gtids m b \<and> gs_sid_map a' = gs_sid_map a"
    if h: "gs_ok m a" "gs_ok m b" "fits m b a" for m a b
    using remove_gtid_set_ok [OF h] by metis
  show "fits m b a" if "gs_sid_map a = gs_sid_map b" for m a b
    using that by (simp add: fits_def same_sid_map_def)
qed (auto simp: gs_ok_extend intro: fits_copy)

lemma gs_intersection_ok:
  assumes "gs_ok maps this" and "gs_ok maps other" and "gs_ok maps result" and "fits maps other this"
  obtains maps' result' where "gs_intersection gs_env_ok this other maps result = Some (RETURN_STATUS_OK, maps', result')"
    and "gs_ok maps' result'"
    and "sid_gtids maps' result' = sid_gtids maps result \<union> (sid_gtids maps this \<inter> sid_gtids maps other)"
proof -
  obtain m' r where r: "gset.intersect_into this other maps result = Some (m', r)" "gs_ok m' r"
      "sid_gtids m' r = sid_gtids maps result \<union> (sid_gtids maps this \<inter> sid_gtids maps other)"
    using gset.intersect_into_correct [OF assms] by blast
  then have "gs_intersection gs_env_ok this other maps result = Some (RETURN_STATUS_OK, m', r)"
    by (auto simp: gs_intersection_def gset.intersect_into_def bind_eq_Some_conv union_into_Some)
  with r that show thesis by blast
qed

end
