(* ===== verification/Gtid_Set_Queries.thy ===== *)
theory Gtid_Set_Queries
  imports Gtid_Set_Algebra
begin

text \<open>
  The predicates of \<open>Gtid_set\<close> decide the relations between the sets of GTIDs: membership, subset,
  non-empty intersection, equality; and the iterator enumerates a set in order.
\<close>

section \<open>Membership\<close>

lemma contains_gtid_iff:
  "gs_inv gs \<Longrightarrow> 1 \<le> n \<Longrightarrow> contains_gtid gs n g \<longleftrightarrow> (n, g) \<in> gtids gs"
  using contains_gno_iff [OF gs_inv_wf, of gs n g]
  by (cases "n \<le> get_max_sidno gs") (auto simp: contains_gtid_def gtids_iff dest: gtids_range)

lemma get_last_gno_Max:
  assumes "gs_inv gs" and "1 \<le> n" and "(n, g) \<in> gtids gs"
  shows "get_last_gno gs n = Max {g. (n, g) \<in> gtids gs}"
proof -
  have n: "n \<le> get_max_sidno gs" using gtids_range [OF assms(3)] by simp
  then have "m_intervals gs ! (n - 1) \<noteq> []" using assms by (auto simp: gtids_iff)
  with n show ?thesis using last_gno_Max [OF gs_inv_wf [OF assms(1,2) n], of 0] gnos_at [OF assms(2) n]
    by (simp add: get_last_gno_def)
qed

lemma get_last_gno_empty:
  assumes "gs_inv gs" and "1 \<le> n" and "\<nexists>g. (n, g) \<in> gtids gs"
  shows "get_last_gno gs n = 0"
  using assms gnos_Nil_iff [OF gs_inv_wf [OF assms(1,2)]]
  by (auto simp: get_last_gno_def gtids_iff)

section \<open>Rows: the GNOs of one SID\<close>

definition row :: "sid_maps \<Rightarrow> gtid_set \<Rightarrow> sid \<Rightarrow> int set" where
  "row maps gs sid = {g. (sid, g) \<in> sid_gtids maps gs}"

lemma row_at:
  assumes "gs_ok maps gs"
  shows "row maps gs sid =
    (let k = sid_to_sidno (map_of_set maps gs) sid in
     if k = 0 \<or> k > get_max_sidno gs then {} else gnos (m_intervals gs ! (k - 1)))"
proof -
  let ?sm = "map_of_set maps gs"
  have I: "sid_map_inv ?sm" "get_max_sidno gs \<le> sm_max_sidno ?sm" using assms by (simp_all add: gs_ok_def)
  have "(sid, g) \<in> sid_gtids maps gs \<longleftrightarrow> (\<exists>n. (n, g) \<in> gtids gs \<and> sid = sidno_to_sid ?sm n)" for g
    by (auto simp: sid_gtids_def sidmap.by_sid_def)
  also have "(\<exists>n. (n, g) \<in> gtids gs \<and> sid = sidno_to_sid ?sm n) \<longleftrightarrow>
      sid_to_sidno ?sm sid \<noteq> 0 \<and> (sid_to_sidno ?sm sid, g) \<in> gtids gs" for g
  proof
    assume "\<exists>n. (n, g) \<in> gtids gs \<and> sid = sidno_to_sid ?sm n"
    then obtain n where n: "(n, g) \<in> gtids gs" "sid = sidno_to_sid ?sm n" by blast
    with gtids_range [OF n(1)] I sid_to_sidno_inv [OF I(1), of n]
    show "sid_to_sidno ?sm sid \<noteq> 0 \<and> (sid_to_sidno ?sm sid, g) \<in> gtids gs" by simp
  next
    assume "sid_to_sidno ?sm sid \<noteq> 0 \<and> (sid_to_sidno ?sm sid, g) \<in> gtids gs"
    then show "\<exists>n. (n, g) \<in> gtids gs \<and> sid = sidno_to_sid ?sm n"
      using sidmap.sid_of_sidno [OF I(1)] by metis
  qed
  finally show ?thesis unfolding row_def Let_def by (auto simp: gtids_def)
qed

lemma row_own:
  "gs_ok maps gs \<Longrightarrow> 1 \<le> n \<Longrightarrow> n \<le> get_max_sidno gs \<Longrightarrow>
     row maps gs (sidno_to_sid (map_of_set maps gs) n) = gnos (m_intervals gs ! (n - 1))"
  using sid_to_sidno_inv [of "map_of_set maps gs" n] by (simp add: row_at gs_ok_def)

lemma sidno_in_eq:
  assumes "gs_ok maps gs" and "gs_ok maps other" and "1 \<le> n" and "n \<le> get_max_sidno gs"
  shows "sidno_in maps gs other n =
    sid_to_sidno (map_of_set maps other) (sidno_to_sid (map_of_set maps gs) n)"
proof (cases "same_sid_map gs other")
  case True
  then have "map_of_set maps other = map_of_set maps gs"
    using assms by (auto simp: same_sid_map_def gs_ok_def map_of_set_def)
  with True assms show ?thesis
    using sid_to_sidno_inv [of "map_of_set maps gs" n] by (simp add: sidno_in_def gs_ok_def)
qed (simp add: sidno_in_def)

lemma row_other:
  assumes "gs_ok maps gs" and "gs_ok maps other" and "1 \<le> n" and "n \<le> get_max_sidno gs"
  shows "row maps other (sidno_to_sid (map_of_set maps gs) n) =
    (let k = sidno_in maps gs other n in
     if k = 0 \<or> k > get_max_sidno other then {} else gnos (m_intervals other ! (k - 1)))"
  using row_at [OF assms(2)] by (simp add: sidno_in_eq [OF assms])

lemma sid_gtids_rows:
  assumes "gs_ok maps gs"
  shows "sid_gtids maps gs =
    (\<Union>n \<in> {1 .. get_max_sidno gs}.
       {sidno_to_sid (map_of_set maps gs) n} \<times> gnos (m_intervals gs ! (n - 1)))"
  by (force simp: sid_gtids_def sidmap.by_sid_def gtids_def)

section \<open>Subset\<close>

lemma is_subset_from_correct:
  assumes gs: "gs_ok maps gs" and super: "gs_ok maps super"
    and "\<forall>n \<in> set ns. 1 \<le> n \<and> n \<le> get_max_sidno gs"
  shows "is_subset_from maps gs super ns =
    Some (\<forall>n \<in> set ns. gnos (m_intervals gs ! (n - 1)) \<subseteq>
            row maps super (sidno_to_sid (map_of_set maps gs) n))"
  using assms(3)
proof (induction ns)
  case Nil
  then show ?case by simp
next
  case (Cons n ns)
  let ?ivs = "m_intervals gs ! (n - 1)" and ?k = "sidno_in maps gs super n"
  have n: "1 \<le> n" "n \<le> get_max_sidno gs" using Cons.prems by auto
  have wf: "wf_ivs ?ivs" "gs_inv super" using gs_inv_wf n gs super by (auto simp: gs_ok_def)
  note r = row_other [OF gs super n]
  show ?case
  proof (cases "?ivs = [] \<or> ?k = 0 \<or> ?k > get_max_sidno super")
    case True
    with n r gnos_Nil_iff [OF wf(1)] Cons show ?thesis by (auto simp: Let_def)
  next
    case False
    then have k: "1 \<le> ?k" "?k \<le> get_max_sidno super" and ne: "?ivs \<noteq> []" by auto
    from is_interval_subset_correct [OF wf(1) gs_inv_wf [OF wf(2) k] ne] r k ne n Cons
    show ?thesis by (auto simp: Let_def)
  qed
qed

lemma is_subset_ok:
  assumes "gs_ok maps gs" and "gs_ok maps super"
  shows "is_subset maps gs super = Some (sid_gtids maps gs \<subseteq> sid_gtids maps super)"
proof -
  let ?sid = "sidno_to_sid (map_of_set maps gs)"
  have "is_subset maps gs super =
      Some (\<forall>n \<in> {1 .. get_max_sidno gs}. gnos (m_intervals gs ! (n - 1)) \<subseteq> row maps super (?sid n))"
    unfolding is_subset_def
    by (subst is_subset_from_correct [OF assms]) (auto simp: atLeastLessThanSuc_atLeastAtMost)
  also have "(\<forall>n \<in> {1 .. get_max_sidno gs}. gnos (m_intervals gs ! (n - 1)) \<subseteq> row maps super (?sid n))
      \<longleftrightarrow> sid_gtids maps gs \<subseteq> sid_gtids maps super"
    unfolding sid_gtids_rows [OF assms(1)] row_def by auto
  finally show ?thesis .
qed

text \<open>
  On single SIDNOs, \<open>is_subset_for_sid\<close> is right whenever the list of this set is not empty or
  the other one is; a list that is empty against one that is not is dereferenced.
\<close>

lemma is_subset_for_sid_cases:
  assumes "gs_inv gs" and "gs_inv super" and "1 \<le> a" and "a \<le> get_max_sidno super"
    and "1 \<le> b" and "b \<le> get_max_sidno gs"
  shows "contains_sidno gs b \<Longrightarrow> is_subset_for_sid gs super a b =
      Some (gnos (m_intervals gs ! (b - 1)) \<subseteq> gnos (m_intervals super ! (a - 1)))"
    and "\<not> contains_sidno gs b \<Longrightarrow> contains_sidno super a \<Longrightarrow> is_subset_for_sid gs super a b = None"
    and "\<not> contains_sidno gs b \<Longrightarrow> \<not> contains_sidno super a \<Longrightarrow> is_subset_for_sid gs super a b = Some False"
proof -
  let ?B = "m_intervals gs ! (b - 1)" and ?A = "m_intervals super ! (a - 1)"
  have eq: "is_subset_for_sid gs super a b = is_interval_subset ?B ?A"
    using assms by (simp add: is_subset_for_sid_def)
  have wf: "wf_ivs ?B" "wf_ivs ?A" using assms gs_inv_wf by auto
  show "contains_sidno gs b \<Longrightarrow> is_subset_for_sid gs super a b = Some (gnos ?B \<subseteq> gnos ?A)"
    using is_interval_subset_correct [OF wf] assms by (simp add: eq contains_sidno_def)
  show "\<not> contains_sidno gs b \<Longrightarrow> contains_sidno super a \<Longrightarrow> is_subset_for_sid gs super a b = None"
    unfolding eq using assms by (cases ?A) (auto simp: contains_sidno_def)
  show "\<not> contains_sidno gs b \<Longrightarrow> \<not> contains_sidno super a \<Longrightarrow> is_subset_for_sid gs super a b = Some False"
    unfolding eq using assms by (simp add: contains_sidno_def)
qed

section \<open>Non-empty intersection\<close>

lemma intersection_nonempty_from_correct:
  assumes gs: "gs_ok maps gs" and other: "gs_ok maps other"
    and "\<forall>n \<in> set ns. 1 \<le> n \<and> n \<le> get_max_sidno gs"
  shows "intersection_nonempty_from maps gs other ns =
    Some (\<exists>n \<in> set ns. gnos (m_intervals gs ! (n - 1)) \<inter>
            row maps other (sidno_to_sid (map_of_set maps gs) n) \<noteq> {})"
  using assms(3)
proof (induction ns)
  case Nil
  then show ?case by simp
next
  case (Cons n ns)
  let ?ivs = "m_intervals gs ! (n - 1)" and ?k = "sidno_in maps gs other n"
  have n: "1 \<le> n" "n \<le> get_max_sidno gs" using Cons.prems by auto
  have wf: "wf_ivs ?ivs" "gs_inv other" using gs_inv_wf n gs other by (auto simp: gs_ok_def)
  note r = row_other [OF gs other n]
  show ?case
  proof (cases "?ivs = [] \<or> ?k = 0 \<or> ?k > get_max_sidno other")
    case True
    with n r Cons show ?thesis by (auto simp: Let_def)
  next
    case False
    then have k: "1 \<le> ?k" "?k \<le> get_max_sidno other" and ne: "?ivs \<noteq> []" by auto
    from is_interval_intersection_correct [OF wf(1) gs_inv_wf [OF wf(2) k] ne] r k ne n Cons
    show ?thesis by (auto simp: Let_def)
  qed
qed

lemma is_intersection_nonempty_ok:
  assumes "gs_ok maps gs" and "gs_ok maps other"
  shows "is_intersection_nonempty maps gs other =
    Some (sid_gtids maps gs \<inter> sid_gtids maps other \<noteq> {})"
proof -
  let ?sid = "sidno_to_sid (map_of_set maps gs)"
  have "is_intersection_nonempty maps gs other =
      Some (\<exists>n \<in> {1 .. get_max_sidno gs}. gnos (m_intervals gs ! (n - 1)) \<inter> row maps other (?sid n) \<noteq> {})"
    unfolding is_intersection_nonempty_def
    by (subst intersection_nonempty_from_correct [OF assms]) (auto simp: atLeastLessThanSuc_atLeastAtMost)
  also have "(\<exists>n \<in> {1 .. get_max_sidno gs}. gnos (m_intervals gs ! (n - 1)) \<inter> row maps other (?sid n) \<noteq> {})
      \<longleftrightarrow> sid_gtids maps gs \<inter> sid_gtids maps other \<noteq> {}"
    unfolding sid_gtids_rows [OF assms(1)] row_def by auto
  finally show ?thesis .
qed

section \<open>Equality\<close>

lemma list_all2_keys:
  "list_all2 (\<lambda>a b. f a = g b \<and> Q a b) as bs \<longleftrightarrow> map f as = map g bs \<and> list_all2 Q as bs"
  by (induction as arbitrary: bs) (auto simp: list_all2_Cons1 map_eq_Cons_conv Cons_eq_map_conv)

lemma sorted_wrt_unique:
  assumes "sorted_wrt R xs" and "sorted_wrt R ys" and "set xs = set ys" and asym: "\<And>a b. R a b \<Longrightarrow> \<not> R b a"
  shows "xs = ys"
  using assms(1-3)
proof (induction xs arbitrary: ys)
  case Nil
  then show ?case by simp
next
  case (Cons x xs)
  then obtain y ys' where ys: "ys = y # ys'" by (cases ys) auto
  have irr: "\<not> R a a" for a using asym by blast
  have "x = y"
  proof (rule ccontr)
    assume "x \<noteq> y"
    with Cons.prems ys have "x \<in> set ys'" "y \<in> set xs" by auto
    with Cons.prems ys have "R y x" "R x y" by auto
    with asym show False by blast
  qed
  moreover have "x \<notin> set xs" "y \<notin> set ys'" using Cons.prems ys irr by auto
  ultimately have "set xs = set ys'" using Cons.prems(3) ys by auto
  with Cons.IH [of ys'] Cons.prems ys \<open>x = y\<close> show ?case by simp
qed

lemma skip_absent_filter:
  "skip_absent gs ss = [] \<longleftrightarrow> filter (contains_sidno gs) ss = []"
  "skip_absent gs ss = s # ss' \<Longrightarrow> filter (contains_sidno gs) ss = s # filter (contains_sidno gs) ss'"
  by (induction gs ss rule: skip_absent.induct) (auto split: if_splits)

lemma equals_loop_filter:
  "equals_loop sm gs osm other ss os \<longleftrightarrow>
     list_all2 (\<lambda>a b. sidno_to_sid sm a = sidno_to_sid osm b \<and> sidno_equals gs a other b)
       (filter (contains_sidno gs) ss) (filter (contains_sidno other) os)"
proof (induction sm gs osm other ss os rule: equals_loop.induct)
  case (1 sm gs osm other ss os)
  show ?case
  proof (cases "skip_absent gs ss = [] \<or> skip_absent other os = []")
    case True
    then show ?thesis
      using skip_absent_filter [of gs ss] skip_absent_filter [of other os]
      by (subst equals_loop.simps) (auto split: list.splits)
  next
    case False
    then obtain s ss' o' os' where s: "skip_absent gs ss = s # ss'" "skip_absent other os = o' # os'"
      by (auto simp: neq_Nil_conv)
    then show ?thesis
      using 1 [of "skip_absent gs ss" "skip_absent other os" s ss' o' os']
        skip_absent_filter(2) [of gs ss] skip_absent_filter(2) [of other os]
      by (subst equals_loop.simps) auto
  qed
qed

definition present :: "gtid_set \<Rightarrow> sid_map \<Rightarrow> sid list" where
  "present gs sm = map (sidno_to_sid sm) (filter (contains_sidno gs) (sorted_sidnos sm))"

lemma contains_sidno_row:
  assumes "gs_ok maps gs" and "1 \<le> n" and "n \<le> sm_max_sidno (map_of_set maps gs)"
  shows "contains_sidno gs n \<longleftrightarrow> row maps gs (sidno_to_sid (map_of_set maps gs) n) \<noteq> {}"
  using assms gnos_Nil_iff [OF gs_inv_wf [of gs n]] sid_to_sidno_inv [of "map_of_set maps gs" n]
  by (auto simp: contains_sidno_def row_at gs_ok_def)

lemma present_set:
  assumes "gs_ok maps gs"
  shows "set (present gs (map_of_set maps gs)) = {sid. row maps gs sid \<noteq> {}}"
proof -
  let ?sm = "map_of_set maps gs"
  have inv: "sid_map_inv ?sm" and sorted: "set (sorted_sidnos ?sm) = {1 .. sm_max_sidno ?sm}"
    using assms by (simp_all add: gs_ok_def sid_map_inv_def)
  have "sid \<in> set (present gs ?sm) \<longleftrightarrow> row maps gs sid \<noteq> {}" for sid
  proof
    assume "sid \<in> set (present gs ?sm)"
    then show "row maps gs sid \<noteq> {}"
      using contains_sidno_row [OF assms] by (auto simp: present_def sorted)
  next
    assume r: "row maps gs sid \<noteq> {}"
    then have k: "sid_to_sidno ?sm sid \<noteq> 0" by (auto simp: row_at [OF assms])
    then have "sid_to_sidno ?sm sid \<le> sm_max_sidno ?sm" "sidno_to_sid ?sm (sid_to_sidno ?sm sid) = sid"
      using sidmap.sid_of_sidno [OF inv] by auto
    moreover from this r k have "contains_sidno gs (sid_to_sidno ?sm sid)"
      using contains_sidno_row [OF assms, of "sid_to_sidno ?sm sid"] by simp
    ultimately show "sid \<in> set (present gs ?sm)"
      unfolding present_def set_map set_filter sorted using k
      by (intro image_eqI [of _ _ "sid_to_sidno ?sm sid"]) auto
  qed
  then show ?thesis by auto
qed

lemma present_sorted: "sid_map_inv sm \<Longrightarrow> sorted_wrt sid_less (present gs sm)"
  by (simp add: present_def sid_map_inv_def sorted_wrt_map sorted_wrt_filter)

lemma equals_loop_correct:
  assumes gs: "gs_ok maps gs" and other: "gs_ok maps other"
  defines "sm \<equiv> map_of_set maps gs" and "osm \<equiv> map_of_set maps other"
  shows "equals_loop sm gs osm other (sorted_sidnos sm) (sorted_sidnos osm) \<longleftrightarrow>
    sid_gtids maps gs = sid_gtids maps other" (is "?eq \<longleftrightarrow> _")
proof -
  let ?A = "filter (contains_sidno gs) (sorted_sidnos sm)"
  let ?B = "filter (contains_sidno other) (sorted_sidnos osm)"
  have inv: "sid_map_inv sm" "sid_map_inv osm" using gs other by (simp_all add: gs_ok_def sm_def osm_def)
  have ra: "gnos (m_intervals gs ! (a - 1)) = row maps gs (sidno_to_sid sm a) \<and>
      wf_ivs (m_intervals gs ! (a - 1))" if "a \<in> set ?A" for a
    using that inv(1) row_own [OF gs] gs_inv_wf gs
    by (auto simp: contains_sidno_def sid_map_inv_def gs_ok_def sm_def split: if_splits)
  have rb: "gnos (m_intervals other ! (b - 1)) = row maps other (sidno_to_sid osm b) \<and>
      wf_ivs (m_intervals other ! (b - 1))" if "b \<in> set ?B" for b
    using that inv(2) row_own [OF other] gs_inv_wf other
    by (auto simp: contains_sidno_def sid_map_inv_def gs_ok_def osm_def split: if_splits)
  have rows: "sid_gtids maps gs = sid_gtids maps other \<longleftrightarrow> (\<forall>sid. row maps gs sid = row maps other sid)"
    by (auto simp: row_def)
  have eq: "?eq \<longleftrightarrow> present gs sm = present other osm \<and>
      list_all2 (\<lambda>a b. sidno_equals gs a other b) ?A ?B"
    by (simp add: equals_loop_filter list_all2_keys present_def)
  have all2: "list_all2 (\<lambda>a b. sidno_equals gs a other b) ?A ?B \<longleftrightarrow>
      (\<forall>sid \<in> set (present gs sm). row maps gs sid = row maps other sid)"
    if p: "map (sidno_to_sid sm) ?A = map (sidno_to_sid osm) ?B"
  proof -
    have len: "length ?A = length ?B" using p by (rule map_eq_imp_length_eq)
    have "sidno_equals gs (?A ! i) other (?B ! i) \<longleftrightarrow>
        row maps gs (sidno_to_sid sm (?A ! i)) = row maps other (sidno_to_sid sm (?A ! i))"
      if i: "i < length ?A" for i
    proof -
      have "sidno_to_sid sm (?A ! i) = sidno_to_sid osm (?B ! i)"
        using p len i by (metis nth_map)
      then show ?thesis
        using ra [OF nth_mem [OF i]] rb [OF nth_mem [of i ?B]] i len intervals_equal_correct
        by (simp add: sidno_equals_def)
    qed
    then have "list_all2 (\<lambda>a b. sidno_equals gs a other b) ?A ?B \<longleftrightarrow>
        (\<forall>i < length ?A. row maps gs (sidno_to_sid sm (?A ! i)) = row maps other (sidno_to_sid sm (?A ! i)))"
      unfolding list_all2_conv_all_nth using len by blast
    also have "\<dots> \<longleftrightarrow> (\<forall>a \<in> set ?A. row maps gs (sidno_to_sid sm a) = row maps other (sidno_to_sid sm a))"
      unfolding all_set_conv_all_nth ..
    finally show ?thesis unfolding present_def set_map by blast
  qed
  have "present gs sm = present other osm" if "\<forall>sid. row maps gs sid = row maps other sid"
    using that present_set [OF gs] present_set [OF other] present_sorted inv sid_less_asym
    by (intro sorted_wrt_unique [of sid_less]) (auto simp: sm_def osm_def)
  moreover have "row maps gs sid = row maps other sid"
    if "present gs sm = present other osm" and "sid \<notin> set (present gs sm)" for sid
  proof -
    have "row maps gs sid = {}" using that(2) present_set [OF gs] by (simp add: sm_def)
    moreover have "row maps other sid = {}"
      using that(2) present_set [OF other] unfolding that(1) by (simp add: osm_def)
    ultimately show ?thesis by simp
  qed
  ultimately show ?thesis unfolding eq rows using all2 unfolding present_def by metis
qed

text \<open>
  Over one numbering \<open>equals\<close> compares everything but the last SIDNO of the longer array. It is
  exact when the arrays have the same length.
\<close>

lemma sidno_equals_iff:
  assumes "gs_inv gs" and "gs_inv other" and "1 \<le> n" and "n \<le> get_max_sidno gs" and "n \<le> get_max_sidno other"
  shows "sidno_equals gs n other n \<longleftrightarrow> (\<forall>g. (n, g) \<in> gtids gs \<longleftrightarrow> (n, g) \<in> gtids other)"
  using intervals_equal_correct [OF gs_inv_wf [OF assms(1,3,4)] gs_inv_wf [OF assms(2,3,5)]] assms
  by (auto simp: sidno_equals_def gtids_iff)

lemma list_ex_contains_sidno:
  assumes "gs_inv gs"
  shows "list_ex (contains_sidno gs) [k + 1 ..< m] \<longleftrightarrow> (\<exists>n g. k < n \<and> n < m \<and> (n, g) \<in> gtids gs)"
proof -
  have "contains_sidno gs n \<longleftrightarrow> (\<exists>g. (n, g) \<in> gtids gs)" if "n \<in> set [k + 1 ..< m]" for n
    using that by (intro contains_sidno_iff [OF assms]) simp
  then show ?thesis unfolding list_ex_iff by (auto simp: Suc_le_eq)
qed

definition compared_sidno :: "gtid_set \<Rightarrow> gtid_set \<Rightarrow> nat \<Rightarrow> bool" where
  "compared_sidno gs other n \<longleftrightarrow>
     n \<le> min (get_max_sidno gs) (get_max_sidno other) \<or> n < max (get_max_sidno gs) (get_max_sidno other)"

definition agree_at :: "gtid_set \<Rightarrow> gtid_set \<Rightarrow> nat \<Rightarrow> bool" where
  "agree_at gs other n \<longleftrightarrow> (\<forall>g. (n, g) \<in> gtids gs \<longleftrightarrow> (n, g) \<in> gtids other)"

lemma gtids_out: "get_max_sidno gs < n \<Longrightarrow> (n, g) \<notin> gtids gs"
  by (auto dest: gtids_range)

lemma agree_everywhere:
  assumes "get_max_sidno gs = get_max_sidno other"
  shows "(\<forall>n. compared_sidno gs other n \<longrightarrow> agree_at gs other n) \<longleftrightarrow> gtids gs = gtids other"
proof -
  have "agree_at gs other n" if "\<not> compared_sidno gs other n" for n
    using that assms gtids_out [of gs n] gtids_out [of other n] by (simp add: compared_sidno_def agree_at_def)
  then have "(\<forall>n. compared_sidno gs other n \<longrightarrow> agree_at gs other n) \<longleftrightarrow> (\<forall>n. agree_at gs other n)" by blast
  also have "\<dots> \<longleftrightarrow> gtids gs = gtids other" by (auto simp: agree_at_def)
  finally show ?thesis .
qed

lemma agree_at_sym: "agree_at gs other n = agree_at other gs n"
  by (auto simp: agree_at_def)

lemma all_from_1: "Q 0 \<Longrightarrow> (\<forall>n \<in> {1 ..< Suc c}. Q n) \<longleftrightarrow> (\<forall>n \<le> c. Q n)"
  by (metis atLeastLessThan_iff le_imp_less_Suc less_Suc_eq_le less_one linorder_not_le)

lemma common_agree:
  assumes "gs_inv gs" and "gs_inv other" and "c \<le> get_max_sidno gs" and "c \<le> get_max_sidno other"
  shows "list_all (\<lambda>n. sidno_equals gs n other n) [1 ..< Suc c] \<longleftrightarrow> (\<forall>n \<le> c. agree_at gs other n)"
proof -
  have "sidno_equals gs n other n \<longleftrightarrow> agree_at gs other n" if "n \<in> {1 ..< Suc c}" for n
    using that assms sidno_equals_iff [OF assms(1,2), of n] by (simp add: agree_at_def)
  then have "list_all (\<lambda>n. sidno_equals gs n other n) [1 ..< Suc c] \<longleftrightarrow>
      (\<forall>n \<in> {1 ..< Suc c}. agree_at gs other n)"
    unfolding list_all_iff set_upt by simp
  also have "\<dots> \<longleftrightarrow> (\<forall>n \<le> c. agree_at gs other n)"
    by (rule all_from_1) (auto simp: agree_at_def dest: gtids_range)
  finally show ?thesis .
qed

lemma longer_agree:
  assumes "gs_inv gs" and "get_max_sidno other \<le> k"
  shows "list_ex (contains_sidno gs) [k + 1 ..< m] \<longleftrightarrow> \<not> (\<forall>n. k < n \<and> n < m \<longrightarrow> agree_at gs other n)"
proof -
  have "agree_at gs other n \<longleftrightarrow> (\<nexists>g. (n, g) \<in> gtids gs)" if "k < n" for n
    using that assms(2) gtids_out [of other n] by (auto simp: agree_at_def)
  then show ?thesis unfolding list_ex_contains_sidno [OF assms(1)] by auto
qed

lemma equals_same_map_iff:
  assumes "gs_inv gs" and "gs_inv other"
  shows "equals_same_map gs other \<longleftrightarrow> (\<forall>n. compared_sidno gs other n \<longrightarrow> agree_at gs other n)"
proof -
  let ?m = "get_max_sidno gs" and ?k = "get_max_sidno other"
  have common: "list_all (\<lambda>n. sidno_equals gs n other n) [1 ..< Suc (min ?m ?k)] \<longleftrightarrow>
      (\<forall>n \<le> min ?m ?k. agree_at gs other n)"
    by (rule common_agree [OF assms]) simp_all
  consider "?m = ?k" | "?m > ?k" | "?m < ?k" by linarith
  then show ?thesis
  proof cases
    case 1
    then show ?thesis using common by (auto simp: equals_same_map_def Let_def compared_sidno_def)
  next
    case 2
    then have m: "min ?m ?k = ?k" "max ?m ?k = ?m" by simp_all
    have "equals_same_map gs other \<longleftrightarrow>
        (\<forall>n. ?k < n \<and> n < ?m \<longrightarrow> agree_at gs other n) \<and> (\<forall>n \<le> ?k. agree_at gs other n)"
      using common 2 longer_agree [OF assms(1), of other ?k ?m] unfolding equals_same_map_def Let_def m by auto
    then show ?thesis using 2 unfolding compared_sidno_def m by (metis not_le order.strict_trans1)
  next
    case 3
    then have m: "min ?m ?k = ?m" "max ?m ?k = ?k" by simp_all
    have "equals_same_map gs other \<longleftrightarrow>
        (\<forall>n. ?m < n \<and> n < ?k \<longrightarrow> agree_at gs other n) \<and> (\<forall>n \<le> ?m. agree_at gs other n)"
      using common 3 longer_agree [OF assms(2), of gs ?m ?k] agree_at_sym [of gs other]
      unfolding equals_same_map_def Let_def m by auto
    then show ?thesis using 3 unfolding compared_sidno_def m by (metis not_le order.strict_trans1)
  qed
qed

lemma gs_equals_ok:
  assumes "gs_ok maps gs" and "gs_ok maps other"
    and "same_sid_map gs other \<Longrightarrow> get_max_sidno gs = get_max_sidno other"
  shows "gs_equals maps gs other \<longleftrightarrow> sid_gtids maps gs = sid_gtids maps other"
proof (cases "same_sid_map gs other")
  case True
  then have same: "map_of_set maps other = map_of_set maps gs"
    using assms by (auto simp: same_sid_map_def gs_ok_def map_of_set_def)
  have "gs_equals maps gs other \<longleftrightarrow> gtids gs = gtids other"
    using True assms equals_same_map_iff [of gs other] agree_everywhere [of gs other]
    by (simp add: gs_equals_def gs_ok_def)
  also have "\<dots> \<longleftrightarrow> sid_gtids maps gs = sid_gtids maps other"
    unfolding sid_gtids_def same
    using assms sidmap.by_sid_eq [of "map_of_set maps gs" "gtids gs" "gtids other"] same
    by (simp add: gs_ok_def within_gtids)
  finally show ?thesis .
next
  case False
  then show ?thesis using equals_loop_correct [OF assms(1,2)] by (simp add: gs_equals_def)
qed

section \<open>The iterator\<close>

text \<open>The loop with which every client uses the iterator, with a bound on its length.\<close>

fun git_walk :: "nat \<Rightarrow> gtid_set \<Rightarrow> gtid_iterator \<Rightarrow> (nat \<times> int) list option" where
  "git_walk 0 gs it = None"
| "git_walk (Suc fuel) gs it =
     (if fst (git_get it) = 0 then Some []
      else do {
        it' \<leftarrow> git_next gs it;
        rest \<leftarrow> git_walk fuel gs it';
        Some (git_get it # rest) })"

definition enum_ivs :: "nat \<Rightarrow> interval list \<Rightarrow> (nat \<times> int) list" where
  "enum_ivs n ivs = concat (map (\<lambda>iv. map (Pair n) [iv_start iv .. iv_end iv - 1]) ivs)"

fun enum_lists :: "nat \<Rightarrow> interval list list \<Rightarrow> (nat \<times> int) list" where
  "enum_lists n [] = []"
| "enum_lists n (ivs # later) = enum_ivs n ivs @ enum_lists (n + 1) later"

definition it_rest :: "gtid_set \<Rightarrow> gtid_iterator \<Rightarrow> (nat \<times> int) list" where
  "it_rest gs it =
     (case it_ivs it of
        [] \<Rightarrow> []
      | iv # ivs \<Rightarrow> map (Pair (it_sidno it)) [it_gno it .. iv_end iv - 1] @ enum_ivs (it_sidno it) ivs @
          enum_lists (it_sidno it + 1) (drop (it_sidno it) (m_intervals gs)))"

definition it_ok :: "gtid_iterator \<Rightarrow> bool" where
  "it_ok it \<longleftrightarrow>
     (case it_ivs it of
        [] \<Rightarrow> it_sidno it = 0
      | iv # ivs \<Rightarrow> it_sidno it \<noteq> 0 \<and> it_gno it < iv_end iv \<and> (\<forall>iv \<in> set ivs. iv_ok iv))"

lemma enum_ivs_simps [simp]:
  "enum_ivs n [] = []"
  "enum_ivs n (iv # ivs) = map (Pair n) [iv_start iv .. iv_end iv - 1] @ enum_ivs n ivs"
  by (simp_all add: enum_ivs_def)

lemma next_sidno_from_ok:
  assumes "\<forall>ivs \<in> set later. wf_ivs ivs" and "drop n (m_intervals gs) = later"
  shows "it_ok (next_sidno_from (n + 1) later) \<and>
    it_rest gs (next_sidno_from (n + 1) later) = enum_lists (n + 1) later"
  using assms
proof (induction later arbitrary: n)
  case Nil
  then show ?case by (simp add: it_ok_def it_rest_def)
next
  case (Cons ivs later)
  then have d: "drop (n + 1) (m_intervals gs) = later"
    by (metis Suc_eq_plus1 drop_Suc list.sel(3) tl_drop)
  show ?case
  proof (cases ivs)
    case Nil
    with Cons.IH [OF _ d] Cons.prems show ?thesis by simp
  next
    case (Cons iv rest)
    with \<open>\<forall>ivs \<in> set (ivs # later). wf_ivs ivs\<close> d show ?thesis
      using wf_ivs_iv_ok [of rest] by (simp add: it_ok_def it_rest_def) (simp add: iv_ok_def)
  qed
qed

lemma next_sidno_ok:
  assumes "gs_inv gs"
  shows "it_ok (next_sidno gs it) \<and>
    it_rest gs (next_sidno gs it) = enum_lists (it_sidno it + 1) (drop (it_sidno it) (m_intervals gs))"
  unfolding next_sidno_def using assms in_set_dropD
  by (intro next_sidno_from_ok) (fastforce simp: gs_inv_def)+

lemma git_next_ok:
  assumes inv: "gs_inv gs" and ok: "it_ok it" and more: "it_sidno it \<noteq> 0"
  shows "\<exists>it'. git_next gs it = Some it' \<and> it_ok it' \<and> it_rest gs it = git_get it # it_rest gs it'"
proof -
  obtain iv ivs where ivs: "it_ivs it = iv # ivs" using ok more by (cases "it_ivs it") (auto simp: it_ok_def)
  with ok have g: "it_gno it < iv_end iv" "\<forall>iv \<in> set ivs. iv_ok iv" by (auto simp: it_ok_def)
  then have upto: "[it_gno it .. iv_end iv - 1] = it_gno it # [it_gno it + 1 .. iv_end iv - 1]"
    by (intro upto_rec1) simp
  show ?thesis
  proof (cases "it_gno it + 1 = iv_end iv \<and> ivs = []")
    case True
    then have "[it_gno it + 1 .. iv_end iv - 1] = []" by simp
    with True ivs upto next_sidno_ok [OF inv, of it] show ?thesis
      by (simp add: git_next_def it_rest_def git_get_def)
  next
    case False
    show ?thesis
    proof (cases "it_gno it + 1 = iv_end iv")
      case True
      then have "[it_gno it + 1 .. iv_end iv - 1] = []" by simp
      with True False ivs g upto more show ?thesis
        by (cases ivs) (auto simp: git_next_def it_ok_def it_rest_def git_get_def iv_ok_def)
    next
      case False
      with ivs g upto more show ?thesis
        by (auto simp: git_next_def it_ok_def it_rest_def git_get_def)
    qed
  qed
qed

lemma git_walk_ok:
  "gs_inv gs \<Longrightarrow> it_ok it \<Longrightarrow> length (it_rest gs it) < fuel \<Longrightarrow> git_walk fuel gs it = Some (it_rest gs it)"
proof (induction fuel arbitrary: it)
  case (Suc fuel)
  show ?case
  proof (cases "it_sidno it = 0")
    case True
    with Suc.prems show ?thesis by (auto simp: git_get_def it_ok_def it_rest_def split: list.splits)
  next
    case False
    then obtain it' where "git_next gs it = Some it'" "it_ok it'" "it_rest gs it = git_get it # it_rest gs it'"
      using git_next_ok Suc.prems by blast
    with Suc False show ?thesis by (auto simp: git_get_def)
  qed
qed simp

lemma enum_ivs_set: "set (enum_ivs n ivs) = {n} \<times> gnos ivs"
  by (induction ivs) (auto simp: enum_ivs_def)

lemma enum_lists_set:
  "set (enum_lists n later) = (\<Union>i < length later. {n + i} \<times> gnos (later ! i))"
proof (induction n later rule: enum_lists.induct)
  case (2 n ivs later)
  then show ?case by (simp add: enum_ivs_set lessThan_Suc_eq_insert_0)
qed simp

lemma map_snd_enum_ivs: "map snd (enum_ivs n ivs) = concat (map (\<lambda>iv. [iv_start iv .. iv_end iv - 1]) ivs)"
  by (induction ivs) (auto simp: comp_def)

lemma enum_ivs_sorted: "wf_ivs ivs \<Longrightarrow> sorted_wrt (<) (map snd (enum_ivs n ivs))"
proof (induction ivs)
  case (Cons iv ivs)
  have "g < g'" if h: "g \<in> {iv_start iv .. iv_end iv - 1}" "g' \<in> snd ` set (enum_ivs n ivs)" for g g'
  proof -
    obtain b where "b \<in> set ivs" "iv_start b \<le> g'" using h(2) by (auto simp: enum_ivs_set gnos_iff)
    with Cons.prems h(1) show ?thesis by fastforce
  qed
  moreover have "map snd (enum_ivs n (iv # ivs)) = [iv_start iv .. iv_end iv - 1] @ map snd (enum_ivs n ivs)"
    by (simp add: comp_def)
  ultimately show ?case using Cons by (simp add: sorted_wrt_append)
qed simp

definition gtid_less :: "nat \<times> int \<Rightarrow> nat \<times> int \<Rightarrow> bool" where
  "gtid_less a b \<longleftrightarrow> fst a < fst b \<or> fst a = fst b \<and> snd a < snd b"

lemma enum_lists_sorted: "\<forall>ivs \<in> set later. wf_ivs ivs \<Longrightarrow> sorted_wrt gtid_less (enum_lists n later)"
proof (induction n later rule: enum_lists.induct)
  case (2 n ivs later)
  have "sorted_wrt gtid_less (enum_ivs n ivs)"
  proof (rule sorted_wrt_mono_rel)
    show "sorted_wrt (\<lambda>a b. snd a < snd b) (enum_ivs n ivs)"
      using enum_ivs_sorted [of ivs n] 2 by (simp add: sorted_wrt_map)
    show "gtid_less a b" if "a \<in> set (enum_ivs n ivs)" "b \<in> set (enum_ivs n ivs)" "snd a < snd b" for a b
      using that by (auto simp: enum_ivs_set gtid_less_def)
  qed
  moreover have "gtid_less a b" if "a \<in> set (enum_ivs n ivs)" "b \<in> set (enum_lists (n + 1) later)" for a b
    using that by (auto simp: enum_ivs_set enum_lists_set gtid_less_def)
  ultimately show ?case using 2 by (simp add: sorted_wrt_append)
qed simp

lemma enum_all_set: "set (enum_lists 1 (m_intervals gs)) = gtids gs"
proof -
  have "(n, g) \<in> set (enum_lists 1 (m_intervals gs)) \<longleftrightarrow> (n, g) \<in> gtids gs" for n g
    by (cases n) (auto simp: enum_lists_set gtids_def get_max_sidno_def Suc_le_eq)
  then show ?thesis by auto
qed

lemma git_init_ok:
  assumes "gs_inv gs"
  shows "it_ok (git_init gs)" and "it_rest gs (git_init gs) = enum_lists 1 (m_intervals gs)"
  using next_sidno_ok [OF assms, of "\<lparr>it_sidno = 0, it_gno = 0, it_ivs = []\<rparr>"] by (simp_all add: git_init_def)

lemma git_walk_all:
  assumes "gs_inv gs"
  obtains fuel xs where "git_walk fuel gs (git_init gs) = Some xs" and "set xs = gtids gs"
    and "sorted_wrt gtid_less xs" and "length xs = card (gtids gs)"
proof -
  let ?xs = "enum_lists 1 (m_intervals gs)"
  have sorted: "sorted_wrt gtid_less ?xs" using assms by (intro enum_lists_sorted) (simp add: gs_inv_def)
  have "distinct xs" if "sorted_wrt gtid_less xs" for xs
    using that by (induction xs) (auto simp: gtid_less_def)
  with sorted have "length ?xs = card (gtids gs)" using distinct_card enum_all_set by metis
  with sorted git_init_ok [OF assms] git_walk_ok [OF assms, of "git_init gs" "Suc (length ?xs)"] enum_all_set
  show thesis by (intro that [of "Suc (length ?xs)" ?xs]) auto
qed

lemma gs_is_empty_iff:
  assumes "gs_inv gs"
  shows "gs_is_empty gs \<longleftrightarrow> gtids gs = {}"
proof -
  have "it_rest gs (git_init gs) = [] \<longleftrightarrow> it_sidno (git_init gs) = 0"
    using git_init_ok(1) [OF assms] by (auto simp: it_ok_def it_rest_def split: list.splits)
  then show ?thesis
    using git_init_ok(2) [OF assms] enum_all_set [of gs] by (auto simp: gs_is_empty_def git_get_def)
qed

end
