(* ===== verification/Number_Text.thy ===== *)
theory Number_Text
  imports Prelude
begin

text \<open>
  Numbers in text: \<open>ll2str\<close> of \<^verbatim>\<open>strings/longlong2str.c\<close>, the \<open>strtoll\<close> of the C library with base 0
  as the sources use it (\<open>my_strtoll\<close>), white space, and the two functions on GNOs that
  \<^verbatim>\<open>sql/rpl_gtid_set.cc\<close> builds on them.
\<close>

section \<open>Printing\<close>

definition dig_vec :: "nat \<Rightarrow> char" where
  "dig_vec d = ''0123456789ABCDEFGHIJKLMNOPQRSTUVWXYZ'' ! d"

text \<open>
  The two division loops of \<open>ll2str\<close>, over \<open>ulonglong\<close> while the value exceeds \<open>LONG_MAX\<close> and then
  over \<open>long\<close>, take the same step; the digits are written backwards in front of \<open>acc\<close>.
\<close>

function ll_digits :: "nat \<Rightarrow> nat \<Rightarrow> string \<Rightarrow> string" where
  "ll_digits radix uval acc =
     (if uval = 0 \<or> radix < 2 then acc
      else ll_digits radix (uval div radix) (dig_vec (uval mod radix) # acc))"
  by pat_completeness auto
termination
  by (relation "measure (\<lambda>(radix, uval, acc). uval)") auto

declare ll_digits.simps [simp del]

definition ll2str :: "int \<Rightarrow> int \<Rightarrow> string option" where
  "ll2str val radix =
     (let uval = val mod 2 ^ 64 in
      if radix < 0 then
        if radix < -36 \<or> radix > -2 then None
        else
          let sign = (if val < 0 then ''-'' else ''''); u = (if val < 0 then (- uval) mod 2 ^ 64 else uval) in
          Some (sign @ (if u = 0 then ''0'' else ll_digits (nat (- radix)) (nat u) ''''))
      else if radix > 36 \<or> radix < 2 then None
      else Some (if uval = 0 then ''0'' else ll_digits (nat radix) (nat uval) ''''))"

definition format_gno :: "int \<Rightarrow> string" where
  "format_gno gno = the (ll2str gno 10)"

section \<open>Reading\<close>

definition is_space :: "char \<Rightarrow> bool" where
  "is_space c \<longleftrightarrow> (9 \<le> (of_char c :: nat) \<and> (of_char c :: nat) \<le> 13) \<or> (of_char c :: nat) = 32"

fun skip_ws :: "string \<Rightarrow> string" where
  "skip_ws [] = []"
| "skip_ws (c # s) = (if is_space c then skip_ws s else c # s)"

text \<open>The value of a digit, 99 for a character that is none.\<close>

definition digit_val :: "char \<Rightarrow> nat" where
  "digit_val c =
     (let n = of_char c in
      if 48 \<le> n \<and> n \<le> 57 then n - 48
      else if 65 \<le> n \<and> n \<le> 90 then n - 55
      else if 97 \<le> n \<and> n \<le> 122 then n - 87
      else 99)"

definition LLONG_MAX :: int where
  "LLONG_MAX = 9223372036854775807"

definition LLONG_MIN :: int where
  "LLONG_MIN = -9223372036854775808"

fun strto_sign :: "string \<Rightarrow> bool \<times> string" where
  "strto_sign (c # s) = (if c = CHR ''-'' then (True, s) else if c = CHR ''+'' then (False, s) else (False, c # s))"
| "strto_sign [] = (False, [])"

text \<open>With base 0 the prefix decides: \<open>0x\<close> before a hexadecimal digit, or \<open>0\<close>, or neither.\<close>

fun strto_base :: "string \<Rightarrow> nat \<times> string" where
  "strto_base (a # b # d # s) =
     (if a = CHR ''0'' \<and> (b = CHR ''x'' \<or> b = CHR ''X'') \<and> digit_val d < 16 then (16, d # s)
      else if a = CHR ''0'' then (8, a # b # d # s) else (10, a # b # d # s))"
| "strto_base s = (if s \<noteq> [] \<and> hd s = CHR ''0'' then (8, s) else (10, s))"

definition digits_value :: "nat \<Rightarrow> string \<Rightarrow> nat" where
  "digits_value base ds = foldl (\<lambda>v c. v * base + digit_val c) 0 ds"

text \<open>The value and the rest of the text; without a digit the rest is the whole text.\<close>

definition strtoll :: "string \<Rightarrow> int \<times> string" where
  "strtoll s =
     (let (neg, s1) = strto_sign (skip_ws s); (base, s2) = strto_base s1;
          ds = takeWhile (\<lambda>c. digit_val c < base) s2; v = int (digits_value base ds) in
      if ds = [] then (0, s)
      else (if neg then max (- v) LLONG_MIN else min v LLONG_MAX, dropWhile (\<lambda>c. digit_val c < base) s2))"

text \<open>\<open>parse_gno\<close> moves the pointer only when the number is in range.\<close>

definition parse_gno :: "string \<Rightarrow> int \<times> string" where
  "parse_gno s =
     (case strtoll s of
        (ret, endp) \<Rightarrow> if ret < 0 \<or> ret \<ge> GNO_END then (-1, s) else (ret, endp))"

section \<open>Lengths and ranges\<close>

lemma skip_ws_length [simp]: "length (skip_ws s) \<le> length s"
  by (induction s) auto

lemma skip_ws_idem [simp]: "skip_ws (skip_ws s) = skip_ws s"
  by (induction s) auto

lemma skip_ws_stop [simp]: "\<not> is_space c \<Longrightarrow> skip_ws (c # s) = c # s"
  by simp

lemma parse_gno_range: "parse_gno s = (g, s') \<Longrightarrow> -1 \<le> g \<and> g < GNO_END"
  by (auto simp: parse_gno_def GNO_END_def split: prod.splits if_splits)

lemma strto_sign_length: "length (snd (strto_sign s)) \<le> length s"
  by (cases s) auto

lemma strto_base_length: "length (snd (strto_base s)) \<le> length s"
  by (induction s rule: strto_base.induct) auto

lemma strtoll_length: "length (snd (strtoll s)) \<le> length s"
proof -
  obtain neg s1 base s2 where s: "strto_sign (skip_ws s) = (neg, s1)" "strto_base s1 = (base, s2)"
    by (metis surj_pair)
  then have "length s2 \<le> length s"
    using strto_base_length [of s1] strto_sign_length [of "skip_ws s"] skip_ws_length [of s]
    by (simp del: skip_ws_length)
  then show ?thesis
    using length_dropWhile_le [of "\<lambda>c. digit_val c < base" s2] by (simp add: strtoll_def s Let_def)
qed

lemma parse_gno_length: "parse_gno s = (g, s') \<Longrightarrow> length s' \<le> length s"
  using strtoll_length [of s] by (auto simp: parse_gno_def split: prod.splits if_splits)

section \<open>A printed number is read back\<close>

lemma dig_vec_decimal:
  "d < 10 \<Longrightarrow> digit_val (dig_vec d) = d \<and> \<not> is_space (dig_vec d) \<and> dig_vec d \<noteq> CHR ''-'' \<and> dig_vec d \<noteq> CHR ''+''"
  "d < 10 \<Longrightarrow> dig_vec d = CHR ''0'' \<longleftrightarrow> d = 0"
proof -
  have "list_all (\<lambda>d. digit_val (dig_vec d) = d \<and> \<not> is_space (dig_vec d) \<and> dig_vec d \<noteq> CHR ''-'' \<and>
      dig_vec d \<noteq> CHR ''+'' \<and> (dig_vec d = CHR ''0'' \<longleftrightarrow> d = 0)) [0, 1, 2, 3, 4, 5, 6, 7, 8, 9]"
    by (simp add: dig_vec_def digit_val_def is_space_def)
  moreover have "d < 10 \<Longrightarrow> d \<in> set [0, 1, 2, 3, 4, 5, 6, 7, 8, 9]" for d :: nat by simp presburger
  ultimately show "d < 10 \<Longrightarrow> digit_val (dig_vec d) = d \<and> \<not> is_space (dig_vec d) \<and> dig_vec d \<noteq> CHR ''-'' \<and> dig_vec d \<noteq> CHR ''+''"
    and "d < 10 \<Longrightarrow> dig_vec d = CHR ''0'' \<longleftrightarrow> d = 0"
    unfolding list_all_iff by blast+
qed

fun decimal :: "nat \<Rightarrow> string" where
  "decimal n = (if n < 10 then [dig_vec n] else decimal (n div 10) @ [dig_vec (n mod 10)])"

declare decimal.simps [simp del]

lemma ll_digits_decimal: "0 < n \<Longrightarrow> ll_digits 10 n acc = decimal n @ acc"
proof (induction n arbitrary: acc rule: less_induct)
  case (less n)
  show ?case
  proof (cases "n < 10")
    case True
    with less.prems show ?thesis by (simp add: ll_digits.simps [of 10 n] ll_digits.simps [of 10 0] decimal.simps [of n])
  next
    case False
    with less.IH [of "n div 10"] show ?thesis by (simp add: ll_digits.simps [of 10 n] decimal.simps [of n])
  qed
qed

lemma format_gno_decimal:
  assumes "1 \<le> g" and "g < GNO_END"
  shows "format_gno g = decimal (nat g)"
proof -
  have "g mod 2 ^ 64 = g" using assms by (simp add: GNO_END_def)
  with assms show ?thesis by (simp add: format_gno_def ll2str_def ll_digits_decimal)
qed

lemma decimal_digits: "c \<in> set (decimal n) \<Longrightarrow> digit_val c < 10"
proof (induction n rule: decimal.induct)
  case (1 n)
  then show ?case using dig_vec_decimal(1) [of "n mod 10"] dig_vec_decimal(1) [of n]
    by (auto simp: decimal.simps [of n] split: if_splits)
qed

lemma decimal_value: "digits_value 10 (decimal n) = n"
proof (induction n rule: decimal.induct)
  case (1 n)
  then show ?case using dig_vec_decimal(1) [of "n mod 10"] dig_vec_decimal(1) [of n]
    by (auto simp: decimal.simps [of n] digits_value_def)
qed

lemma decimal_first: "\<exists>d ds. decimal n = dig_vec d # ds \<and> d < 10 \<and> (0 < n \<longrightarrow> 0 < d)"
proof (induction n rule: decimal.induct)
  case (1 n)
  show ?case
  proof (cases "n < 10")
    case True
    then show ?thesis by (auto simp: decimal.simps [of n])
  next
    case False
    with 1 obtain d ds where "decimal (n div 10) = dig_vec d # ds" "d < 10" "0 < d" by fastforce
    with False show ?thesis by (auto simp: decimal.simps [of n])
  qed
qed

lemma strtoll_decimal:
  assumes n: "0 < n" and stop: "rest = [] \<or> \<not> digit_val (hd rest) < 10"
  shows "strtoll (decimal n @ rest) = (min (int n) LLONG_MAX, rest)"
proof -
  obtain d ds where d: "decimal n = dig_vec d # ds" "d < 10" "0 < d" using decimal_first [of n] n by blast
  have nz: "dig_vec d \<noteq> CHR ''0''" using dig_vec_decimal(2) [OF d(2)] d(3) by simp
  have sign: "strto_sign (skip_ws (decimal n @ rest)) = (False, decimal n @ rest)"
    using dig_vec_decimal(1) [OF d(2)] d(1) by simp
  have base: "strto_base (decimal n @ rest) = (10, decimal n @ rest)"
    using nz d(1) by (cases "decimal n @ rest" rule: strto_base.cases) auto
  have tw: "takeWhile (\<lambda>c. digit_val c < 10) (decimal n @ rest) = decimal n"
      "dropWhile (\<lambda>c. digit_val c < 10) (decimal n @ rest) = rest"
    using stop decimal_digits by (cases rest; simp add: takeWhile_append2 dropWhile_append2)+
  have "decimal n \<noteq> []" using d(1) by simp
  then show ?thesis by (simp add: strtoll_def sign base tw decimal_value)
qed

lemma parse_gno_format:
  assumes "1 \<le> g" and "g < GNO_END" and "rest = [] \<or> \<not> digit_val (hd rest) < 10"
  shows "parse_gno (format_gno g @ rest) = (g, rest)"
  using assms by (simp add: parse_gno_def format_gno_decimal strtoll_decimal GNO_END_def LLONG_MAX_def)

end
