(* ===== verification/Gtid_Text.thy ===== *)
theory Gtid_Text
  imports Gtid_Set_Queries Number_Text
begin

text \<open>
  The textual form of GTIDs and of sets of them: \<open>add_gtid_text\<close>, \<open>is_valid\<close>, \<open>to_string\<close> and
  \<open>get_string_length\<close> of \<open>Gtid_set\<close> (\<^verbatim>\<open>sql/rpl_gtid_set.cc\<close>), \<open>Gtid::parse\<close>, \<open>Gtid::is_valid\<close> and
  \<open>Gtid::to_string\<close> (\<^verbatim>\<open>sql/rpl_gtid_misc.cc\<close>).
\<close>

section \<open>Reading a set\<close>

text \<open>What follows a colon: \<open>NUMBER\<close> or \<open>NUMBER-NUMBER\<close>, as start, end (exclusive) and rest.\<close>

definition read_interval :: "string \<Rightarrow> (int \<times> int \<times> string) option" where
  "read_interval s0 =
     (case parse_gno s0 of
        (start, s1) \<Rightarrow>
          if start \<le> 0 then None
          else let s2 = skip_ws s1 in
          if starts (CHR ''-'') s2 then
            (case parse_gno (tl s2) of
               (e, s3) \<Rightarrow> if e < 0 then None else Some (start, e + 1, skip_ws s3))
          else Some (start, start + 1, s2))"

lemma read_interval_length: "read_interval s = Some (a, e, r) \<Longrightarrow> length r \<le> length s"
proof -
  assume a: "read_interval s = Some (a, e, r)"
  obtain st s1 where s1: "parse_gno s = (st, s1)" by fastforce
  obtain en s3 where s3: "parse_gno (tl (skip_ws s1)) = (en, s3)" by fastforce
  have "length (skip_ws s1) \<le> length s" "length (skip_ws s3) \<le> length s"
    using parse_gno_length [OF s1] parse_gno_length [OF s3] skip_ws_length [of s1] skip_ws_length [of s3]
    by (simp_all del: skip_ws_length)
  with a show ?thesis by (auto simp: read_interval_def s1 s3 Let_def split: if_splits)
qed

lemma read_interval_shorter:
  "read_interval (tl s) = Some (a, e, r) \<Longrightarrow> starts c s \<Longrightarrow> length r < length s"
  using read_interval_length [of "tl s" a e r] by (cases s) auto

text \<open>
  The loop over the intervals of one SID. The iterator goes on from the current interval unless
  the new one starts before it. The result says whether the text was well formed so far.
\<close>

definition reposition :: "ivit \<Rightarrow> int \<Rightarrow> ivit" where
  "reposition it start =
     (case ivit_get it of
        None \<Rightarrow> ivit_init (ivit_list it)
      | Some current \<Rightarrow> if start < iv_start current then ivit_init (ivit_list it) else it)"

function add_text_intervals :: "ivit \<Rightarrow> pool \<Rightarrow> string \<Rightarrow> (string option) \<times> ivit \<times> pool" where
  "add_text_intervals it p s =
     (if starts (CHR '':'') s then
        (case read_interval (tl s) of
           None \<Rightarrow> (None, it, p)
         | Some (start, e, rest) \<Rightarrow>
             if e > start then
               (case add_gno_interval (reposition it start) start e p of
                  (it1, p1) \<Rightarrow> add_text_intervals it1 p1 rest)
             else add_text_intervals it p rest)
      else (Some s, it, p))"
  by pat_completeness auto
termination
  by (relation "measure (\<lambda>(it, p, s). length s)")
    (auto dest: read_interval_shorter)

declare add_text_intervals.simps [simp del]

function skip_commas :: "string \<Rightarrow> string" where
  "skip_commas [] = []"
| "skip_commas (c # s) = (if c = CHR '','' then skip_commas (skip_ws s) else c # s)"
  by pat_completeness auto
termination
  by (relation "measure length") (auto simp: le_imp_less_Suc)

lemma skip_commas_length: "length (skip_commas s) \<le> length s"
proof (induction s rule: skip_commas.induct)
  case (2 c s)
  then show ?case using skip_ws_length [of s] by (auto simp del: skip_ws_length)
qed simp

lemma add_text_intervals_length:
  "add_text_intervals it p s = (Some r, it', p') \<Longrightarrow> length r \<le> length s"
proof (induction it p s rule: add_text_intervals.induct)
  case (1 it p s)
  show ?case
  proof (cases "starts (CHR '':'') s \<and> read_interval (tl s) \<noteq> None")
    case True
    then obtain a e rest where r: "read_interval (tl s) = Some (a, e, rest)" by auto
    with True have "length rest < length s" using read_interval_shorter [OF r] by auto
    with 1 r True show ?thesis
      by (fastforce simp: add_text_intervals.simps [of it p s] split: if_splits prod.splits)
  next
    case False
    with 1(3) show ?thesis by (auto simp: add_text_intervals.simps [of it p s] split: if_splits option.splits)
  qed
qed

lemma text_rest_shorter:
  assumes "(Some r, q) = add_text_intervals it p (skip_ws (drop TEXT_LENGTH (skip_commas s0)))"
    and "skip_commas s0 \<noteq> []"
  shows "length r < length s0"
proof -
  have "length r \<le> length (skip_ws (drop TEXT_LENGTH (skip_commas s0)))"
    using assms(1) [symmetric] by (cases q) (auto dest: add_text_intervals_length)
  also have "\<dots> \<le> length (drop TEXT_LENGTH (skip_commas s0))" by (rule skip_ws_length)
  also have "\<dots> < length (skip_commas s0)" using assms(2) by (simp add: TEXT_LENGTH_def)
  also have "\<dots> \<le> length s0" by (rule skip_commas_length)
  finally show ?thesis .
qed

text \<open>
  \<open>add_gtid_text\<close> after the allocation: one SID with its intervals per round. \<open>anon\<close> is \<open>None\<close> when
  the caller passes no \<open>anonymous\<close> flag; the text \<open>ANONYMOUS\<close> is then not special.
\<close>

function add_text_loop ::
  "gs_env \<Rightarrow> bool option \<Rightarrow> sid_map \<Rightarrow> gtid_set \<Rightarrow> string
     \<Rightarrow> (enum_return_status \<times> bool option \<times> sid_map \<times> gtid_set) option" where
  "add_text_loop env anon sm gs s0 =
     (let s = skip_commas s0 in
      if s = [] then Some (RETURN_STATUS_OK, anon, sm, gs)
      else if anon \<noteq> None \<and> take 9 s = ''ANONYMOUS'' then
        let s' = drop 9 s in
        if starts (CHR '','') s' \<or> s' = [] then add_text_loop env (Some True) sm gs s'
        else Some (RETURN_STATUS_REPORTED_ERROR, Some True, sm, gs)
      else case uuid_parse s of
        None \<Rightarrow> Some (RETURN_STATUS_REPORTED_ERROR, anon, sm, gs)
      | Some (sid, _) \<Rightarrow>
          (case add_sid (node_env env) sid sm of
             (None, sm') \<Rightarrow> Some (RETURN_STATUS_REPORTED_ERROR, anon, sm', gs)
           | (Some sidno, sm') \<Rightarrow>
               (case gs_ensure_sidno (grow_ok env) id sidno gs of
                  (RETURN_STATUS_OK, gs1) \<Rightarrow>
                    (case ivs_at gs1 sidno of
                       None \<Rightarrow> None
                     | Some ivs \<Rightarrow>
                         (case add_text_intervals (ivit_init ivs) (gs_pool gs1) (skip_ws (drop TEXT_LENGTH s)) of
                            (r, it, p) \<Rightarrow>
                              let gs2 = store_ivs sidno (it, p) gs1 in
                              (case r of
                                 None \<Rightarrow> Some (RETURN_STATUS_REPORTED_ERROR, anon, sm', gs2)
                               | Some s' \<Rightarrow>
                                   if starts (CHR '','') s' \<or> s' = []
                                   then add_text_loop env anon sm' gs2 s'
                                   else Some (RETURN_STATUS_REPORTED_ERROR, anon, sm', gs2))))
                | (status, gs1) \<Rightarrow> Some (status, anon, sm', gs1))))"
  by pat_completeness auto
termination
proof (relation "measure (\<lambda>(env, anon, sm, gs, s). length s)", goal_cases)
  case (2 env anon sm gs s0 s s')
  then have "length s' < length s" by simp
  also have "\<dots> \<le> length s0" using 2 skip_commas_length [of s0] by simp
  finally show ?case by simp
next
  case 3
  then show ?case by (auto dest!: text_rest_shorter)
qed simp

declare add_text_loop.simps [simp del]

text \<open>
  The whole operation: white space is skipped, a blank text is accepted as it is, and a set that
  has no memory yet gets one chunk with as many cells as the text has colons.
\<close>

definition add_gtid_text ::
  "gs_env \<Rightarrow> bool option \<Rightarrow> string \<Rightarrow> sid_map \<Rightarrow> gtid_set
     \<Rightarrow> (enum_return_status \<times> bool option \<times> sid_map \<times> gtid_set) option" where
  "add_gtid_text env anon text sm gs =
     (let anon1 = (if anon = None then None else Some False); s = skip_ws text in
      if s = [] then Some (RETURN_STATUS_OK, anon1, sm, gs)
      else
        let gs1 = (if chunks (gs_pool gs) = []
                   then gs\<lparr>gs_pool := create_new_chunk (count_list s (CHR '':'')) (gs_pool gs)\<rparr>
                   else gs)
        in add_text_loop env anon1 sm gs1 s)"

text \<open>\<open>Gtid_set::is_valid\<close>, which follows the same grammar without building anything.\<close>

function valid_intervals :: "string \<Rightarrow> string option" where
  "valid_intervals s =
     (if starts (CHR '':'') s then
        (case read_interval (tl s) of
           None \<Rightarrow> None
         | Some (_, _, rest) \<Rightarrow> valid_intervals rest)
      else Some s)"
  by pat_completeness auto
termination
  by (relation "measure length") (auto dest: read_interval_shorter)

declare valid_intervals.simps [simp del]

lemma valid_intervals_length: "valid_intervals s = Some r \<Longrightarrow> length r \<le> length s"
proof (induction s rule: valid_intervals.induct)
  case (1 s)
  then show ?case
    by (fastforce simp: valid_intervals.simps [of s] dest: read_interval_shorter split: if_splits option.splits)
qed

function valid_loop :: "string \<Rightarrow> bool" where
  "valid_loop s0 =
     (let s = skip_commas s0 in
      if s = [] then True
      else if \<not> uuid_is_valid s then False
      else case valid_intervals (skip_ws (drop TEXT_LENGTH s)) of
        None \<Rightarrow> False
      | Some s' \<Rightarrow> if starts (CHR '','') s' then valid_loop s' else s' = [])"
  by pat_completeness auto
termination
proof (relation "measure length", goal_cases)
  case (2 s0 s s')
  have "length s' \<le> length (skip_ws (drop TEXT_LENGTH s))" using 2 valid_intervals_length by blast
  also have "\<dots> \<le> length (drop TEXT_LENGTH s)" by (rule skip_ws_length)
  also have "\<dots> < length s" using 2 by (cases s) (auto simp: TEXT_LENGTH_def)
  also have "\<dots> \<le> length s0" using 2 skip_commas_length [of s0] by simp
  finally show ?case by simp
qed simp

declare valid_loop.simps [simp del]

definition gtid_set_is_valid :: "string \<Rightarrow> bool" where
  "gtid_set_is_valid text = valid_loop (skip_ws text)"

section \<open>Printing a set\<close>

record string_format =
  sf_begin :: string
  sf_end :: string
  sid_gno_separator :: string
  gno_start_end_separator :: string
  gno_gno_separator :: string
  gno_sid_separator :: string
  empty_set_string :: "string option"
  begin_length :: nat
  end_length :: nat
  sid_gno_separator_length :: nat
  gno_start_end_separator_length :: nat
  gno_gno_separator_length :: nat
  gno_sid_separator_length :: nat
  empty_set_string_length :: nat

text \<open>The newline in the separators of the three formats is the character 10.\<close>

definition newline :: char where
  "newline = CHR 0x0A"

definition default_string_format :: string_format where
  "default_string_format =
     \<lparr>sf_begin = '''', sf_end = '''', sid_gno_separator = '':'', gno_start_end_separator = ''-'',
      gno_gno_separator = '':'', gno_sid_separator = [CHR '','', newline], empty_set_string = Some '''',
      begin_length = 0, end_length = 0, sid_gno_separator_length = 1,
      gno_start_end_separator_length = 1, gno_gno_separator_length = 1,
      gno_sid_separator_length = 2, empty_set_string_length = 0\<rparr>"

definition quote_char :: char where
  "quote_char = CHR 0x27"

definition sql_string_format :: string_format where
  "sql_string_format =
     \<lparr>sf_begin = [quote_char], sf_end = [quote_char], sid_gno_separator = '':'',
      gno_start_end_separator = ''-'', gno_gno_separator = '':'',
      gno_sid_separator = [quote_char, CHR '','', newline, quote_char],
      empty_set_string = Some [quote_char, quote_char],
      begin_length = 1, end_length = 1, sid_gno_separator_length = 1,
      gno_start_end_separator_length = 1, gno_gno_separator_length = 1,
      gno_sid_separator_length = 4, empty_set_string_length = 2\<rparr>"

definition commented_string_format :: string_format where
  "commented_string_format =
     \<lparr>sf_begin = ''# '', sf_end = '''', sid_gno_separator = '':'', gno_start_end_separator = ''-'',
      gno_gno_separator = '':'', gno_sid_separator = [CHR '','', newline] @ ''# '',
      empty_set_string = Some ''# [empty]'',
      begin_length = 2, end_length = 0, sid_gno_separator_length = 1,
      gno_start_end_separator_length = 1, gno_gno_separator_length = 1,
      gno_sid_separator_length = 4, empty_set_string_length = 9\<rparr>"

definition print_interval :: "string_format \<Rightarrow> interval \<Rightarrow> string" where
  "print_interval sf iv =
     format_gno (iv_start iv) @
     (if iv_end iv > iv_start iv + 1
      then take (gno_start_end_separator_length sf) (gno_start_end_separator sf) @ format_gno (iv_end iv - 1)
      else [])"

text \<open>The inner loop, with the flag \<open>first_gno\<close>.\<close>

fun print_intervals :: "string_format \<Rightarrow> bool \<Rightarrow> interval list \<Rightarrow> string" where
  "print_intervals sf first_gno [] = []"
| "print_intervals sf first_gno (iv # ivs) =
     (if first_gno then take (sid_gno_separator_length sf) (sid_gno_separator sf)
      else take (gno_gno_separator_length sf) (gno_gno_separator sf)) @
     print_interval sf iv @ print_intervals sf False ivs"

fun print_sidnos :: "string_format \<Rightarrow> sid_map \<Rightarrow> gtid_set \<Rightarrow> bool \<Rightarrow> nat list \<Rightarrow> string" where
  "print_sidnos sf sm gs first_sidno [] = []"
| "print_sidnos sf sm gs first_sidno (sidno # sidnos) =
     (if contains_sidno gs sidno then
        (if first_sidno then [] else take (gno_sid_separator_length sf) (gno_sid_separator sf)) @
        uuid_to_string (sidno_to_sid sm sidno) @ print_intervals sf True (m_intervals gs ! (sidno - 1)) @
        print_sidnos sf sm gs False sidnos
      else print_sidnos sf sm gs first_sidno sidnos)"

definition gtid_set_to_string :: "string_format \<Rightarrow> sid_map \<Rightarrow> gtid_set \<Rightarrow> string" where
  "gtid_set_to_string sf sm gs =
     (case empty_set_string sf of
        Some e \<Rightarrow>
          if gs_is_empty gs then take (empty_set_string_length sf) e
          else take (begin_length sf) (sf_begin sf) @ print_sidnos sf sm gs True (sorted_sidnos sm) @
               take (end_length sf) (sf_end sf)
      | None \<Rightarrow>
          take (begin_length sf) (sf_begin sf) @ print_sidnos sf sm gs True (sorted_sidnos sm) @
          take (end_length sf) (sf_end sf))"

section \<open>The length of the printed set\<close>

text \<open>The loop \<open>do ... while (tmp_gno != 0)\<close> that counts decimal digits.\<close>

function gno_string_length :: "nat \<Rightarrow> nat" where
  "gno_string_length gno = (if gno div 10 \<noteq> 0 then gno_string_length (gno div 10) + 1 else 1)"
  by pat_completeness auto
termination
  by (relation "measure id") auto

declare gno_string_length.simps [simp del]

text \<open>The four counters over the lists: SIDs, intervals, intervals with two numbers, digits.\<close>

record string_stats =
  n_sids :: nat
  n_intervals :: nat
  n_long_intervals :: nat
  total_interval_length :: nat

definition count_interval :: "interval \<Rightarrow> string_stats \<Rightarrow> string_stats" where
  "count_interval iv st =
     (let st1 = st\<lparr>n_intervals := n_intervals st + 1,
                   total_interval_length := total_interval_length st + gno_string_length (nat (iv_start iv))\<rparr> in
      if iv_end iv - 1 > iv_start iv
      then st1\<lparr>n_long_intervals := n_long_intervals st1 + 1,
               total_interval_length := total_interval_length st1 + gno_string_length (nat (iv_end iv - 1))\<rparr>
      else st1)"

definition count_list_stats :: "interval list \<Rightarrow> string_stats \<Rightarrow> string_stats" where
  "count_list_stats ivs st =
     (if ivs \<noteq> [] then fold count_interval ivs (st\<lparr>n_sids := n_sids st + 1\<rparr>) else st)"

definition string_stats_of :: "gtid_set \<Rightarrow> string_stats" where
  "string_stats_of gs =
     fold count_list_stats (m_intervals gs)
       \<lparr>n_sids = 0, n_intervals = 0, n_long_intervals = 0, total_interval_length = 0\<rparr>"

definition computed_string_length :: "string_format \<Rightarrow> gtid_set \<Rightarrow> nat" where
  "computed_string_length sf gs =
     (let st = string_stats_of gs in
      if n_sids st = 0 \<and> empty_set_string sf \<noteq> None then empty_set_string_length sf
      else begin_length sf + end_length sf +
        (if n_sids st > 0 then
           total_interval_length st +
           n_sids st * (TEXT_LENGTH + sid_gno_separator_length sf) +
           (n_sids st - 1) * gno_sid_separator_length sf +
           (n_intervals st - n_sids st) * gno_gno_separator_length sf +
           n_long_intervals st * gno_start_end_separator_length sf
         else 0))"

text \<open>\<open>formats\<close> maps the address of a format to its contents; the cache remembers the address.\<close>

definition get_string_length :: "(nat \<Rightarrow> string_format) \<Rightarrow> nat \<Rightarrow> gtid_set \<Rightarrow> nat \<times> gtid_set" where
  "get_string_length formats sf gs =
     (if \<not> has_cached_string_length (gs_pool gs) \<or> cached_string_format gs \<noteq> Some sf then
        let len = computed_string_length (formats sf) gs in
        (len, gs\<lparr>gs_pool := (gs_pool gs)\<lparr>cached_string_length := len, has_cached_string_length := True\<rparr>,
                 cached_string_format := Some sf\<rparr>)
      else (cached_string_length (gs_pool gs), gs))"

section \<open>Single GTIDs\<close>

text \<open>\<open>Gtid::parse\<close>: the new SIDNO and GNO, or an error that leaves the GTID as it was.\<close>

definition gtid_parse :: "add_node_env \<Rightarrow> string \<Rightarrow> sid_map \<Rightarrow> (nat \<times> int) option \<times> sid_map" where
  "gtid_parse env text sm =
     (let s = skip_ws text in
      case uuid_parse s of
        None \<Rightarrow> (None, sm)
      | Some (sid, _) \<Rightarrow>
          (case add_sid env sid sm of
             (None, sm') \<Rightarrow> (None, sm')
           | (Some sidno_var, sm') \<Rightarrow>
               let s1 = skip_ws (drop TEXT_LENGTH s) in
               if starts (CHR '':'') s1 then
                 (case parse_gno (skip_ws (tl s1)) of
                    (gno_var, s2) \<Rightarrow>
                      if gno_var > 0 then
                        if skip_ws s2 = [] then (Some (sidno_var, gno_var), sm') else (None, sm')
                      else (None, sm'))
               else (None, sm')))"

definition gtid_is_valid :: "string \<Rightarrow> bool" where
  "gtid_is_valid text =
     (let s = skip_ws text in
      if \<not> uuid_is_valid s then False
      else let s1 = skip_ws (drop TEXT_LENGTH s) in
      if \<not> starts (CHR '':'') s1 then False
      else case parse_gno (skip_ws (tl s1)) of
        (g, s2) \<Rightarrow> if g \<le> 0 then False else skip_ws s2 = [])"

definition gtid_to_string_sid :: "sid \<Rightarrow> int \<Rightarrow> string" where
  "gtid_to_string_sid sid gno = uuid_to_string sid @ CHR '':'' # format_gno gno"

definition gtid_to_string :: "sid_map \<Rightarrow> nat \<times> int \<Rightarrow> string" where
  "gtid_to_string sm gtid = gtid_to_string_sid (sidno_to_sid sm (fst gtid)) (snd gtid)"

section \<open>Specifications: the value of GTID_NEXT\<close>

text \<open>\<open>enum_group_type\<close> and \<open>Gtid_specification\<close> of \<^verbatim>\<open>sql/rpl_gtid.h\<close>.\<close>

datatype enum_group_type =
  AUTOMATIC_GROUP | GTID_GROUP | ANONYMOUS_GROUP | UNDEFINED_GROUP | NOT_YET_DETERMINED_GROUP

record gtid_specification =
  spec_type :: enum_group_type
  spec_gtid :: "nat \<times> int"

definition spec_set :: "nat \<Rightarrow> int \<Rightarrow> gtid_specification \<Rightarrow> gtid_specification" where
  "spec_set sidno gno sp = sp\<lparr>spec_gtid := (sidno, gno), spec_type := GTID_GROUP\<rparr>"

definition spec_equals :: "gtid_specification \<Rightarrow> gtid_specification \<Rightarrow> bool" where
  "spec_equals a b \<longleftrightarrow>
     spec_type a = spec_type b \<and> (spec_type a \<noteq> GTID_GROUP \<or> spec_gtid a = spec_gtid b)"

definition spec_equals_gtid :: "gtid_specification \<Rightarrow> nat \<times> int \<Rightarrow> bool" where
  "spec_equals_gtid a g \<longleftrightarrow> spec_type a = GTID_GROUP \<and> spec_gtid a = g"

text \<open>\<open>my_strcasecmp\<close> against a text of capital letters, for characters of ASCII.\<close>

definition to_upper :: "char \<Rightarrow> char" where
  "to_upper c = (let n = of_char c :: nat in if 97 \<le> n \<and> n \<le> 122 then char_of (n - 32) else c)"

definition equals_nocase :: "string \<Rightarrow> string \<Rightarrow> bool" where
  "equals_nocase text capitals \<longleftrightarrow> map to_upper text = capitals"

definition spec_parse ::
  "add_node_env \<Rightarrow> string \<Rightarrow> sid_map \<Rightarrow> gtid_specification \<Rightarrow> enum_return_status \<times> gtid_specification \<times> sid_map" where
  "spec_parse env text sm sp =
     (if equals_nocase text ''AUTOMATIC'' then
        (RETURN_STATUS_OK, sp\<lparr>spec_type := AUTOMATIC_GROUP, spec_gtid := (0, 0)\<rparr>, sm)
      else if equals_nocase text ''ANONYMOUS'' then
        (RETURN_STATUS_OK, sp\<lparr>spec_type := ANONYMOUS_GROUP, spec_gtid := (0, 0)\<rparr>, sm)
      else case gtid_parse env text sm of
        (None, sm') \<Rightarrow> (RETURN_STATUS_REPORTED_ERROR, sp, sm')
      | (Some g, sm') \<Rightarrow> (RETURN_STATUS_OK, sp\<lparr>spec_gtid := g, spec_type := GTID_GROUP\<rparr>, sm'))"

definition spec_is_valid :: "string \<Rightarrow> bool" where
  "spec_is_valid text =
     (if equals_nocase text ''AUTOMATIC'' then True
      else if equals_nocase text ''ANONYMOUS'' then True
      else gtid_is_valid text)"

definition spec_to_string :: "sid_map \<Rightarrow> gtid_specification \<Rightarrow> string" where
  "spec_to_string sm sp =
     (case spec_type sp of
        AUTOMATIC_GROUP \<Rightarrow> ''AUTOMATIC''
      | NOT_YET_DETERMINED_GROUP \<Rightarrow> ''NOT_YET_DETERMINED''
      | ANONYMOUS_GROUP \<Rightarrow> ''ANONYMOUS''
      | UNDEFINED_GROUP \<Rightarrow> gtid_to_string sm (spec_gtid sp)
      | GTID_GROUP \<Rightarrow> gtid_to_string sm (spec_gtid sp))"

end
