(* ===== verification/Gtid_Text_Laws.thy ===== *)
theory Gtid_Text_Laws
  imports Gtid_Text
begin

text \<open>
  The textual form of a set: a denotation of texts as sets of (SID, GNO) pairs, the proof that
  \<open>add_gtid_text\<close> adds exactly what the text denotes and fails exactly on texts without a
  denotation, that \<open>is_valid\<close> recognises the same texts, and that a printed set denotes itself.
\<close>

section \<open>What a text denotes\<close>

function text_intervals :: "string \<Rightarrow> (int set \<times> string) option" where
  "text_intervals s =
     (if starts (CHR '':'') s then
        (case read_interval (tl s) of
           None \<Rightarrow> None
         | Some (a, e, rest) \<Rightarrow>
             (case text_intervals rest of None \<Rightarrow> None | Some (G, r) \<Rightarrow> Some ({a ..< e} \<union> G, r)))
      else Some ({}, s))"
  by pat_completeness auto
termination
  by (relation "measure length") (auto dest: read_interval_shorter)

declare text_intervals.simps [simp del]

lemma text_intervals_valid: "map_option snd (text_intervals s) = valid_intervals s"
proof (induction s rule: text_intervals.induct)
  case (1 s)
  show ?case
  proof (cases "starts (CHR '':'') s")
    case True
    show ?thesis
    proof (cases "read_interval (tl s)")
      case None
      then show ?thesis by (simp add: text_intervals.simps [of s] valid_intervals.simps [of s])
    next
      case (Some r)
      obtain a e rest where r: "r = (a, e, rest)" by (cases r)
      have "map_option snd (text_intervals rest) = valid_intervals rest" using 1 True Some r by blast
      then show ?thesis
        by (cases "text_intervals rest")
          (auto simp: text_intervals.simps [of s] valid_intervals.simps [of s] True Some r)
    qed
  qed (simp add: text_intervals.simps [of s] valid_intervals.simps [of s])
qed

lemma text_intervals_shorter:
  assumes "text_intervals (skip_ws (drop TEXT_LENGTH (skip_commas s0))) = Some (G, r)"
    and "skip_commas s0 \<noteq> []"
  shows "length r < length s0"
proof -
  have "valid_intervals (skip_ws (drop TEXT_LENGTH (skip_commas s0))) = Some r"
    unfolding text_intervals_valid [symmetric] using assms(1) by simp
  then have "length r \<le> length (skip_ws (drop TEXT_LENGTH (skip_commas s0)))"
    by (rule valid_intervals_length)
  also have "\<dots> \<le> length (drop TEXT_LENGTH (skip_commas s0))" by (rule skip_ws_length)
  also have "\<dots> < length (skip_commas s0)" using assms(2) by (simp add: TEXT_LENGTH_def)
  also have "\<dots> \<le> length s0" by (rule skip_commas_length)
  finally show ?thesis .
qed

function text_items :: "string \<Rightarrow> (sid \<times> int) set option" where
  "text_items s0 =
     (if skip_commas s0 = [] then Some {}
      else case uuid_parse (skip_commas s0) of
        None \<Rightarrow> None
      | Some (sid, _) \<Rightarrow>
          (case text_intervals (skip_ws (drop TEXT_LENGTH (skip_commas s0))) of
             None \<Rightarrow> None
           | Some (G, r) \<Rightarrow>
               if starts (CHR '','') r \<or> r = []
               then (case text_items r of None \<Rightarrow> None | Some A \<Rightarrow> Some ({sid} \<times> G \<union> A))
               else None))"
  by pat_completeness auto
termination
  by (relation "measure length") (auto dest: text_intervals_shorter)

declare text_items.simps [simp del]

definition text_gtids :: "string \<Rightarrow> (sid \<times> int) set option" where
  "text_gtids text = text_items (skip_ws text)"

section \<open>Validation recognises the texts with a denotation\<close>

lemma text_items_Nil: "text_items [] = Some {}"
  by (simp add: text_items.simps)

lemma valid_loop_iff: "valid_loop s \<longleftrightarrow> text_items s \<noteq> None"
proof (induction s rule: text_items.induct)
  case (1 s0)
  let ?s = "skip_commas s0"
  let ?i = "text_intervals (skip_ws (drop TEXT_LENGTH ?s))"
  have v: "valid_intervals (skip_ws (drop TEXT_LENGTH ?s)) = map_option snd ?i"
    by (simp add: text_intervals_valid)
  show ?case
  proof (cases "?s = [] \<or> uuid_parse ?s = None \<or> ?i = None")
    case True
    then show ?thesis
      by (auto simp: valid_loop.simps [of s0] text_items.simps [of s0] v uuid_is_valid_iff Let_def
          split: option.splits)
  next
    case False
    then obtain sid u G r where f: "?s \<noteq> []" "uuid_parse ?s = Some (sid, u)" "?i = Some (G, r)" by auto
    then have "starts (CHR '','') r \<or> r = [] \<Longrightarrow> valid_loop r \<longleftrightarrow> text_items r \<noteq> None"
      using 1 by blast
    then show ?thesis
      by (cases "text_items r"; cases "r = []")
        (auto simp: valid_loop.simps [of s0] text_items.simps [of s0] v f uuid_is_valid_iff text_items_Nil)
  qed
qed

lemma gtid_set_is_valid_iff: "gtid_set_is_valid text \<longleftrightarrow> text_gtids text \<noteq> None"
  by (simp add: gtid_set_is_valid_def text_gtids_def valid_loop_iff)

section \<open>Reading adds the denotation\<close>

lemma reposition_list: "ivit_list (reposition it start) = ivit_list it"
  by (auto simp: reposition_def ivit_init_def split: option.splits)

lemma reposition_before:
  assumes "wf_ivs (ivit_list it)" and "a \<in> set (fst (reposition it start))"
  shows "iv_end a < start"
proof -
  obtain pre cur where it: "it = (pre, cur)" by (cases it)
  from assms(2) obtain iv rest where "cur = iv # rest" "\<not> start < iv_start iv" "a \<in> set pre"
    by (cases cur) (auto simp: reposition_def it ivit_init_def split: if_splits)
  with assms(1) show ?thesis by (force simp: it wf_ivs_append)
qed

lemma read_interval_range:
  "read_interval s = Some (a, e, r) \<Longrightarrow> 1 \<le> a \<and> e \<le> GNO_END"
  by (auto simp: read_interval_def Let_def split: prod.splits if_splits dest!: parse_gno_range)

lemma add_text_intervals_correct:
  assumes "wf_ivs (ivit_list it)"
  shows "\<exists>it' p'. add_text_intervals it p s = (map_option snd (text_intervals s), it', p') \<and>
    wf_ivs (ivit_list it') \<and> same_balance (ivit_list it) p (ivit_list it') p' \<and>
    gnos (ivit_list it) \<subseteq> gnos (ivit_list it') \<and>
    (\<forall>G r. text_intervals s = Some (G, r) \<longrightarrow> gnos (ivit_list it') = gnos (ivit_list it) \<union> G)"
  using assms
proof (induction it p s rule: add_text_intervals.induct)
  case (1 it p s)
  show ?case
  proof (cases "starts (CHR '':'') s \<and> read_interval (tl s) \<noteq> None")
    case False
    then have "add_text_intervals it p s = (map_option snd (text_intervals s), it, p)"
        "\<forall>G r. text_intervals s = Some (G, r) \<longrightarrow> G = {}"
      by (auto simp: add_text_intervals.simps [of it p s] text_intervals.simps [of s] split: option.splits)
    with 1(3) show ?thesis by (intro exI [of _ it] exI [of _ p]) auto
  next
    case True
    then obtain a e rest where r: "read_interval (tl s) = Some (a, e, rest)" and c: "starts (CHR '':'') s"
      by auto
    note range = read_interval_range [OF r]
    show ?thesis
    proof (cases "e > a")
      case False
      then have "{a ..< e} = {}" by simp
      moreover have "\<exists>it' p'. add_text_intervals it p rest = (map_option snd (text_intervals rest), it', p') \<and>
          wf_ivs (ivit_list it') \<and> same_balance (ivit_list it) p (ivit_list it') p' \<and>
          gnos (ivit_list it) \<subseteq> gnos (ivit_list it') \<and>
          (\<forall>G r. text_intervals rest = Some (G, r) \<longrightarrow> gnos (ivit_list it') = gnos (ivit_list it) \<union> G)"
        using 1(2) [OF c r refl refl False 1(3)] .
      ultimately show ?thesis using False
        by (cases "text_intervals rest")
          (auto simp: add_text_intervals.simps [of it p s] text_intervals.simps [of s] c r)
    next
      case gt: True
      obtain pre cur where rp: "reposition it a = (pre, cur)" by fastforce
      have list: "pre @ cur = ivit_list it" using reposition_list [of it a] rp by simp
      have "\<forall>x \<in> set pre. iv_end x < a" using reposition_before [OF 1(3), of _ a] rp by simp
      then obtain pre1 cur1 p1 where add: "add_gno_interval (pre, cur) a e p = ((pre1, cur1), p1)"
          "wf_ivs (pre1 @ cur1)" "gnos (pre1 @ cur1) = gnos (ivit_list it) \<union> {a ..< e}"
        using add_gno_interval_correct [of pre cur a e p] range gt 1(3) list by auto
      have bal: "same_balance (ivit_list it) p (pre1 @ cur1) p1"
        using gno_interval_balance(1) [OF add(1)] list by simp
      have "wf_ivs (ivit_list (pre1, cur1))" using add(2) by simp
      from 1(1) [OF c r refl refl gt, of "(pre1, cur1)" p1, OF _ this] rp add(1)
      obtain it' p' where "add_text_intervals (pre1, cur1) p1 rest = (map_option snd (text_intervals rest), it', p')"
          "wf_ivs (ivit_list it')" "same_balance (pre1 @ cur1) p1 (ivit_list it') p'"
          "gnos (pre1 @ cur1) \<subseteq> gnos (ivit_list it')"
          "\<forall>G r. text_intervals rest = Some (G, r) \<longrightarrow> gnos (ivit_list it') = gnos (pre1 @ cur1) \<union> G"
        by auto
      with same_balance_trans [OF bal] add gt rp show ?thesis
        by (cases "text_intervals rest")
          (auto simp: add_text_intervals.simps [of it p s] text_intervals.simps [of s] c r)
    qed
  qed
qed

text \<open>One round of the loop: a SID is looked up or numbered, room is made, its intervals are added.\<close>

lemma add_text_sid:
  assumes inv: "gs_inv gs" "sid_map_inv sm" "get_max_sidno gs \<le> sm_max_sidno sm"
    and sid: "length sid = BYTE_LENGTH"
  obtains n sm1 gs1 it p G where "add_sid env_ok sid sm = (Some n, sm1)"
    and "gs_ensure_sidno (\<lambda>_. True) id n gs = (RETURN_STATUS_OK, gs1)"
    and "1 \<le> n" and "n \<le> get_max_sidno gs1"
    and "add_text_intervals (ivit_init (m_intervals gs1 ! (n - 1))) (gs_pool gs1) s =
      (map_option snd (text_intervals s), it, p)"
    and "add_translated_post sm gs ({sid} \<times> G) sm1 (store_ivs n (it, p) gs1)"
    and "\<And>G' r. text_intervals s = Some (G', r) \<Longrightarrow> G' = G"
proof (rule sid_step [OF inv sid])
  fix n sm1 and gs1 :: gtid_set
  let ?ivs = "m_intervals gs1 ! (n - 1)"
  assume st: "add_sid env_ok sid sm = (Some n, sm1)"
      "gs_ensure_sidno (\<lambda>_. True) id n gs = (RETURN_STATUS_OK, gs1)"
      "1 \<le> n" "n \<le> get_max_sidno gs1" "gs_inv gs1"
    and post: "\<And>it p G. wf_ivs (ivit_list it) \<Longrightarrow> same_balance ?ivs (gs_pool gs1) (ivit_list it) p \<Longrightarrow>
      gnos (ivit_list it) = gnos ?ivs \<union> G \<Longrightarrow>
      add_translated_post sm gs ({sid} \<times> G) sm1 (store_ivs n (it, p) gs1)"
  have "wf_ivs (ivit_list (ivit_init ?ivs))" using gs_inv_wf [OF st(5,3,4)] by (simp add: ivit_init_def)
  from add_text_intervals_correct [OF this, of "gs_pool gs1" s]
  obtain it p where t: "add_text_intervals (ivit_init ?ivs) (gs_pool gs1) s = (map_option snd (text_intervals s), it, p)"
      "wf_ivs (ivit_list it)" "same_balance ?ivs (gs_pool gs1) (ivit_list it) p"
      "gnos ?ivs \<subseteq> gnos (ivit_list it)"
      "\<And>G r. text_intervals s = Some (G, r) \<Longrightarrow> gnos (ivit_list it) = gnos ?ivs \<union> G"
    by (auto simp: ivit_init_def)
  define G where "G = (case text_intervals s of None \<Rightarrow> gnos (ivit_list it) | Some (G, r) \<Rightarrow> G)"
  have "gnos (ivit_list it) = gnos ?ivs \<union> G" using t(4,5) by (auto simp: G_def split: option.splits)
  from post [OF t(2,3) this] st t(1) show thesis
    by (intro that [of n sm1 gs1 it p G]) (simp_all add: G_def)
qed

definition add_text_post ::
  "(sid \<times> int) set option \<Rightarrow> sid_map \<Rightarrow> gtid_set
     \<Rightarrow> (enum_return_status \<times> bool option \<times> sid_map \<times> gtid_set) option \<Rightarrow> bool" where
  "add_text_post denot sm gs res \<longleftrightarrow>
     (\<exists>status sm' gs' S. res = Some (status, None, sm', gs') \<and> add_translated_post sm gs S sm' gs' \<and>
        (case denot of None \<Rightarrow> status = RETURN_STATUS_REPORTED_ERROR
         | Some A \<Rightarrow> status = RETURN_STATUS_OK \<and> S = A))"

lemma add_translated_post_refl:
  "gs_inv gs \<Longrightarrow> sid_map_inv sm \<Longrightarrow> get_max_sidno gs \<le> sm_max_sidno sm \<Longrightarrow> add_translated_post sm gs {} sm gs"
  by (simp add: add_translated_post_def)

lemma add_text_post_error:
  "add_translated_post sm gs S sm' gs' \<Longrightarrow>
     add_text_post None sm gs (Some (RETURN_STATUS_REPORTED_ERROR, None, sm', gs'))"
  by (auto simp: add_text_post_def)

lemma add_text_post_step:
  assumes "add_translated_post sm gs S sm1 gs1" and "add_text_post denot sm1 gs1 res"
  shows "add_text_post (map_option (\<lambda>A. S \<union> A) denot) sm gs res"
  using assms add_translated_post_trans [OF assms(1)] unfolding add_text_post_def
  by (cases denot) (simp; blast)+

lemma add_text_loop_correct:
  assumes "gs_inv gs" and "sid_map_inv sm" and "get_max_sidno gs \<le> sm_max_sidno sm"
  shows "add_text_post (text_items s0) sm gs (add_text_loop gs_env_ok None sm gs s0)"
  using assms
proof (induction s0 arbitrary: sm gs rule: text_items.induct)
  case (1 s0)
  let ?s = "skip_commas s0"
  let ?t = "skip_ws (drop TEXT_LENGTH ?s)"
  show ?case
  proof (cases "?s = [] \<or> uuid_parse ?s = None")
    case True
    with add_translated_post_refl [OF 1(2-4)] show ?thesis
      by (auto simp: add_text_post_def text_items.simps [of s0] add_text_loop.simps [of _ _ _ _ s0] Let_def)
  next
    case False
    then obtain sid u where sid: "?s \<noteq> []" "uuid_parse ?s = Some (sid, u)" by auto
    obtain n sm1 gs1 it p G where st: "add_sid env_ok sid sm = (Some n, sm1)"
        "gs_ensure_sidno (\<lambda>_. True) id n gs = (RETURN_STATUS_OK, gs1)" "1 \<le> n" "n \<le> get_max_sidno gs1"
        "add_text_intervals (ivit_init (m_intervals gs1 ! (n - 1))) (gs_pool gs1) ?t =
          (map_option snd (text_intervals ?t), it, p)"
        "add_translated_post sm gs ({sid} \<times> G) sm1 (store_ivs n (it, p) gs1)"
        "\<And>G' r. text_intervals ?t = Some (G', r) \<Longrightarrow> G' = G"
      using add_text_sid [OF 1(2-4) uuid_parse_length [OF sid(2)], of ?t] by metis
    let ?gs2 = "store_ivs n (it, p) gs1"
    have loop: "add_text_loop gs_env_ok None sm gs s0 =
        (case map_option snd (text_intervals ?t) of
           None \<Rightarrow> Some (RETURN_STATUS_REPORTED_ERROR, None, sm1, ?gs2)
         | Some s' \<Rightarrow> if starts (CHR '','') s' \<or> s' = [] then add_text_loop gs_env_ok None sm1 ?gs2 s'
                     else Some (RETURN_STATUS_REPORTED_ERROR, None, sm1, ?gs2))"
      using sid st(1-5) by (subst add_text_loop.simps) (simp add: gs_env_ok_def Let_def)
    show ?thesis
    proof (cases "text_intervals ?t")
      case None
      with sid loop add_text_post_error [OF st(6)] show ?thesis by (simp add: text_items.simps [of s0])
    next
      case (Some Gr)
      then obtain r where r: "text_intervals ?t = Some (G, r)" using st(7) by (cases Gr) auto
      show ?thesis
      proof (cases "starts (CHR '','') r \<or> r = []")
        case True
        have "add_text_post (text_items r) sm1 ?gs2 (add_text_loop gs_env_ok None sm1 ?gs2 r)"
          using 1(1) [OF sid(1,2) refl r refl True] st(6) by (simp add: add_translated_post_def)
        from add_text_post_step [OF st(6) this] show ?thesis
          unfolding loop using True sid r
          by (cases "text_items r") (simp_all add: text_items.simps [of s0])
      next
        case False
        with sid r loop add_text_post_error [OF st(6)] show ?thesis by (simp add: text_items.simps [of s0])
      qed
    qed
  qed
qed

lemma skip_ws_member: "\<not> is_space c \<Longrightarrow> c \<in> set (skip_ws s) \<longleftrightarrow> c \<in> set s"
  by (induction s) auto

lemma count_list_pos: "x \<in> set xs \<Longrightarrow> 0 < count_list xs x"
  using count_list_0_iff [of xs x] by simp

lemma add_translated_post_pool:
  "add_translated_post sm (gs\<lparr>gs_pool := p\<rparr>) S sm' gs' \<Longrightarrow> add_translated_post sm gs S sm' gs'"
  by (simp add: add_translated_post_def gtids_def get_max_sidno_def)

lemma add_text_post_pool: "add_text_post d sm (gs\<lparr>gs_pool := p\<rparr>) r \<Longrightarrow> add_text_post d sm gs r"
  unfolding add_text_post_def using add_translated_post_pool by blast

lemma add_gtid_text_correct:
  assumes inv: "gs_inv gs" "sid_map_inv sm" "get_max_sidno gs \<le> sm_max_sidno sm"
    and cells: "chunks (gs_pool gs) \<noteq> [] \<or> skip_ws text = [] \<or> CHR '':'' \<in> set text"
  shows "add_text_post (text_gtids text) sm gs (add_gtid_text gs_env_ok None text sm gs)"
proof (cases "skip_ws text = []")
  case True
  with add_translated_post_refl [OF inv] show ?thesis
    by (auto simp: add_gtid_text_def add_text_post_def text_gtids_def text_items_Nil)
next
  case False
  define gs1 where "gs1 = (if chunks (gs_pool gs) = []
      then gs\<lparr>gs_pool := create_new_chunk (count_list (skip_ws text) (CHR '':'')) (gs_pool gs)\<rparr> else gs)"
  have "\<not> is_space (CHR '':'')" by (simp add: is_space_def)
  then have "chunks (gs_pool gs) = [] \<Longrightarrow> 0 < count_list (skip_ws text) (CHR '':'')"
    using cells False by (intro count_list_pos) (simp add: skip_ws_member)
  then have "gs_inv gs1" using inv(1) by (auto simp: gs1_def gs_inv_def pool_inv_def)
  moreover have "get_max_sidno gs1 = get_max_sidno gs" by (simp add: gs1_def get_max_sidno_def)
  ultimately have "add_text_post (text_items (skip_ws text)) sm gs1 (add_text_loop gs_env_ok None sm gs1 (skip_ws text))"
    using inv by (intro add_text_loop_correct) auto
  moreover have "add_text_post d sm gs1 r \<Longrightarrow> add_text_post d sm gs r" for d r
    by (auto simp: gs1_def split: if_splits dest: add_text_post_pool)
  ultimately show ?thesis
    using False unfolding add_gtid_text_def text_gtids_def by (simp add: gs1_def [symmetric] Let_def)
qed

section \<open>A printed set denotes itself\<close>

definition ends_item :: "string \<Rightarrow> bool" where
  "ends_item s \<longleftrightarrow> s = [] \<or> starts (CHR '','') s"

lemma separators:
  "\<not> is_space (CHR '':'')" "\<not> is_space (CHR '','')" "\<not> is_space (CHR ''-'')" "is_space newline"
  "\<not> digit_val (CHR '':'') < 10" "\<not> digit_val (CHR '','') < 10" "\<not> digit_val (CHR ''-'') < 10"
  by (simp_all add: is_space_def digit_val_def newline_def)

lemma read_interval_print:
  assumes "iv_ok iv" and rest: "ends_item rest \<or> starts (CHR '':'') rest"
  shows "read_interval (print_interval default_string_format iv @ rest) = Some (iv_start iv, iv_end iv, rest)"
proof -
  have b: "1 \<le> iv_start iv" "iv_start iv < GNO_END" "1 \<le> iv_end iv - 1" "iv_end iv - 1 < GNO_END"
      "iv_start iv < iv_end iv"
    using assms(1) by (auto simp: iv_ok_def)
  have r: "rest = [] \<or> \<not> digit_val (hd rest) < 10" "skip_ws rest = rest" "\<not> starts (CHR ''-'') rest"
    using rest separators by (cases rest; auto simp: ends_item_def)+
  show ?thesis
  proof (cases "iv_end iv > iv_start iv + 1")
    case True
    have "parse_gno (format_gno (iv_start iv) @ CHR ''-'' # format_gno (iv_end iv - 1) @ rest) =
        (iv_start iv, CHR ''-'' # format_gno (iv_end iv - 1) @ rest)"
      using separators b by (intro parse_gno_format) auto
    moreover have "parse_gno (format_gno (iv_end iv - 1) @ rest) = (iv_end iv - 1, rest)"
      using b r by (intro parse_gno_format) auto
    ultimately show ?thesis using True b r separators
      by (simp add: read_interval_def print_interval_def default_string_format_def)
  next
    case False
    then have "iv_end iv = iv_start iv + 1" using b by simp
    with b r parse_gno_format [OF b(1,2) r(1)] show ?thesis
      by (simp add: read_interval_def print_interval_def default_string_format_def)
  qed
qed

lemma text_intervals_print:
  assumes "wf_ivs ivs" and "ends_item rest"
  shows "text_intervals (print_intervals default_string_format first ivs @ rest) = Some (gnos ivs, rest)"
  using assms
proof (induction ivs arbitrary: first)
  case Nil
  then have "\<not> starts (CHR '':'') rest" by (cases rest) (auto simp: ends_item_def)
  then show ?case by (simp add: text_intervals.simps [of rest])
next
  case (Cons iv ivs)
  let ?tail = "print_intervals default_string_format False ivs @ rest"
  have sep: "print_intervals default_string_format first (iv # ivs) @ rest =
      CHR '':'' # print_interval default_string_format iv @ ?tail"
    by (simp add: default_string_format_def)
  have "ends_item ?tail \<or> starts (CHR '':'') ?tail"
    using Cons.prems(2) by (cases ivs) (auto simp: default_string_format_def)
  with Cons.prems read_interval_print [of iv ?tail] Cons.IH [of False] show ?case
    unfolding sep by (subst text_intervals.simps) simp
qed

lemma uuid_to_string_head:
  assumes "length u = BYTE_LENGTH"
  obtains c s where "uuid_to_string u = c # s" and "c \<noteq> CHR '',''" and "\<not> is_space c"
proof -
  have p: "uuid_parse (uuid_to_string u) = Some (u, [])" using uuid_roundtrip [OF assms, of "[]"] by simp
  then have h: "hex_to_byte (cpeek (uuid_to_string u)) \<noteq> -1"
    by (auto simp: uuid_parse_def bytes_per_section_def numeral_eq_Suc split: option.splits)
  then obtain c s where c: "uuid_to_string u = c # s" by (cases "uuid_to_string u") auto
  with h have "c \<noteq> CHR '',''" "\<not> is_space c" by (auto simp: hex_to_byte_def is_space_def split: if_splits)
  with that c show thesis by blast
qed

lemma print_sidnos_ends: "ends_item (print_sidnos default_string_format sm gs False ns)"
  by (induction ns) (auto simp: ends_item_def default_string_format_def)

lemma skip_commas_item:
  assumes "length u = BYTE_LENGTH"
  shows "skip_commas ((if first then [] else [CHR '','', newline]) @ uuid_to_string u @ r) = uuid_to_string u @ r"
  by (rule uuid_to_string_head [OF assms]) (auto simp: separators)

lemma text_items_print:
  assumes "gs_inv gs" and "sid_map_inv sm" and "\<forall>n \<in> set ns. 1 \<le> n \<and> n \<le> sm_max_sidno sm"
  shows "text_items (print_sidnos default_string_format sm gs first ns) =
    Some (\<Union>n \<in> {n \<in> set ns. contains_sidno gs n}. {sidno_to_sid sm n} \<times> gnos (m_intervals gs ! (n - 1)))"
  using assms(3)
proof (induction ns arbitrary: first)
  case Nil
  then show ?case by (simp add: text_items_Nil)
next
  case (Cons n ns)
  show ?case
  proof (cases "contains_sidno gs n")
    case False
    then have "{m \<in> set (n # ns). contains_sidno gs m} = {m \<in> set ns. contains_sidno gs m}" by auto
    with False Cons show ?thesis by simp
  next
    case True
    let ?u = "sidno_to_sid sm n" and ?ivs = "m_intervals gs ! (n - 1)"
    let ?tail = "print_sidnos default_string_format sm gs False ns"
    let ?body = "print_intervals default_string_format True ?ivs @ ?tail"
    have n: "1 \<le> n" "n \<le> get_max_sidno gs" using Cons.prems True by (auto simp: contains_sidno_def split: if_splits)
    have u: "length ?u = BYTE_LENGTH" using Cons.prems sid_map_inv_length [OF assms(2)] by simp
    have out: "print_sidnos default_string_format sm gs first (n # ns) =
        (if first then [] else [CHR '','', newline]) @ uuid_to_string ?u @ ?body"
      using True by (simp add: default_string_format_def)
    have parse: "uuid_parse (uuid_to_string ?u @ ?body) = Some (?u, ?body)" by (rule uuid_roundtrip [OF u])
    have rest: "drop TEXT_LENGTH (uuid_to_string ?u @ ?body) = ?body"
      by (rule uuid_parse_rest [OF parse, symmetric])
    have ne: "uuid_to_string ?u @ ?body \<noteq> []" by (rule uuid_to_string_head [OF u]) simp
    have "?ivs \<noteq> []" using True by (auto simp: contains_sidno_def split: if_splits)
    then have ws: "skip_ws ?body = ?body"
      by (cases ?ivs) (auto simp: default_string_format_def separators)
    have "text_intervals ?body = Some (gnos ?ivs, ?tail)"
      using gs_inv_wf [OF assms(1) n] print_sidnos_ends by (rule text_intervals_print)
    moreover have "starts (CHR '','') ?tail \<or> ?tail = []" using print_sidnos_ends [of sm gs ns] by (auto simp: ends_item_def)
    moreover have "{m \<in> set (n # ns). contains_sidno gs m} = insert n {m \<in> set ns. contains_sidno gs m}" using True by auto
    ultimately show ?thesis unfolding out using Cons ne parse rest ws
      by (subst text_items.simps) (simp only: skip_commas_item [OF u], simp)
  qed
qed

lemma text_gtids_print:
  assumes "gs_inv gs" and "sid_map_inv sm" and "get_max_sidno gs \<le> sm_max_sidno sm"
  shows "text_gtids (gtid_set_to_string default_string_format sm gs) = Some (sidmap.by_sid sm (gtids gs))"
proof -
  let ?p = "print_sidnos default_string_format sm gs True (sorted_sidnos sm)"
  have sorted: "set (sorted_sidnos sm) = {1 .. sm_max_sidno sm}" using assms(2) by (simp add: sid_map_inv_def)
  have "(\<Union>n \<in> {n \<in> {1 .. sm_max_sidno sm}. contains_sidno gs n}. {sidno_to_sid sm n} \<times> gnos (m_intervals gs ! (n - 1)))
      = sidmap.by_sid sm (gtids gs)"
    (is "?l = ?r")
  proof (intro set_eqI iffI)
    fix x assume "x \<in> ?l"
    then show "x \<in> ?r" by (force simp: sidmap.by_sid_def gtids_def contains_sidno_def split: if_splits)
  next
    fix x assume "x \<in> ?r"
    then obtain n g where x: "(n, g) \<in> gtids gs" "x = (sidno_to_sid sm n, g)" by (auto simp: sidmap.by_sid_def)
    with gtids_range [OF x(1)] assms(3) have "n \<in> {1 .. sm_max_sidno sm}" "contains_sidno gs n"
      using contains_sidno_iff [OF assms(1)] by auto
    with x gtids_range [OF x(1)] show "x \<in> ?l" by (auto simp: gtids_iff)
  qed
  then have items: "text_items ?p = Some (sidmap.by_sid sm (gtids gs))"
    using text_items_print [OF assms(1,2), of "sorted_sidnos sm" True] sorted by simp
  have ws: "skip_ws ?p = ?p"
  proof -
    have "skip_ws (print_sidnos default_string_format sm gs True ns) = print_sidnos default_string_format sm gs True ns"
      if "\<forall>n \<in> set ns. 1 \<le> n \<and> n \<le> sm_max_sidno sm" for ns
      using that
    proof (induction ns)
      case (Cons n ns)
      then have "length (sidno_to_sid sm n) = BYTE_LENGTH" using sid_map_inv_length [OF assms(2)] by simp
      with Cons show ?case by (auto elim!: uuid_to_string_head)
    qed simp
    then show ?thesis using sorted by simp
  qed
  show ?thesis
  proof (cases "gs_is_empty gs")
    case True
    then show ?thesis using gs_is_empty_iff [OF assms(1)]
      by (simp add: gtid_set_to_string_def default_string_format_def text_gtids_def text_items_Nil sidmap.by_sid_def)
  next
    case False
    then have "gtid_set_to_string default_string_format sm gs = ?p"
      by (simp add: gtid_set_to_string_def default_string_format_def)
    with items ws show ?thesis by (simp add: text_gtids_def)
  qed
qed

end
