(* ===== verification/Byte_Order.thy ===== *)
theory Byte_Order
  imports Prelude
begin

text \<open>
  Integers stored low byte first: \<^verbatim>\<open>include/byte_order_generic.h\<close> and \<^verbatim>\<open>include/my_byteorder.h\<close>. A store
  function gives the bytes it writes at its pointer, a read function takes the bytes from its
  pointer on. Every pair is an isomorphism between words and byte sequences of its length.
\<close>

section \<open>Stores\<close>

definition byte_of :: "nat \<Rightarrow> 'a::len word \<Rightarrow> byte" where
  "byte_of n A = ucast (drop_bit n A)"

definition int2store :: "16 word \<Rightarrow> byte list" where
  "int2store A = (let def_temp = (ucast A :: 32 word) in [byte_of 0 def_temp, byte_of 8 def_temp])"

definition int3store :: "32 word \<Rightarrow> byte list" where
  "int3store A = [byte_of 0 A, byte_of 8 A, byte_of 16 A]"

definition int4store :: "32 word \<Rightarrow> byte list" where
  "int4store A = [byte_of 0 A, byte_of 8 A, byte_of 16 A, byte_of 24 A]"

definition int5store :: "64 word \<Rightarrow> byte list" where
  "int5store A = [byte_of 0 A, byte_of 8 A, byte_of 16 A, byte_of 24 A, byte_of 32 A]"

definition int6store :: "64 word \<Rightarrow> byte list" where
  "int6store A = [byte_of 0 A, byte_of 8 A, byte_of 16 A, byte_of 24 A, byte_of 32 A, byte_of 40 A]"

definition int8store :: "64 word \<Rightarrow> byte list" where
  "int8store A =
     (let def_temp = (ucast A :: 32 word); def_temp2 = (ucast (drop_bit 32 A) :: 32 word) in
      int4store def_temp @ int4store def_temp2)"

section \<open>Reads\<close>

definition uint2korr :: "byte list \<Rightarrow> 16 word" where
  "uint2korr A = ucast (A ! 0) + push_bit 8 (ucast (A ! 1))"

definition uint3korr :: "byte list \<Rightarrow> 32 word" where
  "uint3korr A = ucast (A ! 0) + push_bit 8 (ucast (A ! 1)) + push_bit 16 (ucast (A ! 2))"

definition uint4korr :: "byte list \<Rightarrow> 32 word" where
  "uint4korr A =
     ucast (A ! 0) + push_bit 8 (ucast (A ! 1)) + push_bit 16 (ucast (A ! 2)) + push_bit 24 (ucast (A ! 3))"

definition uint5korr :: "byte list \<Rightarrow> 64 word" where
  "uint5korr A =
     ucast (ucast (A ! 0) + push_bit 8 (ucast (A ! 1)) + push_bit 16 (ucast (A ! 2)) +
            push_bit 24 (ucast (A ! 3)) :: 32 word) +
     push_bit 32 (ucast (A ! 4))"

definition uint6korr :: "byte list \<Rightarrow> 64 word" where
  "uint6korr A =
     ucast (ucast (A ! 0) + push_bit 8 (ucast (A ! 1)) + push_bit 16 (ucast (A ! 2)) +
            push_bit 24 (ucast (A ! 3)) :: 32 word) +
     push_bit 32 (ucast (A ! 4)) + push_bit 40 (ucast (A ! 5))"

definition uint8korr :: "byte list \<Rightarrow> 64 word" where
  "uint8korr A =
     ucast (ucast (A ! 0) + push_bit 8 (ucast (A ! 1)) + push_bit 16 (ucast (A ! 2)) +
            push_bit 24 (ucast (A ! 3)) :: 32 word) +
     push_bit 32 (ucast (ucast (A ! 4) + push_bit 8 (ucast (A ! 5)) + push_bit 16 (ucast (A ! 6)) +
                         push_bit 24 (ucast (A ! 7)) :: 32 word))"

text \<open>The signed reads reinterpret the same bits; three bytes are extended by their top bit.\<close>

definition sint2korr :: "byte list \<Rightarrow> int" where
  "sint2korr A = sint (uint2korr A)"

definition sint3korr :: "byte list \<Rightarrow> int" where
  "sint3korr A =
     (let v = (if bit (A ! 2) 7
               then or (or (or (push_bit 24 255) (push_bit 16 (ucast (A ! 2)))) (push_bit 8 (ucast (A ! 1)))) (ucast (A ! 0))
               else or (or (push_bit 16 (ucast (A ! 2))) (push_bit 8 (ucast (A ! 1)))) (ucast (A ! 0)) :: 32 word)
      in sint v)"

definition sint4korr :: "byte list \<Rightarrow> int" where
  "sint4korr A = sint (uint4korr A)"

definition sint8korr :: "byte list \<Rightarrow> int" where
  "sint8korr A = sint (uint8korr A)"

section \<open>Reading what was stored\<close>

lemma ucast_byte_of:
  fixes A :: "'a::len word"
  assumes "8 \<le> LENGTH('a)"
  shows "(ucast (byte_of n A) :: 'a word) = take_bit 8 (drop_bit n A)"
  using assms by (intro bit_word_eqI) (auto simp: byte_of_def bit_simps)

lemma ucast_byte_of_low:
  fixes A :: "64 word"
  assumes "n \<le> 24"
  shows "(ucast (byte_of n A) :: 32 word) = take_bit 8 (drop_bit n (ucast A :: 32 word))"
  using assms by (intro bit_word_eqI) (auto simp: byte_of_def bit_simps)

lemma take_bit_step:
  fixes A :: "'a::len word"
  shows "take_bit n A + push_bit n (take_bit m (drop_bit n A)) = take_bit (n + m) A"
proof -
  have "take_bit n A + push_bit n (take_bit m (drop_bit n A)) =
      or (take_bit n A) (push_bit n (take_bit m (drop_bit n A)))"
    by (rule disjunctive_add) (auto simp: bit_simps)
  also have "\<dots> = take_bit (n + m) A"
    by (rule bit_word_eqI) (auto simp: bit_simps)
  finally show ?thesis .
qed

lemma take_bit_steps:
  fixes A :: "'a::len word"
  shows "take_bit 8 A + push_bit 8 (take_bit 8 (drop_bit 8 A)) = take_bit 16 A"
    and "take_bit 16 A + push_bit 16 (take_bit 8 (drop_bit 16 A)) = take_bit 24 A"
    and "take_bit 24 A + push_bit 24 (take_bit 8 (drop_bit 24 A)) = take_bit 32 A"
    and "take_bit 32 A + push_bit 32 (take_bit 8 (drop_bit 32 A)) = take_bit 40 A"
    and "take_bit 40 A + push_bit 40 (take_bit 8 (drop_bit 40 A)) = take_bit 48 A"
  using take_bit_step [of 8 A 8] take_bit_step [of 16 A 8] take_bit_step [of 24 A 8]
    take_bit_step [of 32 A 8] take_bit_step [of 40 A 8]
  by simp_all

lemma take_bit_32 [simp]: "take_bit 32 (A :: 32 word) = A"
  by (simp add: take_bit_word_eq_self)

lemma uint2korr_int2store: "uint2korr (int2store A) = A"
proof -
  have "(ucast (byte_of n (ucast A :: 32 word)) :: 16 word) = take_bit 8 (drop_bit n A)" for n
    by (rule bit_word_eqI) (auto simp: byte_of_def bit_simps dest: bit_imp_le_length)
  then show ?thesis
    by (simp add: uint2korr_def int2store_def take_bit_steps take_bit_word_eq_self Let_def)
qed

lemma uint3korr_int3store: "uint3korr (int3store A) = take_bit 24 A"
  by (simp add: uint3korr_def int3store_def ucast_byte_of take_bit_steps)

lemma uint4korr_int4store: "uint4korr (int4store A) = A"
  by (simp add: uint4korr_def int4store_def ucast_byte_of take_bit_steps)

lemma ucast_low32: "(ucast (ucast A :: 32 word) :: 64 word) = take_bit 32 A"
  by (rule bit_word_eqI) (auto simp: bit_simps)

lemma uint5korr_int5store: "uint5korr (int5store A) = take_bit 40 A"
  by (simp add: uint5korr_def int5store_def ucast_byte_of ucast_byte_of_low take_bit_steps ucast_low32)

lemma uint6korr_int6store: "uint6korr (int6store A) = take_bit 48 A"
  by (simp add: uint6korr_def int6store_def ucast_byte_of ucast_byte_of_low take_bit_steps ucast_low32)

lemma uint8korr_int8store: "uint8korr (int8store A @ rest) = A"
proof -
  have "(ucast (ucast (drop_bit 32 A) :: 32 word) :: 64 word) = drop_bit 32 A"
    by (rule bit_word_eqI) (auto simp: bit_simps dest: bit_imp_le_length)
  moreover have "take_bit 32 A + push_bit 32 (drop_bit 32 A) = A"
    by (metis add.commute bits_ident)
  ultimately show ?thesis
    by (simp add: uint8korr_def int8store_def int4store_def ucast_byte_of take_bit_steps ucast_low32 Let_def)
qed

lemma length_stores [simp]:
  "length (int2store A2) = 2" "length (int3store A4) = 3" "length (int4store A4) = 4"
  "length (int5store A) = 5" "length (int6store A) = 6" "length (int8store A) = 8"
  by (simp_all add: int2store_def int3store_def int4store_def int5store_def int6store_def int8store_def Let_def)

section \<open>Storing what was read\<close>

lemma byte_of_take_bit: "n + 8 \<le> m \<Longrightarrow> byte_of n (take_bit m A) = byte_of n A"
  by (rule bit_word_eqI) (auto simp: byte_of_def bit_simps)

lemma length_8_cases:
  assumes "length bs = 8"
  obtains a b c d e f g h where "bs = [a, b, c, d, e, f, g, h]"
  using assms by (auto simp: numeral_eq_Suc length_Suc_conv)

lemma bytes_disjoint:
  fixes a b c d :: byte
  shows "(ucast a + push_bit 8 (ucast b) + push_bit 16 (ucast c) + push_bit 24 (ucast d) :: 32 word) =
    or (or (or (ucast a) (push_bit 8 (ucast b))) (push_bit 16 (ucast c))) (push_bit 24 (ucast d))"
proof -
  have 1: "(ucast a + push_bit 8 (ucast b) :: 32 word) = or (ucast a) (push_bit 8 (ucast b))"
    by (rule disjunctive_add) (auto simp: bit_simps dest: bit_imp_le_length)
  have 2: "(or (ucast a) (push_bit 8 (ucast b)) + push_bit 16 (ucast c) :: 32 word) =
      or (or (ucast a) (push_bit 8 (ucast b))) (push_bit 16 (ucast c))"
    by (rule disjunctive_add) (auto simp: bit_simps dest: bit_imp_le_length)
  have 3: "(or (or (ucast a) (push_bit 8 (ucast b))) (push_bit 16 (ucast c)) + push_bit 24 (ucast d) :: 32 word) =
      or (or (or (ucast a) (push_bit 8 (ucast b))) (push_bit 16 (ucast c))) (push_bit 24 (ucast d))"
    by (rule disjunctive_add) (auto simp: bit_simps dest: bit_imp_le_length)
  show ?thesis unfolding 1 2 3 ..
qed

lemma int4store_uint4korr: "length bs = 4 \<Longrightarrow> int4store (uint4korr bs) = bs"
proof -
  assume "length bs = 4"
  then obtain a b c d where bs: "bs = [a, b, c, d]" by (auto simp: numeral_eq_Suc length_Suc_conv)
  have "byte_of 0 (uint4korr bs) = a" "byte_of 8 (uint4korr bs) = b" "byte_of 16 (uint4korr bs) = c"
      "byte_of 24 (uint4korr bs) = d"
    unfolding uint4korr_def bs byte_of_def nth_Cons_0 nth_Cons_numeral
    by (simp_all add: bytes_disjoint)
      (rule bit_word_eqI; auto simp: bit_simps dest: bit_imp_le_length)+
  then show ?thesis by (simp add: int4store_def bs)
qed

end
