(* ===== verification/Gtid_Encoding.thy ===== *)
theory Gtid_Encoding
  imports Gtid_Text_Laws Byte_Order
begin

text \<open>
  The binary form of a set: \<open>encode\<close>, \<open>get_encoded_length\<close> and \<open>add_gtid_encoding\<close> of
  \<^verbatim>\<open>sql/rpl_gtid_set.cc\<close>. A read outside the given buffer is the value \<open>None\<close>.
\<close>

section \<open>Encoding\<close>

definition encode_interval :: "interval \<Rightarrow> byte list" where
  "encode_interval iv = int8store (word_of_int (iv_start iv)) @ int8store (word_of_int (iv_end iv))"

text \<open>
  The loop over the SIDs in their order. The counts are patched in after the loop that determines
  them; the result is the number of SIDs and the bytes after the place of that number.
\<close>

fun encode_sidnos :: "sid_map \<Rightarrow> gtid_set \<Rightarrow> nat list \<Rightarrow> nat \<times> byte list" where
  "encode_sidnos sm gs [] = (0, [])"
| "encode_sidnos sm gs (sidno # sidnos) =
     (if sidno > get_max_sidno gs then encode_sidnos sm gs sidnos
      else let ivs = m_intervals gs ! (sidno - 1) in
      if ivs = [] then encode_sidnos sm gs sidnos
      else case encode_sidnos sm gs sidnos of
        (n, bytes) \<Rightarrow>
          (n + 1, sidno_to_sid sm sidno @ int8store (of_nat (length ivs)) @
                  concat (map encode_interval ivs) @ bytes))"

definition gs_encode :: "sid_map \<Rightarrow> gtid_set \<Rightarrow> byte list" where
  "gs_encode sm gs =
     (case encode_sidnos sm gs (sorted_sidnos sm) of (n, bytes) \<Rightarrow> int8store (of_nat n) @ bytes)"

definition get_encoded_length :: "gtid_set \<Rightarrow> nat" where
  "get_encoded_length gs =
     foldl (\<lambda>ret sidno. if contains_sidno gs sidno then ret + (16 + 8 + 2 * 8 * n_intervals_of gs sidno) else ret)
       8 [1 ..< Suc (get_max_sidno gs)]"

section \<open>Decoding\<close>

text \<open>
  The loop over the intervals of one SID. The counter is a \<open>uint\<close>, the number of intervals a
  \<open>uint64\<close>. The first component of the result is the position after the intervals, or \<open>None\<close> for
  a malformed encoding.
\<close>

function decode_intervals ::
  "byte list \<Rightarrow> 64 word \<Rightarrow> 32 word \<Rightarrow> int \<Rightarrow> nat \<Rightarrow> ivit \<Rightarrow> pool \<Rightarrow> (nat option \<times> ivit \<times> pool) option" where
  "decode_intervals encoded n i lst pos it p =
     (if ucast i < n then
        if pos + 16 \<le> length encoded then
          let start = sint8korr (drop pos encoded); e = sint8korr (drop (pos + 8) encoded) in
          if start \<le> lst \<or> e \<le> start then Some (None, it, p)
          else case add_gno_interval (reposition it start) start e p of
            (it1, p1) \<Rightarrow> decode_intervals encoded n (i + 1) e (pos + 16) it1 p1
        else None
      else Some (Some pos, it, p))"
  by pat_completeness auto
termination
  by (relation "measure (\<lambda>(encoded, n, i, lst, pos, it, p). length encoded - pos)") auto

declare decode_intervals.simps [simp del]

lemma decode_intervals_pos:
  "decode_intervals encoded n i lst pos it p = Some (Some pos', it', p') \<Longrightarrow> pos \<le> pos'"
proof (induction encoded n i lst pos it p rule: decode_intervals.induct)
  case (1 encoded n i lst pos it p)
  then show ?case
    by (fastforce simp: decode_intervals.simps [of encoded n i lst pos it p] Let_def split: if_splits prod.splits)
qed

text \<open>
  The loop over the SIDs. The bound \<open>2 * 8 * n_intervals\<close> is computed in 64 bits. The first two
  components of the result are the status and the position reached.
\<close>

function decode_sids ::
  "gs_env \<Rightarrow> byte list \<Rightarrow> 64 word \<Rightarrow> 32 word \<Rightarrow> nat \<Rightarrow> sid_map \<Rightarrow> gtid_set
     \<Rightarrow> (enum_return_status \<times> nat \<times> sid_map \<times> gtid_set) option" where
  "decode_sids env encoded sid_count i pos sm gs =
     (if ucast i < sid_count then
        if length encoded - pos < 16 + 8 then Some (RETURN_STATUS_REPORTED_ERROR, pos, sm, gs)
        else
          let sid = take 16 (drop pos encoded); iv_count = uint8korr (drop (pos + 16) encoded); pos1 = pos + 24 in
          (case add_sid (node_env env) sid sm of
             (None, sm1) \<Rightarrow> Some (RETURN_STATUS_REPORTED_ERROR, pos1, sm1, gs)
           | (Some sidno, sm1) \<Rightarrow>
               (case gs_ensure_sidno (grow_ok env) id sidno gs of
                  (RETURN_STATUS_OK, gs1) \<Rightarrow>
                    if length encoded - pos1 < unat (2 * 8 * iv_count) then
                      Some (RETURN_STATUS_REPORTED_ERROR, pos1, sm1, gs1)
                    else
                      (case ivs_at gs1 sidno of
                         None \<Rightarrow> None
                       | Some ivs \<Rightarrow>
                           (case decode_intervals encoded iv_count 0 0 pos1 (ivit_init ivs) (gs_pool gs1) of
                              None \<Rightarrow> None
                            | Some (None, it, p) \<Rightarrow>
                                Some (RETURN_STATUS_REPORTED_ERROR, pos1, sm1, store_ivs sidno (it, p) gs1)
                            | Some (Some pos2, it, p) \<Rightarrow>
                                decode_sids env encoded sid_count (i + 1) pos2 sm1 (store_ivs sidno (it, p) gs1)))
                | (status, gs1) \<Rightarrow> Some (status, pos1, sm1, gs1)))
      else Some (RETURN_STATUS_OK, pos, sm, gs))"
  by pat_completeness auto
termination
proof (relation "measure (\<lambda>(env, encoded, sid_count, i, pos, sm, gs). length encoded - pos)", goal_cases)
  case 2
  then show ?case by (auto dest!: decode_intervals_pos)
qed simp

declare decode_sids.simps [simp del]

text \<open>
  \<open>want_length\<close> says whether the caller passes \<open>actual_length\<close>; otherwise the encoding has to end
  with the buffer.
\<close>

definition add_gtid_encoding ::
  "gs_env \<Rightarrow> byte list \<Rightarrow> bool \<Rightarrow> sid_map \<Rightarrow> gtid_set
     \<Rightarrow> (enum_return_status \<times> nat option \<times> sid_map \<times> gtid_set) option" where
  "add_gtid_encoding env encoded want_length sm gs =
     (if length encoded < 8 then Some (RETURN_STATUS_REPORTED_ERROR, None, sm, gs)
      else case decode_sids env encoded (uint8korr encoded) 0 8 sm gs of
        None \<Rightarrow> None
      | Some (RETURN_STATUS_OK, pos, sm', gs') \<Rightarrow>
          if \<not> want_length then
            if pos \<noteq> length encoded then Some (RETURN_STATUS_REPORTED_ERROR, None, sm', gs')
            else Some (RETURN_STATUS_OK, None, sm', gs')
          else Some (RETURN_STATUS_OK, Some pos, sm', gs')
      | Some (status, pos, sm', gs') \<Rightarrow> Some (status, None, sm', gs'))"

end
