(* ===== verification/Gtid_Text_Length.thy ===== *)
theory Gtid_Text_Length
  imports Gtid_Text_Laws
begin

text \<open>
  \<open>get_string_length\<close> is the length of what \<open>to_string\<close> writes, so the buffer allocated from it is
  exactly filled; the cached length stays right under every change of the set. The texts of
  single GTIDs and of specifications are read back as they were printed.
\<close>

section \<open>Formats and digits\<close>

definition sf_ok :: "string_format \<Rightarrow> bool" where
  "sf_ok sf \<longleftrightarrow>
     begin_length sf = length (sf_begin sf) \<and> end_length sf = length (sf_end sf) \<and>
     sid_gno_separator_length sf = length (sid_gno_separator sf) \<and>
     gno_start_end_separator_length sf = length (gno_start_end_separator sf) \<and>
     gno_gno_separator_length sf = length (gno_gno_separator sf) \<and>
     gno_sid_separator_length sf = length (gno_sid_separator sf) \<and>
     (\<forall>e. empty_set_string sf = Some e \<longrightarrow> empty_set_string_length sf = length e)"

lemma static_formats_ok: "sf_ok default_string_format" "sf_ok sql_string_format" "sf_ok commented_string_format"
  by (simp_all add: sf_ok_def default_string_format_def sql_string_format_def commented_string_format_def)

lemma length_decimal: "length (decimal n) = gno_string_length n"
proof (induction n rule: decimal.induct)
  case (1 n)
  then show ?case
    by (cases "n < 10") (auto simp: decimal.simps [of n] gno_string_length.simps [of n] div_eq_0_iff)
qed

lemma length_format_gno: "1 \<le> g \<Longrightarrow> g < GNO_END \<Longrightarrow> length (format_gno g) = gno_string_length (nat g)"
  by (simp add: format_gno_decimal length_decimal)

section \<open>The weight of one list\<close>

definition iv_digits :: "interval \<Rightarrow> nat" where
  "iv_digits iv = gno_string_length (nat (iv_start iv)) +
     (if iv_end iv - 1 > iv_start iv then gno_string_length (nat (iv_end iv - 1)) else 0)"

definition iv_long :: "interval \<Rightarrow> nat" where
  "iv_long iv = (if iv_end iv - 1 > iv_start iv then 1 else 0)"

definition list_weight :: "string_format \<Rightarrow> interval list \<Rightarrow> nat" where
  "list_weight sf ivs =
     (if ivs = [] then 0
      else TEXT_LENGTH + sid_gno_separator_length sf + (length ivs - 1) * gno_gno_separator_length sf +
        sum_list (map iv_digits ivs) + sum_list (map iv_long ivs) * gno_start_end_separator_length sf)"

lemma fold_count_interval:
  "fold count_interval ivs st =
     st\<lparr>n_intervals := n_intervals st + length ivs,
        n_long_intervals := n_long_intervals st + sum_list (map iv_long ivs),
        total_interval_length := total_interval_length st + sum_list (map iv_digits ivs)\<rparr>"
  by (induction ivs arbitrary: st) (auto simp: count_interval_def Let_def iv_long_def iv_digits_def)

definition stats_length :: "string_format \<Rightarrow> string_stats \<Rightarrow> nat" where
  "stats_length sf st =
     total_interval_length st + n_sids st * (TEXT_LENGTH + sid_gno_separator_length sf) +
     (n_intervals st - n_sids st) * gno_gno_separator_length sf +
     n_long_intervals st * gno_start_end_separator_length sf"

lemma stats_length_zero:
  "stats_length sf \<lparr>n_sids = 0, n_intervals = 0, n_long_intervals = 0, total_interval_length = 0\<rparr> = 0"
  by (simp add: stats_length_def)

lemma count_list_stats_length:
  assumes "n_sids st \<le> n_intervals st"
  shows "stats_length sf (count_list_stats ivs st) = stats_length sf st + list_weight sf ivs"
    and "n_sids (count_list_stats ivs st) \<le> n_intervals (count_list_stats ivs st)"
    and "n_sids (count_list_stats ivs st) = n_sids st + (if ivs = [] then 0 else 1)"
proof -
  have "n_intervals st + length ivs - Suc (n_sids st) = (n_intervals st - n_sids st) + (length ivs - 1)"
    if "ivs \<noteq> []" using that assms by (cases ivs) auto
  then show "stats_length sf (count_list_stats ivs st) = stats_length sf st + list_weight sf ivs"
    by (auto simp: count_list_stats_def fold_count_interval stats_length_def list_weight_def
        distrib_right distrib_left ac_simps)
  show "n_sids (count_list_stats ivs st) \<le> n_intervals (count_list_stats ivs st)"
  proof (cases "ivs = []")
    case False
    then have "1 \<le> length ivs" by (simp add: Suc_le_eq)
    with assms False show ?thesis by (simp add: count_list_stats_def fold_count_interval)
  qed (use assms in \<open>simp add: count_list_stats_def\<close>)
  show "n_sids (count_list_stats ivs st) = n_sids st + (if ivs = [] then 0 else 1)"
    by (simp add: count_list_stats_def fold_count_interval)
qed

lemma fold_count_list_stats:
  "n_sids st \<le> n_intervals st \<Longrightarrow>
     stats_length sf (fold count_list_stats ls st) = stats_length sf st + sum_list (map (list_weight sf) ls) \<and>
     n_sids (fold count_list_stats ls st) = n_sids st + length (filter (\<lambda>ivs. ivs \<noteq> []) ls)"
proof (induction ls arbitrary: st)
  case (Cons ivs ls)
  from Cons.IH [OF count_list_stats_length(2) [OF Cons.prems]] count_list_stats_length(1,3) [OF Cons.prems]
  show ?case by simp
qed simp

lemma computed_string_length_eq:
  "computed_string_length sf gs =
     (let k = length (filter (\<lambda>ivs. ivs \<noteq> []) (m_intervals gs)) in
      if k = 0 \<and> empty_set_string sf \<noteq> None then empty_set_string_length sf
      else begin_length sf + end_length sf + sum_list (map (list_weight sf) (m_intervals gs)) +
        (k - 1) * gno_sid_separator_length sf)"
proof -
  let ?st = "string_stats_of gs" and ?k = "length (filter (\<lambda>ivs. ivs \<noteq> []) (m_intervals gs))"
  have st: "stats_length sf ?st = sum_list (map (list_weight sf) (m_intervals gs))" "n_sids ?st = ?k"
    using fold_count_list_stats [of "\<lparr>n_sids = 0, n_intervals = 0, n_long_intervals = 0, total_interval_length = 0\<rparr>"
        sf "m_intervals gs"]
    unfolding string_stats_of_def by (simp_all add: stats_length_zero)
  have "sum_list (map (list_weight sf) (m_intervals gs)) = 0" if "?k = 0"
    using that by (auto simp: filter_empty_conv list_weight_def)
  with st show ?thesis
    by (auto simp: computed_string_length_def Let_def stats_length_def [of sf ?st] ac_simps)
qed

section \<open>What is printed for one list\<close>

lemma length_print_interval:
  "sf_ok sf \<Longrightarrow> iv_ok iv \<Longrightarrow>
     length (print_interval sf iv) = iv_digits iv + iv_long iv * gno_start_end_separator_length sf"
  by (auto simp: print_interval_def iv_digits_def iv_long_def sf_ok_def iv_ok_def length_format_gno)

lemma length_print_intervals:
  assumes "sf_ok sf" and "\<forall>iv \<in> set ivs. iv_ok iv"
  shows "length (print_intervals sf first ivs) =
    (if ivs = [] then 0 else if first then sid_gno_separator_length sf else gno_gno_separator_length sf) +
    (length ivs - 1) * gno_gno_separator_length sf +
    sum_list (map iv_digits ivs) + sum_list (map iv_long ivs) * gno_start_end_separator_length sf"
  using assms(2)
proof (induction ivs arbitrary: first)
  case (Cons iv ivs)
  have "length (take (sid_gno_separator_length sf) (sid_gno_separator sf)) = sid_gno_separator_length sf"
    "length (take (gno_gno_separator_length sf) (gno_gno_separator sf)) = gno_gno_separator_length sf"
    using assms(1) by (simp_all add: sf_ok_def)
  with Cons length_print_interval [OF assms(1), of iv] show ?case
    by (cases ivs) (auto simp: algebra_simps)
qed simp

lemma length_uuid_to_string:
  assumes "length u = BYTE_LENGTH"
  shows "length (uuid_to_string u) = TEXT_LENGTH"
proof -
  have "length (concat (map print_byte bs)) = 2 * length bs" for bs by (induction bs) auto
  with assms show ?thesis
    by (simp add: uuid_to_string_def bytes_per_section_def BYTE_LENGTH_def TEXT_LENGTH_def)
qed

lemma length_print_sidnos:
  assumes "sf_ok sf" and "gs_inv gs" and "sid_map_inv sm" and "\<forall>n \<in> set ns. 1 \<le> n \<and> n \<le> sm_max_sidno sm"
  shows "length (print_sidnos sf sm gs first ns) =
    sum_list (map (\<lambda>n. list_weight sf (m_intervals gs ! (n - 1))) (filter (contains_sidno gs) ns)) +
    (length (filter (contains_sidno gs) ns) - (if first then 1 else 0)) * gno_sid_separator_length sf"
  using assms(4)
proof (induction ns arbitrary: first)
  case (Cons n ns)
  show ?case
  proof (cases "contains_sidno gs n")
    case False
    with Cons show ?thesis by simp
  next
    case True
    let ?ivs = "m_intervals gs ! (n - 1)"
    have "?ivs \<noteq> []" "n \<le> get_max_sidno gs" using True by (auto simp: contains_sidno_def split: if_splits)
    moreover from this have "\<forall>iv \<in> set ?ivs. iv_ok iv"
      using wf_ivs_iv_ok gs_inv_wf [OF assms(2), of n] Cons.prems by auto
    ultimately have "TEXT_LENGTH + length (print_intervals sf True ?ivs) = list_weight sf ?ivs"
      using length_print_intervals [OF assms(1), of ?ivs True] by (simp add: list_weight_def)
    moreover have "length (uuid_to_string (sidno_to_sid sm n)) = TEXT_LENGTH"
      using Cons.prems sid_map_inv_length [OF assms(3)] by (simp add: length_uuid_to_string)
    moreover have "length (take (gno_sid_separator_length sf) (gno_sid_separator sf)) = gno_sid_separator_length sf"
      using assms(1) by (simp add: sf_ok_def)
    ultimately show ?thesis using True Cons by (auto simp: algebra_simps)
  qed
qed simp

section \<open>The whole set\<close>

lemma sum_sorted_sidnos:
  fixes f :: "interval list \<Rightarrow> nat"
  assumes "sid_map_inv sm" and "get_max_sidno gs \<le> sm_max_sidno sm"
  shows "sum_list (map (\<lambda>n. f (m_intervals gs ! (n - 1))) (filter (contains_sidno gs) (sorted_sidnos sm))) =
    sum_list (map f (filter (\<lambda>ivs. ivs \<noteq> []) (m_intervals gs)))"
proof -
  let ?ls = "m_intervals gs"
  have srt: "set (sorted_sidnos sm) = {1 .. sm_max_sidno sm}" "length (sorted_sidnos sm) = sm_max_sidno sm"
    using assms(1) by (simp_all add: sid_map_inv_def)
  then have dist: "distinct (sorted_sidnos sm)" by (intro card_distinct) simp
  have "{n \<in> set (sorted_sidnos sm). contains_sidno gs n} = Suc ` {i. i < length ?ls \<and> ?ls ! i \<noteq> []}"
    (is "?l = ?r")
  proof (intro set_eqI iffI)
    fix n assume "n \<in> ?l"
    then show "n \<in> ?r"
      by (cases n) (auto simp: srt contains_sidno_def get_max_sidno_def Suc_le_eq split: if_splits)
  next
    fix n assume "n \<in> ?r"
    then show "n \<in> ?l" using assms(2) by (auto simp: srt contains_sidno_def get_max_sidno_def)
  qed
  then have "sum_list (map (\<lambda>n. f (?ls ! (n - 1))) (filter (contains_sidno gs) (sorted_sidnos sm))) =
      (\<Sum>n \<in> Suc ` {i. i < length ?ls \<and> ?ls ! i \<noteq> []}. f (?ls ! (n - 1)))"
    using dist by (simp add: sum_list_distinct_conv_sum_set)
  also have "\<dots> = (\<Sum>i \<in> {i. i < length ?ls \<and> ?ls ! i \<noteq> []}. f (?ls ! i))" by (simp add: sum.reindex)
  also have "\<dots> = sum_list (map (\<lambda>i. f (?ls ! i)) (filter (\<lambda>i. ?ls ! i \<noteq> []) [0 ..< length ?ls]))"
    by (subst sum_list_distinct_conv_sum_set) (auto intro!: sum.cong)
  also have "\<dots> = sum_list (map f (filter (\<lambda>ivs. ivs \<noteq> []) (map ((!) ?ls) [0 ..< length ?ls])))"
    by (simp add: filter_map comp_def)
  finally show ?thesis by (simp add: map_nth)
qed

lemma sum_list_filter_weight:
  "sum_list (map (list_weight sf) (filter (\<lambda>ivs. ivs \<noteq> []) ls)) = sum_list (map (list_weight sf) ls)"
  by (induction ls) (auto simp: list_weight_def)

lemma gs_is_empty_lists:
  assumes "gs_inv gs"
  shows "gs_is_empty gs \<longleftrightarrow> filter (\<lambda>ivs. ivs \<noteq> []) (m_intervals gs) = []"
proof -
  have "gs_is_empty gs \<longleftrightarrow> (\<forall>n. 1 \<le> n \<longrightarrow> n \<le> get_max_sidno gs \<longrightarrow> m_intervals gs ! (n - 1) = [])"
    unfolding gs_is_empty_iff [OF assms] using gnos_Nil_iff [OF gs_inv_wf [OF assms]] by (auto simp: gtids_def)
  also have "\<dots> \<longleftrightarrow> (\<forall>ivs \<in> set (m_intervals gs). ivs = [])"
    unfolding all_set_conv_all_nth get_max_sidno_def by (metis Suc_le_eq diff_Suc_1 One_nat_def Suc_pred le_simps(2) less_eq_Suc_le zero_less_Suc)
  finally show ?thesis by (simp add: filter_empty_conv)
qed

lemma length_gtid_set_to_string:
  assumes "sf_ok sf" and "gs_inv gs" and "sid_map_inv sm" and "get_max_sidno gs \<le> sm_max_sidno sm"
  shows "length (gtid_set_to_string sf sm gs) = computed_string_length sf gs"
proof -
  let ?ns = "filter (contains_sidno gs) (sorted_sidnos sm)"
  let ?k = "length (filter (\<lambda>ivs. ivs \<noteq> []) (m_intervals gs))"
  have "\<forall>n \<in> set (sorted_sidnos sm). 1 \<le> n \<and> n \<le> sm_max_sidno sm" using assms(3) by (simp add: sid_map_inv_def)
  from length_print_sidnos [OF assms(1-3) this, of True]
  have "length (print_sidnos sf sm gs True (sorted_sidnos sm)) =
      sum_list (map (list_weight sf) (m_intervals gs)) + (length ?ns - 1) * gno_sid_separator_length sf"
    using sum_sorted_sidnos [OF assms(3,4), of "list_weight sf"]
    by (simp add: sum_list_filter_weight)
  moreover have "length ?ns = ?k"
    using sum_sorted_sidnos [OF assms(3,4), of "\<lambda>_. 1"] by (simp add: sum_list_triv)
  moreover have "?k = 0 \<longleftrightarrow> gs_is_empty gs" using gs_is_empty_lists [OF assms(2)] by simp
  moreover have "length (take (begin_length sf) (sf_begin sf)) = begin_length sf"
      "length (take (end_length sf) (sf_end sf)) = end_length sf"
      "empty_set_string sf = Some e \<Longrightarrow> length (take (empty_set_string_length sf) e) = empty_set_string_length sf" for e
    using assms(1) by (simp_all add: sf_ok_def)
  ultimately show ?thesis
    by (cases "empty_set_string sf") (simp_all add: computed_string_length_eq gtid_set_to_string_def Let_def)
qed

section \<open>The cached length\<close>

definition cache_inv :: "(nat \<Rightarrow> string_format) \<Rightarrow> gtid_set \<Rightarrow> bool" where
  "cache_inv formats gs \<longleftrightarrow>
     (has_cached_string_length (gs_pool gs) \<longrightarrow>
        (\<exists>a. cached_string_format gs = Some a \<and>
             cached_string_length (gs_pool gs) = computed_string_length (formats a) gs))"

lemma get_string_length_correct:
  assumes "cache_inv formats gs"
  shows "fst (get_string_length formats a gs) = computed_string_length (formats a) gs"
    and "cache_inv formats (snd (get_string_length formats a gs))"
    and "m_intervals (snd (get_string_length formats a gs)) = m_intervals gs"
  using assms
  by (auto simp: get_string_length_def cache_inv_def computed_string_length_def string_stats_of_def Let_def)

lemma get_free_interval_cache [simp]:
  "has_cached_string_length (get_free_interval p) = has_cached_string_length p"
  "has_cached_string_length (put_free_interval p) = has_cached_string_length p"
  by (simp_all add: get_free_interval_def put_free_interval_def create_new_chunk_def
      add_interval_memory_lock_taken_def CHUNK_GROW_SIZE_def Let_def)

lemma merge_following_cache:
  "has_cached_string_length (snd (merge_following e cur p)) = has_cached_string_length p"
  by (induction e cur p rule: merge_following.induct) auto

lemma drop_covered_cache:
  "has_cached_string_length (snd (drop_covered e cur p)) = has_cached_string_length p"
  by (induction e cur p rule: drop_covered.induct) auto

lemma add_gno_loop_cache:
  "has_cached_string_length (snd (add_gno_loop it s e p)) = has_cached_string_length p"
proof (induction it s e p rule: add_gno_loop.induct)
  case (2 pre iv rest s e p)
  then show ?case using merge_following_cache [of e "iv # rest" p] by (auto split: prod.splits list.splits)
qed simp

lemma remove_gno_steps_cache:
  "has_cached_string_length (snd (remove_gno_steps it s e p)) = has_cached_string_length p"
proof -
  have "has_cached_string_length (snd (remove_tail e t p)) = has_cached_string_length p" for t
    using drop_covered_cache [of e "snd t" p] by (auto simp: remove_tail_def split: prod.splits list.splits)
  then show ?thesis by (auto simp: remove_gno_steps_def split: prod.splits list.splits)
qed

lemma gno_interval_cache:
  "\<not> has_cached_string_length (snd (add_gno_interval it s e p))"
  "\<not> has_cached_string_length (snd (remove_gno_interval it s e p))"
  by (simp_all add: add_gno_interval_def remove_gno_interval_def add_gno_loop_cache
      remove_gno_steps_cache invalidate_cache_def)

lemma gno_intervals_from_cache:
  "others \<noteq> [] \<Longrightarrow> \<not> has_cached_string_length (snd (add_gno_intervals_from it others p))"
  "others \<noteq> [] \<Longrightarrow> \<not> has_cached_string_length (snd (remove_gno_intervals_from it others p))"
proof -
  have "others \<noteq> [] \<or> \<not> has_cached_string_length p \<Longrightarrow>
      \<not> has_cached_string_length (snd (add_gno_intervals_from it others p))"
    using gno_interval_cache
    by (induction it others p rule: add_gno_intervals_from.induct) (auto split: prod.splits, metis snd_conv)
  moreover have "others \<noteq> [] \<or> \<not> has_cached_string_length p \<Longrightarrow>
      \<not> has_cached_string_length (snd (remove_gno_intervals_from it others p))"
    using gno_interval_cache
    by (induction it others p rule: remove_gno_intervals_from.induct) (auto split: prod.splits, (metis snd_conv)+)
  ultimately show "others \<noteq> [] \<Longrightarrow> \<not> has_cached_string_length (snd (add_gno_intervals_from it others p))"
    "others \<noteq> [] \<Longrightarrow> \<not> has_cached_string_length (snd (remove_gno_intervals_from it others p))"
    by blast+
qed

lemma computed_string_length_lists:
  "m_intervals gs' = m_intervals gs \<Longrightarrow> computed_string_length sf gs' = computed_string_length sf gs"
  by (simp add: computed_string_length_def string_stats_of_def)

lemma cache_inv_grow:
  "cache_inv formats gs \<Longrightarrow> cache_inv formats (gs\<lparr>m_intervals := m_intervals gs @ replicate k []\<rparr>)"
proof -
  have "filter (\<lambda>ivs. ivs \<noteq> []) (replicate k []) = ([] :: interval list list)" by (induction k) auto
  moreover have "sum_list (map (list_weight sf) (replicate k [])) = 0" for sf
    by (induction k) (auto simp: list_weight_def)
  ultimately have "computed_string_length sf (gs\<lparr>m_intervals := m_intervals gs @ replicate k []\<rparr>) =
      computed_string_length sf gs" for sf
    unfolding computed_string_length_eq by auto
  then show "cache_inv formats gs \<Longrightarrow> ?thesis" by (simp add: cache_inv_def)
qed

lemma cache_inv_changes:
  assumes "cache_inv formats gs"
  shows "gs_add_gtid n g gs = Some gs' \<Longrightarrow> cache_inv formats gs'"
    and "gs_remove_gtid n g gs = Some gs' \<Longrightarrow> cache_inv formats gs'"
    and "add_gno_intervals n others gs = Some gs' \<Longrightarrow> cache_inv formats gs'"
    and "remove_gno_intervals n others gs = Some gs' \<Longrightarrow> cache_inv formats gs'"
    and "cache_inv formats (gs_clear gs)"
proof -
  have store: "cache_inv formats (store_ivs n r gs)" if "\<not> has_cached_string_length (snd r)" for r
    using that by (simp add: cache_inv_def store_ivs_def)
  show "gs_add_gtid n g gs = Some gs' \<Longrightarrow> cache_inv formats gs'"
    by (auto simp: gs_add_gtid_def bind_eq_Some_conv intro!: store gno_interval_cache)
  show "gs_remove_gtid n g gs = Some gs' \<Longrightarrow> cache_inv formats gs'"
    using assms by (auto simp: gs_remove_gtid_def bind_eq_Some_conv split: if_splits intro!: store gno_interval_cache)
  have same: "cache_inv formats (store_ivs n (ivit_init (m_intervals gs ! (n - 1)), gs_pool gs) gs)"
    using assms by (simp add: store_ivs_def ivit_init_def)
  show "add_gno_intervals n others gs = Some gs' \<Longrightarrow> cache_inv formats gs'"
    using same by (cases others) (auto simp: add_gno_intervals_def bind_eq_Some_conv
        intro!: store gno_intervals_from_cache simp del: add_gno_intervals_from.simps(2))
  show "remove_gno_intervals n others gs = Some gs' \<Longrightarrow> cache_inv formats gs'"
    using same by (cases others) (auto simp: remove_gno_intervals_def bind_eq_Some_conv
        intro!: store gno_intervals_from_cache simp del: remove_gno_intervals_from.simps(2))
  show "cache_inv formats (gs_clear gs)" by (simp add: cache_inv_def gs_clear_def invalidate_cache_def Let_def)
qed

section \<open>Single GTIDs\<close>

lemma gtid_is_valid_iff:
  assumes "sid_map_inv sm"
  shows "gtid_is_valid text \<longleftrightarrow> fst (gtid_parse env_ok text sm) \<noteq> None"
proof (cases "uuid_parse (skip_ws text)")
  case None
  then show ?thesis by (simp add: gtid_is_valid_def gtid_parse_def uuid_is_valid_iff)
next
  case (Some r)
  obtain sid u where r: "r = (sid, u)" by (cases r)
  with Some have "length sid = BYTE_LENGTH" using uuid_parse_length by blast
  from add_sid_ok [OF assms this] obtain n sm' where "add_sid env_ok sid sm = (Some n, sm')" by metis
  with Some r show ?thesis
    by (auto simp: gtid_is_valid_def gtid_parse_def uuid_is_valid_iff Let_def split: prod.splits)
qed

lemma gtid_parse_print:
  assumes inv: "sid_map_inv sm" and n: "1 \<le> n" "n \<le> sm_max_sidno sm" and g: "1 \<le> g" "g < GNO_END"
  shows "gtid_parse env_ok (gtid_to_string sm (n, g)) sm = (Some (n, g), sm)"
proof -
  let ?u = "sidno_to_sid sm n"
  define t where "t = uuid_to_string ?u @ CHR '':'' # format_gno g"
  have u: "length ?u = BYTE_LENGTH" using sid_map_inv_length [OF inv n] .
  have ws: "skip_ws t = t" by (rule uuid_to_string_head [OF u]) (simp add: t_def)
  have parse: "uuid_parse t = Some (?u, CHR '':'' # format_gno g)" unfolding t_def by (rule uuid_roundtrip [OF u])
  have rest: "drop TEXT_LENGTH t = CHR '':'' # format_gno g" by (rule uuid_parse_rest [OF parse, symmetric])
  have add: "add_sid env_ok ?u sm = (Some n, sm)"
    using sid_map_inv_hash [OF inv, of ?u n] n by (simp add: add_sid_def)
  have gno: "parse_gno (format_gno g) = (g, [])" using parse_gno_format [OF g, of "[]"] by simp
  obtain d ds where "decimal (nat g) = dig_vec d # ds" "d < 10" using decimal_first by blast
  then have fws: "skip_ws (format_gno g) = format_gno g" using dig_vec_decimal(1) g by (simp add: format_gno_decimal)
  show ?thesis unfolding gtid_to_string_def gtid_to_string_sid_def fst_conv snd_conv t_def [symmetric]
    using g by (simp add: gtid_parse_def ws parse rest add gno fws separators)
qed

lemma to_upper_nat: "equals_nocase t s \<Longrightarrow> length t = length s"
  unfolding equals_nocase_def by (metis length_map)

text \<open>
  A printed GTID is longer than the two keywords, so a specification is read back as the type
  and the GTID it was printed from.
\<close>

lemma spec_parse_print:
  assumes inv: "sid_map_inv sm" and n: "1 \<le> n" "n \<le> sm_max_sidno sm" and g: "1 \<le> g" "g < GNO_END"
  shows "spec_parse env_ok (spec_to_string sm \<lparr>spec_type = GTID_GROUP, spec_gtid = (n, g)\<rparr>) sm sp =
    (RETURN_STATUS_OK, sp\<lparr>spec_gtid := (n, g), spec_type := GTID_GROUP\<rparr>, sm)"
proof -
  have "length (gtid_to_string sm (n, g)) > TEXT_LENGTH"
    using length_uuid_to_string [OF sid_map_inv_length [OF inv n]] by (simp add: gtid_to_string_def gtid_to_string_sid_def)
  then have "\<not> equals_nocase (gtid_to_string sm (n, g)) ''AUTOMATIC''"
      "\<not> equals_nocase (gtid_to_string sm (n, g)) ''ANONYMOUS''"
    using to_upper_nat [of "gtid_to_string sm (n, g)"] by (auto simp: TEXT_LENGTH_def)
  then show ?thesis by (simp add: spec_parse_def spec_to_string_def gtid_parse_print [OF assms])
qed

lemma spec_is_valid_iff:
  assumes "sid_map_inv sm"
  shows "spec_is_valid text \<longleftrightarrow> fst (spec_parse env_ok text sm sp) = RETURN_STATUS_OK"
  using gtid_is_valid_iff [OF assms, of "text"]
  by (auto simp: spec_is_valid_def spec_parse_def split: prod.splits option.splits)

end
