(* ===== verification/Gtid_Encoding_Laws.thy ===== *)
theory Gtid_Encoding_Laws
  imports Gtid_Encoding Gtid_Text_Length
begin

text \<open>
  The encoding has the announced length, decoding it gives the set back, and decoding any bytes
  keeps the invariants. The check of the number of intervals wraps around at \<open>2 ^ 64\<close>.
\<close>

section \<open>Decoding keeps the invariants\<close>

lemma sint8korr_bound: "sint8korr bs \<le> GNO_END"
  using sint_lt [of "uint8korr bs"] by (simp add: sint8korr_def GNO_END_def)

lemma decode_intervals_correct:
  assumes "wf_ivs (ivit_list it)" and "0 \<le> lst"
    and "decode_intervals encoded n i lst pos it p = Some (r, it', p')"
  shows "wf_ivs (ivit_list it') \<and> same_balance (ivit_list it) p (ivit_list it') p' \<and>
    gnos (ivit_list it) \<subseteq> gnos (ivit_list it')"
  using assms
proof (induction "length encoded - pos" arbitrary: i lst pos it p rule: less_induct)
  case 1: less
  let ?a = "sint8korr (drop pos encoded)" and ?e = "sint8korr (drop (pos + 8) encoded)"
  note step = decode_intervals.simps [of encoded n i lst pos it p]
  show ?case
  proof (cases "ucast i < n \<and> pos + 16 \<le> length encoded \<and> \<not> (?a \<le> lst \<or> ?e \<le> ?a)")
    case False
    with 1 step show ?thesis by (auto simp: Let_def split: if_splits)
  next
    case True
    obtain pre cur where rp: "reposition it ?a = (pre, cur)" by fastforce
    have list: "pre @ cur = ivit_list it" using reposition_list [of it ?a] rp by simp
    have "\<forall>x \<in> set pre. iv_end x < ?a" using reposition_before [OF 1(2), of _ ?a] rp by simp
    then obtain pre1 cur1 p1 where add: "add_gno_interval (pre, cur) ?a ?e p = ((pre1, cur1), p1)"
        "wf_ivs (pre1 @ cur1)" "gnos (pre1 @ cur1) = gnos (ivit_list it) \<union> {?a ..< ?e}"
      using add_gno_interval_correct [of pre cur ?a ?e p] True 1(2,3) list sint8korr_bound by auto
    have bal: "same_balance (ivit_list it) p (pre1 @ cur1) p1"
      using gno_interval_balance(1) [OF add(1)] list by simp
    have "decode_intervals encoded n (i + 1) ?e (pos + 16) (pre1, cur1) p1 = Some (r, it', p')"
      using 1(4) step True rp add(1) by (simp add: Let_def)
    moreover have "length encoded - (pos + 16) < length encoded - pos" using True by linarith
    ultimately
    have "wf_ivs (ivit_list it') \<and> same_balance (pre1 @ cur1) p1 (ivit_list it') p' \<and>
        gnos (pre1 @ cur1) \<subseteq> gnos (ivit_list it')"
      using 1(1) [of "pos + 16" "(pre1, cur1)" ?e "i + 1" p1] True add(2) 1(3) by simp
    with same_balance_trans [OF bal] add(3) show ?thesis by blast
  qed
qed

lemma decode_sids_correct:
  assumes "gs_inv gs" and "sid_map_inv sm" and "get_max_sidno gs \<le> sm_max_sidno sm"
    and "decode_sids gs_env_ok encoded n i pos sm gs = Some (status, pos', sm', gs')"
  shows "\<exists>S. add_translated_post sm gs S sm' gs'"
  using assms
proof (induction "length encoded - pos" arbitrary: i pos sm gs rule: less_induct)
  case 1: less
  note step = decode_sids.simps [of gs_env_ok encoded n i pos sm gs]
  have refl: "add_translated_post sm gs {} sm gs" by (rule add_translated_post_refl [OF 1(2-4)])
  show ?case
  proof (cases "ucast i < n \<and> \<not> length encoded - pos < 16 + 8")
    case False
    with 1(5) step refl show ?thesis by (auto split: if_splits)
  next
    case True
    let ?sid = "take 16 (drop pos encoded)" and ?k = "uint8korr (drop (pos + 16) encoded)"
    have sid: "length ?sid = BYTE_LENGTH" using True by (simp add: BYTE_LENGTH_def)
    obtain m sm1 gs1 where st: "add_sid env_ok ?sid sm = (Some m, sm1)"
        "gs_ensure_sidno (\<lambda>_. True) id m gs = (RETURN_STATUS_OK, gs1)"
        "1 \<le> m" "m \<le> get_max_sidno gs1" "gs_inv gs1" "add_translated_post sm gs {} sm1 gs1"
      and post: "\<And>it p G. wf_ivs (ivit_list it) \<Longrightarrow>
        same_balance (m_intervals gs1 ! (m - 1)) (gs_pool gs1) (ivit_list it) p \<Longrightarrow>
        gnos (ivit_list it) = gnos (m_intervals gs1 ! (m - 1)) \<union> G \<Longrightarrow>
        add_translated_post sm gs ({?sid} \<times> G) sm1 (store_ivs m (it, p) gs1)"
      by (rule sid_step [OF 1(2-4) sid]) metis
    let ?ivs = "m_intervals gs1 ! (m - 1)"
    let ?d = "decode_intervals encoded ?k 0 0 (pos + 24) (ivit_init ?ivs) (gs_pool gs1)"
    have loop: "decode_sids gs_env_ok encoded n i pos sm gs =
        (if length encoded - (pos + 24) < unat (2 * 8 * ?k) then Some (RETURN_STATUS_REPORTED_ERROR, pos + 24, sm1, gs1)
         else case ?d of
           None \<Rightarrow> None
         | Some (None, it, p) \<Rightarrow> Some (RETURN_STATUS_REPORTED_ERROR, pos + 24, sm1, store_ivs m (it, p) gs1)
         | Some (Some pos2, it, p) \<Rightarrow> decode_sids gs_env_ok encoded n (i + 1) pos2 sm1 (store_ivs m (it, p) gs1))"
      unfolding step using True st by (simp add: gs_env_ok_def Let_def)
    show ?thesis
    proof (cases "length encoded - (pos + 24) < unat (2 * 8 * ?k)")
      case True
      with 1(5) loop st(6) show ?thesis by auto
    next
      case False
      with 1(5) loop obtain r it p where d: "?d = Some (r, it, p)" by (auto split: option.splits)
      have "wf_ivs (ivit_list (ivit_init ?ivs))" using gs_inv_wf [OF st(5,3,4)] by (simp add: ivit_init_def)
      from decode_intervals_correct [OF this _ d]
      have w: "wf_ivs (ivit_list it)" "same_balance ?ivs (gs_pool gs1) (ivit_list it) p"
          "gnos ?ivs \<subseteq> gnos (ivit_list it)"
        by (simp_all add: ivit_init_def)
      have p: "add_translated_post sm gs ({?sid} \<times> gnos (ivit_list it)) sm1 (store_ivs m (it, p) gs1)"
        using post [OF w(1,2)] w(3) by blast
      show ?thesis
      proof (cases r)
        case None
        with 1(5) loop False d p show ?thesis by auto
      next
        case (Some pos2)
        have inv: "gs_inv (store_ivs m (it, p) gs1)" "sid_map_inv sm1" "get_max_sidno (store_ivs m (it, p) gs1) \<le> sm_max_sidno sm1"
          using p unfolding add_translated_post_def by blast+
        have rec: "decode_sids gs_env_ok encoded n (i + 1) pos2 sm1 (store_ivs m (it, p) gs1) = Some (status, pos', sm', gs')"
          using 1(5) loop False d Some by simp
        have "length encoded - pos2 < length encoded - pos"
          using True decode_intervals_pos [OF d [unfolded Some]] by linarith
        from 1(1) [OF this inv rec]
        have "\<exists>S. add_translated_post sm1 (store_ivs m (it, p) gs1) S sm' gs'" .
        with add_translated_post_trans [OF p] show ?thesis by blast
      qed
    qed
  qed
qed

section \<open>The length of the encoding\<close>

lemma length_encode_intervals: "length (concat (map encode_interval ivs)) = 16 * length ivs"
  by (induction ivs) (simp_all add: encode_interval_def)

lemma encode_sidnos_length:
  assumes "sid_map_inv sm" and "\<forall>n \<in> set ns. 1 \<le> n \<and> n \<le> sm_max_sidno sm"
  shows "length (snd (encode_sidnos sm gs ns)) =
    sum_list (map (\<lambda>n. 24 + 16 * length (m_intervals gs ! (n - 1))) (filter (contains_sidno gs) ns))"
  using assms(2)
proof (induction ns)
  case (Cons n ns)
  then have "length (sidno_to_sid sm n) = 16"
    using sid_map_inv_length [OF assms(1), of n] by (simp add: BYTE_LENGTH_def)
  with Cons show ?case
    by (auto simp: contains_sidno_def length_encode_intervals Let_def split: prod.splits)
qed simp

lemma foldl_add: "foldl (\<lambda>r n. if P n then r + f n else r) a xs = a + sum_list (map f (filter P xs))"
  for f :: "nat \<Rightarrow> nat"
  by (induction xs arbitrary: a) auto

lemma filter_contains_sidno:
  "sum_list (map (\<lambda>n. f (m_intervals gs ! (n - 1))) (filter (contains_sidno gs) [1 ..< Suc (get_max_sidno gs)])) =
    sum_list (map f (filter (\<lambda>ivs. ivs \<noteq> []) (m_intervals gs)))"
  for f :: "interval list \<Rightarrow> nat"
proof -
  let ?ls = "m_intervals gs"
  have "filter (contains_sidno gs) [1 ..< Suc (get_max_sidno gs)] =
      filter (\<lambda>n. ?ls ! (n - 1) \<noteq> []) [1 ..< Suc (length ?ls)]"
    by (rule filter_cong) (auto simp: contains_sidno_def get_max_sidno_def)
  also have "[1 ..< Suc (length ?ls)] = map Suc [0 ..< length ?ls]" by (simp add: map_Suc_upt)
  finally have "sum_list (map (\<lambda>n. f (?ls ! (n - 1))) (filter (contains_sidno gs) [1 ..< Suc (get_max_sidno gs)])) =
      sum_list (map f (map ((!) ?ls) (filter (\<lambda>i. ?ls ! i \<noteq> []) [0 ..< length ?ls])))"
    by (simp add: filter_map comp_def)
  also have "map ((!) ?ls) (filter (\<lambda>i. ?ls ! i \<noteq> []) [0 ..< length ?ls]) =
      filter (\<lambda>ivs. ivs \<noteq> []) (map ((!) ?ls) [0 ..< length ?ls])"
    by (simp add: filter_map comp_def)
  finally show ?thesis by (simp add: map_nth)
qed

lemma get_encoded_length_eq:
  "get_encoded_length gs = 8 + sum_list (map (\<lambda>ivs. 24 + 16 * length ivs) (filter (\<lambda>ivs. ivs \<noteq> []) (m_intervals gs)))"
  unfolding get_encoded_length_def foldl_add
  using filter_contains_sidno [of "\<lambda>ivs. 24 + 16 * length ivs" gs] by (simp add: n_intervals_of_def)

lemma encode_length:
  assumes "sid_map_inv sm" and "get_max_sidno gs \<le> sm_max_sidno sm"
  shows "length (gs_encode sm gs) = get_encoded_length gs"
proof -
  have "\<forall>n \<in> set (sorted_sidnos sm). 1 \<le> n \<and> n \<le> sm_max_sidno sm" using assms(1) by (simp add: sid_map_inv_def)
  from encode_sidnos_length [OF assms(1) this, of gs]
  have "length (snd (encode_sidnos sm gs (sorted_sidnos sm))) =
      sum_list (map (\<lambda>ivs. 24 + 16 * length ivs) (filter (\<lambda>ivs. ivs \<noteq> []) (m_intervals gs)))"
    unfolding sum_sorted_sidnos [OF assms, of "\<lambda>ivs. 24 + 16 * length ivs"] by simp
  then show ?thesis
    by (cases "encode_sidnos sm gs (sorted_sidnos sm)") (simp add: gs_encode_def get_encoded_length_eq)
qed

section \<open>Decoding an encoded set\<close>

lemma sint8korr_store: "1 \<le> v \<Longrightarrow> v \<le> GNO_END \<Longrightarrow> sint8korr (int8store (word_of_int v) @ rest) = v"
  by (simp add: sint8korr_def uint8korr_int8store int_word_sint GNO_END_def)

lemma unat_counter: "unat (i :: 32 word) + 1 < 2 ^ 32 \<Longrightarrow> unat (i + 1) = unat i + 1"
  by (simp add: unat_word_ariths)

lemma ucast_less_iff:
  "(ucast (i :: 32 word) :: 64 word) < n \<longleftrightarrow> unat i < unat n"
proof -
  have "unat i < 2 ^ 64" using unsigned_less [of i, where ?'a = nat] by simp
  then have "unat (ucast i :: 64 word) = unat i" by (simp add: unsigned_ucast_eq take_bit_nat_eq_self)
  then show ?thesis by (simp add: word_less_nat_alt)
qed

lemma decode_intervals_encoded:
  assumes "wf_ivs ivs" and "drop pos encoded = concat (map encode_interval ivs) @ rest"
    and "unat i + length ivs = unat n" and "unat n < 2 ^ 32"
    and "0 \<le> lst" and "\<forall>iv \<in> set ivs. lst < iv_start iv" and "wf_ivs (ivit_list it)"
    and "pos \<le> length encoded"
  shows "\<exists>it' p'. decode_intervals encoded n i lst pos it p = Some (Some (pos + 16 * length ivs), it', p') \<and>
    gnos (ivit_list it') = gnos (ivit_list it) \<union> gnos ivs"
  using assms
proof (induction ivs arbitrary: i lst pos it p)
  case Nil
  then show ?case by (simp add: decode_intervals.simps [of encoded n i] ucast_less_iff)
next
  case (Cons iv ivs)
  have iv: "1 \<le> iv_start iv" "iv_start iv < iv_end iv" "iv_end iv \<le> GNO_END" "lst < iv_start iv"
    using Cons.prems(1,6) by (auto simp: iv_ok_def)
  have enc: "drop pos encoded = int8store (word_of_int (iv_start iv)) @ int8store (word_of_int (iv_end iv)) @
      concat (map encode_interval ivs) @ rest"
    using Cons.prems(2) by (simp add: encode_interval_def [of iv])
  have d8: "drop (pos + 8) encoded = int8store (word_of_int (iv_end iv)) @ concat (map encode_interval ivs) @ rest"
    using arg_cong [OF enc, of "drop 8"] by (simp add: add.commute)
  have d16: "drop (pos + 16) encoded = concat (map encode_interval ivs) @ rest"
    using arg_cong [OF enc, of "drop 16"] by (simp add: add.commute)
  have len: "pos + 16 \<le> length encoded" using arg_cong [OF enc, of length] by simp
  have a: "sint8korr (drop pos encoded) = iv_start iv" unfolding enc using iv by (intro sint8korr_store) auto
  have e: "sint8korr (drop (pos + 8) encoded) = iv_end iv" unfolding d8 using iv by (intro sint8korr_store) auto
  obtain pre cur where rp: "reposition it (iv_start iv) = (pre, cur)" by fastforce
  have list: "pre @ cur = ivit_list it" using reposition_list [of it "iv_start iv"] rp by simp
  have "\<forall>x \<in> set pre. iv_end x < iv_start iv" using reposition_before [OF Cons.prems(7), of _ "iv_start iv"] rp by simp
  then obtain pre1 cur1 p1 where add: "add_gno_interval (pre, cur) (iv_start iv) (iv_end iv) p = ((pre1, cur1), p1)"
      "wf_ivs (pre1 @ cur1)" "gnos (pre1 @ cur1) = gnos (ivit_list it) \<union> {iv_start iv ..< iv_end iv}"
    using add_gno_interval_correct [of pre cur "iv_start iv" "iv_end iv" p] iv Cons.prems(7) list by auto
  have i: "unat (i + 1) = unat i + 1" using Cons.prems(3,4) by (intro unat_counter) simp
  have lt: "(ucast i :: 64 word) < n" using Cons.prems(3) by (simp add: ucast_less_iff)
  have step: "decode_intervals encoded n i lst pos it p = decode_intervals encoded n (i + 1) (iv_end iv) (pos + 16) (pre1, cur1) p1"
    using lt len iv add(1) rp by (simp add: decode_intervals.simps [of encoded n i] a e Let_def)
  have pre: "wf_ivs ivs" "unat (i + 1) + length ivs = unat n" "0 \<le> iv_end iv" "\<forall>b \<in> set ivs. iv_end iv < iv_start b"
      "wf_ivs (ivit_list (pre1, cur1))"
    using Cons.prems(1,3) i iv add(2) by auto
  from Cons.IH [OF pre(1) d16 pre(2) Cons.prems(4) pre(3-5) len, of p1] step add(3) show ?case by (auto simp: Un_assoc)
qed

text \<open>
  The counters of the decoder are \<open>uint\<close>: a set with at most \<open>2 ^ 32 - 1\<close> SIDs and intervals per
  SID is within their range.
\<close>

definition small_set :: "sid_map \<Rightarrow> gtid_set \<Rightarrow> bool" where
  "small_set sm gs \<longleftrightarrow> sm_max_sidno sm < 2 ^ 32 \<and> (\<forall>ivs \<in> set (m_intervals gs). length ivs < 2 ^ 32)"

lemma encode_sidnos_count: "fst (encode_sidnos sm gs ns) \<le> length ns"
  by (induction ns) (auto simp: Let_def split: prod.splits)

lemma unat_of_small: "k < 2 ^ 32 \<Longrightarrow> unat (of_nat k :: 64 word) = k"
  by (simp add: unsigned_of_nat take_bit_nat_eq_self)

lemma unat_16_times: "k < 2 ^ 32 \<Longrightarrow> unat (2 * 8 * (of_nat k :: 64 word)) = 16 * k"
proof -
  assume "k < 2 ^ 32"
  then have "unat (16 * (of_nat k :: 64 word)) = 16 * k mod 2 ^ 64"
    using unat_of_small [of k] by (simp add: unat_word_ariths)
  with \<open>k < 2 ^ 32\<close> show ?thesis by simp
qed

lemma gtids_in_absent:
  assumes "n > get_max_sidno gs \<or> m_intervals gs ! (n - 1) = []"
  shows "gtids_in (insert n N) gs = gtids_in N gs"
  using assms by (auto simp: gtids_in_def gtids_def)

text \<open>One SID with its intervals, as the decoder sees them.\<close>

lemma decode_one_sid:
  assumes inv: "gs_inv gs" "sid_map_inv sm" "get_max_sidno gs \<le> sm_max_sidno sm"
    and sid: "length sid = BYTE_LENGTH" and ivs: "wf_ivs ivs" "length ivs < 2 ^ 32"
    and enc: "drop pos encoded = sid @ int8store (of_nat (length ivs)) @ concat (map encode_interval ivs) @ rest"
    and i: "unat i < unat n" and pos: "pos \<le> length encoded"
  obtains sm1 gs1 where "decode_sids gs_env_ok encoded n i pos sm gs =
      decode_sids gs_env_ok encoded n (i + 1) (pos + 24 + 16 * length ivs) sm1 gs1"
    and "add_translated_post sm gs ({sid} \<times> gnos ivs) sm1 gs1"
proof (rule sid_step [OF inv sid])
  fix m sm1 and gs1 :: gtid_set
  let ?l = "m_intervals gs1 ! (m - 1)"
  assume st: "add_sid env_ok sid sm = (Some m, sm1)"
      "gs_ensure_sidno (\<lambda>_. True) id m gs = (RETURN_STATUS_OK, gs1)" "1 \<le> m" "m \<le> get_max_sidno gs1" "gs_inv gs1"
    and post: "\<And>it p G. wf_ivs (ivit_list it) \<Longrightarrow> same_balance ?l (gs_pool gs1) (ivit_list it) p \<Longrightarrow>
      gnos (ivit_list it) = gnos ?l \<union> G \<Longrightarrow> add_translated_post sm gs ({sid} \<times> G) sm1 (store_ivs m (it, p) gs1)"
  have sid16: "length sid = 16" using sid by (simp add: BYTE_LENGTH_def)
  have t: "take 16 (drop pos encoded) = sid" unfolding enc using sid16 by simp
  have d16: "drop (pos + 16) encoded = int8store (of_nat (length ivs)) @ concat (map encode_interval ivs) @ rest"
    using arg_cong [OF enc, of "drop 16"] sid16 by (simp add: add.commute)
  have d24: "drop (pos + 24) encoded = concat (map encode_interval ivs) @ rest"
    using arg_cong [OF enc, of "drop 24"] sid16 by (simp add: add.commute)
  have k: "uint8korr (drop (pos + 16) encoded) = of_nat (length ivs)" unfolding d16 by (rule uint8korr_int8store)
  have len: "length encoded = pos + 24 + 16 * length ivs + length rest"
    using arg_cong [OF enc, of length] sid16 pos by (simp add: length_encode_intervals)
  have wfl: "wf_ivs (ivit_list (ivit_init ?l))" using gs_inv_wf [OF st(5,3,4)] by (simp add: ivit_init_def)
  have cnt: "unat (0 :: 32 word) + length ivs = unat (of_nat (length ivs) :: 64 word)"
      "unat (of_nat (length ivs) :: 64 word) < 2 ^ 32"
    using unat_of_small [OF ivs(2)] ivs(2) by simp_all
  have low: "\<forall>iv \<in> set ivs. 0 < iv_start iv" using wf_ivs_iv_ok [OF ivs(1)] by (fastforce simp: iv_ok_def)
  have "pos + 24 \<le> length encoded" using len by simp
  from decode_intervals_encoded [OF ivs(1) d24 cnt _ low wfl this, of "gs_pool gs1"]
  obtain it p where d: "decode_intervals encoded (of_nat (length ivs)) 0 0 (pos + 24) (ivit_init ?l) (gs_pool gs1) =
        Some (Some (pos + 24 + 16 * length ivs), it, p)" "gnos (ivit_list it) = gnos ?l \<union> gnos ivs"
    by (auto simp: ivit_init_def)
  have w: "wf_ivs (ivit_list it)" "same_balance ?l (gs_pool gs1) (ivit_list it) p"
    using decode_intervals_correct [OF wfl _ d(1)] by (simp_all add: ivit_init_def)
  have "decode_sids gs_env_ok encoded n i pos sm gs =
      decode_sids gs_env_ok encoded n (i + 1) (pos + 24 + 16 * length ivs) sm1 (store_ivs m (it, p) gs1)"
    using i len st t k d(1) unat_16_times [OF ivs(2)]
    by (subst decode_sids.simps) (simp add: ucast_less_iff gs_env_ok_def Let_def)
  with that post [OF w d(2)] show thesis by blast
qed

lemma decode_sids_encoded:
  assumes src: "gs_inv gs0" "sid_map_inv sm0" "\<forall>k \<in> set ns. 1 \<le> k \<and> k \<le> sm_max_sidno sm0"
      "\<forall>ivs \<in> set (m_intervals gs0). length ivs < 2 ^ 32"
    and "gs_inv gs" "sid_map_inv sm" "get_max_sidno gs \<le> sm_max_sidno sm"
    and "drop pos encoded = snd (encode_sidnos sm0 gs0 ns) @ rest" and "pos \<le> length encoded"
    and "unat i + fst (encode_sidnos sm0 gs0 ns) = unat n" and "unat n < 2 ^ 32"
  shows "\<exists>sm' gs'. decode_sids gs_env_ok encoded n i pos sm gs =
      Some (RETURN_STATUS_OK, pos + length (snd (encode_sidnos sm0 gs0 ns)), sm', gs') \<and>
    add_translated_post sm gs (sidmap.by_sid sm0 (gtids_in (set ns) gs0)) sm' gs'"
  using assms(3,5-)
proof (induction ns arbitrary: i pos sm gs)
  case Nil
  then show ?case using add_translated_post_refl [of gs sm]
    by (simp add: decode_sids.simps [of _ encoded n i] ucast_less_iff sidmap.by_sid_def)
next
  case (Cons k ns)
  show ?case
  proof (cases "k > get_max_sidno gs0 \<or> m_intervals gs0 ! (k - 1) = []")
    case True
    then have "encode_sidnos sm0 gs0 (k # ns) = encode_sidnos sm0 gs0 ns" by auto
    with Cons.IH [of gs sm pos i] Cons.prems gtids_in_absent [OF True] show ?thesis by simp
  next
    case False
    let ?ivs = "m_intervals gs0 ! (k - 1)" and ?sid = "sidno_to_sid sm0 k"
    obtain c bytes where e: "encode_sidnos sm0 gs0 ns = (c, bytes)" by fastforce
    have k: "1 \<le> k" "k \<le> get_max_sidno gs0" using False Cons.prems(1) by auto
    have enc: "encode_sidnos sm0 gs0 (k # ns) = (c + 1, ?sid @ int8store (of_nat (length ?ivs)) @ concat (map encode_interval ?ivs) @ bytes)"
      using False e by (simp add: Let_def)
    have ivs: "wf_ivs ?ivs" "length ?ivs < 2 ^ 32"
      using gs_inv_wf [OF src(1) k] src(4) k by (auto simp: get_max_sidno_def)
    have sid: "length ?sid = BYTE_LENGTH" using Cons.prems(1) by (intro sid_map_inv_length [OF src(2)]) auto
    have d: "drop pos encoded = ?sid @ int8store (of_nat (length ?ivs)) @ concat (map encode_interval ?ivs) @ bytes @ rest"
      using Cons.prems(5) unfolding enc by simp
    have i: "unat i < unat n" using Cons.prems(7) unfolding enc by simp
    obtain sm1 gs1 where st: "decode_sids gs_env_ok encoded n i pos sm gs =
          decode_sids gs_env_ok encoded n (i + 1) (pos + 24 + 16 * length ?ivs) sm1 gs1"
        "add_translated_post sm gs ({?sid} \<times> gnos ?ivs) sm1 gs1"
      using decode_one_sid [OF Cons.prems(2-4) sid ivs d i Cons.prems(6)] by metis
    let ?pos = "pos + 24 + 16 * length ?ivs"
    have "drop ?pos encoded = bytes @ rest"
      using arg_cong [OF d, of "drop (24 + 16 * length ?ivs)"] sid
      by (simp add: add.commute BYTE_LENGTH_def length_encode_intervals add.assoc add.left_commute)
    moreover have "?pos \<le> length encoded"
      using arg_cong [OF d, of length] sid by (simp add: BYTE_LENGTH_def length_encode_intervals)
    moreover have "unat (i + 1) + c = unat n"
      using unat_counter [of i] i Cons.prems(7,8) unfolding enc by simp
    moreover have "gs_inv gs1" "sid_map_inv sm1" "get_max_sidno gs1 \<le> sm_max_sidno sm1"
      using st(2) by (simp_all add: add_translated_post_def)
    ultimately obtain sm' gs' where r: "decode_sids gs_env_ok encoded n (i + 1) ?pos sm1 gs1 =
          Some (RETURN_STATUS_OK, ?pos + length bytes, sm', gs')"
        "add_translated_post sm1 gs1 (sidmap.by_sid sm0 (gtids_in (set ns) gs0)) sm' gs'"
      using Cons.IH [of gs1 sm1 ?pos "i + 1"] Cons.prems(1,8) e by auto
    have "add_translated_post sm gs (sidmap.by_sid sm0 (gtids_in (set (k # ns)) gs0)) sm' gs'"
      using add_translated_post_trans [OF st(2) r(2)] gtids_in_by_sid [OF k, of sm0 "set ns"] by simp
    with st(1) r(1) sid show ?thesis unfolding enc
      by (simp add: BYTE_LENGTH_def length_encode_intervals add.assoc)
  qed
qed

lemma add_gtid_encoding_encoded:
  assumes src: "gs_inv gs0" "sid_map_inv sm0" "get_max_sidno gs0 \<le> sm_max_sidno sm0" "small_set sm0 gs0"
    and dst: "gs_inv gs" "sid_map_inv sm" "get_max_sidno gs \<le> sm_max_sidno sm"
  shows "\<exists>sm' gs'. add_gtid_encoding gs_env_ok (gs_encode sm0 gs0) False sm gs =
      Some (RETURN_STATUS_OK, None, sm', gs') \<and>
    add_translated_post sm gs (sidmap.by_sid sm0 (gtids gs0)) sm' gs'"
proof -
  let ?ns = "sorted_sidnos sm0"
  obtain c bytes where e: "encode_sidnos sm0 gs0 ?ns = (c, bytes)" by fastforce
  have ns: "set ?ns = {1 .. sm_max_sidno sm0}" "length ?ns = sm_max_sidno sm0"
    using src(2) by (simp_all add: sid_map_inv_def)
  have c: "c < 2 ^ 32" using encode_sidnos_count [of sm0 gs0 ?ns] e ns(2) src(4) by (simp add: small_set_def)
  have enc: "gs_encode sm0 gs0 = int8store (of_nat c) @ bytes" by (simp add: gs_encode_def e)
  have n: "uint8korr (gs_encode sm0 gs0) = of_nat c" unfolding enc by (rule uint8korr_int8store)
  have all: "gtids_in (set ?ns) gs0 = gtids gs0"
    using src(3) unfolding ns(1) by (auto simp: gtids_in_def gtids_def)
  have "\<exists>sm' gs'. decode_sids gs_env_ok (gs_encode sm0 gs0) (of_nat c) 0 8 sm gs =
        Some (RETURN_STATUS_OK, 8 + length (snd (encode_sidnos sm0 gs0 ?ns)), sm', gs') \<and>
      add_translated_post sm gs (sidmap.by_sid sm0 (gtids_in (set ?ns) gs0)) sm' gs'"
    using src(4) unat_of_small [OF c] c
    by (intro decode_sids_encoded [OF src(1,2) _ _ dst, where rest = "[]"]) (auto simp: ns e enc small_set_def)
  then obtain sm' gs' where d: "decode_sids gs_env_ok (gs_encode sm0 gs0) (of_nat c) 0 8 sm gs =
        Some (RETURN_STATUS_OK, 8 + length bytes, sm', gs')"
      "add_translated_post sm gs (sidmap.by_sid sm0 (gtids gs0)) sm' gs'"
    unfolding all e by auto
  have "length (gs_encode sm0 gs0) = 8 + length bytes" by (simp add: enc)
  with d show ?thesis by (simp add: add_gtid_encoding_def n)
qed

section \<open>Arbitrary bytes\<close>

lemma add_gtid_encoding_keeps:
  assumes "gs_inv gs" and "sid_map_inv sm" and "get_max_sidno gs \<le> sm_max_sidno sm"
    and "add_gtid_encoding gs_env_ok encoded want sm gs = Some (status, len, sm', gs')"
  shows "\<exists>S. add_translated_post sm gs S sm' gs'"
  using assms(4) add_translated_post_refl [OF assms(1-3)]
  by (auto simp: add_gtid_encoding_def split: if_splits option.splits enum_return_status.splits
      dest!: decode_sids_correct [OF assms(1-3)])

end
