(* ===== verification/Gtid_Properties.thy ===== *)
theory Gtid_Properties
  imports Gtid_Encoding_Laws
begin

text \<open>
  The properties of GTID sets, each with an instance on two small sets whose SID maps number the
  same two servers in opposite order.
\<close>

section \<open>Two sets over two numberings\<close>

definition ex_sid :: "nat \<Rightarrow> sid" where
  "ex_sid n = replicate 16 (of_nat n)"

definition ex_map :: sid_map where
  "ex_map = \<lparr>sidno_to_sids = [ex_sid 1, ex_sid 2], sid_hash = [ex_sid 1 \<mapsto> 1, ex_sid 2 \<mapsto> 2],
             sorted_sidnos = [1, 2]\<rparr>"

definition ex_map2 :: sid_map where
  "ex_map2 = \<lparr>sidno_to_sids = [ex_sid 2, ex_sid 1], sid_hash = [ex_sid 2 \<mapsto> 1, ex_sid 1 \<mapsto> 2],
              sorted_sidnos = [2, 1]\<rparr>"

definition ex_maps :: sid_maps where
  "ex_maps a = (if a = 0 then ex_map else ex_map2)"

definition ex_pool :: "nat \<Rightarrow> pool" where
  "ex_pool used = \<lparr>free_intervals = 8 - used, chunks = [8], lent = 0, corrupt = False,
                   has_cached_string_length = False, cached_string_length = 0\<rparr>"

definition ex_a :: gtid_set where
  "ex_a = \<lparr>gs_sid_map = Some 0, m_intervals = [[\<lparr>iv_start = 1, iv_end = 4\<rparr>], [\<lparr>iv_start = 5, iv_end = 6\<rparr>]],
           gs_pool = ex_pool 2, cached_string_format = None\<rparr>"

definition ex_b :: gtid_set where
  "ex_b = \<lparr>gs_sid_map = Some 1,
           m_intervals = [[\<lparr>iv_start = 5, iv_end = 9\<rparr>], [\<lparr>iv_start = 2, iv_end = 3\<rparr>, \<lparr>iv_start = 7, iv_end = 8\<rparr>]],
           gs_pool = ex_pool 3, cached_string_format = None\<rparr>"

lemma ex_sid_simps [simp]: "length (ex_sid n) = 16" "ex_sid 1 \<noteq> ex_sid 2" "ex_sid 2 \<noteq> ex_sid 1"
  "ex_sid (Suc 0) \<noteq> ex_sid 2" "ex_sid 2 \<noteq> ex_sid (Suc 0)"
  by (simp_all add: ex_sid_def)

lemma ex_sid_less [simp]: "sid_less (ex_sid 1) (ex_sid 2)" "sid_less (ex_sid (Suc 0)) (ex_sid 2)"
  by (simp_all add: sid_less_def ex_sid_def numeral_eq_Suc)

lemma ex_map_simps [simp]:
  "sm_max_sidno ex_map = 2" "sm_max_sidno ex_map2 = 2"
  "sidno_to_sid ex_map 1 = ex_sid 1" "sidno_to_sid ex_map (Suc 0) = ex_sid 1" "sidno_to_sid ex_map 2 = ex_sid 2"
  "sid_hash ex_map = [ex_sid 1 \<mapsto> 1, ex_sid 2 \<mapsto> 2]" "sid_hash ex_map2 = [ex_sid 2 \<mapsto> 1, ex_sid 1 \<mapsto> 2]"
  "sidno_to_sid ex_map2 1 = ex_sid 2" "sidno_to_sid ex_map2 (Suc 0) = ex_sid 2" "sidno_to_sid ex_map2 2 = ex_sid 1"
  by (simp_all add: ex_map_def ex_map2_def sm_max_sidno_def sidno_to_sid_def)

lemma ex_map_inv [simp]: "sid_map_inv ex_map" "sid_map_inv ex_map2"
proof -
  have "({1 .. 2} :: nat set) = {1, 2}" by auto
  moreover have "(sid_hash ex_map sid = Some n \<longleftrightarrow> 1 \<le> n \<and> n \<le> 2 \<and> sidno_to_sid ex_map n = sid) \<and>
      (sid_hash ex_map2 sid = Some n \<longleftrightarrow> 1 \<le> n \<and> n \<le> 2 \<and> sidno_to_sid ex_map2 n = sid)" for sid n
  proof (cases "n = 1 \<or> n = 2")
    case False
    then have "\<not> (1 \<le> n \<and> n \<le> 2)" by linarith
    with False show ?thesis by auto
  qed auto
  moreover have "sidno_to_sids ex_map = [ex_sid 1, ex_sid 2]" "sidno_to_sids ex_map2 = [ex_sid 2, ex_sid 1]"
      "sorted_sidnos ex_map = [1, 2]" "sorted_sidnos ex_map2 = [2, 1]"
    by (simp_all add: ex_map_def ex_map2_def)
  ultimately show "sid_map_inv ex_map" "sid_map_inv ex_map2"
    unfolding sid_map_inv_def by (simp_all add: BYTE_LENGTH_def insert_commute)
qed

lemma ex_ok [simp]: "gs_ok ex_maps ex_a" "gs_ok ex_maps ex_b"
  by (simp_all add: gs_ok_def gs_inv_def ex_a_def ex_b_def ex_maps_def map_of_set_def pool_inv_def ex_pool_def
      cells_used_def iv_ok_def GNO_END_def get_max_sidno_def)

lemma ex_fits [simp]: "fits ex_maps ex_b ex_a"
proof -
  have "sidno_in ex_maps ex_b ex_a n \<le> 2" for n
    using sidmap.sid_of_sidno [OF ex_map_inv(1), of "sidno_to_sid ex_map2 n"]
    by (cases "sid_to_sidno ex_map (sidno_to_sid ex_map2 n) = 0")
      (auto simp: sidno_in_def same_sid_map_def map_of_set_def ex_a_def ex_b_def ex_maps_def)
  moreover have "get_max_sidno ex_a = 2" by (simp add: get_max_sidno_def ex_a_def)
  ultimately show ?thesis by (simp add: fits_def)
qed

section \<open>Set algebra\<close>

text \<open>
  C11. \<open>Gtid_set::add_gtid_set\<close> with enough memory succeeds and makes this set the union of the two,
  whether or not they share a SID map; it keeps the invariant of the set and of its interval pool,
  and no other set over the same maps changes its meaning.
\<close>

theorem add_gtid_set_union:
  assumes "gs_ok maps gs" and "gs_ok maps other"
  shows "\<exists>maps' gs'. add_gtid_set gs_env_ok other maps gs = Some (RETURN_STATUS_OK, maps', gs') \<and>
    gs_ok maps' gs' \<and> sid_gtids maps' gs' = sid_gtids maps gs \<union> sid_gtids maps other \<and>
    (\<forall>s. gs_ok maps s \<longrightarrow> gs_ok maps' s \<and> sid_gtids maps' s = sid_gtids maps s)"
proof (rule add_gtid_set_ok [OF assms])
  fix maps' gs'
  assume r: "add_gtid_set gs_env_ok other maps gs = Some (RETURN_STATUS_OK, maps', gs')" "maps_extend maps maps'"
    "gs_ok maps' gs'" "sid_gtids maps' gs' = sid_gtids maps gs \<union> sid_gtids maps other"
  have "\<forall>s. gs_ok maps s \<longrightarrow> gs_ok maps' s \<and> sid_gtids maps' s = sid_gtids maps s"
    using gs_ok_extend [OF r(2)] by blast
  with r show ?thesis by blast
qed

theorem add_gtid_set_union_witness:
  "\<exists>maps' gs'. add_gtid_set gs_env_ok ex_b ex_maps ex_a = Some (RETURN_STATUS_OK, maps', gs') \<and>
    gs_ok maps' gs' \<and> sid_gtids maps' gs' = sid_gtids ex_maps ex_a \<union> sid_gtids ex_maps ex_b \<and>
    gs_ok maps' ex_b"
  using add_gtid_set_union [of ex_maps ex_a ex_b] by auto

text \<open>
  C12. \<open>Gtid_set::remove_gtid_set\<close> makes this set the difference of the two, across SID maps too,
  provided the array of this set has room for the numbers that the SIDs of the other set have in
  the map of this set.
\<close>

theorem remove_gtid_set_difference:
  assumes "gs_ok maps gs" and "gs_ok maps other" and "fits maps other gs"
  shows "\<exists>gs'. remove_gtid_set other maps gs = Some gs' \<and> gs_ok maps gs' \<and>
    sid_gtids maps gs' = sid_gtids maps gs - sid_gtids maps other"
  using remove_gtid_set_ok [OF assms] by metis

theorem remove_gtid_set_difference_witness:
  "gs_ok ex_maps ex_a \<and> gs_ok ex_maps ex_b \<and> fits ex_maps ex_b ex_a \<and>
   (\<exists>gs'. remove_gtid_set ex_b ex_maps ex_a = Some gs' \<and> gs_ok ex_maps gs' \<and>
     sid_gtids ex_maps gs' = sid_gtids ex_maps ex_a - sid_gtids ex_maps ex_b)"
  using remove_gtid_set_difference [of ex_maps ex_a ex_b] by simp



text \<open>
  C14. \<open>Gtid_set::is_subset\<close> decides the subset relation of the sets of (SID, GNO) pairs and never
  reads past the end of an interval list.
\<close>

theorem is_subset_correct:
  assumes "gs_ok maps gs" and "gs_ok maps super"
  shows "is_subset maps gs super = Some (sid_gtids maps gs \<subseteq> sid_gtids maps super)"
  using assms by (rule is_subset_ok)

theorem is_subset_correct_witness:
  "is_subset ex_maps ex_a ex_b = Some (sid_gtids ex_maps ex_a \<subseteq> sid_gtids ex_maps ex_b)"
  using is_subset_correct [of ex_maps ex_a ex_b] by simp

text \<open>
  C15. \<open>Gtid_set::is_intersection_nonempty\<close> decides whether the two sets have a GTID in common and
  never reads past the end of an interval list.
\<close>

theorem is_intersection_nonempty_correct:
  assumes "gs_ok maps gs" and "gs_ok maps other"
  shows "is_intersection_nonempty maps gs other =
    Some (sid_gtids maps gs \<inter> sid_gtids maps other \<noteq> {})"
  using assms by (rule is_intersection_nonempty_ok)

theorem is_intersection_nonempty_correct_witness:
  "is_intersection_nonempty ex_maps ex_a ex_b =
    Some (sid_gtids ex_maps ex_a \<inter> sid_gtids ex_maps ex_b \<noteq> {})"
  using is_intersection_nonempty_correct [of ex_maps ex_a ex_b] by simp

text \<open>
  C16. \<open>Gtid_set::equals\<close> decides equality of the sets of (SID, GNO) pairs when the sets use
  different SID maps, by walking both maps in the order of their SIDs, and when they share a map
  and their arrays have the same length.
\<close>

theorem equals_correct:
  assumes "gs_ok maps gs" and "gs_ok maps other"
    and "same_sid_map gs other \<Longrightarrow> get_max_sidno gs = get_max_sidno other"
  shows "gs_equals maps gs other \<longleftrightarrow> sid_gtids maps gs = sid_gtids maps other"
  using assms by (rule gs_equals_ok)

theorem equals_correct_witness:
  "\<not> same_sid_map ex_a ex_b \<and>
   (gs_equals ex_maps ex_a ex_b \<longleftrightarrow> sid_gtids ex_maps ex_a = sid_gtids ex_maps ex_b)"
proof -
  have "\<not> same_sid_map ex_a ex_b" by (simp add: same_sid_map_def ex_a_def ex_b_def)
  then show ?thesis using equals_correct [of ex_maps ex_a ex_b] by simp
qed

text \<open>
  C17. Over one SID map \<open>Gtid_set::equals\<close> is true exactly when the sets agree on every SIDNO except
  the last one of the longer array, which neither of its two loops over the extra SIDNOs reaches.
\<close>

theorem equals_same_map_characterised:
  assumes "gs_inv gs" and "gs_inv other" and "same_sid_map gs other"
  shows "gs_equals maps gs other \<longleftrightarrow>
    (\<forall>n g. n \<le> min (get_max_sidno gs) (get_max_sidno other) \<or>
           n < max (get_max_sidno gs) (get_max_sidno other) \<longrightarrow>
           ((n, g) \<in> gtids gs \<longleftrightarrow> (n, g) \<in> gtids other))"
  using equals_same_map_iff [OF assms(1,2)] assms(3)
  by (simp add: gs_equals_def compared_sidno_def agree_at_def) blast

theorem equals_same_map_characterised_witness:
  "gs_equals ex_maps (gtid_set_init (Some 0)) ex_a = False \<and>
   gs_equals ex_maps (gtid_set_init (Some 0))
     (ex_a\<lparr>m_intervals := [[], [\<lparr>iv_start = 5, iv_end = 6\<rparr>]], gs_pool := ex_pool 1\<rparr>)"
proof -
  let ?a = "ex_a\<lparr>m_intervals := [[], [\<lparr>iv_start = 5, iv_end = 6\<rparr>]], gs_pool := ex_pool 1\<rparr>"
  let ?e = "gtid_set_init (Some 0)"
  have inv: "gs_inv ex_a" "gs_inv ?a"
    by (simp_all add: gs_inv_def ex_a_def pool_inv_def ex_pool_def cells_used_def iv_ok_def GNO_END_def)
  have s: "same_sid_map ?e ex_a" "same_sid_map ?e ?a" by (simp_all add: same_sid_map_def ex_a_def)
  have m: "get_max_sidno ex_a = 2" "get_max_sidno ?a = 2" by (simp_all add: get_max_sidno_def ex_a_def)
  have "(1, 1) \<in> gtids ex_a" by (simp add: gtids_def m) (simp add: ex_a_def)
  moreover have "(n, g) \<notin> gtids ?a" if "n < 2" for n g
    using that by (auto simp: gtids_def get_max_sidno_def)
  ultimately show ?thesis
    using equals_same_map_characterised [OF gs_inv_init inv(1) s(1), of ex_maps]
      equals_same_map_characterised [OF gs_inv_init inv(2) s(2), of ex_maps] m
    by (auto simp: less_2_cases_iff)
qed

section \<open>Text\<close>





lemma printed_has_colon:
  assumes "gs_inv gs" and "sid_map_inv sm" and "get_max_sidno gs \<le> sm_max_sidno sm"
  shows "skip_ws (gtid_set_to_string default_string_format sm gs) = [] \<or>
    CHR '':'' \<in> set (gtid_set_to_string default_string_format sm gs)"
proof (cases "gs_is_empty gs")
  case True
  then show ?thesis by (simp add: gtid_set_to_string_def default_string_format_def)
next
  case False
  then obtain n g where g: "(n, g) \<in> gtids gs" using gs_is_empty_iff [OF assms(1)] by auto
  then have n: "contains_sidno gs n" "n \<in> set (sorted_sidnos sm)"
    using contains_sidno_iff [OF assms(1)] gtids_range [OF g] assms(2,3) by (auto simp: sid_map_inv_def)
  have body: "CHR '':'' \<in> set (print_intervals default_string_format True ivs)" if "ivs \<noteq> []" for ivs
    using that by (cases ivs) (simp_all add: default_string_format_def)
  have "contains_sidno gs n \<Longrightarrow> n \<in> set ns \<Longrightarrow> CHR '':'' \<in> set (print_sidnos default_string_format sm gs f ns)" for f ns
    using body by (induction ns arbitrary: f) (auto simp: contains_sidno_def split: if_splits)
  from this [OF n] False show ?thesis by (simp add: gtid_set_to_string_def default_string_format_def)
qed

text \<open>
  C20. Reading the text that \<open>Gtid_set::to_string\<close> prints in the default format into a new set with
  a new SID map gives the set that was printed.
\<close>

theorem text_round_trip:
  assumes "gs_inv gs" and "sid_map_inv sm" and "get_max_sidno gs \<le> sm_max_sidno sm"
  shows "\<exists>sm' gs'. add_gtid_text gs_env_ok None (gtid_set_to_string default_string_format sm gs)
      sid_map_init (gtid_set_init (Some a)) = Some (RETURN_STATUS_OK, None, sm', gs') \<and>
    sidmap.by_sid sm' (gtids gs') = sidmap.by_sid sm (gtids gs)"
proof -
  let ?t = "gtid_set_to_string default_string_format sm gs" and ?new = "gtid_set_init (Some a)"
  have "chunks (gs_pool ?new) \<noteq> [] \<or> skip_ws ?t = [] \<or> CHR '':'' \<in> set ?t"
    using printed_has_colon [OF assms] by blast
  from add_gtid_text_correct [OF gs_inv_init sid_map_inv_init _ this] text_gtids_print [OF assms]
  show ?thesis by (auto simp: add_text_post_def add_translated_post_def sidmap.by_sid_def)
qed

theorem text_round_trip_witness:
  "\<exists>sm' gs'. add_gtid_text gs_env_ok None (gtid_set_to_string default_string_format ex_map ex_a)
      sid_map_init (gtid_set_init (Some 7)) = Some (RETURN_STATUS_OK, None, sm', gs') \<and>
    sidmap.by_sid sm' (gtids gs') = sidmap.by_sid ex_map (gtids ex_a)"
proof -
  have "gs_inv ex_a" "get_max_sidno ex_a \<le> sm_max_sidno ex_map"
    using ex_ok(1) unfolding gs_ok_def by (simp_all add: ex_a_def ex_maps_def map_of_set_def)
  then show ?thesis using text_round_trip [of ex_a ex_map 7] by simp
qed

text \<open>
  C21. \<open>Gtid_set::get_string_length\<close>, cached or computed, is the length of what \<open>to_string\<close> writes in
  that format, for every format whose length fields are right; so the buffer that the allocating
  \<open>to_string\<close> takes for it is exactly filled.
\<close>

theorem string_length_correct:
  assumes "gs_inv gs" and "sid_map_inv sm" and "get_max_sidno gs \<le> sm_max_sidno sm"
    and "cache_inv formats gs" and "sf_ok (formats a)"
  shows "fst (get_string_length formats a gs) = length (gtid_set_to_string (formats a) sm gs) \<and>
    cache_inv formats (snd (get_string_length formats a gs))"
  using get_string_length_correct(1,2) [OF assms(4)] length_gtid_set_to_string [OF assms(5,1-3)] by simp

theorem string_length_correct_witness:
  "fst (get_string_length (\<lambda>_. sql_string_format) 3 ex_a) = length (gtid_set_to_string sql_string_format ex_map ex_a)"
proof -
  have "gs_inv ex_a" "get_max_sidno ex_a \<le> sm_max_sidno ex_map"
    using ex_ok(1) unfolding gs_ok_def by (simp_all add: ex_a_def ex_maps_def map_of_set_def)
  moreover have "cache_inv (\<lambda>_. sql_string_format) ex_a" by (simp add: cache_inv_def ex_a_def ex_pool_def)
  ultimately show ?thesis
    using string_length_correct [of ex_a ex_map "\<lambda>_. sql_string_format" 3] static_formats_ok(2) by simp
qed

text \<open>
  C22. The cached string length stays valid: adding or removing a GTID or the intervals of a list,
  clearing the set and growing its array all leave a cache that is empty or right.
\<close>

theorem cache_stays_valid:
  assumes "cache_inv formats gs"
  shows "(gs_add_gtid n g gs = Some gs' \<longrightarrow> cache_inv formats gs') \<and>
    (gs_remove_gtid n g gs = Some gs' \<longrightarrow> cache_inv formats gs') \<and>
    (add_gno_intervals n others gs = Some gs' \<longrightarrow> cache_inv formats gs') \<and>
    (remove_gno_intervals n others gs = Some gs' \<longrightarrow> cache_inv formats gs') \<and>
    cache_inv formats (gs_clear gs) \<and>
    (gs_ensure_sidno (\<lambda>_. True) id n gs = (status, gs') \<longrightarrow> cache_inv formats gs')"
proof -
  have "cache_inv formats gs'" if "gs_ensure_sidno (\<lambda>_. True) id n gs = (status, gs')"
    using that assms cache_inv_grow [OF assms]
    by (auto simp: gs_ensure_sidno_def push_nulls_ok Let_def split: if_splits)
  with cache_inv_changes [OF assms] show ?thesis by blast
qed

theorem cache_stays_valid_witness:
  "\<exists>gs'. gs_add_gtid 1 7 ex_a = Some gs' \<and> cache_inv (\<lambda>_. sql_string_format) gs'"
proof -
  have "cache_inv (\<lambda>_. sql_string_format) ex_a" by (simp add: cache_inv_def ex_a_def ex_pool_def)
  moreover obtain gs' where "gs_add_gtid 1 7 ex_a = Some gs'"
    by (simp add: gs_add_gtid_def ex_a_def get_max_sidno_def)
  ultimately show ?thesis
    using cache_stays_valid [of "\<lambda>_. sql_string_format" ex_a 1 7 gs' "[]" RETURN_STATUS_OK] by blast
qed

section \<open>Encoding\<close>

text \<open>
  C23. Decoding with \<open>Gtid_set::add_gtid_encoding\<close> what \<open>Gtid_set::encode\<close> wrote succeeds, uses the
  whole buffer, and adds exactly the GTIDs of the encoded set to the set that reads it. The
  encoded set has fewer than \<open>2 ^ 32\<close> SIDs and intervals per SID, the range of the counters.
\<close>

theorem encoding_round_trip:
  assumes "gs_inv gs0" and "sid_map_inv sm0" and "get_max_sidno gs0 \<le> sm_max_sidno sm0"
    and "small_set sm0 gs0"
    and "gs_inv gs" and "sid_map_inv sm" and "get_max_sidno gs \<le> sm_max_sidno sm"
  shows "\<exists>sm' gs'. add_gtid_encoding gs_env_ok (gs_encode sm0 gs0) False sm gs =
      Some (RETURN_STATUS_OK, None, sm', gs') \<and>
    gs_inv gs' \<and> sid_map_inv sm' \<and>
    sidmap.by_sid sm' (gtids gs') = sidmap.by_sid sm (gtids gs) \<union> sidmap.by_sid sm0 (gtids gs0)"
  using add_gtid_encoding_encoded [OF assms] unfolding add_translated_post_def by blast

lemma ex_a_plain: "gs_inv ex_a" "get_max_sidno ex_a \<le> sm_max_sidno ex_map"
  using ex_ok(1) unfolding gs_ok_def by (simp_all add: ex_a_def ex_maps_def map_of_set_def)

lemma ex_b_plain: "gs_inv ex_b" "get_max_sidno ex_b \<le> sm_max_sidno ex_map2"
  using ex_ok(2) unfolding gs_ok_def by (simp_all add: ex_b_def ex_maps_def map_of_set_def)

theorem encoding_round_trip_witness:
  "\<exists>sm' gs'. add_gtid_encoding gs_env_ok (gs_encode ex_map ex_a) False ex_map2 ex_b =
      Some (RETURN_STATUS_OK, None, sm', gs') \<and>
    gs_inv gs' \<and> sid_map_inv sm' \<and>
    sidmap.by_sid sm' (gtids gs') = sidmap.by_sid ex_map2 (gtids ex_b) \<union> sidmap.by_sid ex_map (gtids ex_a)"
proof -
  have "small_set ex_map ex_a" by (simp add: small_set_def) (simp add: ex_a_def)
  then show ?thesis
    using encoding_round_trip [of ex_a ex_map ex_b ex_map2] ex_a_plain ex_b_plain by simp
qed

text \<open>
  \<open>Gtid_set::get_encoded_length\<close> is the number of bytes that \<open>Gtid_set::encode\<close> writes.
\<close>

theorem encoded_length_correct:
  assumes "sid_map_inv sm" and "get_max_sidno gs \<le> sm_max_sidno sm"
  shows "length (gs_encode sm gs) = get_encoded_length gs"
  using assms by (rule encode_length)

theorem encoded_length_correct_witness:
  "length (gs_encode ex_map ex_a) = get_encoded_length ex_a"
  using encoded_length_correct [of ex_map ex_a] ex_a_plain by simp



section \<open>Single GTIDs, iteration, memory\<close>

text \<open>
  \<open>_add_gtid\<close> and \<open>_remove_gtid\<close> add and remove exactly the given GTID and keep the invariant:
  lists stay sorted, disjoint and merged, and every interval cell is free or in one list;
  \<open>contains_gtid\<close> decides membership.
\<close>

theorem single_gtid_operations:
  assumes "gs_inv gs" and "1 \<le> n" and "n \<le> get_max_sidno gs" and "1 \<le> g" and "g < GNO_END"
  shows "(\<exists>gs'. gs_add_gtid n g gs = Some gs' \<and> gs_inv gs' \<and> gtids gs' = insert (n, g) (gtids gs)) \<and>
    (\<exists>gs'. gs_remove_gtid n g gs = Some gs' \<and> gs_inv gs' \<and> gtids gs' = gtids gs - {(n, g)}) \<and>
    (contains_gtid gs n g \<longleftrightarrow> (n, g) \<in> gtids gs)"
proof -
  let ?iv = "\<lparr>iv_start = g, iv_end = g + 1\<rparr>"
  have iv: "wf_ivs [?iv]" "gnos [?iv] = {g}" using assms by (auto simp: iv_ok_def)
  obtain a where "gs_add_gtid n g gs = Some a" "gs_inv a" "gtids a = gtids gs \<union> {n} \<times> gnos [?iv]"
    using add_gno_intervals_correct [OF assms(1-3) iv(1)] unfolding single_as_list(1) by metis
  moreover obtain r where "gs_remove_gtid n g gs = Some r" "gs_inv r" "gtids r = gtids gs - {n} \<times> gnos [?iv]"
    using remove_gno_intervals_correct [OF assms(1-3) iv(1)] unfolding single_as_list(2) [OF assms(3)] by metis
  ultimately show ?thesis using contains_gtid_iff [OF assms(1,2)] unfolding iv(2) by auto
qed

theorem single_gtid_operations_witness:
  "\<exists>gs'. gs_add_gtid 1 4 ex_a = Some gs' \<and> gs_inv gs' \<and> gtids gs' = insert (1, 4) (gtids ex_a)"
proof -
  have "get_max_sidno ex_a = 2" by (simp add: get_max_sidno_def ex_a_def)
  then show ?thesis using single_gtid_operations [of ex_a 1 4] ex_a_plain by (simp add: GNO_END_def)
qed

text \<open>
  C25. The loop over a \<open>Gtid_iterator\<close> ends and visits every GTID of the set exactly once, in
  increasing order of SIDNO and then GNO.
\<close>

theorem iterator_enumerates:
  assumes "gs_inv gs"
  shows "\<exists>fuel xs. git_walk fuel gs (git_init gs) = Some xs \<and> set xs = gtids gs \<and>
    length xs = card (gtids gs) \<and> sorted_wrt gtid_less xs"
  using git_walk_all [OF assms] by metis

theorem iterator_enumerates_witness:
  "\<exists>fuel xs. git_walk fuel ex_a (git_init ex_a) = Some xs \<and> set xs = gtids ex_a \<and>
    length xs = card (gtids ex_a) \<and> sorted_wrt gtid_less xs"
  using iterator_enumerates [OF ex_a_plain(1)] by blast

text \<open>
  \<open>Gtid_set::clear\<close> empties the set, keeps its array, and returns every interval cell to the
  free list; afterwards \<open>is_empty\<close> is true.
\<close>

theorem clear_correct:
  assumes "gs_inv gs"
  shows "gs_inv (gs_clear gs) \<and> gtids (gs_clear gs) = {} \<and> gs_is_empty (gs_clear gs) \<and>
    get_max_sidno (gs_clear gs) = get_max_sidno gs \<and>
    free_intervals (gs_pool (gs_clear gs)) = sum_list (chunks (gs_pool gs)) + lent (gs_pool gs)"
proof -
  have "free_intervals (gs_pool (gs_clear gs)) =
      free_intervals (gs_pool gs) + sum_list (map length (m_intervals gs))"
    by (auto simp: gs_clear_def invalidate_cache_def get_max_sidno_def Let_def)
  moreover have "int (free_intervals (gs_pool gs)) + int (sum_list (map length (m_intervals gs))) =
      int (sum_list (chunks (gs_pool gs))) + int (lent (gs_pool gs))"
    using assms by (simp add: gs_inv_def pool_inv_def cells_used_def)
  ultimately show ?thesis using gs_clear_correct [OF assms] gs_is_empty_iff by auto
qed

theorem clear_correct_witness:
  "gtids (gs_clear ex_a) = {} \<and> free_intervals (gs_pool (gs_clear ex_a)) = 8"
  using clear_correct [OF ex_a_plain(1)] by (simp add: ex_a_def ex_pool_def)

text \<open>
  \<open>Gtid_set::ensure_sidno\<close> without a change by another thread makes the array long enough,
  never shrinks it, and leaves the set and its invariant as they were.
\<close>

theorem ensure_sidno_correct:
  assumes "gs_inv gs"
  shows "\<exists>gs'. gs_ensure_sidno (\<lambda>_. True) id n gs = (RETURN_STATUS_OK, gs') \<and> gs_inv gs' \<and>
    gtids gs' = gtids gs \<and> get_max_sidno gs' = max n (get_max_sidno gs)"
  using gs_ensure_sidno_ok [OF assms] by metis

theorem ensure_sidno_correct_witness:
  "\<exists>gs'. gs_ensure_sidno (\<lambda>_. True) id 9 ex_a = (RETURN_STATUS_OK, gs') \<and> gtids gs' = gtids ex_a"
  using ensure_sidno_correct [OF ex_a_plain(1), of 9] by blast

section \<open>SID maps and identifiers\<close>

text \<open>
  C26. \<open>Sid_map::add_sid\<close> returns the number of the given SID, giving it the next free one if it
  is new, also when other threads add SIDs while the read lock is exchanged for the write lock;
  the array, the hash and the order of the SIDs stay consistent, and no earlier number changes
  its SID.
\<close>

theorem add_sid_correct:
  assumes "sid_map_inv sm" and "length sid = BYTE_LENGTH"
    and "sid_map_inv (others sm)" and "sm_extends sm (others sm)"
  shows "\<exists>n sm'. add_sid (env_ok\<lparr>upgrade := others\<rparr>) sid sm = (Some n, sm') \<and> sid_map_inv sm' \<and>
    sm_extends sm sm' \<and> sid_to_sidno sm' sid = n \<and> sidno_to_sid sm' n = sid \<and>
    (sid_to_sidno sm sid \<noteq> 0 \<longrightarrow> sm' = sm \<and> n = sid_to_sidno sm sid) \<and>
    (sid_to_sidno sm sid = 0 \<longrightarrow> sm_extends (others sm) sm' \<and> sm_max_sidno sm' \<le> sm_max_sidno (others sm) + 1)"
  using add_sid_upgrade [where others = others, OF assms] by metis

theorem add_sid_correct_witness:
  "\<exists>n sm'. add_sid (env_ok\<lparr>upgrade := \<lambda>_. ex_map\<rparr>) (ex_sid 3) ex_map = (Some n, sm') \<and> sid_map_inv sm' \<and>
    sidno_to_sid sm' n = ex_sid 3"
  using add_sid_correct [of ex_map "ex_sid 3" "\<lambda>_. ex_map"] by (auto simp: BYTE_LENGTH_def)



text \<open>
  \<open>Sid_map::copy\<close> into an empty map gives every SID the number it has in the source.
\<close>

theorem sid_map_copy_correct:
  assumes "sid_map_inv sm"
  shows "\<exists>dest. sid_map_copy env_ok sm sid_map_init = (RETURN_STATUS_OK, dest) \<and> sid_map_inv dest \<and>
    sidno_to_sids dest = sidno_to_sids sm \<and> sid_hash dest = sid_hash sm"
proof -
  have h: "distinct (sidno_to_sids sid_map_init @ sidno_to_sids sm)"
      "\<forall>sid \<in> set (sidno_to_sids sm). length sid = BYTE_LENGTH" "1 = Suc (sm_max_sidno sid_map_init)"
    using assms by (simp_all add: sid_map_inv_def sid_map_init_def sm_max_sidno_def)
  obtain dest where "copy_from_sidno env_ok (sidno_to_sids sm) 1 sid_map_init = (RETURN_STATUS_OK, dest)"
      and inv: "sid_map_inv dest" and "sidno_to_sids dest = sidno_to_sids sid_map_init @ sidno_to_sids sm"
    using copy_from_sidno_ok [OF sid_map_inv_init h] by blast
  then have d: "sid_map_copy env_ok sm sid_map_init = (RETURN_STATUS_OK, dest)"
      "sidno_to_sids dest = sidno_to_sids sm"
    by (simp_all add: sid_map_copy_def sid_map_init_def)
  have "sid_hash dest sid = Some n \<longleftrightarrow> sid_hash sm sid = Some n" for sid n
    unfolding sid_map_inv_hash [OF inv] sid_map_inv_hash [OF assms] sm_max_sidno_def sidno_to_sid_def d(2) ..
  then have "sid_hash dest = sid_hash sm" by (intro ext) (metis option.exhaust)
  with d inv show ?thesis by blast
qed

theorem sid_map_copy_correct_witness:
  "\<exists>dest. sid_map_copy env_ok ex_map sid_map_init = (RETURN_STATUS_OK, dest) \<and> sid_hash dest = sid_hash ex_map"
  using sid_map_copy_correct [OF ex_map_inv(1)] by blast



end
