(* ===== verification/Hash_Table.thy ===== *)
theory Hash_Table
  imports Prelude "HOL-Library.Monad_Syntax"
begin

text \<open>
  The hash table of \<^verbatim>\<open>mysys/hash.c\<close>: linear hashing in one dynamic array, with the chains of
  records of one position linked inside the array. A record is identified with its value; the key
  function, the hash function and the comparison of a table are the record \<open>hash_ops\<close>. \<open>NO_RECORD\<close>
  is \<open>None\<close>, so a table has fewer than \<open>2 ^ 32 - 1\<close> records. A result \<open>None\<close> of a function says that
  the code would read or write outside the array, or not return.
\<close>

unbundle bit_operations_syntax

section \<open>Definitions\<close>

record 'r hash_link =
  hl_next :: "nat option"
  hl_data :: 'r

record ('r, 'k) hash_ops =
  get_key :: "'r \<Rightarrow> 'k"
  hash_function :: "'k \<Rightarrow> nat"
  key_differs :: "'k \<Rightarrow> 'k \<Rightarrow> bool"
  hash_unique :: bool

record 'r my_hash =
  records :: nat
  blength :: nat
  hash_array :: "'r hash_link list"

definition my_hash_init :: "'r my_hash" where
  "my_hash_init = \<lparr>records = 0, blength = 1, hash_array = []\<rparr>"

definition my_hash_free :: "'r my_hash \<Rightarrow> 'r my_hash" where
  "my_hash_free h = h\<lparr>records := 0, hash_array := [], blength := 0\<rparr>"

definition my_hash_reset :: "'r my_hash \<Rightarrow> 'r my_hash" where
  "my_hash_reset h = h\<lparr>records := 0, hash_array := [], blength := 1\<rparr>"

text \<open>\<open>x - 1\<close> on \<open>size_t\<close>.\<close>

definition size_dec :: "nat \<Rightarrow> nat" where
  "size_dec x = (if x = 0 then 2 ^ 64 - 1 else x - 1)"

definition my_hash_mask :: "nat \<Rightarrow> nat \<Rightarrow> nat \<Rightarrow> nat" where
  "my_hash_mask hashnr buffmax maxlength =
     (if hashnr AND size_dec buffmax < maxlength then hashnr AND size_dec buffmax
      else hashnr AND size_dec (buffmax div 2))"

definition rec_hashnr :: "('r, 'k) hash_ops \<Rightarrow> 'r \<Rightarrow> nat" where
  "rec_hashnr ops r = hash_function ops (get_key ops r)"

definition my_hash_rec_mask :: "('r, 'k) hash_ops \<Rightarrow> 'r hash_link \<Rightarrow> nat \<Rightarrow> nat \<Rightarrow> nat" where
  "my_hash_rec_mask ops pos buffmax maxlength = my_hash_mask (rec_hashnr ops (hl_data pos)) buffmax maxlength"

text \<open>\<open>data + i\<close>, dereferenced.\<close>

definition link_at :: "'r hash_link list \<Rightarrow> nat \<Rightarrow> 'r hash_link option" where
  "link_at d i = (if i < length d then Some (d ! i) else None)"

definition hashcmp :: "('r, 'k) hash_ops \<Rightarrow> 'r hash_link \<Rightarrow> 'k \<Rightarrow> bool" where
  "hashcmp ops pos key = key_differs ops (get_key ops (hl_data pos)) key"

subsection \<open>Searching\<close>

text \<open>The results are the new \<open>HASH_SEARCH_STATE\<close> and the record, or \<open>None\<close> for a null pointer.\<close>

partial_function (option) hash_first_loop ::
  "('r, 'k) hash_ops \<Rightarrow> 'r my_hash \<Rightarrow> 'k \<Rightarrow> bool \<Rightarrow> nat \<Rightarrow> (nat option \<times> 'r option) option" where
  [code]: "hash_first_loop ops h key flag idx = do {
     pos \<leftarrow> link_at (hash_array h) idx;
     if \<not> hashcmp ops pos key then Some (Some idx, Some (hl_data pos))
     else if flag \<and> my_hash_rec_mask ops pos (blength h) (records h) \<noteq> idx then Some (None, None)
     else (case hl_next pos of
             None \<Rightarrow> Some (None, None)
           | Some idx' \<Rightarrow> hash_first_loop ops h key False idx') }"

definition my_hash_first_from_hash_value ::
  "('r, 'k) hash_ops \<Rightarrow> 'r my_hash \<Rightarrow> nat \<Rightarrow> 'k \<Rightarrow> (nat option \<times> 'r option) option" where
  "my_hash_first_from_hash_value ops h hash_value key =
     (if records h \<noteq> 0
      then hash_first_loop ops h key True (my_hash_mask hash_value (blength h) (records h))
      else Some (None, None))"

definition my_hash_first ::
  "('r, 'k) hash_ops \<Rightarrow> 'r my_hash \<Rightarrow> 'k \<Rightarrow> (nat option \<times> 'r option) option" where
  "my_hash_first ops h key =
     (if blength h \<noteq> 0 then my_hash_first_from_hash_value ops h (hash_function ops key) key
      else Some (None, None))"

definition my_hash_search :: "('r, 'k) hash_ops \<Rightarrow> 'r my_hash \<Rightarrow> 'k \<Rightarrow> 'r option option" where
  "my_hash_search ops h key = map_option snd (my_hash_first ops h key)"

definition my_hash_search_using_hash_value ::
  "('r, 'k) hash_ops \<Rightarrow> 'r my_hash \<Rightarrow> nat \<Rightarrow> 'k \<Rightarrow> 'r option option" where
  "my_hash_search_using_hash_value ops h hash_value key =
     map_option snd (my_hash_first_from_hash_value ops h hash_value key)"

partial_function (option) hash_next_loop ::
  "('r, 'k) hash_ops \<Rightarrow> 'r my_hash \<Rightarrow> 'k \<Rightarrow> nat option \<Rightarrow> (nat option \<times> 'r option) option" where
  [code]: "hash_next_loop ops h key nxt =
     (case nxt of
        None \<Rightarrow> Some (None, None)
      | Some idx \<Rightarrow> do {
          pos \<leftarrow> link_at (hash_array h) idx;
          if \<not> hashcmp ops pos key then Some (Some idx, Some (hl_data pos))
          else hash_next_loop ops h key (hl_next pos) })"

definition my_hash_next ::
  "('r, 'k) hash_ops \<Rightarrow> 'r my_hash \<Rightarrow> 'k \<Rightarrow> nat option \<Rightarrow> (nat option \<times> 'r option) option" where
  "my_hash_next ops h key current_record =
     (case current_record of
        None \<Rightarrow> Some (None, None)
      | Some cur \<Rightarrow> do {
          pos \<leftarrow> link_at (hash_array h) cur;
          hash_next_loop ops h key (hl_next pos) })"

definition my_hash_element :: "'r my_hash \<Rightarrow> nat \<Rightarrow> 'r option" where
  "my_hash_element h idx = (if idx < records h then map_option hl_data (link_at (hash_array h) idx) else None)"

definition my_hash_replace :: "'r my_hash \<Rightarrow> nat option \<Rightarrow> 'r \<Rightarrow> 'r my_hash option" where
  "my_hash_replace h current_record new_row =
     (case current_record of
        None \<Rightarrow> Some h
      | Some cur \<Rightarrow> do {
          pos \<leftarrow> link_at (hash_array h) cur;
          Some (h\<lparr>hash_array := (hash_array h)[cur := pos\<lparr>hl_data := new_row\<rparr>]\<rparr>) })"

subsection \<open>Inserting\<close>

partial_function (option) movelink ::
  "'r hash_link list \<Rightarrow> nat option \<Rightarrow> nat \<Rightarrow> nat option \<Rightarrow> 'r hash_link list option" where
  [code]: "movelink d link next_link newlink = do {
     old_link \<leftarrow> link_at d next_link;
     if hl_next old_link = link then Some (d[next_link := old_link\<lparr>hl_next := newlink\<rparr>])
     else do {
       n \<leftarrow> hl_next old_link;
       movelink d link n newlink } }"

text \<open>
  The local variables of the loop that splits the chain of position \<open>records - halfbuff\<close>: the four
  bits of \<open>flag\<close>, the last cells of the chain that stays and of the chain that moves, with the
  records that belong there, and the free cell.
\<close>

record 'r split_state =
  sp_array :: "'r hash_link list"
  low_find :: bool
  low_used :: bool
  high_find :: bool
  high_used :: bool
  gpos :: "nat option"
  ptr_to_rec :: "'r option"
  gpos2 :: "nat option"
  ptr_to_rec2 :: "'r option"
  sp_empty :: nat

definition put_link :: "nat option \<Rightarrow> 'r option \<Rightarrow> nat option \<Rightarrow> 'r hash_link list \<Rightarrow> 'r hash_link list option" where
  "put_link g r nxt d = do {
     i \<leftarrow> g;
     x \<leftarrow> r;
     if i < length d then Some (d[i := \<lparr>hl_next = nxt, hl_data = x\<rparr>]) else None }"

definition low_step :: "nat \<Rightarrow> 'r \<Rightarrow> 'r split_state \<Rightarrow> 'r split_state option" where
  "low_step idx r st =
     (if \<not> low_find st then
        if high_find st then
          Some (st\<lparr>low_find := True, low_used := False, high_find := True, high_used := False,
                   gpos := Some (sp_empty st), ptr_to_rec := Some r, sp_empty := idx\<rparr>)
        else
          Some (st\<lparr>low_find := True, low_used := True, high_find := False, high_used := False,
                   gpos := Some idx, ptr_to_rec := Some r\<rparr>)
      else do {
        st1 \<leftarrow> (if \<not> low_used st then do {
                  d \<leftarrow> put_link (gpos st) (ptr_to_rec st) (Some idx) (sp_array st);
                  Some (st\<lparr>sp_array := d, low_find := True, low_used := True, high_used := False\<rparr>) }
                else Some st);
        Some (st1\<lparr>gpos := Some idx, ptr_to_rec := Some r\<rparr>) })"

definition high_step :: "nat \<Rightarrow> 'r \<Rightarrow> 'r split_state \<Rightarrow> 'r split_state option" where
  "high_step idx r st =
     (if \<not> high_find st then
        Some (st\<lparr>low_used := False, high_find := True, high_used := False,
                 gpos2 := Some (sp_empty st), sp_empty := idx, ptr_to_rec2 := Some r\<rparr>)
      else do {
        st1 \<leftarrow> (if \<not> high_used st then do {
                  d \<leftarrow> put_link (gpos2 st) (ptr_to_rec2 st) (Some idx) (sp_array st);
                  Some (st\<lparr>sp_array := d, low_used := False, high_find := True, high_used := True\<rparr>) }
                else Some st);
        Some (st1\<lparr>gpos2 := Some idx, ptr_to_rec2 := Some r\<rparr>) })"

partial_function (option) split_loop ::
  "('r, 'k) hash_ops \<Rightarrow> nat \<Rightarrow> nat \<Rightarrow> nat \<Rightarrow> 'r split_state \<Rightarrow> nat \<Rightarrow> 'r split_state option" where
  [code]: "split_loop ops blen recs first_index st idx = do {
     pos \<leftarrow> link_at (sp_array st) idx;
     let hash_nr = rec_hashnr ops (hl_data pos) in
     if \<not> low_find st \<and> \<not> low_used st \<and> \<not> high_find st \<and> \<not> high_used st \<and>
        my_hash_mask hash_nr blen recs \<noteq> first_index
     then Some st
     else do {
       st1 \<leftarrow> (if hash_nr AND (blen div 2) = 0 then low_step idx (hl_data pos) st
              else high_step idx (hl_data pos) st);
       pos1 \<leftarrow> link_at (sp_array st1) idx;
       (case hl_next pos1 of
          None \<Rightarrow> Some st1
        | Some idx' \<Rightarrow> split_loop ops blen recs first_index st1 idx') } }"

text \<open>The two tests after the loop.\<close>

definition split_end :: "'r split_state \<Rightarrow> 'r split_state option" where
  "split_end st = do {
     d1 \<leftarrow> (if low_find st \<and> \<not> low_used st then put_link (gpos st) (ptr_to_rec st) None (sp_array st)
            else Some (sp_array st));
     d2 \<leftarrow> (if high_find st \<and> \<not> high_used st then put_link (gpos2 st) (ptr_to_rec2 st) None d1
            else Some d1);
     Some (st\<lparr>sp_array := d2\<rparr>) }"

definition split_init :: "'r hash_link list \<Rightarrow> nat \<Rightarrow> 'r split_state" where
  "split_init d emp =
     \<lparr>sp_array = d, low_find = False, low_used = False, high_find = False, high_used = False,
      gpos = None, ptr_to_rec = None, gpos2 = None, ptr_to_rec2 = None, sp_empty = emp\<rparr>"

text \<open>
  The part of \<open>my_hash_insert\<close> after the split: the new record goes to its position, and what was
  there to the free cell.
\<close>

definition insert_at ::
  "('r, 'k) hash_ops \<Rightarrow> nat \<Rightarrow> nat \<Rightarrow> 'r \<Rightarrow> nat \<Rightarrow> 'r hash_link list \<Rightarrow> 'r hash_link list option" where
  "insert_at ops blen recs record emp d = do {
     let idx = my_hash_mask (rec_hashnr ops record) blen (recs + 1);
     pos \<leftarrow> link_at d idx;
     if idx = emp then Some (d[idx := \<lparr>hl_next = None, hl_data = record\<rparr>])
     else do {
       let d1 = d[emp := pos];
       let g = my_hash_rec_mask ops pos blen (recs + 1);
       if idx = g then Some (d1[idx := \<lparr>hl_next = Some emp, hl_data = record\<rparr>])
       else movelink (d1[idx := \<lparr>hl_next = None, hl_data = record\<rparr>]) (Some idx) g (Some emp) } }"

text \<open>
  \<open>my_hash_insert\<close>. Arguments say whether \<open>alloc_dynamic\<close> succeeds and what the new cell holds. The
  result is true for an error.
\<close>

definition my_hash_insert ::
  "('r, 'k) hash_ops \<Rightarrow> bool \<Rightarrow> 'r hash_link \<Rightarrow> 'r \<Rightarrow> 'r my_hash \<Rightarrow> (bool \<times> 'r my_hash) option" where
  "my_hash_insert ops alloc_ok fresh record h = do {
     found \<leftarrow> (if hash_unique ops then my_hash_search ops h (get_key ops record) else Some None);
     if found \<noteq> None then Some (True, h)
     else if \<not> alloc_ok then Some (True, h)
     else do {
       let n = length (hash_array h);
       let st = split_init (hash_array h @ [fresh]) n;
       let halfbuff = blength h div 2;
       let first_index = records h - halfbuff;
       st1 \<leftarrow> (if first_index \<noteq> records h
               then do { st1 \<leftarrow> split_loop ops (blength h) (records h) first_index st first_index; split_end st1 }
               else Some st);
       d \<leftarrow> insert_at ops (blength h) (records h) record (sp_empty st1) (sp_array st1);
       let recs = records h + 1;
       Some (False, h\<lparr>hash_array := d, records := recs,
                      blength := (if recs = blength h then blength h + blength h else blength h)\<rparr>) } }"

subsection \<open>Deleting\<close>

text \<open>The search for the record, with the previous cell of the chain.\<close>

partial_function (option) find_record ::
  "'r hash_link list \<Rightarrow> 'r \<Rightarrow> nat option \<Rightarrow> nat \<Rightarrow> (nat option \<times> nat) option option" where
  [code]: "find_record d record prev idx = do {
     pos \<leftarrow> link_at d idx;
     if hl_data pos = record then Some (Some (prev, idx))
     else (case hl_next pos of
             None \<Rightarrow> Some None
           | Some idx' \<Rightarrow> find_record d record (Some idx) idx') }"

text \<open>Unlinking the cell \<open>idx\<close>; the result is the array and the cell that is free afterwards.\<close>

definition unlink_record ::
  "'r hash_link list \<Rightarrow> nat option \<Rightarrow> nat \<Rightarrow> ('r hash_link list \<times> nat) option" where
  "unlink_record d prev idx = do {
     pos \<leftarrow> link_at d idx;
     (case prev of
        Some g \<Rightarrow> do {
          gl \<leftarrow> link_at d g;
          Some (d[g := gl\<lparr>hl_next := hl_next pos\<rparr>], idx) }
      | None \<Rightarrow>
          (case hl_next pos of
             None \<Rightarrow> Some (d, idx)
           | Some e \<Rightarrow> do {
               el \<leftarrow> link_at d e;
               Some (d[idx := el], e) })) }"

text \<open>
  Moving the last cell into the free one: \<open>blen0\<close> is \<open>blength\<close> before the call, \<open>blen\<close> and \<open>recs\<close>
  are \<open>blength\<close> and \<open>records\<close> after they are decreased.
\<close>

definition move_last ::
  "('r, 'k) hash_ops \<Rightarrow> nat \<Rightarrow> nat \<Rightarrow> nat \<Rightarrow> nat \<Rightarrow> 'r hash_link list \<Rightarrow> 'r hash_link list option" where
  "move_last ops blen0 blen recs emp d =
     (if emp = recs then Some d
      else do {
        lastpos \<leftarrow> link_at d recs;
        let lastpos_hashnr = rec_hashnr ops (hl_data lastpos);
        let pos = my_hash_mask lastpos_hashnr blen recs;
        if pos = emp then Some (d[emp := lastpos])
        else do {
          pl \<leftarrow> link_at d pos;
          let pos_hashnr = rec_hashnr ops (hl_data pl);
          let pos3 = my_hash_mask pos_hashnr blen recs;
          if pos \<noteq> pos3
          then movelink (d[emp := pl, pos := lastpos]) (Some pos) pos3 (Some emp)
          else do {
            let pos2 = my_hash_mask lastpos_hashnr blen0 (recs + 1);
            let same = (pos2 = my_hash_mask pos_hashnr blen0 (recs + 1));
            if same \<and> pos2 \<noteq> recs
            then movelink (d[emp := lastpos]) (Some recs) pos (Some emp)
            else do {
              let d1 = d[emp := lastpos];
              pl1 \<leftarrow> link_at d1 pos;
              d2 \<leftarrow> movelink d1 (if same then Some pos else None) emp (hl_next pl1);
              pl2 \<leftarrow> link_at d2 pos;
              Some (d2[pos := pl2\<lparr>hl_next := Some emp\<rparr>]) } } } })"

definition my_hash_delete :: "('r, 'k) hash_ops \<Rightarrow> 'r \<Rightarrow> 'r my_hash \<Rightarrow> (bool \<times> 'r my_hash) option" where
  "my_hash_delete ops record h =
     (if records h = 0 then Some (True, h)
      else do {
        let blen0 = blength h;
        found \<leftarrow> find_record (hash_array h) record None (my_hash_mask (rec_hashnr ops record) blen0 (records h));
        (case found of
           None \<Rightarrow> Some (True, h)
         | Some (prev, idx) \<Rightarrow> do {
             let recs = records h - 1;
             let blen = (if recs < blen0 div 2 then blen0 div 2 else blen0);
             (d, emp) \<leftarrow> unlink_record (hash_array h) prev idx;
             d1 \<leftarrow> move_last ops blen0 blen recs emp d;
             Some (False, h\<lparr>records := recs, blength := blen, hash_array := butlast d1\<rparr>) }) })"

subsection \<open>Updating\<close>

text \<open>
  \<open>my_hash_update\<close> moves a record whose key has changed: \<open>ops\<close> reads the new key. The loop over the
  records with the new key looks for another record than this one.
\<close>

partial_function (option) update_conflict ::
  "('r, 'k) hash_ops \<Rightarrow> 'r my_hash \<Rightarrow> 'r \<Rightarrow> nat option \<times> 'r option \<Rightarrow> bool option" where
  [code]: "update_conflict ops h record found =
     (case found of
        (_, None) \<Rightarrow> Some False
      | (state, Some r) \<Rightarrow>
          if r \<noteq> record then Some True
          else do {
            found' \<leftarrow> my_hash_next ops h (get_key ops record) state;
            update_conflict ops h record found' })"

definition relink_record ::
  "('r, 'k) hash_ops \<Rightarrow> nat \<Rightarrow> nat \<Rightarrow> nat \<Rightarrow> nat \<Rightarrow> 'r hash_link \<Rightarrow> nat \<Rightarrow> 'r hash_link list
     \<Rightarrow> 'r hash_link list option" where
  "relink_record ops blen recs idx new_index org_link emp d =
     (if new_index = emp then do {
        let d1 = (if emp \<noteq> idx then d[emp := org_link] else d);
        el \<leftarrow> link_at d1 emp;
        Some (d1[emp := el\<lparr>hl_next := None\<rparr>]) }
      else do {
        pos \<leftarrow> link_at d new_index;
        let new_pos_index = my_hash_rec_mask ops pos blen recs;
        if new_index \<noteq> new_pos_index then do {
          d1 \<leftarrow> movelink (d[emp := pos]) (Some new_index) new_pos_index (Some emp);
          Some (d1[new_index := org_link\<lparr>hl_next := None\<rparr>]) }
        else
          Some (d[emp := org_link\<lparr>hl_next := hl_next pos\<rparr>, new_index := pos\<lparr>hl_next := Some emp\<rparr>]) })"

definition my_hash_update ::
  "('r, 'k) hash_ops \<Rightarrow> 'r \<Rightarrow> 'k \<Rightarrow> 'r my_hash \<Rightarrow> (bool \<times> 'r my_hash) option" where
  "my_hash_update ops record old_key h = do {
     conflict \<leftarrow> (if hash_unique ops then do {
                   found \<leftarrow> my_hash_first ops h (get_key ops record);
                   update_conflict ops h record found }
                 else Some False);
     if conflict then Some (True, h)
     else do {
       let idx0 = my_hash_mask (hash_function ops old_key) (blength h) (records h);
       let new_index = my_hash_mask (rec_hashnr ops record) (blength h) (records h);
       if idx0 = new_index then Some (False, h)
       else do {
         found \<leftarrow> find_record (hash_array h) record None idx0;
         (case found of
            None \<Rightarrow> Some (True, h)
          | Some (prev, idx) \<Rightarrow> do {
              org_link \<leftarrow> link_at (hash_array h) idx;
              (d, emp) \<leftarrow> unlink_record (hash_array h) prev idx;
              d1 \<leftarrow> relink_record ops (blength h) (records h) idx new_index org_link emp d;
              Some (False, h\<lparr>hash_array := d1\<rparr>) }) } } }"

subsection \<open>Checking\<close>

text \<open>
  \<open>my_hash_check\<close>, without the counters that are only printed: the records it finds in the chains and
  whether it saw an error.
\<close>

partial_function (option) check_links ::
  "('r, 'k) hash_ops \<Rightarrow> 'r my_hash \<Rightarrow> nat \<Rightarrow> nat option \<Rightarrow> nat \<Rightarrow> bool \<Rightarrow> (nat \<times> bool) option" where
  [code]: "check_links ops h i nxt found error =
     (case nxt of
        None \<Rightarrow> Some (found, error)
      | Some idx \<Rightarrow>
          if found < records h + 1 then do {
            hash_info \<leftarrow> link_at (hash_array h) idx;
            let error1 = (error \<or> records h \<le> idx);
            if my_hash_rec_mask ops hash_info (blength h) (records h) \<noteq> i
            then check_links ops h i (hl_next hash_info) found True
            else check_links ops h i (hl_next hash_info) (found + 1) error1 }
          else Some (found, error))"

primrec check_positions ::
  "('r, 'k) hash_ops \<Rightarrow> 'r my_hash \<Rightarrow> nat list \<Rightarrow> nat \<Rightarrow> bool \<Rightarrow> (nat \<times> bool) option" where
  "check_positions ops h [] found error = Some (found, error)"
| "check_positions ops h (i # is) found error = do {
     pos \<leftarrow> link_at (hash_array h) i;
     if my_hash_rec_mask ops pos (blength h) (records h) = i
     then do {
       (found1, error1) \<leftarrow> check_links ops h i (hl_next pos) (found + 1) error;
       check_positions ops h is found1 error1 }
     else check_positions ops h is found error }"

definition my_hash_check :: "('r, 'k) hash_ops \<Rightarrow> 'r my_hash \<Rightarrow> bool option" where
  "my_hash_check ops h = do {
     (found, error) \<leftarrow> check_positions ops h [0..<records h] 0 False;
     Some (error \<or> found \<noteq> records h) }"

end
