(* ===== verification/Hash_Table_Laws.thy ===== *)
theory Hash_Table_Laws
  imports Hash_Table "HOL-Library.Multiset"
begin

text \<open>
  The invariant of the hash table of \<^verbatim>\<open>mysys/hash.c\<close> and what its operations do to the multiset of
  its records. A chain is the list of its cells with their records; the invariant says that every
  cell is in the chain of its record's position, and that a chain starts at its position.
\<close>

unbundle bit_operations_syntax

section \<open>Positions\<close>

definition pow2 :: "nat \<Rightarrow> bool" where
  "pow2 b \<longleftrightarrow> (\<exists>k. b = 2 ^ k)"

lemma pow2_pos: "pow2 b \<Longrightarrow> 0 < b"
  by (auto simp: pow2_def)

lemma pow2_half: "pow2 b \<Longrightarrow> 2 \<le> b \<Longrightarrow> pow2 (b div 2) \<and> 2 * (b div 2) = b"
proof -
  assume "pow2 b" "2 \<le> b"
  then obtain k where k: "b = 2 ^ k" by (auto simp: pow2_def)
  with \<open>2 \<le> b\<close> show ?thesis by (cases k) (auto simp: pow2_def)
qed

lemma pow2_double: "pow2 b \<Longrightarrow> pow2 (b + b)"
  unfolding pow2_def by (metis mult_2 power_Suc)

lemma and_size_dec: "pow2 b \<Longrightarrow> h AND size_dec b = h mod b"
proof -
  assume "pow2 b"
  then obtain k where k: "b = 2 ^ k" by (auto simp: pow2_def)
  have "size_dec b = mask k" by (simp add: size_dec_def k mask_eq_exp_minus_1)
  then show ?thesis by (simp add: k flip: take_bit_eq_mask take_bit_eq_mod)
qed

lemma my_hash_mask_mod:
  assumes "pow2 b" and "2 \<le> b \<or> h mod b < n"
  shows "my_hash_mask h b n = (if h mod b < n then h mod b else h mod (b div 2))"
  using assms pow2_half [of b] by (auto simp: my_hash_mask_def and_size_dec)

lemma and_half:
  assumes "pow2 b" and "2 \<le> b"
  shows "h AND (b div 2) = 0 \<longleftrightarrow> h mod b < b div 2"
proof -
  obtain k where k: "b div 2 = 2 ^ k" using pow2_half [OF assms] by (auto simp: pow2_def)
  then have k2: "b = 2 ^ k * 2" using pow2_half [OF assms] by simp
  have "h AND 2 ^ k = 0 \<longleftrightarrow> even (h div 2 ^ k)"
    by (simp add: and_exp_eq_0_iff_not_bit bit_iff_odd)
  moreover have "h mod (2 ^ k * 2) = 2 ^ k * (h div 2 ^ k mod 2) + h mod 2 ^ k" by (rule mod_mult2_eq)
  moreover have "h mod 2 ^ k < 2 ^ k" by simp
  ultimately show ?thesis unfolding k unfolding k2
    by (cases "even (h div 2 ^ k)") (simp_all add: even_iff_mod_2_eq_zero odd_iff_mod_2_eq_one)
qed

text \<open>The sizes of a table between calls.\<close>

definition sizes_ok :: "nat \<Rightarrow> nat \<Rightarrow> bool" where
  "sizes_ok b n \<longleftrightarrow> pow2 b \<and> b div 2 \<le> n \<and> n < b"

lemma sizes_ok_ge_2: "sizes_ok b n \<Longrightarrow> 0 < n \<Longrightarrow> 2 \<le> b"
  by (auto simp: sizes_ok_def)

lemma mask_less:
  assumes "sizes_ok b n" and "0 < n"
  shows "my_hash_mask h b n < n"
proof -
  have b: "pow2 b" "2 \<le> b" "b div 2 \<le> n" using assms sizes_ok_ge_2 by (auto simp: sizes_ok_def)
  have "0 < b div 2" using b by simp
  then have "h mod (b div 2) < b div 2" by (rule mod_less_divisor)
  then have "h mod (b div 2) < n" using b(3) by (rule less_le_trans)
  with b show ?thesis by (simp add: my_hash_mask_mod)
qed

text \<open>When the table grows, the records of one position split into those that stay and those that move.\<close>

lemma mask_grow:
  assumes "sizes_ok b n" and "0 < n"
  shows "my_hash_mask h b (n + 1) = (if h mod b = n then n else my_hash_mask h b n)"
    and "h mod b = n \<Longrightarrow> my_hash_mask h b n = n - b div 2"
    and "my_hash_mask h b n = n - b div 2 \<Longrightarrow> h mod b = n \<longleftrightarrow> h AND (b div 2) \<noteq> 0"
proof -
  have b: "pow2 b" "2 \<le> b" "b div 2 \<le> n" "n < b" using assms sizes_ok_ge_2 by (auto simp: sizes_ok_def)
  have half: "0 < b div 2" "2 * (b div 2) = b" using pow2_half [OF b(1,2)] pow2_pos by auto
  have low: "h mod (b div 2) = (if h mod b < b div 2 then h mod b else h mod b - b div 2)"
  proof -
    have "h mod b mod (b div 2) = h mod (b div 2)" using half(2) by (metis dvd_triv_right mod_mod_cancel)
    moreover have "h mod b < b" using b by simp
    moreover have "h mod b mod (b div 2) = (h mod b - b div 2) mod (b div 2)" if "b div 2 \<le> h mod b"
      using that by (rule le_mod_geq)
    moreover have "(h mod b - b div 2) mod (b div 2) = h mod b - b div 2" if "b div 2 \<le> h mod b"
      using \<open>h mod b < b\<close> half by (intro mod_less) linarith
    ultimately show ?thesis using half by auto
  qed
  show "my_hash_mask h b (n + 1) = (if h mod b = n then n else my_hash_mask h b n)"
    using b by (auto simp: my_hash_mask_mod)
  show "my_hash_mask h b n = n - b div 2" if "h mod b = n"
    using b that low by (simp add: my_hash_mask_mod)
  show "h mod b = n \<longleftrightarrow> h AND (b div 2) \<noteq> 0" if m: "my_hash_mask h b n = n - b div 2"
  proof -
    have "h mod b < b" using b by simp
    then show ?thesis using m low half b unfolding and_half [OF b(1,2)]
      by (auto simp: my_hash_mask_mod split: if_splits)
  qed
qed

lemma mask_double: "sizes_ok b n \<Longrightarrow> n + 1 = b \<Longrightarrow> my_hash_mask h (b + b) (n + 1) = my_hash_mask h b (n + 1)"
proof -
  assume a: "sizes_ok b n" "n + 1 = b"
  then have b: "pow2 b" "pow2 (b + b)" "2 \<le> b + b" "(b + b) div 2 = b"
    using pow2_double pow2_pos [of b] by (auto simp: sizes_ok_def)
  have "h mod b < b" using pow2_pos [OF b(1)] by simp
  moreover have "h mod (b + b) < b \<Longrightarrow> h mod (b + b) = h mod b"
    by (metis dvd_add_triv_left_iff dvd_refl mod_less mod_mod_cancel)
  ultimately show ?thesis using a b by (simp add: my_hash_mask_mod)
qed

lemma sizes_ok_insert:
  "sizes_ok b n \<Longrightarrow> sizes_ok (if n + 1 = b then b + b else b) (n + 1)"
  using pow2_double [of b] by (auto simp: sizes_ok_def)

section \<open>Chains\<close>

text \<open>
  \<open>laid d ps q\<close>: the cells of \<open>ps\<close> hold its records, each is linked to the next one and the last one
  to \<open>q\<close>.
\<close>

definition first_of :: "(nat \<times> 'r) list \<Rightarrow> nat option \<Rightarrow> nat option" where
  "first_of ps q = (case ps of [] \<Rightarrow> q | pr # _ \<Rightarrow> Some (fst pr))"

lemma first_of_simps [simp]: "first_of [] q = q" "first_of (pr # ps) q = Some (fst pr)"
  by (simp_all add: first_of_def)

lemma first_of_append: "first_of (xs @ ys) q = first_of xs (first_of ys q)"
  by (cases xs) simp_all

fun laid :: "'r hash_link list \<Rightarrow> (nat \<times> 'r) list \<Rightarrow> nat option \<Rightarrow> bool" where
  "laid d [] q = True"
| "laid d (pr # ps) q \<longleftrightarrow>
     fst pr < length d \<and> d ! fst pr = \<lparr>hl_next = first_of ps q, hl_data = snd pr\<rparr> \<and> laid d ps q"

lemma laid_append [simp]: "laid d (xs @ ys) q \<longleftrightarrow> laid d xs (first_of ys q) \<and> laid d ys q"
  by (induction xs) (auto simp: first_of_append)

lemma laid_cong:
  "laid d ps q \<Longrightarrow> length d \<le> length d' \<Longrightarrow> \<forall>p \<in> fst ` set ps. d' ! p = d ! p \<Longrightarrow> laid d' ps q"
  by (induction ps) auto

lemma laid_update [simp]: "p \<notin> fst ` set ps \<Longrightarrow> laid (d[p := l]) ps q = laid d ps q"
  by (induction ps) auto

lemma laid_in: "laid d ps q \<Longrightarrow> pr \<in> set ps \<Longrightarrow> fst pr < length d \<and> hl_data (d ! fst pr) = snd pr"
  by (induction ps) auto

lemma laid_unique:
  "laid d xs None \<Longrightarrow> laid d ys None \<Longrightarrow> first_of xs None = first_of ys None \<Longrightarrow> xs = ys"
proof (induction xs arbitrary: ys)
  case Nil
  then show ?case by (cases ys) auto
next
  case (Cons pr xs)
  then obtain ps ys' where ys: "ys = ps # ys'" "fst ps = fst pr" by (cases ys) auto
  with Cons.prems have "snd ps = snd pr" "first_of xs None = first_of ys' None" by auto
  with Cons ys show ?case by (auto simp: prod_eq_iff)
qed

lemma laid_distinct: "laid d ps None \<Longrightarrow> distinct (map fst ps)"
proof (induction ps)
  case (Cons pr ps)
  have False if "qr \<in> set ps" "fst qr = fst pr" for qr
  proof -
    from that(1) obtain xs ys where ps: "ps = xs @ qr # ys" by (auto dest: split_list)
    with Cons.prems that(2) have "pr # ps = qr # ys" by (intro laid_unique [of d]) auto
    then show False by (simp add: ps)
  qed
  with Cons show ?case by force
qed simp

text \<open>
  \<open>chained hom d S C\<close>: the used cells are those of \<open>S\<close>, and \<open>C\<close> gives the chain of every position,
  where \<open>hom\<close> maps a record to its position.
\<close>

definition chained :: "('r \<Rightarrow> nat) \<Rightarrow> 'r hash_link list \<Rightarrow> nat set \<Rightarrow> (nat \<Rightarrow> (nat \<times> 'r) list) \<Rightarrow> bool" where
  "chained hom d S C \<longleftrightarrow>
     (\<forall>i. laid d (C i) None \<and> first_of (C i) (Some i) = Some i \<and>
          (\<forall>pr \<in> set (C i). fst pr \<in> S \<and> hom (snd pr) = i)) \<and>
     (\<forall>p \<in> S. p < length d \<and> (p, hl_data (d ! p)) \<in> set (C (hom (hl_data (d ! p)))))"

lemma chainedD:
  assumes "chained hom d S C"
  shows "laid d (C i) None" and "first_of (C i) (Some i) = Some i"
    and "pr \<in> set (C i) \<Longrightarrow> fst pr \<in> S" and "pr \<in> set (C i) \<Longrightarrow> hom (snd pr) = i"
    and "p \<in> S \<Longrightarrow> p < length d" and "p \<in> S \<Longrightarrow> (p, hl_data (d ! p)) \<in> set (C (hom (hl_data (d ! p))))"
  using assms by (auto simp: chained_def)

lemma chained_distinct: "chained hom d S C \<Longrightarrow> distinct (map fst (C i))"
  using chainedD(1) laid_distinct by blast

lemma chained_same_cell:
  assumes "chained hom d S C" and "pr \<in> set (C i)" and "qr \<in> set (C j)" and "fst pr = fst qr"
  shows "i = j" and "pr = qr"
proof -
  have "snd pr = snd qr"
    using assms laid_in [OF chainedD(1) [OF assms(1)]] by metis
  with assms(4) show "pr = qr" by (simp add: prod_eq_iff)
  with assms show "i = j" using chainedD(4) [OF assms(1)] by metis
qed

lemma chained_outside:
  assumes "chained hom d S C" and "i \<notin> S"
  shows "C i = []"
proof (cases "C i")
  case (Cons pr rest)
  then have "fst pr = i" "fst pr \<in> S" using chainedD(2) [OF assms(1), of i] chainedD(3) [OF assms(1), of pr i] by simp_all
  with assms(2) show ?thesis by simp
qed

lemma chained_cell_of_head:
  assumes "chained hom d S C" and "i \<in> S" and "C i \<noteq> []"
  shows "hom (hl_data (d ! i)) = i" and "C i = (i, hl_data (d ! i)) # tl (C i)"
proof -
  obtain r rest where c: "C i = (i, r) # rest"
    using assms(3) chainedD(2) [OF assms(1), of i] by (cases "C i") auto
  then have r: "hl_data (d ! i) = r" using chainedD(1) [OF assms(1), of i] by simp
  with c show "C i = (i, hl_data (d ! i)) # tl (C i)" by simp
  show "hom (hl_data (d ! i)) = i" using chainedD(4) [OF assms(1), of "(i, r)" i] c r by simp
qed

lemma mset_set_family:
  fixes A :: "nat \<Rightarrow> 'a set"
  assumes "\<And>i. finite (A i)" and "\<And>i j. i \<noteq> j \<Longrightarrow> A i \<inter> A j = {}"
  shows "mset_set (\<Union>i<N. A i) = (\<Sum>i<N. mset_set (A i))"
proof (induction N)
  case (Suc N)
  have "mset_set ((\<Union>i<N. A i) \<union> A N) = mset_set (\<Union>i<N. A i) + mset_set (A N)"
  proof (rule mset_set_Union)
    have "A i \<inter> A N = {}" if "i < N" for i using assms(2) [of i N] that by simp
    then show "(\<Union>i<N. A i) \<inter> A N = {}" by blast
  qed (simp_all add: assms(1))
  with Suc show ?case by (simp add: lessThan_Suc Un_commute)
qed simp

lemma image_mset_sum_family: "image_mset f (\<Sum>i<N. M i) = (\<Sum>i<(N :: nat). image_mset f (M i))"
  by (induction N) simp_all

text \<open>The records of a chained array, from the cells and from the chains.\<close>

lemma chained_contents:
  assumes ch: "chained hom d S C" and S: "finite S" "S \<subseteq> {..<N}"
  shows "image_mset (\<lambda>p. hl_data (d ! p)) (mset_set S) = (\<Sum>i<N. mset (map snd (C i)))"
proof -
  have cells: "mset (map fst (C i)) = mset_set (fst ` set (C i))" for i
    using chained_distinct [OF ch, of i] by (metis mset_set_set set_map)
  have "(\<Union>i<N. fst ` set (C i)) = S"
  proof
    show "(\<Union>i<N. fst ` set (C i)) \<subseteq> S" using chainedD(3) [OF ch] by auto
    show "S \<subseteq> (\<Union>i<N. fst ` set (C i))"
    proof
      fix p assume p: "p \<in> S"
      let ?i = "hom (hl_data (d ! p))"
      have in_c: "(p, hl_data (d ! p)) \<in> set (C ?i)" using chainedD(6) [OF ch p] .
      then have "first_of (C ?i) None = Some ?i" using chainedD(2) [OF ch, of ?i] by (cases "C ?i") auto
      then have "?i \<in> fst ` set (C ?i)" by (cases "C ?i") auto
      then have "?i \<in> S" using chainedD(3) [OF ch] by force
      then have "?i < N" using S by blast
      with in_c show "p \<in> (\<Union>i<N. fst ` set (C i))" by (auto intro!: bexI [of _ ?i] image_eqI)
    qed
  qed
  moreover have "mset_set (\<Union>i<N. fst ` set (C i)) = (\<Sum>i<N. mset_set (fst ` set (C i)))"
  proof (rule mset_set_family)
    show "fst ` set (C i) \<inter> fst ` set (C j) = {}" if "i \<noteq> j" for i j
      using that chained_same_cell(1) [OF ch] by blast
  qed simp
  ultimately have S_eq: "mset_set S = (\<Sum>i<N. mset (map fst (C i)))" unfolding cells by simp
  have "image_mset (\<lambda>p. hl_data (d ! p)) (mset (map fst (C i))) = mset (map snd (C i))" for i
  proof -
    have "\<forall>pr \<in> set (C i). hl_data (d ! fst pr) = snd pr" using laid_in [OF chainedD(1) [OF ch]] by blast
    then have "map (\<lambda>p. hl_data (d ! p)) (map fst (C i)) = map snd (C i)" by simp
    then show ?thesis by (metis mset_map)
  qed
  then show ?thesis unfolding S_eq by (simp add: image_mset_sum_family)
qed

section \<open>The invariant\<close>

definition ops_ok :: "('r, 'k) hash_ops \<Rightarrow> bool" where
  "ops_ok ops \<longleftrightarrow> (\<forall>a b. \<not> key_differs ops a b \<longrightarrow> hash_function ops a = hash_function ops b) \<and>
     (\<forall>a. \<not> key_differs ops a a)"

definition home :: "('r, 'k) hash_ops \<Rightarrow> nat \<Rightarrow> nat \<Rightarrow> 'r \<Rightarrow> nat" where
  "home ops b n r = my_hash_mask (rec_hashnr ops r) b n"

definition chains_of :: "('r, 'k) hash_ops \<Rightarrow> 'r my_hash \<Rightarrow> (nat \<Rightarrow> (nat \<times> 'r) list) \<Rightarrow> bool" where
  "chains_of ops h C \<longleftrightarrow> records h = length (hash_array h) \<and> sizes_ok (blength h) (records h) \<and>
     chained (home ops (blength h) (records h)) (hash_array h) {..<records h} C"

lemma chains_ofD:
  assumes "chains_of ops h C"
  shows "length (hash_array h) = records h" and "sizes_ok (blength h) (records h)"
    and "chained (home ops (blength h) (records h)) (hash_array h) {..<records h} C"
  using assms unfolding chains_of_def by metis+

definition hash_inv :: "('r, 'k) hash_ops \<Rightarrow> 'r my_hash \<Rightarrow> bool" where
  "hash_inv ops h \<longleftrightarrow> (\<exists>C. chains_of ops h C)"

definition hash_records :: "'r my_hash \<Rightarrow> 'r multiset" where
  "hash_records h = mset (map hl_data (hash_array h))"

lemma array_contents: "mset (map hl_data d) = image_mset (\<lambda>p. hl_data (d ! p)) (mset_set {..<length d})"
proof -
  have "map hl_data d = map (\<lambda>p. hl_data (d ! p)) [0..<length d]" by (rule nth_equalityI) simp_all
  then have "mset (map hl_data d) = image_mset (\<lambda>p. hl_data (d ! p)) (mset [0..<length d])" by (metis mset_map)
  then show ?thesis by (simp add: atLeast0LessThan)
qed

lemma hash_records_chains:
  assumes "chains_of ops h C"
  shows "hash_records h = (\<Sum>i<records h. mset (map snd (C i)))"
proof -
  from chained_contents [OF chains_ofD(3) [OF assms], of "records h"] show ?thesis
    unfolding hash_records_def array_contents chains_ofD(1) [OF assms] by simp
qed

lemma hash_inv_init [simp]: "hash_inv ops my_hash_init" "hash_records my_hash_init = {#}"
proof -
  have "chains_of ops my_hash_init (\<lambda>_. [])"
    by (simp add: chains_of_def my_hash_init_def sizes_ok_def pow2_def chained_def) (rule exI [of _ 0], simp)
  then show "hash_inv ops my_hash_init" by (auto simp: hash_inv_def)
qed (simp add: hash_records_def my_hash_init_def)

lemma hash_inv_reset [simp]: "hash_inv ops (my_hash_reset h)" "hash_records (my_hash_reset h) = {#}"
  using hash_inv_init(1) [of ops]
  by (simp_all add: hash_inv_def chains_of_def my_hash_reset_def my_hash_init_def hash_records_def)

section \<open>Searching\<close>

definition found_at :: "(nat \<times> 'r) option \<Rightarrow> nat option \<times> 'r option" where
  "found_at pr = (map_option fst pr, map_option snd pr)"

definition matches :: "('r, 'k) hash_ops \<Rightarrow> 'k \<Rightarrow> nat \<times> 'r \<Rightarrow> bool" where
  "matches ops key pr \<longleftrightarrow> \<not> key_differs ops (get_key ops (snd pr)) key"

lemma hashcmp_matches: "hashcmp ops \<lparr>hl_next = q, hl_data = snd pr\<rparr> key \<longleftrightarrow> \<not> matches ops key pr"
  by (simp add: hashcmp_def matches_def)

lemma hash_first_loop_chain:
  assumes "laid (hash_array h) ps None" and "first_of ps None = Some idx"
    and "flag \<Longrightarrow> home ops (blength h) (records h) (snd (hd ps)) = idx"
  shows "hash_first_loop ops h key flag idx = Some (found_at (find (matches ops key) ps))"
  using assms
proof (induction ps arbitrary: idx flag)
  case (Cons pr ps)
  then have idx: "idx = fst pr" "link_at (hash_array h) idx = Some \<lparr>hl_next = first_of ps None, hl_data = snd pr\<rparr>"
    by (auto simp: link_at_def)
  show ?case
  proof (cases "first_of ps None")
    case None
    then have "ps = []" by (cases ps) auto
    with Cons.prems idx show ?thesis
      by (subst hash_first_loop.simps) (auto simp: hashcmp_matches found_at_def my_hash_rec_mask_def home_def)
  next
    case (Some i)
    with Cons.IH [OF _ Some, of False] Cons.prems idx show ?thesis
      by (subst hash_first_loop.simps) (auto simp: hashcmp_matches found_at_def my_hash_rec_mask_def home_def)
  qed
qed simp

lemma home_matches: "ops_ok ops \<Longrightarrow> matches ops key pr \<Longrightarrow>
    home ops b n (snd pr) = my_hash_mask (hash_function ops key) b n"
  by (auto simp: ops_ok_def matches_def home_def rec_hashnr_def)

lemma my_hash_first_chain:
  assumes ops: "ops_ok ops" and ch: "chains_of ops h C"
  shows "my_hash_first ops h key =
    Some (found_at (find (matches ops key) (C (my_hash_mask (hash_function ops key) (blength h) (records h)))))"
proof (cases "records h = 0")
  case True
  have "chained (home ops (blength h) (records h)) (hash_array h) {} C" using chains_ofD(3) [OF ch] True by simp
  then have "C i = []" for i using chained_outside by fastforce
  then show ?thesis using True
    by (simp add: my_hash_first_def my_hash_first_from_hash_value_def found_at_def)
next
  case False
  let ?i = "my_hash_mask (hash_function ops key) (blength h) (records h)"
  note len = chains_ofD(1) [OF ch] and sz = chains_ofD(2) [OF ch] and c = chains_ofD(3) [OF ch]
  have i: "?i < records h" using mask_less [OF sz] False by simp
  have eq: "my_hash_first ops h key = hash_first_loop ops h key True ?i"
    using False sz by (simp add: my_hash_first_def my_hash_first_from_hash_value_def sizes_ok_def)
  show ?thesis
  proof (cases "C ?i = []")
    case False
    then show ?thesis unfolding eq
      using chained_cell_of_head [OF c _ False] i chainedD(1) [OF c, of ?i]
      by (intro hash_first_loop_chain) (simp_all, metis first_of_simps(2) fst_conv, metis list.sel(1) snd_conv)
  next
    case True
    let ?r = "hl_data (hash_array h ! ?i)"
    have away: "home ops (blength h) (records h) ?r \<noteq> ?i"
      using chainedD(6) [OF c, of ?i] i True by auto
    then have "\<not> matches ops key (?i, ?r)" using home_matches [OF ops, of key "(?i, ?r)"] by auto
    with away i len True show ?thesis unfolding eq
      by (subst hash_first_loop.simps)
        (simp add: link_at_def hashcmp_def matches_def my_hash_rec_mask_def home_def found_at_def)
  qed
qed

lemma records_in_chain:
  assumes "ops_ok ops" and "chains_of ops h C"
  shows "filter_mset (\<lambda>r. \<not> key_differs ops (get_key ops r) key) (hash_records h) =
    mset (map snd (filter (matches ops key) (C (my_hash_mask (hash_function ops key) (blength h) (records h)))))"
proof -
  let ?n = "records h" and ?b = "blength h"
  let ?P = "\<lambda>r. \<not> key_differs ops (get_key ops r) key" and ?k = "my_hash_mask (hash_function ops key) ?b ?n"
  note c = chains_ofD(3) [OF assms(2)]
  have filter_eq: "filter_mset ?P (mset (map snd xs)) = mset (map snd (filter (matches ops key) xs))" for xs
    by (induction xs) (auto simp: matches_def)
  have other: "filter (matches ops key) (C i) = []" if "i \<noteq> ?k" for i
    using that home_matches [OF assms(1)] chainedD(4) [OF c] by (fastforce simp: filter_empty_conv)
  have "filter_mset ?P (\<Sum>i<m. mset (map snd (C i))) =
      (if ?k < m then mset (map snd (filter (matches ops key) (C ?k))) else {#})" for m
    by (induction m) (auto simp: filter_eq other less_Suc_eq simp del: mset_map)
  moreover have "C ?k = []" if "\<not> ?k < ?n"
    using that chained_outside [OF c, of ?k] by simp
  ultimately show ?thesis unfolding hash_records_chains [OF assms(2)] by auto
qed

lemma my_hash_search_correct:
  assumes "ops_ok ops" and "hash_inv ops h"
  shows "\<exists>found. my_hash_search ops h key = Some found \<and>
    (case found of
       None \<Rightarrow> \<forall>r. r \<in># hash_records h \<longrightarrow> key_differs ops (get_key ops r) key
     | Some r \<Rightarrow> r \<in># hash_records h \<and> \<not> key_differs ops (get_key ops r) key)"
proof -
  obtain C where C: "chains_of ops h C" using assms(2) by (auto simp: hash_inv_def)
  let ?c = "C (my_hash_mask (hash_function ops key) (blength h) (records h))"
  let ?P = "\<lambda>r. \<not> key_differs ops (get_key ops r) key"
  have f: "my_hash_search ops h key = Some (map_option snd (find (matches ops key) ?c))"
    using my_hash_first_chain [OF assms(1) C, of key] by (simp add: my_hash_search_def found_at_def)
  have rs: "set_mset (filter_mset ?P (hash_records h)) = snd ` set (filter (matches ops key) ?c)"
    unfolding records_in_chain [OF assms(1) C] by simp
  show ?thesis
  proof (cases "find (matches ops key) ?c")
    case None
    then have "filter (matches ops key) ?c = []" by (auto simp: find_None_iff filter_empty_conv)
    with rs have "\<not> (r \<in># hash_records h \<and> ?P r)" for r by (auto simp: set_eq_iff)
    with None f show ?thesis by auto
  next
    case (Some pr)
    then have "pr \<in> set (filter (matches ops key) ?c)" by (auto simp: find_Some_iff)
    then have "snd pr \<in> set_mset (filter_mset ?P (hash_records h))" unfolding rs by blast
    with Some f show ?thesis by auto
  qed
qed

section \<open>Splitting a chain\<close>

text \<open>
  What the loop knows about one of the two chains it builds: its cells, with the record that the
  last one shall hold. Only when the chain is in use, the last cell already holds its record and is
  linked to the cell that is visited next.
\<close>

definition tail_ok ::
  "'r hash_link list \<Rightarrow> bool \<Rightarrow> bool \<Rightarrow> nat option \<Rightarrow> 'r option \<Rightarrow> nat \<Rightarrow> (nat \<times> 'r) list \<Rightarrow> nat option \<Rightarrow> bool" where
  "tail_ok d fnd used g r start ps q \<longleftrightarrow>
     fnd = (ps \<noteq> []) \<and>
     (ps \<noteq> [] \<longrightarrow> fst (hd ps) = start \<and> g = Some (fst (last ps)) \<and> r = Some (snd (last ps)) \<and>
        fst (last ps) < length d \<and> laid d (butlast ps) (Some (fst (last ps)))) \<and>
     (used \<longrightarrow> ps \<noteq> [] \<and> laid d ps q)"

lemma tail_ok_frame [simp]:
  "p \<notin> fst ` set ps \<Longrightarrow> tail_ok (d[p := l]) fnd used g r start ps q = tail_ok d fnd used g r start ps q"
proof -
  assume p: "p \<notin> fst ` set ps"
  then have "p \<notin> fst ` set (butlast ps)" by (auto dest: in_set_butlastD)
  with p show ?thesis by (simp add: tail_ok_def)
qed

lemma tail_ok_unused: "tail_ok d fnd used g r start ps q \<Longrightarrow> tail_ok d fnd False g r start ps q'"
  by (auto simp: tail_ok_def)

lemma tail_ok_one:
  "i < length d \<Longrightarrow> tail_ok d True False (Some i) (Some x) i [(i, x)] q"
  by (simp add: tail_ok_def)

lemma laid_close:
  assumes "laid d (butlast ps) (Some (fst (last ps)))" and "distinct (map fst ps)" and "ps \<noteq> []"
    and "fst (last ps) < length d"
  shows "laid (d[fst (last ps) := \<lparr>hl_next = q, hl_data = snd (last ps)\<rparr>]) ps q"
proof -
  obtain xs y where ps: "ps = xs @ [y]" using assms(3) by (cases ps rule: rev_cases) auto
  with assms show ?thesis by (auto simp: image_iff)
qed

lemma laid_butlast: "laid d ps q \<Longrightarrow> ps \<noteq> [] \<Longrightarrow> laid d (butlast ps) (Some (fst (last ps)))"
  by (cases ps rule: rev_cases) auto

lemma tail_ok_close:
  assumes t: "tail_ok d True used g r start ps q0" and dist: "distinct (map fst ps)"
    and c: "put_link g r q d = Some d'"
  shows "d' = d[fst (last ps) := \<lparr>hl_next = q, hl_data = snd (last ps)\<rparr>]" and "laid d' ps q"
    and "tail_ok d' True False g r start ps q'"
proof -
  show d': "d' = d[fst (last ps) := \<lparr>hl_next = q, hl_data = snd (last ps)\<rparr>]"
    using t c by (auto simp: tail_ok_def put_link_def split: if_splits)
  show l: "laid d' ps q" unfolding d' using t dist by (intro laid_close) (auto simp: tail_ok_def)
  show "tail_ok d' True False g r start ps q'"
    using t laid_butlast [OF l] unfolding d' by (simp add: tail_ok_def)
qed

lemma tail_ok_put: "tail_ok d True used g r start ps q0 \<Longrightarrow> \<exists>d'. put_link g r q d = Some d'"
  by (auto simp: tail_ok_def put_link_def)

lemma tail_ok_extend:
  assumes t: "tail_ok d True used g r start ps q0" and l: "laid d ps (Some i)"
    and i: "i < length d" "d ! i = \<lparr>hl_next = q, hl_data = x\<rparr>"
  shows "tail_ok d True True (Some i) (Some x) start (ps @ [(i, x)]) q"
  using assms by (auto simp: tail_ok_def)

text \<open>
  The invariant of the loop over \<open>chain\<close>, of which \<open>rem\<close> is left to visit; \<open>lows\<close> and \<open>highs\<close> are the
  two new chains.
\<close>

definition split_inv ::
  "('r \<Rightarrow> bool) \<Rightarrow> 'r hash_link list \<Rightarrow> nat \<Rightarrow> (nat \<times> 'r) list \<Rightarrow> nat \<Rightarrow> 'r split_state
     \<Rightarrow> (nat \<times> 'r) list \<Rightarrow> (nat \<times> 'r) list \<Rightarrow> (nat \<times> 'r) list \<Rightarrow> (nat \<times> 'r) list \<Rightarrow> bool" where
  "split_inv low d0 fi chain n st visited rem lows highs \<longleftrightarrow>
     chain = visited @ rem \<and> map snd lows = filter low (map snd visited) \<and>
     map snd highs = filter (\<lambda>r. \<not> low r) (map snd visited) \<and>
     laid (sp_array st) rem None \<and> length (sp_array st) = length d0 \<and>
     (\<forall>p. p \<notin> fst ` set chain \<longrightarrow> p \<noteq> n \<longrightarrow> sp_array st ! p = d0 ! p) \<and>
     mset (sp_empty st # map fst lows @ map fst highs @ map fst rem) = mset (n # map fst chain) \<and>
     tail_ok (sp_array st) (low_find st) (low_used st) (gpos st) (ptr_to_rec st) fi lows (first_of rem None) \<and>
     tail_ok (sp_array st) (high_find st) (high_used st) (gpos2 st) (ptr_to_rec2 st) n highs (first_of rem None) \<and>
     \<not> (low_used st \<and> high_used st) \<and>
     (highs = [] \<longrightarrow> sp_empty st = n) \<and> (lows = [] \<longrightarrow> highs \<noteq> [] \<longrightarrow> sp_empty st = fi)"

lemma split_inv_cells:
  assumes "split_inv low d0 fi chain n st visited rem lows highs" and "distinct (n # map fst chain)"
  shows "distinct (sp_empty st # map fst lows @ map fst highs @ map fst rem)"
    and "set (sp_empty st # map fst lows @ map fst highs @ map fst rem) = insert n (fst ` set chain)"
proof -
  have m: "mset (sp_empty st # map fst lows @ map fst highs @ map fst rem) = mset (n # map fst chain)"
    using assms(1) by (simp add: split_inv_def)
  show "distinct (sp_empty st # map fst lows @ map fst highs @ map fst rem)"
    using assms(2) mset_eq_imp_distinct_iff [OF m] by simp
  show "set (sp_empty st # map fst lows @ map fst highs @ map fst rem) = insert n (fst ` set chain)"
    using mset_eq_setD [OF m] by simp
qed

text \<open>One step of the loop at a record that stays.\<close>

lemma low_step_inv:
  assumes inv: "split_inv low d0 fi chain n st visited ((idx, x) # rem) lows highs"
    and dist: "distinct (n # map fst chain)" and fi: "fst (hd chain) = fi" and x: "low x"
    and b: "insert n (fst ` set chain) \<subseteq> {..<length d0}"
  obtains st' lows' where "low_step idx x st = Some st'"
    and "split_inv low d0 fi chain n st' (visited @ [(idx, x)]) rem lows' highs" and "lows' \<noteq> []"
    and "sp_array st' ! idx = \<lparr>hl_next = first_of rem None, hl_data = x\<rparr>"
proof -
  note cells = split_inv_cells [OF inv dist]
  have i: "idx < length (sp_array st)" "sp_array st ! idx = \<lparr>hl_next = first_of rem None, hl_data = x\<rparr>"
      and len: "length (sp_array st) = length d0" and rem: "laid (sp_array st) rem None"
    using inv by (simp_all add: split_inv_def)
  have low: "tail_ok (sp_array st) (low_find st) (low_used st) (gpos st) (ptr_to_rec st) fi lows (Some idx)"
      and high: "tail_ok (sp_array st) (high_find st) (high_used st) (gpos2 st) (ptr_to_rec2 st) n highs (Some idx)"
    using inv by (simp_all add: split_inv_def)
  have "sp_empty st \<in> insert n (fst ` set chain)" unfolding cells(2) [symmetric] by simp
  then have emp: "sp_empty st < length d0" using b by blast
  have high': "tail_ok (sp_array st) (high_find st) False (gpos2 st) (ptr_to_rec2 st) n highs q" for q
    using high by (rule tail_ok_unused)
  have find: "low_find st \<longleftrightarrow> lows \<noteq> []" "high_find st \<longleftrightarrow> highs \<noteq> []"
    using low high by (simp_all add: tail_ok_def)
  show thesis
  proof (cases "lows = []")
    case True
    show thesis
    proof (cases "highs = []")
      case True
      have "visited = []" using inv \<open>lows = []\<close> True by (auto simp: split_inv_def filter_empty_conv)
      then have "idx = fi" using inv fi by (auto simp: split_inv_def)
      with inv i find True \<open>lows = []\<close> x show thesis
        by (intro that [of "st\<lparr>low_find := True, low_used := True, high_find := False, high_used := False,
              gpos := Some idx, ptr_to_rec := Some x\<rparr>" "[(idx, x)]"])
          (auto simp: low_step_def split_inv_def tail_ok_def)
    next
      case False
      with inv i find \<open>lows = []\<close> x high' emp show thesis
        by (intro that [of "st\<lparr>low_find := True, low_used := False, high_find := True, high_used := False,
              gpos := Some (sp_empty st), ptr_to_rec := Some x, sp_empty := idx\<rparr>" "[(sp_empty st, x)]"])
          (auto simp: low_step_def split_inv_def tail_ok_def)
    qed
  next
    case False
    show thesis
    proof (cases "low_used st")
      case True
      then have "tail_ok (sp_array st) True True (Some idx) (Some x) fi (lows @ [(idx, x)]) (first_of rem None)"
        using low i False find by (intro tail_ok_extend) (auto simp: tail_ok_def)
      with inv i find False x True high' show thesis
        by (intro that [of "st\<lparr>gpos := Some idx, ptr_to_rec := Some x\<rparr>" "lows @ [(idx, x)]"])
          (auto simp: low_step_def split_inv_def tail_ok_unused)
    next
      case unused: False
      let ?g = "fst (last lows)"
      have low1: "tail_ok (sp_array st) True (low_used st) (gpos st) (ptr_to_rec st) fi lows (Some idx)"
        using low find False by simp
      obtain d where d: "put_link (gpos st) (ptr_to_rec st) (Some idx) (sp_array st) = Some d"
        using tail_ok_put [OF low1] by blast
      have dl: "distinct (map fst lows)" using cells(1) by simp
      note close = tail_ok_close [OF low1 dl d]
      have "?g \<in> set (map fst lows)" using False by simp
      then have g: "?g \<notin> fst ` set rem" "?g \<notin> fst ` set highs" "?g \<noteq> idx" "?g \<in> insert n (fst ` set chain)"
        using cells by auto
      have "tail_ok d True True (Some idx) (Some x) fi (lows @ [(idx, x)]) (first_of rem None)"
        using close(1) i g by (intro tail_ok_extend [OF close(3) close(2)]) auto
      moreover have "tail_ok d (high_find st) False (gpos2 st) (ptr_to_rec2 st) n highs q" for q
        using high' g close(1) by simp
      moreover have "laid d rem None" "d ! idx = sp_array st ! idx" "length d = length (sp_array st)"
        using rem g close(1) by auto
      moreover have "d ! p = sp_array st ! p" if "p \<notin> fst ` set chain" "p \<noteq> n" for p
        using that g(4) close(1) by (metis insertE nth_list_update_neq)
      ultimately show thesis using inv i find False x d unused
        by (intro that [of "st\<lparr>sp_array := d, low_find := True, low_used := True, high_used := False,
              gpos := Some idx, ptr_to_rec := Some x\<rparr>" "lows @ [(idx, x)]"])
          (auto simp: low_step_def split_inv_def)
    qed
  qed
qed

text \<open>One step of the loop at a record that moves.\<close>

lemma high_step_inv:
  assumes inv: "split_inv low d0 fi chain n st visited ((idx, x) # rem) lows highs"
    and dist: "distinct (n # map fst chain)" and fi: "fst (hd chain) = fi" and x: "\<not> low x"
    and b: "insert n (fst ` set chain) \<subseteq> {..<length d0}"
  obtains st' highs' where "high_step idx x st = Some st'"
    and "split_inv low d0 fi chain n st' (visited @ [(idx, x)]) rem lows highs'" and "highs' \<noteq> []"
    and "sp_array st' ! idx = \<lparr>hl_next = first_of rem None, hl_data = x\<rparr>"
proof -
  note cells = split_inv_cells [OF inv dist]
  have i: "idx < length (sp_array st)" "sp_array st ! idx = \<lparr>hl_next = first_of rem None, hl_data = x\<rparr>"
      and len: "length (sp_array st) = length d0" and rem: "laid (sp_array st) rem None"
    using inv by (simp_all add: split_inv_def)
  have low: "tail_ok (sp_array st) (low_find st) (low_used st) (gpos st) (ptr_to_rec st) fi lows (Some idx)"
      and high: "tail_ok (sp_array st) (high_find st) (high_used st) (gpos2 st) (ptr_to_rec2 st) n highs (Some idx)"
    using inv by (simp_all add: split_inv_def)
  have low': "tail_ok (sp_array st) (low_find st) False (gpos st) (ptr_to_rec st) fi lows q" for q
    using low by (rule tail_ok_unused)
  have find: "low_find st \<longleftrightarrow> lows \<noteq> []" "high_find st \<longleftrightarrow> highs \<noteq> []"
    using low high by (simp_all add: tail_ok_def)
  show thesis
  proof (cases "highs = []")
    case True
    then have emp: "sp_empty st = n" using inv by (simp add: split_inv_def)
    have "idx = fi" if "lows = []"
    proof -
      have "visited = []" using inv that True by (auto simp: split_inv_def filter_empty_conv)
      then show ?thesis using inv fi by (auto simp: split_inv_def)
    qed
    moreover have "tail_ok (sp_array st) True False (Some n) (Some x) n [(n, x)] q" for q
      using b len by (intro tail_ok_one) simp
    ultimately show thesis using inv i find True x low' emp
      by (intro that [of "st\<lparr>low_used := False, high_find := True, high_used := False,
            gpos2 := Some (sp_empty st), sp_empty := idx, ptr_to_rec2 := Some x\<rparr>" "[(n, x)]"])
        (auto simp: high_step_def split_inv_def)
  next
    case False
    show thesis
    proof (cases "high_used st")
      case True
      then have "tail_ok (sp_array st) True True (Some idx) (Some x) n (highs @ [(idx, x)]) (first_of rem None)"
        using high i False find by (intro tail_ok_extend) (auto simp: tail_ok_def)
      with inv i find False x True low' show thesis
        by (intro that [of "st\<lparr>gpos2 := Some idx, ptr_to_rec2 := Some x\<rparr>" "highs @ [(idx, x)]"])
          (auto simp: high_step_def split_inv_def tail_ok_unused)
    next
      case unused: False
      let ?g = "fst (last highs)"
      have high1: "tail_ok (sp_array st) True (high_used st) (gpos2 st) (ptr_to_rec2 st) n highs (Some idx)"
        using high find False by simp
      obtain d where d: "put_link (gpos2 st) (ptr_to_rec2 st) (Some idx) (sp_array st) = Some d"
        using tail_ok_put [OF high1] by blast
      have dl: "distinct (map fst highs)" using cells(1) by simp
      note close = tail_ok_close [OF high1 dl d]
      have "?g \<in> set (map fst highs)" using False by simp
      then have g: "?g \<notin> fst ` set rem" "?g \<notin> fst ` set lows" "?g \<noteq> idx" "?g \<in> insert n (fst ` set chain)"
        using cells by auto
      have "tail_ok d True True (Some idx) (Some x) n (highs @ [(idx, x)]) (first_of rem None)"
        using close(1) i g by (intro tail_ok_extend [OF close(3) close(2)]) auto
      moreover have "tail_ok d (low_find st) False (gpos st) (ptr_to_rec st) fi lows q" for q
        using low' g close(1) by simp
      moreover have "laid d rem None" "d ! idx = sp_array st ! idx" "length d = length (sp_array st)"
        using rem g close(1) by auto
      moreover have "d ! p = sp_array st ! p" if "p \<notin> fst ` set chain" "p \<noteq> n" for p
        using that g(4) close(1) by (metis insertE nth_list_update_neq)
      ultimately show thesis using inv i find False x d unused
        by (intro that [of "st\<lparr>sp_array := d, low_used := False, high_find := True, high_used := True,
              gpos2 := Some idx, ptr_to_rec2 := Some x\<rparr>" "highs @ [(idx, x)]"])
          (auto simp: high_step_def split_inv_def)
    qed
  qed
qed

lemma split_loop_inv:
  assumes inv: "split_inv low d0 fi chain n st visited rem lows highs" and rem: "rem \<noteq> []"
    and dist: "distinct (n # map fst chain)" and fi: "fst (hd chain) = fi"
    and b: "insert n (fst ` set chain) \<subseteq> {..<length d0}"
    and home: "\<forall>pr \<in> set chain. home ops blen recs (snd pr) = fi"
    and low: "\<And>r. low r \<longleftrightarrow> rec_hashnr ops r AND (blen div 2) = 0"
  shows "\<exists>st' lows' highs'. split_loop ops blen recs fi st (fst (hd rem)) = Some st' \<and>
    split_inv low d0 fi chain n st' chain [] lows' highs'"
  using inv rem
proof (induction rem arbitrary: st visited lows highs)
  case (Cons pr rem)
  obtain idx x where pr: "pr = (idx, x)" by (cases pr)
  let ?step = "if rec_hashnr ops x AND (blen div 2) = 0 then low_step idx x st else high_step idx x st"
  have inv: "split_inv low d0 fi chain n st visited ((idx, x) # rem) lows highs" using Cons.prems pr by simp
  then have i: "link_at (sp_array st) idx = Some \<lparr>hl_next = first_of rem None, hl_data = x\<rparr>"
      and ch: "chain = visited @ (idx, x) # rem"
    by (simp_all add: split_inv_def link_at_def)
  obtain st' lows' highs' where s: "?step = Some st'"
      "split_inv low d0 fi chain n st' (visited @ [(idx, x)]) rem lows' highs'"
      "sp_array st' ! idx = \<lparr>hl_next = first_of rem None, hl_data = x\<rparr>"
  proof (cases "low x")
    case True
    from low_step_inv [OF inv dist fi True b] that True low show thesis by metis
  next
    case False
    from high_step_inv [OF inv dist fi False b] that False low show thesis by metis
  qed
  have "idx < length d0" using b ch by auto
  then have i': "link_at (sp_array st') idx = Some \<lparr>hl_next = first_of rem None, hl_data = x\<rparr>"
    using s by (simp add: link_at_def split_inv_def)
  have m: "my_hash_mask (rec_hashnr ops x) blen recs = fi" using home ch by (simp add: home_def)
  show ?case
  proof (cases "rem = []")
    case True
    with s(2) ch have "split_inv low d0 fi chain n st' chain [] lows' highs'" by simp
    moreover have "split_loop ops blen recs fi st (fst (hd (pr # rem))) = Some st'"
      using s(1) i i' m True pr by (subst split_loop.simps) auto
    ultimately show ?thesis by blast
  next
    case False
    then have n: "first_of rem None = Some (fst (hd rem))" by (cases rem) auto
    have "split_loop ops blen recs fi st (fst (hd (pr # rem))) = split_loop ops blen recs fi st' (fst (hd rem))"
      using s(1) i i' m n pr by (subst split_loop.simps) auto
    with Cons.IH [OF s(2) False] show ?thesis by simp
  qed
qed simp

lemma close_tail:
  assumes t: "tail_ok d fnd used g r start ps None" and dist: "distinct (map fst ps)"
  obtains d' where "(if fnd \<and> \<not> used then put_link g r None d else Some d) = Some d'" and "laid d' ps None"
    and "length d' = length d" and "\<And>p. p \<notin> fst ` set ps \<Longrightarrow> d' ! p = d ! p"
    and "\<And>f u g r s ps' q. fst ` set ps' \<inter> fst ` set ps = {} \<Longrightarrow>
      tail_ok d' f u g r s ps' q = tail_ok d f u g r s ps' q"
proof (cases "fnd \<and> \<not> used")
  case True
  then have t1: "tail_ok d True used g r start ps None" using t by simp
  obtain d' where d: "put_link g r None d = Some d'" using tail_ok_put [OF t1] by blast
  note close = tail_ok_close [OF t1 dist d]
  have l: "fst (last ps) \<in> fst ` set ps" using t True by (simp add: tail_ok_def)
  show thesis
  proof (rule that)
    show "(if fnd \<and> \<not> used then put_link g r None d else Some d) = Some d'" using d True by simp
    show "laid d' ps None" by (rule close(2))
    show "length d' = length d" by (simp add: close(1))
    show "d' ! p = d ! p" if "p \<notin> fst ` set ps" for p
    proof -
      have "p \<noteq> fst (last ps)" using that l by blast
      then show ?thesis by (simp add: close(1))
    qed
    show "tail_ok d' f u g r s ps' q = tail_ok d f u g r s ps' q" if "fst ` set ps' \<inter> fst ` set ps = {}"
      for f u g r s ps' q
    proof -
      have "fst (last ps) \<notin> fst ` set ps'" using that l by blast
      then show ?thesis by (simp add: close(1))
    qed
  qed
next
  case False
  with t show thesis by (intro that [of d]) (auto simp: tail_ok_def)
qed

lemma split_end_laid:
  assumes inv: "split_inv low d0 fi chain n st chain [] lows highs" and dist: "distinct (n # map fst chain)"
  obtains d where "split_end st = Some (st\<lparr>sp_array := d\<rparr>)" and "laid d lows None" and "laid d highs None"
    and "length d = length d0" and "\<And>p. p \<notin> fst ` set chain \<Longrightarrow> p \<noteq> n \<Longrightarrow> d ! p = d0 ! p"
proof -
  note cells = split_inv_cells [OF inv dist]
  have sets: "fst ` set lows \<inter> fst ` set highs = {}" "distinct (map fst lows)" "distinct (map fst highs)"
      "fst ` set lows \<subseteq> insert n (fst ` set chain)" "fst ` set highs \<subseteq> insert n (fst ` set chain)"
    using cells by auto
  have low: "tail_ok (sp_array st) (low_find st) (low_used st) (gpos st) (ptr_to_rec st) fi lows None"
      and high: "tail_ok (sp_array st) (high_find st) (high_used st) (gpos2 st) (ptr_to_rec2 st) n highs None"
      and len: "length (sp_array st) = length d0"
      and same: "\<And>p. p \<notin> insert n (fst ` set chain) \<Longrightarrow> sp_array st ! p = d0 ! p"
    using inv by (simp_all add: split_inv_def)
  obtain d1 where d1: "(if low_find st \<and> \<not> low_used st then put_link (gpos st) (ptr_to_rec st) None (sp_array st)
        else Some (sp_array st)) = Some d1" "laid d1 lows None" "length d1 = length (sp_array st)"
      "\<And>p. p \<notin> fst ` set lows \<Longrightarrow> d1 ! p = sp_array st ! p"
      "\<And>f u g r s ps' q. fst ` set ps' \<inter> fst ` set lows = {} \<Longrightarrow>
        tail_ok d1 f u g r s ps' q = tail_ok (sp_array st) f u g r s ps' q"
    by (rule close_tail [OF low sets(2)]) (rule that; assumption)
  have high1: "tail_ok d1 (high_find st) (high_used st) (gpos2 st) (ptr_to_rec2 st) n highs None"
    using high d1(5) [of highs] sets(1) by (simp add: Int_commute)
  obtain d2 where d2: "(if high_find st \<and> \<not> high_used st then put_link (gpos2 st) (ptr_to_rec2 st) None d1
        else Some d1) = Some d2" "laid d2 highs None" "length d2 = length d1"
      "\<And>p. p \<notin> fst ` set highs \<Longrightarrow> d2 ! p = d1 ! p"
    by (rule close_tail [OF high1 sets(3)]) (rule that; assumption)
  have "laid d2 lows None"
  proof (rule laid_cong [OF d1(2)])
    show "length d1 \<le> length d2" by (simp add: d2(3))
    show "\<forall>p \<in> fst ` set lows. d2 ! p = d1 ! p" using d2(4) sets(1) by blast
  qed
  moreover have "d2 ! p = d0 ! p" if "p \<notin> fst ` set chain" "p \<noteq> n" for p
  proof -
    have p: "p \<notin> insert n (fst ` set chain)" using that by simp
    then have "p \<notin> fst ` set lows" "p \<notin> fst ` set highs" using sets by blast+
    with d1(4) d2(4) same [OF p] show ?thesis by simp
  qed
  moreover have "split_end st = Some (st\<lparr>sp_array := d2\<rparr>)" unfolding split_end_def d1(1) by (simp add: d2(1))
  ultimately show thesis using d2(2,3) d1(3) len by (intro that [of d2]) simp_all
qed

end
