(* ===== verification/Hash_Table_Insert.thy ===== *)
theory Hash_Table_Insert
  imports Hash_Table_Laws
begin

text \<open>
  \<open>my_hash_insert\<close> keeps the invariant and adds its record: first the chain of one position is split
  when the table grows, then the new record takes its place.
\<close>

unbundle bit_operations_syntax

section \<open>The table after the split\<close>

text \<open>The records of all chains when one chain is changed.\<close>

definition chain_records :: "nat \<Rightarrow> (nat \<Rightarrow> (nat \<times> 'r) list) \<Rightarrow> 'r multiset" where
  "chain_records n C = (\<Sum>i<n. mset (map snd (C i)))"

lemma chain_records_update:
  assumes "k < n"
  shows "chain_records n (C(k := ps)) + mset (map snd (C k)) = chain_records n C + mset (map snd ps)"
proof -
  let ?rest = "\<Sum>i\<in>{..<n} - {k}. mset (map snd (C i))"
  have "chain_records n (C(k := ps)) = mset (map snd ps) + ?rest"
    unfolding chain_records_def using assms by (subst sum.remove [of _ k]) (auto intro: sum.cong)
  moreover have "chain_records n C = mset (map snd (C k)) + ?rest"
    unfolding chain_records_def using assms by (subst sum.remove [of _ k]) auto
  ultimately show ?thesis by (simp add: ac_simps)
qed

lemma chain_records_Suc: "chain_records (Suc n) C = chain_records n C + mset (map snd (C n))"
  by (simp add: chain_records_def)

lemma chain_records_upd_outside: "n \<le> k \<Longrightarrow> chain_records n (C(k := ps)) = chain_records n C"
  unfolding chain_records_def by (rule sum.cong) auto

lemma hash_records_chain_records: "chains_of ops h C \<Longrightarrow> hash_records h = chain_records (records h) C"
  unfolding chain_records_def by (rule hash_records_chains)

lemma laid_grow: "laid d ps q \<Longrightarrow> laid (d @ ds) ps q"
  by (induction ps) (auto simp: nth_append)

lemma split_no_chain:
  assumes ch: "chains_of ops h C" and n: "0 < records h"
    and fi: "fi = records h - blength h div 2" and none: "C fi = []"
  shows "split_loop ops (blength h) (records h) fi (split_init (hash_array h @ [fresh]) (records h)) fi =
      Some (split_init (hash_array h @ [fresh]) (records h))"
    and "chained (home ops (blength h) (records h + 1)) (hash_array h @ [fresh]) {..<records h} C"
proof -
  let ?n = "records h" and ?b = "blength h" and ?st = "split_init (hash_array h @ [fresh]) (records h)"
  note len = chains_ofD(1) [OF ch] and sz = chains_ofD(2) [OF ch] and c = chains_ofD(3) [OF ch]
  have fi_less: "fi < ?n" using n sizes_ok_ge_2 [OF sz n] fi by simp
  have away: "home ops ?b ?n r \<noteq> fi" if "pr \<in> set (C (home ops ?b ?n r))" for pr r
    using that none by auto
  have "home ops ?b ?n (hl_data (hash_array h ! fi)) \<noteq> fi"
    using fi_less by (intro away [OF chainedD(6) [OF c]]) simp
  then have "my_hash_mask (rec_hashnr ops (hl_data (hash_array h ! fi))) ?b ?n \<noteq> fi" by (simp add: home_def)
  moreover have "link_at (sp_array ?st) fi = Some (hash_array h ! fi)"
    using fi_less len by (simp add: split_init_def link_at_def nth_append)
  moreover have "\<not> low_find ?st" "\<not> low_used ?st" "\<not> high_find ?st" "\<not> high_used ?st"
    by (simp_all add: split_init_def)
  ultimately show "split_loop ops ?b ?n fi ?st fi = Some ?st" by (subst split_loop.simps) simp
  have same: "home ops ?b (?n + 1) r = home ops ?b ?n r" if "home ops ?b ?n r \<noteq> fi" for r
    using that mask_grow(1,2) [OF sz n, of "rec_hashnr ops r"] fi unfolding home_def by metis
  show "chained (home ops ?b (?n + 1)) (hash_array h @ [fresh]) {..<?n} C"
    unfolding chained_def
  proof (intro conjI allI ballI)
    show "laid (hash_array h @ [fresh]) (C i) None" for i using chainedD(1) [OF c] by (rule laid_grow)
    show "first_of (C i) (Some i) = Some i" for i using chainedD(2) [OF c] .
    show "fst pr \<in> {..<?n}" if "pr \<in> set (C i)" for i pr using chainedD(3) [OF c that] .
    show "home ops ?b (?n + 1) (snd pr) = i" if "pr \<in> set (C i)" for i pr
    proof -
      have "home ops ?b ?n (snd pr) = i" using chainedD(4) [OF c that] .
      with that away [of pr "snd pr"] same [of "snd pr"] show ?thesis by simp
    qed
    show "p < length (hash_array h @ [fresh])" if "p \<in> {..<?n}" for p using that len by simp
    show "(p, hl_data ((hash_array h @ [fresh]) ! p))
        \<in> set (C (home ops ?b (?n + 1) (hl_data ((hash_array h @ [fresh]) ! p))))" if "p \<in> {..<?n}" for p
    proof -
      let ?r = "hl_data (hash_array h ! p)"
      have p: "(p, ?r) \<in> set (C (home ops ?b ?n ?r))" using chainedD(6) [OF c that] .
      have "(hash_array h @ [fresh]) ! p = hash_array h ! p" using that len by (simp add: nth_append)
      then show ?thesis using p same [OF away [OF p]] by (simp only:)
    qed
  qed
qed

lemma tail_ok_first: "tail_ok d fnd used g r start ps q \<Longrightarrow> first_of ps (Some start) = Some start"
  by (cases ps) (auto simp: tail_ok_def)

lemma split_chain:
  assumes ch: "chains_of ops h C" and n: "0 < records h"
    and fi: "fi = records h - blength h div 2" and some: "C fi \<noteq> []"
  obtains st st1 lows highs where
    "split_loop ops (blength h) (records h) fi (split_init (hash_array h @ [fresh]) (records h)) fi = Some st1"
    and "split_end st1 = Some st" and "length (sp_array st) = Suc (records h)"
    and "laid (sp_array st) lows None" and "laid (sp_array st) highs None"
    and "first_of lows (Some fi) = Some fi" and "first_of highs (Some (records h)) = Some (records h)"
    and "map snd lows = filter (\<lambda>r. rec_hashnr ops r AND (blength h div 2) = 0) (map snd (C fi))"
    and "map snd highs = filter (\<lambda>r. rec_hashnr ops r AND (blength h div 2) \<noteq> 0) (map snd (C fi))"
    and "set (sp_empty st # map fst lows @ map fst highs) = insert (records h) (fst ` set (C fi))"
    and "sp_empty st \<notin> fst ` set lows" and "sp_empty st \<notin> fst ` set highs"
    and "\<And>p. p \<notin> fst ` set (C fi) \<Longrightarrow> p \<noteq> records h \<Longrightarrow> sp_array st ! p = (hash_array h @ [fresh]) ! p"
proof -
  let ?n = "records h" and ?b = "blength h" and ?d0 = "hash_array h @ [fresh]"
  let ?low = "\<lambda>r. rec_hashnr ops r AND (?b div 2) = 0"
  note len = chains_ofD(1) [OF ch] and sz = chains_ofD(2) [OF ch] and c = chains_ofD(3) [OF ch]
  have cells: "fst ` set (C fi) \<subseteq> {..<?n}" using chainedD(3) [OF c] by blast
  have dist: "distinct (?n # map fst (C fi))" using chained_distinct [OF c, of fi] cells by auto
  have hd: "fst (hd (C fi)) = fi" using chainedD(2) [OF c, of fi] some by (cases "C fi") auto
  have b: "insert ?n (fst ` set (C fi)) \<subseteq> {..<length ?d0}" using cells len by auto
  have "laid ?d0 (C fi) None" using chainedD(1) [OF c] by (rule laid_grow)
  then have init: "split_inv ?low ?d0 fi (C fi) ?n (split_init ?d0 ?n) [] (C fi) [] []"
    by (simp add: split_inv_def split_init_def tail_ok_def)
  have hom: "\<forall>pr \<in> set (C fi). home ops ?b ?n (snd pr) = fi" using chainedD(4) [OF c] by blast
  obtain st1 lows highs where s: "split_loop ops ?b ?n fi (split_init ?d0 ?n) fi = Some st1"
      "split_inv ?low ?d0 fi (C fi) ?n st1 (C fi) [] lows highs"
    using split_loop_inv [OF init some dist hd b hom refl] unfolding hd by blast
  obtain d where d: "split_end st1 = Some (st1\<lparr>sp_array := d\<rparr>)" "laid d lows None" "laid d highs None"
      "length d = length ?d0" "\<And>p. p \<notin> fst ` set (C fi) \<Longrightarrow> p \<noteq> ?n \<Longrightarrow> d ! p = ?d0 ! p"
    by (rule split_end_laid [OF s(2) dist]) (rule that; assumption)
  note cl = split_inv_cells [OF s(2) dist]
  have t: "tail_ok (sp_array st1) (low_find st1) (low_used st1) (gpos st1) (ptr_to_rec st1) fi lows None"
      "tail_ok (sp_array st1) (high_find st1) (high_used st1) (gpos2 st1) (ptr_to_rec2 st1) ?n highs None"
      and recs: "map snd lows = filter ?low (map snd (C fi))" "map snd highs = filter (\<lambda>r. \<not> ?low r) (map snd (C fi))"
    using s(2) by (simp_all add: split_inv_def)
  show thesis
  proof (rule that [of st1 "st1\<lparr>sp_array := d\<rparr>" lows highs])
    show "first_of lows (Some fi) = Some fi" "first_of highs (Some ?n) = Some ?n"
      using t by (auto intro: tail_ok_first)
  qed (use s(1) d cl len recs in simp_all)
qed

lemma home_grow:
  assumes sz: "sizes_ok b n" and n: "0 < n"
  shows "home ops b n r \<noteq> n - b div 2 \<Longrightarrow> home ops b (n + 1) r = home ops b n r"
    and "home ops b n r = n - b div 2 \<Longrightarrow>
      home ops b (n + 1) r = (if rec_hashnr ops r AND (b div 2) = 0 then n - b div 2 else n)"
  using mask_grow [OF sz n, of "rec_hashnr ops r"] unfolding home_def by metis+

text \<open>
  Changing the chains of the positions \<open>K\<close>: the cells outside these chains keep their contents, and
  the records outside keep their positions.
\<close>

lemma chained_replace:
  assumes c: "chained hom d S C" and len: "length d' = length d + k"
    and new: "\<And>i. i \<in> K \<Longrightarrow> laid d' (C' i) None" "\<And>i. i \<in> K \<Longrightarrow> first_of (C' i) (Some i) = Some i"
      "\<And>i pr. i \<in> K \<Longrightarrow> pr \<in> set (C' i) \<Longrightarrow> hom' (snd pr) = i"
    and old: "\<And>i. i \<notin> K \<Longrightarrow> C' i = C i" "\<And>i pr. i \<notin> K \<Longrightarrow> pr \<in> set (C i) \<Longrightarrow> hom' (snd pr) = i"
    and cells: "S' = (S - (\<Union>i\<in>K. fst ` set (C i))) \<union> (\<Union>i\<in>K. fst ` set (C' i))"
    and same: "\<And>p. p \<in> S \<Longrightarrow> p \<notin> (\<Union>i\<in>K. fst ` set (C i)) \<Longrightarrow> d' ! p = d ! p"
  shows "chained hom' d' S' C'"
  unfolding chained_def
proof (intro conjI allI ballI)
  have outside: "fst pr \<in> S - (\<Union>i\<in>K. fst ` set (C i))" if "pr \<in> set (C i)" "i \<notin> K" for pr i
    using chained_same_cell(1) [OF c that(1)] chainedD(3) [OF c that(1)] that(2) by blast
  fix i
  show "laid d' (C' i) None"
  proof (cases "i \<in> K")
    case False
    have "laid d' (C i) None"
    proof (rule laid_cong [OF chainedD(1) [OF c]])
      show "\<forall>p \<in> fst ` set (C i). d' ! p = d ! p" using outside [of _ i] same False by blast
    qed (simp add: len)
    with False old show ?thesis by simp
  qed (rule new)
  show "first_of (C' i) (Some i) = Some i" using new(2) old(1) chainedD(2) [OF c] by (cases "i \<in> K") simp_all
  fix pr assume pr: "pr \<in> set (C' i)"
  show "fst pr \<in> S'"
    using pr outside [of pr i] old(1) unfolding cells by (cases "i \<in> K") auto
  show "hom' (snd pr) = i" using pr new(3) old by (cases "i \<in> K") simp_all
next
  fix p assume p: "p \<in> S'"
  show "p < length d'"
  proof (cases "\<exists>i\<in>K. p \<in> fst ` set (C' i)")
    case True
    then show ?thesis using laid_in [OF new(1)] by blast
  qed (use p cells chainedD(5) [OF c, of p] len in auto)
  show "(p, hl_data (d' ! p)) \<in> set (C' (hom' (hl_data (d' ! p))))"
  proof (cases "\<exists>i\<in>K. p \<in> fst ` set (C' i)")
    case True
    then obtain i r where i: "i \<in> K" "(p, r) \<in> set (C' i)" by force
    then have "hl_data (d' ! p) = r" using laid_in [OF new(1) [OF i(1)] i(2)] by simp
    with i new(3) [OF i] show ?thesis by simp
  next
    case False
    then have q: "p \<in> S" "p \<notin> (\<Union>i\<in>K. fst ` set (C i))" using p cells by auto
    let ?r = "hl_data (d ! p)"
    have in_c: "(p, ?r) \<in> set (C (hom ?r))" using chainedD(6) [OF c q(1)] .
    then have k: "hom ?r \<notin> K" using q(2) by force
    with in_c old(1) [OF k] old(2) [OF k in_c] same [OF q] show ?thesis by simp
  qed
qed

lemma filter_split_mset: "mset (filter P xs) + mset (filter (\<lambda>x. \<not> P x) xs) = mset xs"
  by (induction xs) auto

lemma freed_cell:
  assumes "A = insert n F - {e}" "e \<in> insert n F" "F \<subseteq> {..<n :: nat}"
  shows "{..n} - {e} = ({..<n} - F) \<union> A"
proof -
  have "{..n} = insert n {..<n}" by auto
  with assms show ?thesis by auto
qed

text \<open>
  The state in which the new record is put into the table: one cell is free, and the positions are
  those of the larger table.
\<close>

lemma split_chained:
  assumes ch: "chains_of ops h C" and n: "0 < records h" and fi: "fi = records h - blength h div 2"
  obtains st st1 C' where
    "split_loop ops (blength h) (records h) fi (split_init (hash_array h @ [fresh]) (records h)) fi = Some st1"
    and "split_end st1 = Some st" and "length (sp_array st) = Suc (records h)" and "sp_empty st \<le> records h"
    and "chained (home ops (blength h) (records h + 1)) (sp_array st) ({..records h} - {sp_empty st}) C'"
    and "chain_records (Suc (records h)) C' = hash_records h"
proof (cases "C fi = []")
  case True
  let ?st = "split_init (hash_array h @ [fresh]) (records h)"
  note sn = split_no_chain [OF ch n fi True]
  have "C (records h) = []" using chained_outside [OF chains_ofD(3) [OF ch]] by simp
  then have "chain_records (Suc (records h)) C = hash_records h"
    unfolding hash_records_chain_records [OF ch] by (simp add: chain_records_Suc)
  moreover have "{..records h} - {records h} = {..<records h}" by auto
  ultimately show thesis using sn chains_ofD(1) [OF ch]
    by (intro that [of ?st ?st C]) (simp_all add: split_end_def split_init_def)
next
  case False
  let ?n = "records h" and ?b = "blength h" and ?low = "\<lambda>r. rec_hashnr ops r AND (blength h div 2) = 0"
  note len = chains_ofD(1) [OF ch] and sz = chains_ofD(2) [OF ch] and c = chains_ofD(3) [OF ch]
  have fi_less: "fi < ?n" using n sizes_ok_ge_2 [OF sz n] fi by simp
  show thesis
  proof (rule split_chain [OF ch n fi False])
    fix st st1 lows highs
    assume s: "split_loop ops ?b ?n fi (split_init (hash_array h @ [fresh]) ?n) fi = Some st1" "split_end st1 = Some st"
      and l: "length (sp_array st) = Suc ?n" "laid (sp_array st) lows None" "laid (sp_array st) highs None"
        "first_of lows (Some fi) = Some fi" "first_of highs (Some ?n) = Some ?n"
      and recs: "map snd lows = filter ?low (map snd (C fi))" "map snd highs = filter (\<lambda>r. \<not> ?low r) (map snd (C fi))"
      and cells: "set (sp_empty st # map fst lows @ map fst highs) = insert ?n (fst ` set (C fi))"
        "sp_empty st \<notin> fst ` set lows" "sp_empty st \<notin> fst ` set highs"
      and same: "\<And>p. p \<notin> fst ` set (C fi) \<Longrightarrow> p \<noteq> ?n \<Longrightarrow> sp_array st ! p = (hash_array h @ [fresh]) ! p"
    have hom: "home ops ?b ?n r = ?n - ?b div 2" if "r \<in> set (map snd (C fi))" for r
      using that chainedD(4) [OF c] fi by auto
    have low: "home ops ?b (?n + 1) (snd pr) = fi" if "pr \<in> set lows" for pr
    proof -
      have "snd pr \<in> set (map snd lows)" using that by simp
      then have "snd pr \<in> set (map snd (C fi))" "?low (snd pr)" unfolding recs(1) by auto
      with home_grow(2) [OF sz n hom, of "snd pr"] fi show ?thesis by simp
    qed
    have high: "home ops ?b (?n + 1) (snd pr) = ?n" if "pr \<in> set highs" for pr
    proof -
      have "snd pr \<in> set (map snd highs)" using that by simp
      then have "snd pr \<in> set (map snd (C fi))" "\<not> ?low (snd pr)" unfolding recs(2) by auto
      with home_grow(2) [OF sz n hom, of "snd pr"] show ?thesis by simp
    qed
    have "chained (home ops ?b (?n + 1)) (sp_array st) ({..?n} - {sp_empty st}) (C(fi := lows, ?n := highs))"
    proof (rule chained_replace [where K = "{fi, ?n}" and k = 1, OF c])
      have none: "C ?n = []" using chained_outside [OF c, of ?n] by simp
      have sub: "fst ` set (C fi) \<subseteq> {..<?n}" using chainedD(3) [OF c] by blast
      have "fst ` set lows \<union> fst ` set highs = insert ?n (fst ` set (C fi)) - {sp_empty st}"
        unfolding cells(1) [symmetric] using cells(2,3) by simp
      moreover have "sp_empty st \<in> insert ?n (fst ` set (C fi))" unfolding cells(1) [symmetric] by simp
      ultimately have "{..?n} - {sp_empty st} = ({..<?n} - fst ` set (C fi)) \<union> (fst ` set lows \<union> fst ` set highs)"
        using sub by (rule freed_cell)
      moreover have "(\<Union>i\<in>{fi, ?n}. fst ` set (C i)) = fst ` set (C fi)" by (simp add: none)
      moreover have "(\<Union>i\<in>{fi, ?n}. fst ` set ((C(fi := lows, ?n := highs)) i)) = fst ` set lows \<union> fst ` set highs"
        using fi_less by simp
      ultimately show "{..?n} - {sp_empty st} = {..<?n} - (\<Union>i\<in>{fi, ?n}. fst ` set (C i)) \<union>
          (\<Union>i\<in>{fi, ?n}. fst ` set ((C(fi := lows, ?n := highs)) i))" by simp
      show "home ops ?b (?n + 1) (snd pr) = i" if "i \<notin> {fi, ?n}" "pr \<in> set (C i)" for i pr
        using home_grow(1) [OF sz n, of ops "snd pr"] that(1) chainedD(4) [OF c that(2)] fi by simp
      show "sp_array st ! p = hash_array h ! p" if "p \<in> {..<?n}" "p \<notin> (\<Union>i\<in>{fi, ?n}. fst ` set (C i))" for p
        using same [of p] that len by (simp add: nth_append)
      show "length (sp_array st) = length (hash_array h) + 1" using l(1) len by simp
      fix i
      show "(C(fi := lows, ?n := highs)) i = C i" if "i \<notin> {fi, ?n}" using that by simp
      assume i: "i \<in> {fi, ?n}"
      then show "laid (sp_array st) ((C(fi := lows, ?n := highs)) i) None" using l(2,3) by auto
      show "first_of ((C(fi := lows, ?n := highs)) i) (Some i) = Some i" using i l(4,5) by auto
      show "home ops ?b (?n + 1) (snd pr) = i" if "pr \<in> set ((C(fi := lows, ?n := highs)) i)" for pr
        using that i low high fi_less by (cases "i = ?n") auto
    qed
    moreover have "chain_records (Suc ?n) (C(fi := lows, ?n := highs)) = hash_records h"
    proof -
      have "mset (map snd (C fi)) = mset (map snd lows) + mset (map snd highs)"
        unfolding recs by (rule filter_split_mset [symmetric])
      with chain_records_update [OF fi_less, of C lows] show ?thesis
        unfolding hash_records_chain_records [OF ch] by (simp add: chain_records_Suc chain_records_upd_outside)
    qed
    moreover have "sp_empty st \<le> ?n"
    proof -
      have "sp_empty st \<in> insert ?n (fst ` set (C fi))" unfolding cells(1) [symmetric] by simp
      moreover have "fst ` set (C fi) \<subseteq> {..<?n}" using chainedD(3) [OF c] by blast
      ultimately show ?thesis by auto
    qed
    ultimately show thesis using s l(1) by (intro that [of st1 st "C(fi := lows, ?n := highs)"])
  qed
qed

section \<open>Placing the record\<close>

lemma movelink_laid:
  assumes "laid d (xs @ [(q, z)]) link" and "\<forall>pr \<in> set (xs @ [(q, z)]). link \<noteq> Some (fst pr)"
    and "first_of (xs @ [(q, z)]) None = Some start"
  shows "movelink d link start newlink = Some (d[q := \<lparr>hl_next = newlink, hl_data = z\<rparr>])"
  using assms
proof (induction xs arbitrary: start)
  case Nil
  then show ?case by (subst movelink.simps) (auto simp: link_at_def)
next
  case (Cons pr xs)
  obtain i where i: "first_of (xs @ [(q, z)]) None = Some i" by (cases xs) auto
  then have "first_of (xs @ [(q, z)]) link = Some i" and "link \<noteq> Some i" using Cons.prems(2) by (cases xs; auto)+
  with Cons.IH [OF _ _ i] Cons.prems show ?case by (subst movelink.simps) (auto simp: link_at_def)
qed

text \<open>A cell other than the first one of a chain moves to the free cell \<open>e\<close>.\<close>

lemma movelink_relocates:
  assumes l: "laid d (xs @ (p, y) # ys) None" and xs: "first_of xs None = Some g"
    and e: "e < length d" "e \<notin> fst ` set (xs @ ys)" and len: "length d' = length d" and de: "d' ! e = d ! p"
    and same: "\<And>c. c \<in> fst ` set (xs @ ys) \<Longrightarrow> d' ! c = d ! c"
  obtains d'' where "movelink d' (Some p) g (Some e) = Some d''" and "laid d'' (xs @ (e, y) # ys) None"
    and "length d'' = length d" and "\<And>c. c \<notin> fst ` set xs \<Longrightarrow> d'' ! c = d' ! c"
proof -
  obtain xs' q z where xs': "xs = xs' @ [(q, z)]" using xs by (cases xs rule: rev_cases) auto
  have dist: "distinct (map fst (xs @ (p, y) # ys))" by (rule laid_distinct [OF l])
  have lxs: "laid d' xs (Some p)"
    by (rule laid_cong [where d = d]) (use l same len in auto)
  have lys: "laid d' ys None"
    by (rule laid_cong [where d = d]) (use l same len in auto)
  let ?d = "d'[q := \<lparr>hl_next = Some e, hl_data = z\<rparr>]"
  show thesis
  proof (rule that [of ?d])
    show "movelink d' (Some p) g (Some e) = Some ?d"
    proof (rule movelink_laid)
      show "laid d' (xs' @ [(q, z)]) (Some p)" using lxs xs' by simp
      show "\<forall>pr\<in>set (xs' @ [(q, z)]). Some p \<noteq> Some (fst pr)" using dist xs' by auto
    qed (use xs xs' in simp)
    have "q \<notin> fst ` set xs'" "q \<notin> fst ` set ys" "q \<noteq> e" using dist e xs' by auto
    then show "laid ?d (xs @ (e, y) # ys) None"
      using lxs lys e len de l xs' by auto
    show "?d ! c = d' ! c" if "c \<notin> fst ` set xs" for c using that xs' by auto
  qed (simp add: len)
qed

lemma chained_foreign:
  assumes c: "chained hom d S C" and idx: "idx \<in> S" and g: "g = hom (hl_data (d ! idx))" "g \<noteq> idx"
  obtains xs ys where "C g = xs @ (idx, hl_data (d ! idx)) # ys" and "first_of xs None = Some g" and "C idx = []"
proof -
  let ?y = "hl_data (d ! idx)"
  have in_g: "(idx, ?y) \<in> set (C g)" using chainedD(6) [OF c idx] g by simp
  then obtain xs ys where C: "C g = xs @ (idx, ?y) # ys" by (auto dest: split_list)
  have "first_of xs None = Some g" using chainedD(2) [OF c, of g] g(2) unfolding C by (cases xs) auto
  moreover have "C idx = []"
  proof (rule ccontr)
    assume "C idx \<noteq> []"
    then have "hom ?y = idx" by (rule chained_cell_of_head [OF c idx])
    with g show False by simp
  qed
  ultimately show thesis using that C by blast
qed

text \<open>The record takes the free cell, which is its position.\<close>

lemma place_free:
  assumes c: "chained hom d S C" and e: "e \<notin> S" "e < length d" and x: "hom x = e"
  shows "chained hom (d[e := \<lparr>hl_next = None, hl_data = x\<rparr>]) (insert e S) (C(e := [(e, x)]))"
proof (rule chained_replace [where K = "{e}" and k = 0, OF c])
  have "C e = []" by (rule chained_outside [OF c e(1)])
  then show "insert e S = S - (\<Union>i\<in>{e}. fst ` set (C i)) \<union> (\<Union>i\<in>{e}. fst ` set ((C(e := [(e, x)])) i))" by simp
  show "d[e := \<lparr>hl_next = None, hl_data = x\<rparr>] ! p = d ! p" if "p \<in> S" for p using that e by (cases "p = e") auto
  show "hom (snd pr) = i" if "i \<notin> {e}" "pr \<in> set (C i)" for i pr using chainedD(4) [OF c that(2)] .
qed (use e x in auto)

text \<open>A record of the same position is the first one of the chain: the new record goes before it.\<close>

lemma place_first:
  assumes c: "chained hom d S C" and e: "e \<notin> S" "e < length d" and x: "hom x = idx"
    and idx: "idx \<in> S" "hom (hl_data (d ! idx)) = idx"
  defines "ps \<equiv> (idx, x) # (e, hl_data (d ! idx)) # tl (C idx)"
  shows "chained hom (d[e := d ! idx, idx := \<lparr>hl_next = Some e, hl_data = x\<rparr>]) (insert e S) (C(idx := ps))"
    and "C idx = (idx, hl_data (d ! idx)) # tl (C idx)"
proof -
  let ?d = "d[e := d ! idx, idx := \<lparr>hl_next = Some e, hl_data = x\<rparr>]"
  have "(idx, hl_data (d ! idx)) \<in> set (C idx)" using chainedD(6) [OF c idx(1)] idx(2) by simp
  then have ne: "C idx \<noteq> []" by auto
  show C: "C idx = (idx, hl_data (d ! idx)) # tl (C idx)" by (rule chained_cell_of_head(2) [OF c idx(1) ne])
  have l: "d ! idx = \<lparr>hl_next = first_of (tl (C idx)) None, hl_data = hl_data (d ! idx)\<rparr>" "laid d (tl (C idx)) None"
    using chainedD(1) [OF c, of idx] by (subst (asm) C, simp)+
  have cells: "e \<notin> fst ` set (tl (C idx))" "idx \<notin> fst ` set (tl (C idx))" "e \<noteq> idx"
  proof -
    have "fst ` set (C idx) \<subseteq> S" using chainedD(3) [OF c] by blast
    moreover have "set (tl (C idx)) \<subseteq> set (C idx)" by (cases "C idx") auto
    ultimately show "e \<notin> fst ` set (tl (C idx))" using e(1) by blast
    have "distinct (map fst (C idx))" by (rule chained_distinct [OF c])
    then show "idx \<notin> fst ` set (tl (C idx))" by (subst (asm) C) simp
  qed (use e idx in auto)
  show "chained hom ?d (insert e S) (C(idx := ps))"
  proof (rule chained_replace [where K = "{idx}" and k = 0, OF c])
    have "fst ` set (C idx) = insert idx (fst ` set (tl (C idx)))" by (subst C) simp
    moreover have "fst ` set (C idx) \<subseteq> S" using chainedD(3) [OF c] by blast
    ultimately show "insert e S = S - (\<Union>i\<in>{idx}. fst ` set (C i)) \<union> (\<Union>i\<in>{idx}. fst ` set ((C(idx := ps)) i))"
      unfolding ps_def by auto
    show "?d ! p = d ! p" if "p \<in> S" "p \<notin> (\<Union>i\<in>{idx}. fst ` set (C i))" for p
      using that e ne \<open>(idx, hl_data (d ! idx)) \<in> set (C idx)\<close> by (cases "p = e"; cases "p = idx") force+
    show "hom (snd pr) = i" if "i \<notin> {idx}" "pr \<in> set (C i)" for i pr using chainedD(4) [OF c that(2)] .
    show "hom (snd pr) = i" if "i \<in> {idx}" "pr \<in> set ((C(idx := ps)) i)" for i pr
      using that x idx chainedD(4) [OF c, of pr idx] ne by (auto simp: ps_def dest: list.set_sel(2))
    show "laid ?d ((C(idx := ps)) i) None" if "i \<in> {idx}" for i
      using that l cells e chainedD(5) [OF c idx(1)] by (auto simp: ps_def)
  qed (auto simp: ps_def)
qed

text \<open>
  A record that is not at its position moves to the free cell \<open>e\<close>, and its cell \<open>idx\<close> becomes free;
  \<open>l\<close> is written there before the link to it is changed.
\<close>

lemma chain_records_upd: "mset (map snd ps) = mset (map snd (C k)) \<Longrightarrow> chain_records n (C(k := ps)) = chain_records n C"
  unfolding chain_records_def by (rule sum.cong) auto

lemma displace:
  assumes c: "chained hom d S C" and e: "e \<notin> S" "e < length d" and idx: "idx \<in> S"
    and g: "g = hom (hl_data (d ! idx))" "g \<noteq> idx"
  obtains d' C' where "movelink (d[e := d ! idx, idx := l]) (Some idx) g (Some e) = Some d'"
    and "chained hom d' (insert e S - {idx}) C'" and "length d' = length d" and "d' ! idx = l"
    and "\<And>n. chain_records n C' = chain_records n C"
    and "\<And>c. c \<notin> fst ` set (C g) \<Longrightarrow> c \<noteq> e \<Longrightarrow> d' ! c = d ! c"
proof (rule chained_foreign [OF c idx g])
  let ?y = "hl_data (d ! idx)" and ?d = "d[e := d ! idx, idx := l]"
  fix xs ys assume C: "C g = xs @ (idx, ?y) # ys" and xs: "first_of xs None = Some g" and none: "C idx = []"
  have sub: "fst ` set (C g) \<subseteq> S" using chainedD(3) [OF c] by blast
  have e_out: "e \<notin> fst ` set (xs @ ys)" "e \<noteq> idx" using sub e(1) idx unfolding C by auto
  have idx_out: "idx \<notin> fst ` set (xs @ ys)" using chained_distinct [OF c, of g] unfolding C by auto
  have l: "laid d (xs @ (idx, ?y) # ys) None" using chainedD(1) [OF c, of g] unfolding C .
  have idx_less: "idx < length d" by (rule chainedD(5) [OF c idx])
  show thesis
  proof (rule movelink_relocates [OF l xs e(2) e_out(1), of ?d])
    show "?d ! c = d ! c" if "c \<in> fst ` set (xs @ ys)" for c
      using that e_out idx_out by (cases "c = e"; cases "c = idx") auto
    fix d'
    assume d': "movelink ?d (Some idx) g (Some e) = Some d'" "laid d' (xs @ (e, ?y) # ys) None"
      "length d' = length d" "\<And>c. c \<notin> fst ` set xs \<Longrightarrow> d' ! c = ?d ! c"
    let ?C = "C(g := xs @ (e, ?y) # ys)"
    have "chained hom d' (insert e S - {idx}) ?C"
    proof (rule chained_replace [where K = "{g}" and k = 0, OF c])
      show "insert e S - {idx} = S - (\<Union>i\<in>{g}. fst ` set (C i)) \<union> (\<Union>i\<in>{g}. fst ` set (?C i))"
        using sub e_out idx_out by (auto simp: C)
      show "d' ! p = d ! p" if "p \<in> S" "p \<notin> (\<Union>i\<in>{g}. fst ` set (C i))" for p
        using that d'(4) [of p] e(1) by (cases "p = e"; cases "p = idx") (auto simp: C)
      show "hom (snd pr) = i" if "i \<notin> {g}" "pr \<in> set (C i)" for i pr using chainedD(4) [OF c that(2)] .
      show "hom (snd pr) = i" if "i \<in> {g}" "pr \<in> set (?C i)" for i pr
      proof -
        have "pr \<in> set (C g) \<or> snd pr = ?y" using that by (auto simp: C)
        with that(1) g(1) chainedD(4) [OF c, of pr g] show ?thesis by auto
      qed
      show "first_of (?C i) (Some i) = Some i" if "i \<in> {g}" for i using that xs by (cases xs) auto
    qed (use d' in auto)
    moreover have "d' ! idx = l" using d'(4) [of idx] idx_out idx_less by auto
    moreover have "chain_records n ?C = chain_records n C" for n by (rule chain_records_upd) (simp add: C)
    moreover have "d' ! c = d ! c" if "c \<notin> fst ` set (C g)" "c \<noteq> e" for c
    proof -
      have "c \<notin> fst ` set xs" "c \<noteq> idx" using that(1) unfolding C by auto
      then show ?thesis using d'(4) that(2) by simp
    qed
    ultimately show thesis using that d'(1,3) by blast
  qed (use e idx_less e_out in auto)
qed

lemma chain_records_add:
  assumes "k < n" "mset (map snd ps) = add_mset x (mset (map snd (C k)))"
  shows "chain_records n (C(k := ps)) = add_mset x (chain_records n C)"
  using chain_records_update [OF assms(1), of C ps] unfolding assms(2) by simp

lemma mask_insert_le: "sizes_ok b n \<Longrightarrow> my_hash_mask h b (n + 1) \<le> n"
proof -
  assume sz: "sizes_ok b n"
  have "my_hash_mask h (if n + 1 = b then b + b else b) (n + 1) < n + 1"
    by (rule mask_less [OF sizes_ok_insert [OF sz]]) simp
  then show ?thesis using mask_double [OF sz, of h] by (auto split: if_splits)
qed

lemma insert_at_chained:
  assumes c: "chained (home ops b (n + 1)) d ({..n} - {e}) C" and e: "e \<le> n" and len: "length d = Suc n"
    and sz: "sizes_ok b n"
  obtains d' C' where "insert_at ops b n x e d = Some d'" and "length d' = Suc n"
    and "chained (home ops b (n + 1)) d' {..n} C'" and "chain_records (Suc n) C' = add_mset x (chain_records (Suc n) C)"
proof -
  let ?hom = "home ops b (n + 1)"
  let ?idx = "?hom x"
  let ?new = "\<lparr>hl_next = None, hl_data = x\<rparr>"
  let ?g = "?hom (hl_data (d ! ?idx))"
  have idx: "?idx \<le> n" using mask_insert_le [OF sz] by (simp add: home_def)
  have ins: "insert_at ops b n x e d =
      (if ?idx = e then Some (d[?idx := ?new])
       else if ?idx = ?g then Some (d[e := d ! ?idx, ?idx := \<lparr>hl_next = Some e, hl_data = x\<rparr>])
       else movelink (d[e := d ! ?idx, ?idx := ?new]) (Some ?idx) ?g (Some e))"
    using idx len by (simp add: insert_at_def home_def link_at_def my_hash_rec_mask_def Let_def)
  have e': "e \<notin> {..n} - {e}" "e < length d" "insert e ({..n} - {e}) = {..n}" using e len by auto
  consider "?idx = e" | "?idx \<noteq> e" "?g = ?idx" | "?idx \<noteq> e" "?g \<noteq> ?idx" by blast
  then show thesis
  proof cases
    case 1
    have "C e = []" by (rule chained_outside [OF c e'(1)])
    then have "chain_records (Suc n) (C(e := [(e, x)])) = add_mset x (chain_records (Suc n) C)"
      using e by (intro chain_records_add) simp_all
    with 1 show thesis using ins place_free [OF c e'(1,2) 1] e'(3) len
      by (intro that [of "d[e := ?new]" "C(e := [(e, x)])"]) simp_all
  next
    case 2
    have S: "?idx \<in> {..n} - {e}" using 2 idx by simp
    note pf = place_first [OF c e'(1,2) refl S 2(2)]
    have "chain_records (Suc n) (C(?idx := (?idx, x) # (e, hl_data (d ! ?idx)) # tl (C ?idx))) =
        add_mset x (chain_records (Suc n) C)"
      using idx by (intro chain_records_add) (simp, subst (2) pf(2), simp)
    with 2 show thesis using ins pf(1) unfolding e'(3)
      by (intro that [OF _ _ pf(1) [unfolded e'(3)]]) (simp_all add: len)
  next
    case 3
    have S: "?idx \<in> {..n} - {e}" using 3 idx by simp
    show thesis
    proof (rule displace [OF c e'(1,2) S refl 3(2), of ?new])
      fix d' C'
      assume m: "movelink (d[e := d ! ?idx, ?idx := ?new]) (Some ?idx) ?g (Some e) = Some d'"
        and c': "chained ?hom d' (insert e ({..n} - {e}) - {?idx}) C'" and l: "length d' = length d" "d' ! ?idx = ?new"
        and r: "\<And>n. chain_records n C' = chain_records n C"
      have same: "d'[?idx := ?new] = d'" using l(2) by (metis list_update_id)
      have "C' ?idx = []" by (rule chained_outside [OF c']) simp
      then have "chain_records (Suc n) (C'(?idx := [(?idx, x)])) = add_mset x (chain_records (Suc n) C)"
        using idx unfolding r [symmetric] by (intro chain_records_add) simp_all
      moreover have "chained ?hom d' {..n} (C'(?idx := [(?idx, x)]))"
        using place_free [OF c', where x = x, OF _ _ refl] idx l len unfolding same e'(3) by (simp add: insert_absorb)
      ultimately show thesis using that 3 ins m l(1) len by auto
    qed
  qed
qed

section \<open>my_hash_insert\<close>

text \<open>The part of \<open>my_hash_insert\<close> before the new record is placed.\<close>

definition split_table :: "('r, 'k) hash_ops \<Rightarrow> 'r hash_link \<Rightarrow> 'r my_hash \<Rightarrow> 'r split_state option" where
  "split_table ops fresh h =
     (let st = split_init (hash_array h @ [fresh]) (length (hash_array h)); first_index = records h - blength h div 2
      in if first_index \<noteq> records h
         then do { st1 \<leftarrow> split_loop ops (blength h) (records h) first_index st first_index; split_end st1 }
         else Some st)"

lemma split_table_chained:
  assumes ch: "chains_of ops h C"
  obtains st C' where "split_table ops fresh h = Some st"
    and "length (sp_array st) = Suc (records h)" and "sp_empty st \<le> records h"
    and "chained (home ops (blength h) (records h + 1)) (sp_array st) ({..records h} - {sp_empty st}) C'"
    and "chain_records (Suc (records h)) C' = hash_records h"
proof (cases "records h = 0")
  case True
  then have "hash_array h = []" "blength h = 1"
    using chains_ofD(1,2) [OF ch] pow2_pos [of "blength h"] by (auto simp: sizes_ok_def)
  then show thesis using True
    by (intro that [of "split_init [fresh] 0" "\<lambda>_. []"])
      (auto simp: split_table_def split_init_def chained_def chain_records_def hash_records_def)
next
  case False
  then have n: "0 < records h" by simp
  have fi: "records h - blength h div 2 \<noteq> records h" using sizes_ok_ge_2 [OF chains_ofD(2) [OF ch] n] n by simp
  show thesis
  proof (rule split_chained [OF ch n refl, of fresh])
    fix st st1 C'
    assume "split_loop ops (blength h) (records h) (records h - blength h div 2)
          (split_init (hash_array h @ [fresh]) (records h)) (records h - blength h div 2) = Some st1"
      and "split_end st1 = Some st"
    with fi have "split_table ops fresh h = Some st"
      unfolding split_table_def chains_ofD(1) [OF ch] by (simp add: Let_def)
    moreover assume "length (sp_array st) = Suc (records h)" "sp_empty st \<le> records h"
      "chained (home ops (blength h) (records h + 1)) (sp_array st) ({..records h} - {sp_empty st}) C'"
      "chain_records (Suc (records h)) C' = hash_records h"
    ultimately show thesis by (rule that)
  qed
qed

lemma insert_unique_search:
  assumes "ops_ok ops" and "hash_inv ops h"
  obtains found where "my_hash_search ops h key = Some found"
    and "found \<noteq> None \<longleftrightarrow> (\<exists>r \<in># hash_records h. \<not> key_differs ops (get_key ops r) key)"
  using my_hash_search_correct [OF assms, of key] by (auto split: option.splits)

lemma my_hash_insert_new:
  assumes inv: "hash_inv ops h"
    and search: "hash_unique ops \<Longrightarrow> my_hash_search ops h (get_key ops x) = Some None"
  obtains h' where "my_hash_insert ops True fresh x h = Some (False, h')" and "hash_inv ops h'"
    and "hash_records h' = add_mset x (hash_records h)" and "records h' = records h + 1"
proof -
  obtain C where ch: "chains_of ops h C" using inv by (auto simp: hash_inv_def)
  note sz = chains_ofD(2) [OF ch]
  show thesis
  proof (rule split_table_chained [OF ch, of fresh])
    fix st C1
    assume st: "split_table ops fresh h = Some st" and len: "length (sp_array st) = Suc (records h)"
      and e: "sp_empty st \<le> records h"
      and c: "chained (home ops (blength h) (records h + 1)) (sp_array st) ({..records h} - {sp_empty st}) C1"
      and r: "chain_records (Suc (records h)) C1 = hash_records h"
    show thesis
    proof (rule insert_at_chained [OF c e len sz, of x])
      fix d C2
      assume ins: "insert_at ops (blength h) (records h) x (sp_empty st) (sp_array st) = Some d" and len': "length d = Suc (records h)"
        and c2: "chained (home ops (blength h) (records h + 1)) d {..records h} C2"
        and r2: "chain_records (Suc (records h)) C2 = add_mset x (chain_records (Suc (records h)) C1)"
      let ?b = "if records h + 1 = blength h then blength h + blength h else blength h"
      let ?h = "h\<lparr>hash_array := d, records := records h + 1, blength := ?b\<rparr>"
      have "home ops ?b (records h + 1) = home ops (blength h) (records h + 1)"
        using mask_double [OF sz] by (auto simp: home_def fun_eq_iff)
      then have ch': "chains_of ops ?h C2"
        using c2 len' sizes_ok_insert [OF sz] by (simp add: chains_of_def lessThan_Suc_atMost)
      have "my_hash_insert ops True fresh x h = Some (False, ?h)"
        using st ins search unfolding my_hash_insert_def split_table_def
        by (cases "hash_unique ops") (simp_all add: Let_def)
      moreover have "hash_inv ops ?h" using ch' by (auto simp: hash_inv_def)
      moreover have "hash_records ?h = add_mset x (hash_records h)"
        using hash_records_chain_records [OF ch'] r r2 by simp
      ultimately show thesis using that [of ?h] by simp
    qed
  qed
qed

text \<open>A unique table refuses a record whose key it has.\<close>

definition has_key :: "('r, 'k) hash_ops \<Rightarrow> 'r my_hash \<Rightarrow> 'k \<Rightarrow> bool" where
  "has_key ops h key \<longleftrightarrow> (\<exists>r \<in># hash_records h. \<not> key_differs ops (get_key ops r) key)"

definition insert_refused :: "('r, 'k) hash_ops \<Rightarrow> bool \<Rightarrow> 'r \<Rightarrow> 'r my_hash \<Rightarrow> bool" where
  "insert_refused ops alloc_ok x h \<longleftrightarrow> \<not> alloc_ok \<or> hash_unique ops \<and> has_key ops h (get_key ops x)"

lemma my_hash_insert_correct:
  assumes ops: "ops_ok ops" and inv: "hash_inv ops h"
  obtains h' where "my_hash_insert ops alloc_ok fresh x h = Some (insert_refused ops alloc_ok x h, h')" and "hash_inv ops h'"
    and "insert_refused ops alloc_ok x h \<Longrightarrow> h' = h"
    and "\<not> insert_refused ops alloc_ok x h \<Longrightarrow> hash_records h' = add_mset x (hash_records h)"
proof -
  obtain found where found: "my_hash_search ops h (get_key ops x) = Some found"
      "found \<noteq> None \<longleftrightarrow> has_key ops h (get_key ops x)"
    unfolding has_key_def by (rule insert_unique_search [OF ops inv])
  show thesis
  proof (cases "insert_refused ops alloc_ok x h")
    case True
    then have "my_hash_insert ops alloc_ok fresh x h = Some (True, h)"
      using found by (auto simp: insert_refused_def my_hash_insert_def)
    with True inv show thesis by (intro that [of h]) simp_all
  next
    case False
    then have alloc: "alloc_ok" and search: "hash_unique ops \<Longrightarrow> my_hash_search ops h (get_key ops x) = Some None"
      using found by (auto simp: insert_refused_def)
    obtain h' where "my_hash_insert ops True fresh x h = Some (False, h')" "hash_inv ops h'"
        "hash_records h' = add_mset x (hash_records h)"
      using my_hash_insert_new [OF inv search] by metis
    with False alloc show thesis by (intro that [of h']) simp_all
  qed
qed

end
