(* ===== verification/Hash_Table_Delete.thy ===== *)
theory Hash_Table_Delete
  imports Hash_Table_Insert
begin

text \<open>
  \<open>my_hash_delete\<close> keeps the invariant and removes its record: the record is unlinked from its chain,
  then the last cell moves into the free one and the table shrinks.
\<close>

section \<open>Finding and unlinking the record\<close>

lemma find_record_hit:
  assumes "laid d (xs @ (p, x) # ys) None" and "x \<notin> snd ` set xs" and "first_of xs (Some p) = Some idx"
  shows "find_record d x prev idx = Some (Some (if xs = [] then prev else Some (fst (last xs)), p))"
  using assms
proof (induction xs arbitrary: prev idx)
  case Nil
  then show ?case by (subst find_record.simps) (auto simp: link_at_def)
next
  case (Cons pr xs)
  obtain i where i: "first_of xs (Some p) = Some i" by (cases xs) auto
  then have "first_of (xs @ (p, x) # ys) None = Some i" by (cases xs) auto
  with Cons.IH [OF _ _ i] Cons.prems show ?case
    by (subst find_record.simps) (auto simp: link_at_def)
qed

lemma find_record_miss:
  assumes "laid d ps None" and "x \<notin> snd ` set ps" and "first_of ps None = Some idx"
  shows "find_record d x prev idx = Some None"
  using assms
proof (induction ps arbitrary: prev idx)
  case (Cons pr ps)
  show ?case
  proof (cases "first_of ps None")
    case None
    then have "ps = []" by (cases ps) auto
    with Cons.prems show ?thesis by (subst find_record.simps) (auto simp: link_at_def)
  next
    case (Some i)
    with Cons.IH [OF _ _ Some] Cons.prems show ?thesis by (subst find_record.simps) (auto simp: link_at_def)
  qed
qed simp

lemma split_at_record:
  assumes "x \<in> snd ` set ps"
  obtains xs p ys where "ps = xs @ (p, x) # ys" and "x \<notin> snd ` set xs"
proof -
  have "\<exists>pr \<in> set ps. snd pr = x" using assms by auto
  then obtain xs pr ys where "ps = xs @ pr # ys" "snd pr = x" "\<forall>qr \<in> set xs. snd qr \<noteq> x"
    by (rule split_list_first_propE)
  then show thesis by (intro that [of xs "fst pr" ys]) auto
qed

lemma chained_shorter:
  assumes c: "chained hom d S C"
    and ps: "laid d' ps None" "first_of ps (Some i) = Some i" "length d' = length d"
    and cells: "fst ` set ps = fst ` set (C i) - {e}" "e \<in> fst ` set (C i)"
    and same: "\<And>q. q \<notin> fst ` set (C i) \<Longrightarrow> d' ! q = d ! q"
    and recs: "mset (map snd (C i)) = add_mset x (mset (map snd ps))"
  shows "chained hom d' (S - {e}) (C(i := ps))"
proof (rule chained_replace [where K = "{i}" and k = 0, OF c])
  have sub: "fst ` set (C i) \<subseteq> S" using chainedD(3) [OF c] by blast
  show "S - {e} = S - (\<Union>j\<in>{i}. fst ` set (C j)) \<union> (\<Union>j\<in>{i}. fst ` set ((C(i := ps)) j))"
    using sub cells by auto
  have "set_mset (mset (map snd (C i))) = insert x (snd ` set ps)" unfolding recs by simp
  then have "snd ` set ps \<subseteq> snd ` set (C i)" by auto
  then show "hom (snd pr) = j" if "j \<in> {i}" "pr \<in> set ((C(i := ps)) j)" for j pr
    using that chainedD(4) [OF c] by fastforce
  show "hom (snd pr) = j" if "j \<notin> {i}" "pr \<in> set (C j)" for j pr using chainedD(4) [OF c that(2)] .
qed (use ps same in auto)

text \<open>Unlinking leaves one cell free: that of the record, or the second cell of the chain.\<close>

lemma unlink_chained:
  assumes c: "chained hom d S C" and C: "C i = xs @ (p, x) # ys"
  obtains d' e ps where "unlink_record d (if xs = [] then None else Some (fst (last xs))) p = Some (d', e)"
    and "chained hom d' (S - {e}) (C(i := ps))" and "length d' = length d" and "e \<in> S"
    and "mset (map snd (C i)) = add_mset x (mset (map snd ps))"
    and "e = p \<Longrightarrow> hl_data (d' ! e) = x"
proof -
  have l: "laid d (xs @ (p, x) # ys) None" using chainedD(1) [OF c, of i] unfolding C .
  then have p: "p < length d" "d ! p = \<lparr>hl_next = first_of ys None, hl_data = x\<rparr>" by auto
  have sub: "fst ` set (C i) \<subseteq> S" using chainedD(3) [OF c] by blast
  have dist: "distinct (map fst (xs @ (p, x) # ys))" by (rule laid_distinct [OF l])
  show thesis
  proof (cases xs rule: rev_cases)
    case (snoc xs' z)
    then obtain g y where z: "xs = xs' @ [(g, y)]" by (cases z) auto
    let ?d = "d[g := \<lparr>hl_next = first_of ys None, hl_data = y\<rparr>]"
    have g: "g < length d" "d ! g = \<lparr>hl_next = Some p, hl_data = y\<rparr>" using l z by auto
    have rec: "mset (map snd (C i)) = add_mset x (mset (map snd (xs @ ys)))" by (simp add: C)
    show thesis
    proof (rule that [of ?d p "xs @ ys", OF _ chained_shorter [OF c _ _ _ _ _ _ rec]])
      show "unlink_record d (if xs = [] then None else Some (fst (last xs))) p = Some (?d, p)"
        using z g p by (simp add: unlink_record_def link_at_def)
      have "g \<notin> fst ` set xs'" "g \<notin> fst ` set ys" using dist z by auto
      then show "laid ?d (xs @ ys) None" using l z g by auto
      show "first_of (xs @ ys) (Some i) = Some i" using chainedD(2) [OF c, of i] z by (cases xs') (auto simp: C)
      show "?d ! q = d ! q" if "q \<notin> fst ` set (C i)" for q using that z by (cases "q = g") (auto simp: C)
      show "fst ` set (xs @ ys) = fst ` set (C i) - {p}" using dist by (auto simp: C)
      show "hl_data (?d ! p) = x" using p(2) dist z by auto
    qed (use z sub in \<open>auto simp: C\<close>)
  next
    case Nil
    then have pi: "p = i" using chainedD(2) [OF c, of i] by (simp add: C)
    show thesis
    proof (cases ys)
      case Nil
      have rec: "mset (map snd (C i)) = add_mset x (mset (map snd []))" using Nil \<open>xs = []\<close> by (simp add: C)
      from Nil \<open>xs = []\<close> p show thesis
        by (intro that [of d p "[]", OF _ chained_shorter [OF c _ _ _ _ _ _ rec]])
          (use sub in \<open>auto simp: C unlink_record_def link_at_def\<close>)
    next
      case (Cons w ys')
      then obtain e y where w: "ys = (e, y) # ys'" by (cases w) auto
      then have e: "e < length d" "d ! e = \<lparr>hl_next = first_of ys' None, hl_data = y\<rparr>" using l by auto
      have out: "p \<notin> fst ` set ys'" "e \<notin> fst ` set ys'" "e \<noteq> p" using dist w by auto
      have rec: "mset (map snd (C i)) = add_mset x (mset (map snd ((p, y) # ys')))" using Nil w by (simp add: C)
      show thesis
      proof (rule that [of "d[p := d ! e]" e "(p, y) # ys'", OF _ chained_shorter [OF c _ _ _ _ _ _ rec]])
        show "unlink_record d (if xs = [] then None else Some (fst (last xs))) p = Some (d[p := d ! e], e)"
          using Nil p e w by (simp add: unlink_record_def link_at_def)
        show "laid (d[p := d ! e]) ((p, y) # ys') None" using l w e p out Nil by auto
        show "fst ` set ((p, y) # ys') = fst ` set (C i) - {e}" using out Nil w by (auto simp: C)
        show "d[p := d ! e] ! q = d ! q" if "q \<notin> fst ` set (C i)" for q using that by (cases "q = p") (auto simp: C)
      qed (use Nil w pi sub out in \<open>auto simp: C\<close>)
    qed
  qed
qed

section \<open>Moving the last cell\<close>

definition shrunk :: "nat \<Rightarrow> nat \<Rightarrow> nat" where
  "shrunk b m = (if m < b div 2 then b div 2 else b)"

lemma sizes_ok_shrunk: "sizes_ok b (m + 1) \<Longrightarrow> sizes_ok (shrunk b m) m"
  using pow2_half [of b] by (auto simp: sizes_ok_def shrunk_def)

lemma mask_shrunk: "sizes_ok b (m + 1) \<Longrightarrow> my_hash_mask h b (m + 1) = my_hash_mask h (shrunk b m) (m + 1)"
proof (cases "m < b div 2")
  case True
  assume sz: "sizes_ok b (m + 1)"
  with True have "b = shrunk b m + shrunk b m" "m + 1 = shrunk b m"
    using pow2_half [of b] by (auto simp: sizes_ok_def shrunk_def)
  then show ?thesis using mask_double [OF sizes_ok_shrunk [OF sz], of h] by simp
qed (simp add: shrunk_def)

text \<open>The records of the last position go to that of the chain they were once split from.\<close>

lemma home_shrink:
  assumes sz: "sizes_ok b (m + 1)" and m: "0 < m"
  shows "home ops (shrunk b m) m r =
    (if home ops b (m + 1) r = m then m - shrunk b m div 2 else home ops b (m + 1) r)"
    and "m - shrunk b m div 2 < m"
proof -
  let ?b = "shrunk b m" and ?h = "rec_hashnr ops r"
  note sz' = sizes_ok_shrunk [OF sz]
  show less: "m - ?b div 2 < m" using sizes_ok_ge_2 [OF sz' m] m by simp
  have "my_hash_mask ?h ?b m < m" by (rule mask_less [OF sz' m])
  then show "home ops ?b m r = (if home ops b (m + 1) r = m then m - ?b div 2 else home ops b (m + 1) r)"
    unfolding home_def mask_shrunk [OF sz] mask_grow(1) [OF sz' m] using mask_grow(2) [OF sz' m, of ?h] by auto
qed

definition merges :: "nat \<Rightarrow> nat \<Rightarrow> ('r \<Rightarrow> nat) \<Rightarrow> ('r \<Rightarrow> nat) \<Rightarrow> bool" where
  "merges m s hom0 hom1 \<longleftrightarrow> s < m \<and> (\<forall>r. hom1 r = (if hom0 r = m then s else hom0 r))"

lemma mergesD:
  assumes "merges m s hom0 hom1"
  shows "s < m" and "hom0 r = m \<Longrightarrow> hom1 r = s" and "hom0 r \<noteq> m \<Longrightarrow> hom1 r = hom0 r"
  using assms by (simp_all add: merges_def)

text \<open>The last position has no records.\<close>

lemma merge_none:
  assumes c: "chained hom0 d {..<m} C" and hom: "merges m s hom0 hom1"
  shows "chained hom1 d {..<m} C" and "chain_records (Suc m) C = chain_records m C"
proof -
  have none: "C m = []" by (rule chained_outside [OF c]) simp
  then show "chain_records (Suc m) C = chain_records m C" by (simp add: chain_records_Suc)
  show "chained hom1 d {..<m} C"
  proof (rule chained_replace [where K = "{}" and k = 0, OF c])
    show "hom1 (snd pr) = i" if "i \<notin> {}" "pr \<in> set (C i)" for i pr
    proof -
      have "i \<noteq> m" using none that by auto
      with chainedD(4) [OF c that(2)] mergesD(3) [OF hom] show ?thesis by simp
    qed
  qed simp_all
qed

lemma merged_cells:
  assumes "insert m P = insert e F" "m \<notin> P" "e < m" "F \<subseteq> {..m} - {e}"
  shows "{..<m :: nat} = {..m} - {e} - F \<union> P"
proof -
  have "P = insert e F - {m}" "m \<in> F" using assms by auto
  moreover have "{..<m} = {..m} - {m}" by auto
  ultimately show ?thesis using assms by auto
qed

text \<open>The records of the last position are in the chain \<open>ps\<close> of the position \<open>s\<close> now.\<close>

lemma merge_chains:
  assumes c: "chained hom0 d ({..m} - {e}) C" and hom: "merges m s hom0 hom1" and e: "e < m" and len: "length d' = length d"
    and ps: "laid d' ps None" "first_of ps (Some s) = Some s"
    and recs: "mset (map snd ps) = mset (map snd (C s)) + mset (map snd (C m))"
    and cells: "insert m (fst ` set ps) = insert e (fst ` set (C s) \<union> fst ` set (C m))" "m \<notin> fst ` set ps"
    and same: "\<And>p. p \<notin> insert e (fst ` set (C s) \<union> fst ` set (C m)) \<Longrightarrow> d' ! p = d ! p"
  shows "chained hom1 d' {..<m} (C(m := [], s := ps))"
    and "chain_records m (C(m := [], s := ps)) = chain_records (Suc m) C"
proof -
  note s = mergesD(1) [OF hom]
  have sub: "fst ` set (C i) \<subseteq> {..m} - {e}" for i using chainedD(3) [OF c] by blast
  show "chained hom1 d' {..<m} (C(m := [], s := ps))"
  proof (rule chained_replace [where K = "{m, s}" and k = 0, OF c])
    have "(\<Union>i\<in>{m, s}. fst ` set ((C(m := [], s := ps)) i)) = fst ` set ps" using s by simp
    moreover have "(\<Union>i\<in>{m, s}. fst ` set (C i)) = fst ` set (C s) \<union> fst ` set (C m)" by auto
    moreover have "{..<m} = {..m} - {e} - (fst ` set (C s) \<union> fst ` set (C m)) \<union> fst ` set ps"
      using cells e sub [of s] sub [of m] by (intro merged_cells) auto
    ultimately show "{..<m} = {..m} - {e} - (\<Union>i\<in>{m, s}. fst ` set (C i)) \<union>
        (\<Union>i\<in>{m, s}. fst ` set ((C(m := [], s := ps)) i))" by simp
    show "hom1 (snd pr) = i" if "i \<notin> {m, s}" "pr \<in> set (C i)" for i pr
      using that chainedD(4) [OF c that(2)] mergesD(3) [OF hom, of "snd pr"] by simp
    have "set_mset (mset (map snd ps)) = snd ` set (C s) \<union> snd ` set (C m)" unfolding recs by simp
    then have "snd pr \<in> snd ` set (C s) \<union> snd ` set (C m)" if "pr \<in> set ps" for pr using that by auto
    then have "hom1 (snd pr) = s" if "pr \<in> set ps" for pr
      using that chainedD(4) [OF c] mergesD(2,3) [OF hom, of "snd pr"] s by fastforce
    then show "hom1 (snd pr) = i" if "i \<in> {m, s}" "pr \<in> set ((C(m := [], s := ps)) i)" for i pr
      using that by (auto split: if_splits)
    show "d' ! p = d ! p" if "p \<in> {..m} - {e}" "p \<notin> (\<Union>i\<in>{m, s}. fst ` set (C i))" for p
      using that by (intro same) auto
  qed (use ps s len in auto)
  have "chain_records (Suc m) C = chain_records m C + mset (map snd (C m))" by (rule chain_records_Suc)
  moreover have "chain_records m (C(m := [], s := ps)) + mset (map snd (C s)) = chain_records m C + mset (map snd ps)"
    using chain_records_update [OF s, of "C(m := [])" ps] s by (simp add: chain_records_upd_outside)
  ultimately show "chain_records m (C(m := [], s := ps)) = chain_records (Suc m) C" unfolding recs by simp
qed

text \<open>The free cell is the position of the last cell's record.\<close>

lemma move_head:
  assumes c: "chained hom0 d ({..m} - {e}) C" and hom: "merges m s hom0 hom1" and e: "e < m" and len: "length d = Suc m"
    and r: "hom1 (hl_data (d ! m)) = e"
  obtains C' where "chained hom1 (d[e := d ! m]) {..<m} C'" and "chain_records m C' = chain_records (Suc m) C"
proof -
  let ?r = "hl_data (d ! m)" and ?d = "d[e := d ! m]"
  have none: "C e = []" by (rule chained_outside [OF c]) simp
  have mS: "m \<in> {..m} - {e}" using e by simp
  have "hom0 ?r = m"
  proof (rule ccontr)
    assume "hom0 ?r \<noteq> m"
    then have "hom0 ?r = e" using mergesD(3) [OF hom, of ?r] r by simp
    with chainedD(6) [OF c mS] none show False by simp
  qed
  then have s: "s = e" using mergesD(2) [OF hom] r by metis
  have ne: "C m \<noteq> []" using chainedD(6) [OF c mS] \<open>hom0 ?r = m\<close> by auto
  note Cm = chained_cell_of_head(2) [OF c mS ne]
  let ?ps = "(e, ?r) # tl (C m)"
  have l: "d ! m = \<lparr>hl_next = first_of (tl (C m)) None, hl_data = ?r\<rparr>" "laid d (tl (C m)) None"
    using chainedD(1) [OF c, of m] by (subst (asm) Cm, simp)+
  have cells: "fst ` set (C m) = insert m (fst ` set (tl (C m)))" "m \<notin> fst ` set (tl (C m))"
    using chained_distinct [OF c, of m] by (subst Cm, simp, subst (asm) Cm, simp)
  have sub: "fst ` set (C m) \<subseteq> {..m} - {e}" using chainedD(3) [OF c] by blast
  have "e \<notin> fst ` set (tl (C m))" using sub cells(1) by blast
  then have laid: "laid ?d ?ps None" using l e len by simp
  have recs: "mset (map snd ?ps) = mset (map snd (C s)) + mset (map snd (C m))"
    unfolding s none by (subst Cm) simp
  have cl: "insert m (fst ` set ?ps) = insert e (fst ` set (C s) \<union> fst ` set (C m))" "m \<notin> fst ` set ?ps"
    using cells e unfolding s none by auto
  show thesis
    by (rule that [OF merge_chains [OF c hom e _ laid _ recs cl]]) (simp_all add: s)
qed

text \<open>The chain of the last cell goes between the first cell of another chain and its rest.\<close>

lemma splice:
  assumes w: "laid d ((e, r) # us) link" "\<forall>pr \<in> set ((e, r) # us). link \<noteq> Some (fst pr)"
    and P: "P < length d" "d ! P = \<lparr>hl_next = first_of vs None, hl_data = y\<rparr>" and vs: "laid d vs None"
    and dist: "distinct (map fst ((P, y) # (e, r) # us @ vs))"
  obtains d' where "(do { pl1 \<leftarrow> link_at d P; d2 \<leftarrow> movelink d link e (hl_next pl1); pl2 \<leftarrow> link_at d2 P;
        Some (d2[P := pl2\<lparr>hl_next := Some e\<rparr>]) }) = Some d'"
    and "laid d' ((P, y) # (e, r) # us @ vs) None" and "length d' = length d"
    and "\<And>c. c \<notin> insert P (fst ` set ((e, r) # us)) \<Longrightarrow> d' ! c = d ! c"
proof -
  obtain ws q z where ws: "(e, r) # us = ws @ [(q, z)]" by (metis list.distinct(1) rev_exhaust surj_pair)
  let ?d2 = "d[q := \<lparr>hl_next = first_of vs None, hl_data = z\<rparr>]"
  let ?d = "?d2[P := \<lparr>hl_next = Some e, hl_data = y\<rparr>]"
  have "first_of (ws @ [(q, z)]) None = Some e" unfolding ws [symmetric] by simp
  then have m: "movelink d link e (first_of vs None) = Some ?d2"
    using w unfolding ws by (intro movelink_laid)
  have q: "q \<noteq> P" "q \<notin> fst ` set ws" "q \<notin> fst ` set vs" "P \<notin> fst ` set ws" "P \<notin> fst ` set vs" "q < length d"
    using dist w(1) unfolding append_Cons [symmetric] ws by auto
  have "laid ?d (ws @ [(q, z)] @ vs) None" using w(1) vs q unfolding ws by auto
  then have "laid ?d (((e, r) # us) @ vs) None" unfolding ws by simp
  then have l: "laid ?d ((P, y) # (e, r) # us @ vs) None" using P by simp
  show thesis
  proof (rule that [OF _ l])
    show "(do { pl1 \<leftarrow> link_at d P; d2 \<leftarrow> movelink d link e (hl_next pl1); pl2 \<leftarrow> link_at d2 P;
        Some (d2[P := pl2\<lparr>hl_next := Some e\<rparr>]) }) = Some ?d"
      using P q m by (simp add: link_at_def)
    have "q \<in> fst ` set ((e, r) # us)" unfolding ws by simp
    then show "?d ! c = d ! c" if "c \<notin> insert P (fst ` set ((e, r) # us))" for c
      using that by (cases "c = q"; cases "c = P") auto
  qed simp
qed

text \<open>
  The two parts of the new chain of \<open>s\<close>: the records after the last cell's record up to the record at
  \<open>s\<close>, or all of them, and the records after the one at \<open>s\<close>.
\<close>

lemma splice_parts:
  assumes c: "chained hom0 d S C" and m: "m \<in> S" "hom0 (hl_data (d ! m)) = m" and s: "s \<in> S" "s \<noteq> m"
    and y: "y = hl_data (d ! s)" "hom0 y = s \<or> hom0 y = m" and link: "link = (if hom0 y = m then Some s else None)"
  obtains us vs where "laid d ((m, hl_data (d ! m)) # us) link"
    and "d ! s = \<lparr>hl_next = first_of vs None, hl_data = y\<rparr>" and "laid d vs None"
    and "distinct (map fst ((s, y) # (m, hl_data (d ! m)) # us @ vs))"
    and "mset ((s, y) # (m, hl_data (d ! m)) # us @ vs) = mset (C s) + mset (C m)"
proof -
  let ?r = "hl_data (d ! m)"
  have ne: "C m \<noteq> []" using chainedD(6) [OF c m(1)] m(2) by auto
  obtain ts where Cm: "C m = (m, ?r) # ts" using chained_cell_of_head(2) [OF c m(1) ne] by metis
  note lm = chainedD(1) [OF c, of m, unfolded Cm] and dm = chained_distinct [OF c, of m, unfolded Cm]
  show thesis
  proof (cases "hom0 y = m")
    case True
    have "(s, y) \<in> set (C m)" using chainedD(6) [OF c s(1)] y True by simp
    then have "(s, y) \<in> set ts" using s(2) by (simp add: Cm)
    then obtain us vs where ts: "ts = us @ (s, y) # vs" by (auto dest: split_list)
    have "C s = []" using chained_cell_of_head(1) [OF c s(1)] y True s(2) by metis
    then show thesis using lm dm True link by (intro that [of us vs]) (auto simp: ts Cm first_of_append)
  next
    case False
    then have hy: "hom0 y = s" using y(2) by simp
    then have "C s \<noteq> []" using chainedD(6) [OF c s(1)] y by auto
    then obtain vs where Cs: "C s = (s, y) # vs" using chained_cell_of_head(2) [OF c s(1)] y by metis
    note ls = chainedD(1) [OF c, of s, unfolded Cs] and ds = chained_distinct [OF c, of s, unfolded Cs]
    have "fst ` set (C s) \<inter> fst ` set (C m) = {}" using chained_same_cell(1) [OF c] s(2) by blast
    then have "distinct (map fst ((s, y) # (m, ?r) # ts @ vs))" using ds dm by (auto simp: Cs Cm)
    then show thesis using lm ls False link by (intro that [of ts vs]) (auto simp: Cs Cm)
  qed
qed

lemma move_spliced:
  assumes c: "chained hom0 d ({..m} - {e}) C" and hom: "merges m s hom0 hom1" and e: "e < m" "s \<noteq> e" and len: "length d = Suc m"
    and r: "hom0 (hl_data (d ! m)) = m" and y: "hom1 (hl_data (d ! s)) = s"
    and link: "link = (if hom0 (hl_data (d ! s)) = m then Some s else None)"
  obtains d' C' where "(do { pl1 \<leftarrow> link_at (d[e := d ! m]) s; d2 \<leftarrow> movelink (d[e := d ! m]) link e (hl_next pl1);
        pl2 \<leftarrow> link_at d2 s; Some (d2[s := pl2\<lparr>hl_next := Some e\<rparr>]) }) = Some d'"
    and "length d' = length d" and "chained hom1 d' {..<m} C'" and "chain_records m C' = chain_records (Suc m) C"
proof -
  let ?r = "hl_data (d ! m)" and ?y = "hl_data (d ! s)" and ?d = "d[e := d ! m]"
  have s: "s < m" "s \<in> {..m} - {e}" "s \<noteq> m" using mergesD(1) [OF hom] e by auto
  have m: "m \<in> {..m} - {e}" using e by simp
  have hy: "hom0 ?y = s \<or> hom0 ?y = m" using mergesD(3) [OF hom, of ?y] y by auto
  show thesis
  proof (rule splice_parts [OF c m r s(2,3) refl hy link])
    fix us vs
    let ?ps = "(s, ?y) # (e, ?r) # us @ vs" and ?qs = "(s, ?y) # (m, ?r) # us @ vs"
    assume us: "laid d ((m, ?r) # us) link" and ds: "d ! s = \<lparr>hl_next = first_of vs None, hl_data = ?y\<rparr>"
      and vs: "laid d vs None" and dist: "distinct (map fst ?qs)" and recs: "mset ?qs = mset (C s) + mset (C m)"
    have set: "set ?qs = set (C s) \<union> set (C m)" using recs by (metis set_mset_mset set_mset_union)
    have sub: "fst ` (set (C s) \<union> set (C m)) \<subseteq> {..m} - {e}" using chainedD(3) [OF c] by blast
    then have out: "e \<notin> fst ` set us" "e \<notin> fst ` set vs" unfolding set [symmetric] by auto
    have dist': "distinct (map fst ?ps)" using dist out e(2) by auto
    have w: "laid ?d ((e, ?r) # us) link" "\<forall>pr \<in> set ((e, ?r) # us). link \<noteq> Some (fst pr)"
      using us out e len dist' link by auto
    have ds': "s < length ?d" "?d ! s = \<lparr>hl_next = first_of vs None, hl_data = ?y\<rparr>" "laid ?d vs None"
      using ds vs s len e(2) out by auto
    show thesis
    proof (rule splice [OF w ds' dist'])
      fix d'
      assume d': "(do { pl1 \<leftarrow> link_at ?d s; d2 \<leftarrow> movelink ?d link e (hl_next pl1);
            pl2 \<leftarrow> link_at d2 s; Some (d2[s := pl2\<lparr>hl_next := Some e\<rparr>]) }) = Some d'"
        "laid d' ?ps None" "length d' = length ?d"
        "\<And>c. c \<notin> insert s (fst ` set ((e, ?r) # us)) \<Longrightarrow> d' ! c = ?d ! c"
      have cells: "fst ` set (C s) \<union> fst ` set (C m) = fst ` set ?qs" unfolding set by (simp add: image_Un)
      have "image_mset snd (mset ?ps) = image_mset snd (mset ?qs)" by simp
      then have recs': "mset (map snd ?ps) = mset (map snd (C s)) + mset (map snd (C m))" unfolding recs by simp
      have cl: "insert m (fst ` set ?ps) = insert e (fst ` set (C s) \<union> fst ` set (C m))" "m \<notin> fst ` set ?ps"
        unfolding cells using dist e by auto
      have same: "d' ! p = d ! p" if "p \<notin> insert e (fst ` set (C s) \<union> fst ` set (C m))" for p
        using that d'(4) [of p] unfolding cells by auto
      show thesis
        by (rule that [OF d'(1) _ merge_chains [OF c hom e(1) _ d'(2) _ recs' cl same]]) (simp_all add: d'(3))
    qed
  qed
qed

text \<open>The cases of \<open>move_last\<close>, over the positions before and after.\<close>

lemma move_last_cases:
  fixes ops :: "('r, 'k) hash_ops" and d :: "'r hash_link list"
  assumes "e \<noteq> m" and "m < length d" and "0 < m" and sz: "sizes_ok b (m + 1)"
  defines "hom0 \<equiv> home ops b (m + 1)" and "hom1 \<equiv> home ops (shrunk b m) m"
  defines "P \<equiv> hom1 (hl_data (d ! m))"
  defines "y \<equiv> hl_data (d ! P)"
  shows "move_last ops b (shrunk b m) m e d =
    (if P = e then Some (d[e := d ! m])
     else if P \<noteq> hom1 y then movelink (d[e := d ! P, P := d ! m]) (Some P) (hom1 y) (Some e)
     else if hom0 (hl_data (d ! m)) = hom0 y \<and> hom0 y \<noteq> m
     then movelink (d[e := d ! m]) (Some m) P (Some e)
     else do {
       pl1 \<leftarrow> link_at (d[e := d ! m]) P;
       d2 \<leftarrow> movelink (d[e := d ! m]) (if hom0 (hl_data (d ! m)) = hom0 y then Some P else None) e (hl_next pl1);
       pl2 \<leftarrow> link_at d2 P;
       Some (d2[P := pl2\<lparr>hl_next := Some e\<rparr>]) })"
proof -
  have "P < m" unfolding P_def hom1_def home_def by (rule mask_less [OF sizes_ok_shrunk [OF sz] assms(3)])
  then have "P < length d" using assms(2) by simp
  then show ?thesis using assms(1,2)
    unfolding move_last_def link_at_def y_def P_def hom1_def hom0_def home_def Let_def by simp
qed

lemma merges_shrunk:
  assumes "sizes_ok b (m + 1)" and "0 < m"
  shows "merges m (m - shrunk b m div 2) (home ops b (m + 1)) (home ops (shrunk b m) m)"
  unfolding merges_def by (intro conjI allI home_shrink [OF assms])

lemma chained_none: "chained hom d {} C \<Longrightarrow> chained hom' d {} C"
proof -
  assume c: "chained hom d {} C"
  have "C i = []" for i by (rule chained_outside [OF c]) simp
  then show ?thesis by (simp add: chained_def)
qed

lemma move_last_free:
  assumes c: "chained (home ops b (m + 1)) d {..<m} C" and sz: "sizes_ok b (m + 1)"
  shows "chained (home ops (shrunk b m) m) d {..<m} C" and "chain_records m C = chain_records (Suc m) C"
proof -
  show "chained (home ops (shrunk b m) m) d {..<m} C"
    using c merge_none(1) [OF c merges_shrunk [OF sz]] chained_none by (cases "m = 0") auto
  have "C m = []" by (rule chained_outside [OF c]) simp
  then show "chain_records m C = chain_records (Suc m) C" by (simp add: chain_records_Suc)
qed

text \<open>A record that is in the way of the last cell's record moves first.\<close>

lemma move_displaced:
  assumes c: "chained hom0 d ({..m} - {e}) C" and hom: "merges m s hom0 hom1" and e: "e < m" and len: "length d = Suc m"
    and P: "P = hom1 (hl_data (d ! m))" "P \<noteq> e" "P < m" and g: "g = hom1 (hl_data (d ! P))" "g \<noteq> P"
  obtains d' C' where "movelink (d[e := d ! P, P := d ! m]) (Some P) g (Some e) = Some d'" and "length d' = Suc m"
    and "chained hom1 d' {..<m} C'" and "chain_records m C' = chain_records (Suc m) C"
proof -
  let ?r = "hl_data (d ! m)" and ?y = "hl_data (d ! P)"
  have PS: "P \<in> {..m} - {e}" and mS: "m \<in> {..m} - {e}" using P e by auto
  have y: "hom0 ?y \<noteq> m"
  proof
    assume a: "hom0 ?y = m"
    with chainedD(6) [OF c PS] have "C m \<noteq> []" by auto
    then have "hom0 ?r = m" by (rule chained_cell_of_head(1) [OF c mS])
    with a g P(1) mergesD(2) [OF hom] show False by simp
  qed
  then have g0: "g = hom0 ?y" using mergesD(3) [OF hom] g by simp
  have r: "hom0 ?r = m"
  proof (rule ccontr)
    assume a: "hom0 ?r \<noteq> m"
    then have "hom0 ?r = P" using mergesD(3) [OF hom] P(1) by simp
    with chainedD(6) [OF c mS] have "C P \<noteq> []" by auto
    then have "hom0 ?y = P" by (rule chained_cell_of_head(1) [OF c PS])
    with g0 g(2) show False by simp
  qed
  have m_out: "m \<notin> fst ` set (C g)"
  proof
    assume "m \<in> fst ` set (C g)"
    then obtain pr where pr: "pr \<in> set (C g)" "fst pr = m" by auto
    have "(m, ?r) \<in> set (C m)" using chainedD(6) [OF c mS] r by simp
    from chained_same_cell(1) [OF c pr(1) this] pr(2) have "g = m" by simp
    with y g0 show False by simp
  qed
  have e': "e \<notin> {..m} - {e}" "e < length d" using e len by auto
  show thesis
  proof (rule displace [OF c e' PS g0 g(2), of "d ! m"])
    fix d' C'
    assume d': "movelink (d[e := d ! P, P := d ! m]) (Some P) g (Some e) = Some d'"
      and c': "chained hom0 d' (insert e ({..m} - {e}) - {P}) C'" and l: "length d' = length d" "d' ! P = d ! m"
      and recs: "\<And>n. chain_records n C' = chain_records n C"
      and same: "\<And>c. c \<notin> fst ` set (C g) \<Longrightarrow> c \<noteq> e \<Longrightarrow> d' ! c = d ! c"
    have S: "insert e ({..m} - {e}) - {P} = {..m} - {P}" using e by auto
    have dm: "d' ! m = d ! m" using m_out e by (intro same) auto
    then have id: "d'[P := d' ! m] = d'" using l(2) by (metis list_update_id)
    have len': "length d' = Suc m" using l len by simp
    have r': "hom1 (hl_data (d' ! m)) = P" using dm P(1) by simp
    show thesis
    proof (rule move_head [OF c' [unfolded S] hom P(3) len' r'])
      fix C2 assume "chained hom1 (d'[P := d' ! m]) {..<m} C2" "chain_records m C2 = chain_records (Suc m) C'"
      then show thesis unfolding id recs by (rule that [OF d' len'])
    qed
  qed
qed

lemma move_last_chained:
  assumes c: "chained (home ops b (m + 1)) d ({..m} - {e}) C" and e: "e \<le> m" and len: "length d = Suc m"
    and sz: "sizes_ok b (m + 1)"
  obtains d' C' where "move_last ops b (shrunk b m) m e d = Some d'" and "length d' = Suc m"
    and "chained (home ops (shrunk b m) m) d' {..<m} C'" and "chain_records m C' = chain_records (Suc m) C"
proof (cases "e = m")
  case True
  then have "{..m} - {e} = {..<m}" by auto
  with c have c': "chained (home ops b (m + 1)) d {..<m} C" by simp
  show thesis
    by (rule that [OF _ len move_last_free [OF c' sz]]) (simp add: move_last_def True)
next
  case False
  with e have m: "0 < m" "e < m" by auto
  let ?hom0 = "home ops b (m + 1)" and ?hom1 = "home ops (shrunk b m) m" and ?s = "m - shrunk b m div 2"
  let ?r = "hl_data (d ! m)"
  let ?P = "?hom1 ?r"
  let ?y = "hl_data (d ! ?P)"
  have hom: "merges m ?s ?hom0 ?hom1" by (rule merges_shrunk [OF sz m(1)])
  have mlen: "m < length d" using len by simp
  note ml = move_last_cases [OF False mlen m(1) sz, of ops]
  have P: "?P < m" unfolding home_def by (rule mask_less [OF sizes_ok_shrunk [OF sz] m(1)])
  consider "?P = e" | "?P \<noteq> e" "?hom1 ?y \<noteq> ?P" | "?P \<noteq> e" "?hom1 ?y = ?P" "?hom0 ?r = ?hom0 ?y" "?hom0 ?y \<noteq> m"
    | "?P \<noteq> e" "?hom1 ?y = ?P" "?hom0 ?r \<noteq> ?hom0 ?y \<or> ?hom0 ?y = m" by blast
  then show thesis
  proof cases
    case 1
    show thesis
    proof (rule move_head [OF c hom m(2) len 1])
      fix C' assume "chained ?hom1 (d[e := d ! m]) {..<m} C'" "chain_records m C' = chain_records (Suc m) C"
      then show thesis by (intro that [of "d[e := d ! m]" C']) (simp_all add: ml 1 len)
    qed
  next
    case 2
    show thesis
    proof (rule move_displaced [OF c hom m(2) len refl 2(1) P refl 2(2)])
      fix d' C' assume "movelink (d[e := d ! ?P, ?P := d ! m]) (Some ?P) (?hom1 ?y) (Some e) = Some d'"
        "length d' = Suc m" "chained ?hom1 d' {..<m} C'" "chain_records m C' = chain_records (Suc m) C"
      moreover from this(1) 2 have "move_last ops b (shrunk b m) m e d = Some d'" unfolding ml by simp
      ultimately show thesis by (intro that [of d' C'])
    qed
  next
    case 3
    have r: "?hom0 ?r \<noteq> m" using 3(3,4) by simp
    have rP: "?P = ?hom0 ?r" by (rule mergesD(3) [OF hom r])
    have same: "d[e := d ! m, m := d ! m] = d[e := d ! m]" 
      using list_update_id [of "d[e := d ! m]" m] False by simp
    have S: "m \<in> {..m} - {e}" "insert e ({..m} - {e}) - {m} = {..<m}" using m by auto
    have e': "e \<notin> {..m} - {e}" "e < length d" using m len by auto
    show thesis
    proof (rule displace [OF c e' S(1) refl r, of "d ! m"])
      fix d' C' assume d': "movelink (d[e := d ! m, m := d ! m]) (Some m) (?hom0 ?r) (Some e) = Some d'"
        and c': "chained ?hom0 d' (insert e ({..m} - {e}) - {m}) C'" and l: "length d' = length d"
        and recs: "\<And>n. chain_records n C' = chain_records n C"
      note f = move_last_free [OF c' [unfolded S] sz]
      have "move_last ops b (shrunk b m) m e d = Some d'"
        unfolding ml using 3 d' unfolding same rP [symmetric] by simp
      then show thesis by (rule that [OF _ _ f(1)]) (use l len recs f(2) in simp_all)
    qed
  next
    case 4
    have r: "?hom0 ?r = m"
    proof (rule ccontr)
      assume a: "?hom0 ?r \<noteq> m"
      then have rP: "?hom0 ?r = ?P" using mergesD(3) [OF hom] by simp
      have PS: "?P \<in> {..m} - {e}" and mS: "m \<in> {..m} - {e}" using P m 4(1) by auto
      have "?hom0 ?y \<noteq> m"
      proof
        assume "?hom0 ?y = m"
        with chainedD(6) [OF c PS] have "C m \<noteq> []" by auto
        then have "?hom0 ?r = m" by (rule chained_cell_of_head(1) [OF c mS])
        with a show False by simp
      qed
      with 4 rP mergesD(3) [OF hom, of ?y] show False by simp
    qed
    have Ps: "?P = ?s" by (rule mergesD(2) [OF hom r])
    show thesis
    proof (rule move_spliced [OF c hom m(2) _ len r _ refl])
      show "?s \<noteq> e" "?hom1 (hl_data (d ! ?s)) = ?s" using 4 unfolding Ps by simp_all
      fix d' C'
      assume d': "(do { pl1 \<leftarrow> link_at (d[e := d ! m]) ?s;
            d2 \<leftarrow> movelink (d[e := d ! m]) (if ?hom0 (hl_data (d ! ?s)) = m then Some ?s else None) e (hl_next pl1);
            pl2 \<leftarrow> link_at d2 ?s; Some (d2[?s := pl2\<lparr>hl_next := Some e\<rparr>]) }) = Some d'"
        and l: "length d' = length d" and c': "chained ?hom1 d' {..<m} C'" "chain_records m C' = chain_records (Suc m) C"
      have "move_last ops b (shrunk b m) m e d = Some d'"
        unfolding ml using d' 4 r unfolding Ps by (simp add: eq_commute [of m])
      then show thesis by (rule that [OF _ _ c']) (simp add: l len)
    qed
  qed
qed

section \<open>my_hash_delete\<close>

lemma records_member:
  assumes ch: "chains_of ops h C"
  shows "x \<in># hash_records h \<longleftrightarrow> x \<in> snd ` set (C (home ops (blength h) (records h) x))"
proof -
  note c = chains_ofD(3) [OF ch]
  have "x \<in># hash_records h \<longleftrightarrow> (\<exists>i<records h. x \<in> snd ` set (C i))"
    unfolding hash_records_chains [OF ch] by (auto simp: set_mset_sum)
  also have "\<dots> \<longleftrightarrow> x \<in> snd ` set (C (home ops (blength h) (records h) x))"
  proof
    assume "\<exists>i<records h. x \<in> snd ` set (C i)"
    then obtain i pr where pr: "pr \<in> set (C i)" "snd pr = x" by auto
    then have "home ops (blength h) (records h) x = i" using chainedD(4) [OF c pr(1)] by simp
    with pr show "x \<in> snd ` set (C (home ops (blength h) (records h) x))" by auto
  next
    let ?i = "home ops (blength h) (records h) x"
    assume a: "x \<in> snd ` set (C ?i)"
    then have "?i < records h" using chained_outside [OF c, of ?i] by (cases "?i < records h") auto
    with a show "\<exists>i<records h. x \<in> snd ` set (C i)" by blast
  qed
  finally show ?thesis .
qed

text \<open>The search of the record: from its chain, or from the chain that has the cell of its position.\<close>

lemma find_record_chains:
  assumes ch: "chains_of ops h C" and n: "0 < records h" and x: "x \<notin># hash_records h"
  shows "find_record (hash_array h) x None (home ops (blength h) (records h) x) = Some None"
proof -
  let ?i = "home ops (blength h) (records h) x" and ?d = "hash_array h"
  note c = chains_ofD(3) [OF ch]
  have i: "?i \<in> {..<records h}" using mask_less [OF chains_ofD(2) [OF ch] n] by (simp add: home_def)
  have none: "x \<notin> snd ` set (C ?i)" using x records_member [OF ch] by simp
  show ?thesis
  proof (cases "C ?i = []")
    case False
    then have "first_of (C ?i) None = Some ?i" using chainedD(2) [OF c, of ?i] by (cases "C ?i") auto
    with chainedD(1) [OF c] none show ?thesis by (rule find_record_miss)
  next
    case True
    let ?y = "hl_data (?d ! ?i)"
    let ?g = "home ops (blength h) (records h) ?y"
    have "(?i, ?y) \<in> set (C ?g)" by (rule chainedD(6) [OF c i])
    then obtain xs ys where g: "C ?g = xs @ (?i, ?y) # ys" by (auto dest: split_list)
    then have away: "?g \<noteq> ?i" using True by auto
    have "snd pr \<noteq> x" if "pr \<in> set ((?i, ?y) # ys)" for pr
    proof -
      have "pr \<in> set (C ?g)" unfolding g using that by auto
      from chainedD(4) [OF c this] away show ?thesis by metis
    qed
    then have out: "x \<notin> snd ` set ((?i, ?y) # ys)" by blast
    have "laid ?d ((?i, ?y) # ys) None" using chainedD(1) [OF c, of ?g] unfolding g by auto
    then show ?thesis by (rule find_record_miss [OF _ out]) simp
  qed
qed

lemma laid_fewer_cells: "laid d ps q \<Longrightarrow> fst ` set ps \<subseteq> {..<length d - 1} \<Longrightarrow> laid (butlast d) ps q"
  by (induction ps) (auto simp: nth_butlast)

lemma chained_fewer_cells:
  assumes c: "chained hom d {..<m} C" and len: "length d = Suc m"
  shows "chained hom (butlast d) {..<m} C"
proof -
  have "fst ` set (C i) \<subseteq> {..<m}" for i using chainedD(3) [OF c] by blast
  then have "laid (butlast d) (C i) None" for i using laid_fewer_cells [OF chainedD(1) [OF c, of i]] len by simp
  moreover have "butlast d ! p = d ! p" if "p < m" for p using that len by (simp add: nth_butlast)
  ultimately show ?thesis using c len unfolding chained_def by simp
qed

lemma my_hash_delete_found:
  assumes ch: "chains_of ops h C" and x: "x \<in># hash_records h"
  obtains h' where "my_hash_delete ops x h = Some (False, h')" and "hash_inv ops h'"
    and "hash_records h = add_mset x (hash_records h')"
proof -
  let ?i = "home ops (blength h) (records h) x" and ?d = "hash_array h"
  note len = chains_ofD(1) [OF ch] and c = chains_ofD(3) [OF ch]
  have mem: "x \<in> snd ` set (C ?i)" using x records_member [OF ch] by simp
  then obtain xs p ys where C: "C ?i = xs @ (p, x) # ys" and first: "x \<notin> snd ` set xs" by (rule split_at_record)
  have i: "?i < records h" using chained_outside [OF c, of ?i] mem by (cases "?i < records h") auto
  then obtain m where m: "records h = m + 1" by (cases "records h") auto
  have sz: "sizes_ok (blength h) (m + 1)" using chains_ofD(2) [OF ch] m by simp
  have "first_of xs (Some p) = Some ?i" using chainedD(2) [OF c, of ?i] unfolding C by (cases xs) auto
  with chainedD(1) [OF c, of ?i] first have find:
    "find_record ?d x None ?i = Some (Some (if xs = [] then None else Some (fst (last xs)), p))"
    unfolding C by (intro find_record_hit)
  show thesis
  proof (rule unlink_chained [OF c C])
    fix d e ps
    assume u: "unlink_record ?d (if xs = [] then None else Some (fst (last xs))) p = Some (d, e)"
      and c1: "chained (home ops (blength h) (records h)) d ({..<records h} - {e}) (C(?i := ps))"
      and l: "length d = length ?d" and e: "e \<in> {..<records h}"
      and recs: "mset (map snd (C ?i)) = add_mset x (mset (map snd ps))"
    have c1': "chained (home ops (blength h) (m + 1)) d ({..m} - {e}) (C(?i := ps))"
      using c1 m by (simp add: lessThan_Suc_atMost)
    have l': "length d = Suc m" "e \<le> m" using l len m e by auto
    show thesis
    proof (rule move_last_chained [OF c1' l'(2,1) sz])
      fix d' C' assume mv: "move_last ops (blength h) (shrunk (blength h) m) m e d = Some d'"
        and c2: "length d' = Suc m" "chained (home ops (shrunk (blength h) m) m) d' {..<m} C'"
        and r2: "chain_records m C' = chain_records (Suc m) (C(?i := ps))"
      let ?h = "h\<lparr>records := m, blength := shrunk (blength h) m, hash_array := butlast d'\<rparr>"
      have ch': "chains_of ops ?h C'"
        using chained_fewer_cells [OF c2(2,1)] c2(1) sizes_ok_shrunk [OF sz] by (simp add: chains_of_def)
      have "my_hash_delete ops x h = Some (False, ?h)"
        using find u mv m unfolding my_hash_delete_def shrunk_def home_def by (simp add: Let_def)
      moreover have "hash_inv ops ?h" using ch' by (auto simp: hash_inv_def)
      moreover have "hash_records h = add_mset x (hash_records ?h)"
        using chain_records_update [OF i, of C ps] recs
        unfolding hash_records_chain_records [OF ch] hash_records_chain_records [OF ch'] by (simp add: r2 m)
      ultimately show thesis by (rule that)
    qed
  qed
qed

lemma my_hash_delete_correct:
  assumes inv: "hash_inv ops h"
  obtains h' where "my_hash_delete ops x h = Some (x \<notin># hash_records h, h')" and "hash_inv ops h'"
    and "x \<notin># hash_records h \<Longrightarrow> h' = h"
    and "hash_records h' = hash_records h - {#x#}"
proof -
  obtain C where ch: "chains_of ops h C" using inv by (auto simp: hash_inv_def)
  show thesis
  proof (cases "x \<in># hash_records h")
    case True
    show thesis by (rule my_hash_delete_found [OF ch True]) (rule that, use True in simp_all)
  next
    case False
    have "my_hash_delete ops x h = Some (True, h)"
      using find_record_chains [OF ch _ False] by (cases "records h = 0") (simp_all add: my_hash_delete_def home_def Let_def)
    with False inv show thesis by (intro that [of h]) simp_all
  qed
qed

end
