(* ===== verification/Hash_Table_Update.thy ===== *)
theory Hash_Table_Update
  imports Hash_Table_Delete
begin

text \<open>
  The other operations of the hash table: all records of a key one after the other, replacing a
  record, moving a record whose key has changed, and the self-check.
\<close>

section \<open>All records of a key\<close>

lemma hash_next_loop_chain:
  "laid (hash_array h) ps None \<Longrightarrow>
    hash_next_loop ops h key (first_of ps None) = Some (found_at (find (matches ops key) ps))"
proof (induction ps)
  case Nil
  then show ?case by (subst hash_next_loop.simps) (simp add: found_at_def)
next
  case (Cons pr ps)
  then show ?case
    by (subst hash_next_loop.simps) (simp add: link_at_def hashcmp_matches found_at_def)
qed

lemma my_hash_next_chain:
  assumes "laid (hash_array h) (xs @ (p, r) # ys) None"
  shows "my_hash_next ops h key (Some p) = Some (found_at (find (matches ops key) ys))"
  using assms hash_next_loop_chain [of h ys] by (auto simp: my_hash_next_def link_at_def)

lemma my_hash_next_none [simp]: "my_hash_next ops h key None = Some (None, None)"
  by (simp add: my_hash_next_def)

text \<open>The loop of the callers: \<open>my_hash_first\<close>, then \<open>my_hash_next\<close> until there is no record.\<close>

partial_function (option) collect_loop ::
  "('r, 'k) hash_ops \<Rightarrow> 'r my_hash \<Rightarrow> 'k \<Rightarrow> nat option \<times> 'r option \<Rightarrow> 'r list option" where
  [code]: "collect_loop ops h key found =
     (case found of
        (_, None) \<Rightarrow> Some []
      | (state, Some r) \<Rightarrow> do {
          found' \<leftarrow> my_hash_next ops h key state;
          rs \<leftarrow> collect_loop ops h key found';
          Some (r # rs) })"

definition hash_collect :: "('r, 'k) hash_ops \<Rightarrow> 'r my_hash \<Rightarrow> 'k \<Rightarrow> 'r list option" where
  "hash_collect ops h key = do { found \<leftarrow> my_hash_first ops h key; collect_loop ops h key found }"

lemma find_cases:
  obtains (none) "find P xs = None" "filter P xs = []"
  | (some) ys x zs where "find P xs = Some x" "xs = ys @ x # zs" "filter P xs = x # filter P zs"
proof (cases "find P xs")
  case None
  then show thesis by (intro none) (auto simp: find_None_iff filter_empty_conv)
next
  case (Some x)
  then have "\<exists>y\<in>set xs. P y" by (auto simp: find_Some_iff)
  then obtain ys y zs where s: "xs = ys @ y # zs" "P y" "\<forall>w\<in>set ys. \<not> P w" by (rule split_list_first_propE)
  then have "find P xs = Some y" "filter P ys = []" by (auto simp: find_Some_iff filter_empty_conv nth_append intro!: exI [of _ "length ys"])
  with s show thesis by (intro some [of y ys zs]) auto
qed

lemma collect_loop_chain:
  assumes "laid (hash_array h) (xs @ ys) None"
  shows "collect_loop ops h key (found_at (find (matches ops key) ys)) = Some (map snd (filter (matches ops key) ys))"
  using assms
proof (induction "length ys" arbitrary: xs ys rule: less_induct)
  case less
  show ?case
  proof (cases rule: find_cases [of "matches ops key" ys])
    case none
    then show ?thesis by (subst collect_loop.simps) (simp add: found_at_def)
  next
    case (some ws x zs)
    let ?xs = "xs @ ws @ [x]"
    have l: "laid (hash_array h) ((xs @ ws) @ (fst x, snd x) # zs) None" using less.prems some by simp
    have "laid (hash_array h) (?xs @ zs) None" using less.prems some by simp
    from less.hyps [OF _ this] some my_hash_next_chain [OF l, of ops key] show ?thesis
      by (subst collect_loop.simps) (simp add: found_at_def)
  qed
qed

lemma hash_collect_correct:
  assumes "ops_ok ops" and "hash_inv ops h"
  obtains rs where "hash_collect ops h key = Some rs"
    and "mset rs = filter_mset (\<lambda>r. \<not> key_differs ops (get_key ops r) key) (hash_records h)"
    and "my_hash_search ops h key = Some (case rs of [] \<Rightarrow> None | r # _ \<Rightarrow> Some r)"
proof -
  obtain C where ch: "chains_of ops h C" using assms(2) by (auto simp: hash_inv_def)
  let ?c = "C (my_hash_mask (hash_function ops key) (blength h) (records h))"
  have "laid (hash_array h) ([] @ ?c) None" using chainedD(1) [OF chains_ofD(3) [OF ch]] by simp
  from collect_loop_chain [OF this] have "hash_collect ops h key = Some (map snd (filter (matches ops key) ?c))"
    unfolding hash_collect_def my_hash_first_chain [OF assms(1) ch] by simp
  moreover have "my_hash_search ops h key = Some (case map snd (filter (matches ops key) ?c) of [] \<Rightarrow> None | r # _ \<Rightarrow> Some r)"
    unfolding my_hash_search_def my_hash_first_chain [OF assms(1) ch]
    by (cases rule: find_cases [of "matches ops key" ?c]) (simp_all add: found_at_def)
  ultimately show thesis by (intro that) (simp_all add: records_in_chain [OF assms(1) ch])
qed

section \<open>The self-check\<close>

lemma check_links_chain:
  assumes l: "laid (hash_array h) ps None" and i: "\<And>pr. pr \<in> set ps \<Longrightarrow> home ops (blength h) (records h) (snd pr) = i"
    and len: "length (hash_array h) = records h" and found: "found + length ps \<le> records h"
  shows "check_links ops h i (first_of ps None) found error = Some (found + length ps, error)"
  using l i found
proof (induction ps arbitrary: found)
  case Nil
  show ?case by (subst check_links.simps) simp
next
  case (Cons pr ps)
  have "my_hash_rec_mask ops \<lparr>hl_next = first_of ps None, hl_data = snd pr\<rparr> (blength h) (records h) = i"
    using Cons.prems(2) [of pr] by (simp add: my_hash_rec_mask_def home_def)
  moreover have "check_links ops h i (first_of ps None) (found + 1) error = Some (found + 1 + length ps, error)"
    using Cons by (intro Cons.IH) auto
  ultimately show ?case using Cons.prems len
    by (subst check_links.simps) (auto simp: link_at_def Let_def)
qed

lemma check_positions_chains:
  assumes ch: "chains_of ops h C" and js: "set js \<subseteq> {..<records h}"
    and found: "found + sum_list (map (\<lambda>i. length (C i)) js) \<le> records h"
  shows "check_positions ops h js found error = Some (found + sum_list (map (\<lambda>i. length (C i)) js), error)"
  using js found
proof (induction js arbitrary: found)
  case (Cons i js)
  note IH = Cons.IH and prems = Cons.prems
  note len = chains_ofD(1) [OF ch] and c = chains_ofD(3) [OF ch]
  have i: "i \<in> {..<records h}" using prems by simp
  let ?r = "hl_data (hash_array h ! i)"
  have lk: "link_at (hash_array h) i = Some (hash_array h ! i)" using i len by (simp add: link_at_def)
  show ?case
  proof (cases "C i")
    case Nil
    then have "home ops (blength h) (records h) ?r \<noteq> i" using chainedD(6) [OF c i] by auto
    then have "my_hash_rec_mask ops (hash_array h ! i) (blength h) (records h) \<noteq> i"
      by (simp add: my_hash_rec_mask_def home_def)
    with IH prems Nil lk show ?thesis by simp
  next
    case (Cons pr ps)
    then have ne: "C i \<noteq> []" by simp
    have "home ops (blength h) (records h) ?r = i" by (rule chained_cell_of_head(1) [OF c i ne])
    then have "my_hash_rec_mask ops (hash_array h ! i) (blength h) (records h) = i"
      by (simp add: my_hash_rec_mask_def home_def)
    moreover have l: "laid (hash_array h) (pr # ps) None" "fst pr = i"
      using chainedD(1,2) [OF c, of i] Cons by simp_all
    moreover have "check_links ops h i (first_of ps None) (found + 1) error = Some (found + 1 + length ps, error)"
      using chainedD(4) [OF c, of _ i] l len prems(2) Cons by (intro check_links_chain) auto
    ultimately show ?thesis using IH [of "found + 1 + length ps"] prems Cons lk by auto
  qed
qed simp

lemma my_hash_check_correct:
  assumes "hash_inv ops h"
  shows "my_hash_check ops h = Some False"
proof -
  obtain C where ch: "chains_of ops h C" using assms by (auto simp: hash_inv_def)
  have "size (hash_records h) = records h" using chains_ofD(1) [OF ch] by (simp add: hash_records_def)
  moreover have "size (\<Sum>i<n. mset (map snd (C i))) = sum_list (map (\<lambda>i. length (C i)) [0..<n])" for n
    by (induction n) simp_all
  ultimately have "sum_list (map (\<lambda>i. length (C i)) [0..<records h]) = records h"
    unfolding hash_records_chains [OF ch] by metis
  then show ?thesis using check_positions_chains [OF ch, of "[0..<records h]" 0 False]
    by (simp add: my_hash_check_def atLeast0LessThan)
qed

section \<open>A record with a new key\<close>

text \<open>The functions of the table before the key of the record \<open>x\<close> changed.\<close>

definition rekeyed :: "('r, 'k) hash_ops \<Rightarrow> 'r \<Rightarrow> 'k \<Rightarrow> ('r, 'k) hash_ops" where
  "rekeyed ops x old_key = ops\<lparr>get_key := (get_key ops)(x := old_key)\<rparr>"

lemma home_rekeyed:
  "r \<noteq> x \<Longrightarrow> home (rekeyed ops x k) b n r = home ops b n r"
  "home (rekeyed ops x k) b n x = my_hash_mask (hash_function ops k) b n"
  by (simp_all add: home_def rec_hashnr_def rekeyed_def)

definition other_has_key :: "('r, 'k) hash_ops \<Rightarrow> 'r \<Rightarrow> 'r my_hash \<Rightarrow> bool" where
  "other_has_key ops x h \<longleftrightarrow> (\<exists>r \<in># hash_records h. r \<noteq> x \<and> \<not> key_differs ops (get_key ops r) (get_key ops x))"

lemma update_conflict_chain:
  assumes "laid (hash_array h) (xs @ ys) None"
  shows "update_conflict ops h x (found_at (find (matches ops (get_key ops x)) ys)) =
    Some (\<exists>pr \<in> set ys. matches ops (get_key ops x) pr \<and> snd pr \<noteq> x)"
  using assms
proof (induction "length ys" arbitrary: xs ys rule: less_induct)
  case less
  let ?m = "matches ops (get_key ops x)"
  have ex: "(\<exists>pr \<in> set zs. ?m pr \<and> snd pr \<noteq> x) \<longleftrightarrow> (\<exists>pr \<in> set (filter ?m zs). snd pr \<noteq> x)" for zs
    by (simp add: Bex_def conj_assoc)
  show ?case
  proof (cases rule: find_cases [of ?m ys])
    case none
    then show ?thesis unfolding ex by (subst update_conflict.simps) (simp add: found_at_def)
  next
    case (some ws z zs)
    let ?xs = "xs @ ws @ [z]"
    have l: "laid (hash_array h) ((xs @ ws) @ (fst z, snd z) # zs) None" using less.prems some by simp
    have "laid (hash_array h) (?xs @ zs) None" using less.prems some by simp
    from less.hyps [OF _ this] have IH: "update_conflict ops h x (found_at (find ?m zs)) = Some (\<exists>pr \<in> set (filter ?m zs). snd pr \<noteq> x)"
      unfolding ex using some(2) by simp
    then show ?thesis unfolding ex some(1,3) using my_hash_next_chain [OF l, of ops "get_key ops x"]
      by (subst update_conflict.simps) (auto simp: found_at_def)
  qed
qed

lemma other_has_key_chain:
  assumes ops: "ops_ok ops" and ch: "chains_of (rekeyed ops x k) h C"
  shows "other_has_key ops x h \<longleftrightarrow>
    (\<exists>pr \<in> set (C (home ops (blength h) (records h) x)). matches ops (get_key ops x) pr \<and> snd pr \<noteq> x)"
proof
  assume "other_has_key ops x h"
  then obtain r where r: "r \<in># hash_records h" "r \<noteq> x" "\<not> key_differs ops (get_key ops r) (get_key ops x)"
    by (auto simp: other_has_key_def)
  then have "home ops (blength h) (records h) r = home ops (blength h) (records h) x"
    using ops by (auto simp: ops_ok_def home_def rec_hashnr_def)
  with r(1,2) records_member [OF ch, of r] have "r \<in> snd ` set (C (home ops (blength h) (records h) x))"
    by (simp add: home_rekeyed)
  with r show "\<exists>pr \<in> set (C (home ops (blength h) (records h) x)). matches ops (get_key ops x) pr \<and> snd pr \<noteq> x"
    by (auto simp: matches_def)
next
  let ?i = "home ops (blength h) (records h) x"
  assume "\<exists>pr \<in> set (C ?i). matches ops (get_key ops x) pr \<and> snd pr \<noteq> x"
  then obtain pr where pr: "pr \<in> set (C ?i)" "matches ops (get_key ops x) pr" "snd pr \<noteq> x" by blast
  have "home (rekeyed ops x k) (blength h) (records h) (snd pr) = ?i" by (rule chainedD(4) [OF chains_ofD(3) [OF ch] pr(1)])
  with pr(1) have "snd pr \<in># hash_records h" unfolding records_member [OF ch] by simp
  with pr show "other_has_key ops x h" by (auto simp: other_has_key_def matches_def)
qed

text \<open>The search for another record with the new key, in a table where \<open>x\<close> may be in a wrong chain.\<close>

lemma update_first_conflict:
  assumes ops: "ops_ok ops" and ch: "chains_of (rekeyed ops x k) h C" and n: "0 < records h"
  obtains found where "my_hash_first ops h (get_key ops x) = Some found"
    and "update_conflict ops h x found = Some (other_has_key ops x h)"
proof -
  let ?i = "home ops (blength h) (records h) x" and ?d = "hash_array h" and ?key = "get_key ops x"
  let ?old = "home (rekeyed ops x k) (blength h) (records h)"
  note len = chains_ofD(1) [OF ch] and sz = chains_ofD(2) [OF ch] and c = chains_ofD(3) [OF ch]
  have i: "?i \<in> {..<records h}" using mask_less [OF sz n] by (simp add: home_def)
  have eq: "my_hash_first ops h ?key = hash_first_loop ops h ?key True ?i"
    using n sz by (simp add: my_hash_first_def my_hash_first_from_hash_value_def sizes_ok_def home_def rec_hashnr_def)
  note other = other_has_key_chain [OF ops ch]
  show thesis
  proof (cases "C ?i = []")
    case False
    have head: "C ?i = (?i, hl_data (?d ! ?i)) # tl (C ?i)" by (rule chained_cell_of_head(2) [OF c i False])
    have "?old (hl_data (?d ! ?i)) = ?i" by (rule chained_cell_of_head(1) [OF c i False])
    then have "home ops (blength h) (records h) (hl_data (?d ! ?i)) = ?i"
      by (cases "hl_data (?d ! ?i) = x") (simp_all add: home_rekeyed)
    then have "my_hash_first ops h ?key = Some (found_at (find (matches ops ?key) (C ?i)))"
      unfolding eq using chainedD(1) [OF c, of ?i]
      by (intro hash_first_loop_chain) (simp, subst head, simp, subst head, simp)
    moreover have "update_conflict ops h x (found_at (find (matches ops ?key) (C ?i))) = Some (other_has_key ops x h)"
      unfolding other using chainedD(1) [OF c, of ?i] by (intro update_conflict_chain [of _ "[]"]) simp
    ultimately show thesis by (rule that)
  next
    case True
    let ?y = "hl_data (?d ! ?i)"
    have none: "\<not> other_has_key ops x h" unfolding other True by simp
    have lk: "link_at ?d ?i = Some (?d ! ?i)" using i len by (simp add: link_at_def)
    have in_g: "(?i, ?y) \<in> set (C (?old ?y))" by (rule chainedD(6) [OF c i])
    show thesis
    proof (cases "?y = x")
      case False
      then have away: "home ops (blength h) (records h) ?y \<noteq> ?i" using in_g True by (auto simp: home_rekeyed)
      then have "\<not> matches ops ?key (?i, ?y)" using home_matches [OF ops, of ?key "(?i, ?y)"] by (auto simp: home_def rec_hashnr_def)
      then have "my_hash_first ops h ?key = Some (None, None)" using away lk unfolding eq
        by (subst hash_first_loop.simps) (simp add: hashcmp_def matches_def my_hash_rec_mask_def home_def)
      then show thesis by (rule that) (subst update_conflict.simps, simp add: none)
    next
      case yx: True
      have "\<not> hashcmp ops (?d ! ?i) ?key" using ops yx by (simp add: hashcmp_def ops_ok_def)
      then have first: "my_hash_first ops h ?key = Some (Some ?i, Some x)" using lk yx unfolding eq
        by (subst hash_first_loop.simps) simp
      obtain xs ys where g: "C (?old x) = xs @ (?i, x) # ys" using in_g yx by (auto dest: split_list)
      note l = chainedD(1) [OF c, of "?old x", unfolded g]
      have "\<not> matches ops ?key pr \<or> snd pr = x" if "pr \<in> set ys" for pr
      proof (rule ccontr)
        assume a: "\<not> (\<not> matches ops ?key pr \<or> snd pr = x)"
        have "?old (snd pr) = ?old x" using that by (intro chainedD(4) [OF c]) (simp add: g)
        moreover have "?old (snd pr) = ?i" using a home_matches [OF ops, of ?key pr] by (simp add: home_rekeyed) (simp add: home_def rec_hashnr_def)
        ultimately show False using True g by simp
      qed
      then have none': "\<not> (\<exists>pr \<in> set ys. matches ops ?key pr \<and> snd pr \<noteq> x)" by blast
      have "laid ?d ((xs @ [(?i, x)]) @ ys) None" using l by simp
      from update_conflict_chain [OF this, of ops x] my_hash_next_chain [OF l, of ops ?key] none'
      have "update_conflict ops h x (Some ?i, Some x) = Some False"
        by (subst update_conflict.simps) simp
      with none show thesis by (intro that [OF first]) simp
    qed
  qed
qed

text \<open>The record goes behind the first one of the chain of its new position.\<close>

lemma place_second:
  assumes c: "chained hom d S C" and e: "e \<notin> S" "e < length d" and x: "hom x = idx"
    and idx: "idx \<in> S" "hom (hl_data (d ! idx)) = idx"
  defines "ps \<equiv> (idx, hl_data (d ! idx)) # (e, x) # tl (C idx)"
  shows "chained hom (d[e := \<lparr>hl_next = hl_next (d ! idx), hl_data = x\<rparr>, idx := (d ! idx)\<lparr>hl_next := Some e\<rparr>])
      (insert e S) (C(idx := ps))"
    and "C idx = (idx, hl_data (d ! idx)) # tl (C idx)"
proof -
  let ?y = "hl_data (d ! idx)"
  let ?d = "d[e := \<lparr>hl_next = hl_next (d ! idx), hl_data = x\<rparr>, idx := (d ! idx)\<lparr>hl_next := Some e\<rparr>]"
  have mem: "(idx, ?y) \<in> set (C idx)" using chainedD(6) [OF c idx(1)] idx(2) by simp
  then have ne: "C idx \<noteq> []" by auto
  show C: "C idx = (idx, ?y) # tl (C idx)" by (rule chained_cell_of_head(2) [OF c idx(1) ne])
  have l: "d ! idx = \<lparr>hl_next = first_of (tl (C idx)) None, hl_data = ?y\<rparr>" "laid d (tl (C idx)) None"
    using chainedD(1) [OF c, of idx] by (subst (asm) C, simp)+
  have sub: "fst ` set (C idx) \<subseteq> S" using chainedD(3) [OF c] by blast
  have fC: "fst ` set (C idx) = insert idx (fst ` set (tl (C idx)))" by (subst C) simp
  have cells: "e \<notin> fst ` set (tl (C idx))" "idx \<notin> fst ` set (tl (C idx))" "e \<noteq> idx"
  proof -
    show "e \<notin> fst ` set (tl (C idx))" "e \<noteq> idx" using sub fC e(1) idx(1) by blast+
    have "distinct (map fst (C idx))" by (rule chained_distinct [OF c])
    then show "idx \<notin> fst ` set (tl (C idx))" by (subst (asm) C) simp
  qed
  show "chained hom ?d (insert e S) (C(idx := ps))"
  proof (rule chained_replace [where K = "{idx}" and k = 0, OF c])
    show "insert e S = S - (\<Union>i\<in>{idx}. fst ` set (C i)) \<union> (\<Union>i\<in>{idx}. fst ` set ((C(idx := ps)) i))"
      using fC sub unfolding ps_def by auto
    show "?d ! p = d ! p" if "p \<in> S" "p \<notin> (\<Union>i\<in>{idx}. fst ` set (C i))" for p
      using that e fC by (cases "p = e"; cases "p = idx") auto
    show "hom (snd pr) = i" if "i \<notin> {idx}" "pr \<in> set (C i)" for i pr using chainedD(4) [OF c that(2)] .
    show "hom (snd pr) = i" if "i \<in> {idx}" "pr \<in> set ((C(idx := ps)) i)" for i pr
      using that x idx chainedD(4) [OF c, of pr idx] ne by (auto simp: ps_def dest: list.set_sel(2))
    have "hl_next (d ! idx) = first_of (tl (C idx)) None" by (subst l(1)) simp
    then have "?d ! e = \<lparr>hl_next = first_of (tl (C idx)) None, hl_data = x\<rparr>" using e cells(3) by simp
    moreover have "?d ! idx = \<lparr>hl_next = Some e, hl_data = ?y\<rparr>" using l(1) chainedD(5) [OF c idx(1)] by simp
    ultimately show "laid ?d ((C(idx := ps)) i) None" if "i \<in> {idx}" for i
      using that l(2) cells e chainedD(5) [OF c idx(1)] by (simp add: ps_def)
  qed (auto simp: ps_def)
qed

lemma relink_chained:
  assumes c: "chained (home ops b n) d ({..<n} - {e}) C" and e: "e < n" and len: "length d = n" and sz: "sizes_ok b n"
    and org: "hl_data org = x" and same: "e = idx \<Longrightarrow> hl_data (d ! e) = x"
  obtains d' C' where "relink_record ops b n idx (home ops b n x) org e d = Some d'" and "length d' = n"
    and "chained (home ops b n) d' {..<n} C'" and "chain_records n C' = add_mset x (chain_records n C)"
proof -
  let ?hom = "home ops b n"
  let ?i = "?hom x"
  let ?new = "\<lparr>hl_next = None, hl_data = x\<rparr>"
  let ?g = "?hom (hl_data (d ! ?i))"
  have i: "?i < n" using mask_less [OF sz] e by (simp add: home_def)
  have lnk: "org\<lparr>hl_next := q\<rparr> = \<lparr>hl_next = q, hl_data = x\<rparr>" for q using org by (cases org) simp
  have e': "e \<notin> {..<n} - {e}" "e < length d" "insert e ({..<n} - {e}) = {..<n}" using e len by auto
  consider "?i = e" | "?i \<noteq> e" "?g \<noteq> ?i" | "?i \<noteq> e" "?g = ?i" by blast
  then show thesis
  proof cases
    case 1
    have "(if e \<noteq> idx then d[e := org] else d) ! e = org \<or> hl_data ((if e \<noteq> idx then d[e := org] else d) ! e) = x"
      using e len same by auto
    then have "relink_record ops b n idx ?i org e d = Some (d[e := ?new])"
      using 1 e len lnk same by (cases "e = idx"; cases "d ! e") (simp_all add: relink_record_def link_at_def Let_def)
    moreover have "C e = []" by (rule chained_outside [OF c e'(1)])
    then have "chain_records n (C(e := [(e, x)])) = add_mset x (chain_records n C)"
      using e by (intro chain_records_add) simp_all
    ultimately show thesis using place_free [OF c e'(1,2) 1] unfolding e'(3) by (intro that) (simp_all add: len)
  next
    case 2
    have S: "?i \<in> {..<n} - {e}" using 2 i by simp
    have d2: "d[e := d ! ?i, ?i := d ! ?i] = d[e := d ! ?i]" using list_update_id [of "d[e := d ! ?i]" ?i] 2(1) by simp
    show thesis
    proof (rule displace [OF c e'(1,2) S refl 2(2), of "d ! ?i"])
      fix d' C'
      assume m: "movelink (d[e := d ! ?i, ?i := d ! ?i]) (Some ?i) ?g (Some e) = Some d'"
        and c': "chained ?hom d' (insert e ({..<n} - {e}) - {?i}) C'" and l: "length d' = length d"
        and r: "\<And>n. chain_records n C' = chain_records n C"
      have "relink_record ops b n idx ?i org e d = Some (d'[?i := ?new])"
        using 2 i len m lnk unfolding d2 by (simp add: relink_record_def link_at_def my_hash_rec_mask_def home_def Let_def)
      moreover have "C' ?i = []" by (rule chained_outside [OF c']) simp
      then have "chain_records n (C'(?i := [(?i, x)])) = add_mset x (chain_records n C)"
        using i unfolding r [symmetric] by (intro chain_records_add) simp_all
      moreover have "chained ?hom (d'[?i := ?new]) {..<n} (C'(?i := [(?i, x)]))"
        using place_free [OF c', where x = x, OF _ _ refl] i l len unfolding e'(3) by (simp add: insert_absorb)
      ultimately show thesis by (intro that) (simp_all add: l len)
    qed
  next
    case 3
    have S: "?i \<in> {..<n} - {e}" using 3 i by simp
    note ps = place_second [OF c e'(1,2) refl S 3(2)]
    have "relink_record ops b n idx ?i org e d =
        Some (d[e := \<lparr>hl_next = hl_next (d ! ?i), hl_data = x\<rparr>, ?i := (d ! ?i)\<lparr>hl_next := Some e\<rparr>])"
      using 3 i len lnk by (simp add: relink_record_def link_at_def my_hash_rec_mask_def home_def Let_def)
    moreover have "chain_records n (C(?i := (?i, hl_data (d ! ?i)) # (e, x) # tl (C ?i))) = add_mset x (chain_records n C)"
      using i by (intro chain_records_add) (simp, subst (2) ps(2), simp)
    ultimately show thesis using ps(1) unfolding e'(3) by (intro that) (simp_all add: len)
  qed
qed

lemma chained_rehome:
  assumes c: "chained hom d S C" and eq: "\<And>i pr. pr \<in> set (C i) \<Longrightarrow> hom' (snd pr) = hom (snd pr)"
  shows "chained hom' d S C"
proof (rule chained_replace [where K = "{}" and k = 0, OF c])
  show "hom' (snd pr) = i" if "i \<notin> {}" "pr \<in> set (C i)" for i pr
    using eq [OF that(2)] chainedD(4) [OF c that(2)] by simp
qed simp_all

lemma chain_records_mem:
  assumes "pr \<in> set (C i)" and "i < n"
  shows "snd pr \<in># chain_records n C"
  unfolding chain_records_def using assms by (auto simp: set_mset_sum)

lemma my_hash_update_moves:
  assumes ch: "chains_of (rekeyed ops x k) h C" and once: "count (hash_records h) x = 1"
    and moved: "my_hash_mask (hash_function ops k) (blength h) (records h) \<noteq> home ops (blength h) (records h) x"
  obtains p prev d e d' h' where
    "find_record (hash_array h) x None (my_hash_mask (hash_function ops k) (blength h) (records h)) = Some (Some (prev, p))"
    and "p < length (hash_array h)" and "unlink_record (hash_array h) prev p = Some (d, e)"
    and "relink_record ops (blength h) (records h) p (home ops (blength h) (records h) x) (hash_array h ! p) e d = Some d'"
    and "h' = h\<lparr>hash_array := d'\<rparr>" and "hash_inv ops h'" and "hash_records h' = hash_records h"
proof -
  let ?n = "records h" and ?b = "blength h" and ?d = "hash_array h"
  let ?old = "home (rekeyed ops x k) ?b ?n"
  let ?i = "?old x"
  note len = chains_ofD(1) [OF ch] and sz = chains_ofD(2) [OF ch] and c = chains_ofD(3) [OF ch]
  have "x \<in># hash_records h" using once by (metis count_eq_zero_iff zero_neq_one)
  then have mem: "x \<in> snd ` set (C ?i)" using records_member [OF ch] by simp
  then obtain xs p ys where C: "C ?i = xs @ (p, x) # ys" and first: "x \<notin> snd ` set xs" by (rule split_at_record)
  have i: "?i < ?n" using chained_outside [OF c, of ?i] mem by (cases "?i < ?n") auto
  have l: "laid ?d (xs @ (p, x) # ys) None" using chainedD(1) [OF c, of ?i] unfolding C .
  then have p: "p < length ?d" "hl_data (?d ! p) = x" by auto
  have "first_of xs (Some p) = Some ?i" using chainedD(2) [OF c, of ?i] unfolding C by (cases xs) auto
  with l first have find: "find_record ?d x None ?i = Some (Some (if xs = [] then None else Some (fst (last xs)), p))"
    by (intro find_record_hit)
  show thesis
  proof (rule unlink_chained [OF c C])
    fix d e ps
    assume u: "unlink_record ?d (if xs = [] then None else Some (fst (last xs))) p = Some (d, e)"
      and c1: "chained ?old d ({..<?n} - {e}) (C(?i := ps))" and l: "length d = length ?d" and e: "e \<in> {..<?n}"
      and recs: "mset (map snd (C ?i)) = add_mset x (mset (map snd ps))" and ep: "e = p \<Longrightarrow> hl_data (d ! e) = x"
    have recs': "hash_records h = add_mset x (chain_records ?n (C(?i := ps)))"
      using chain_records_update [OF i, of C ps] recs unfolding hash_records_chain_records [OF ch] by simp
    then have gone: "x \<notin># chain_records ?n (C(?i := ps))" using once by (simp add: count_eq_zero_iff)
    have "home ops ?b ?n (snd pr) = ?old (snd pr)" if pr: "pr \<in> set ((C(?i := ps)) j)" for pr j
    proof -
      have "j < ?n" using pr chained_outside [OF c1, of j] by (cases "j < ?n") auto
      with pr have "snd pr \<in># chain_records ?n (C(?i := ps))" by (rule chain_records_mem)
      with gone have "snd pr \<noteq> x" by metis
      then show ?thesis by (simp add: home_rekeyed)
    qed
    with c1 have c2: "chained (home ops ?b ?n) d ({..<?n} - {e}) (C(?i := ps))" by (rule chained_rehome)
    have e': "e < ?n" "length d = ?n" using e l len by auto
    show thesis
    proof (rule relink_chained [OF c2 e' sz p(2) ep])
      fix d' C' assume r: "relink_record ops ?b ?n p (home ops ?b ?n x) (?d ! p) e d = Some d'" "length d' = ?n"
        "chained (home ops ?b ?n) d' {..<?n} C'" "chain_records ?n C' = add_mset x (chain_records ?n (C(?i := ps)))"
      let ?h = "h\<lparr>hash_array := d'\<rparr>"
      have ch': "chains_of ops ?h C'" using r sz by (simp add: chains_of_def)
      then have "hash_inv ops ?h" "hash_records ?h = hash_records h"
        using hash_records_chain_records [OF ch'] r(4) recs' by (auto simp: hash_inv_def)
      with find p(1) u r(1) show thesis by (intro that [where h' = ?h]) (simp_all add: home_rekeyed)
    qed
  qed
qed

lemma my_hash_update_correct:
  assumes ops: "ops_ok ops" and inv: "hash_inv (rekeyed ops x k) h" and once: "count (hash_records h) x = 1"
  obtains h' where "my_hash_update ops x k h = Some (hash_unique ops \<and> other_has_key ops x h, h')"
    and "hash_records h' = hash_records h" and "hash_unique ops \<and> other_has_key ops x h \<Longrightarrow> h' = h"
    and "\<not> (hash_unique ops \<and> other_has_key ops x h) \<Longrightarrow> hash_inv ops h'"
proof -
  obtain C where ch: "chains_of (rekeyed ops x k) h C" using inv by (auto simp: hash_inv_def)
  let ?n = "records h" and ?b = "blength h"
  have "hash_array h \<noteq> []" using once by (auto simp: hash_records_def)
  then have n: "0 < ?n" using chains_ofD(1) [OF ch] by (metis length_greater_0_conv)
  obtain found where found: "my_hash_first ops h (get_key ops x) = Some found"
      "update_conflict ops h x found = Some (other_has_key ops x h)" by (rule update_first_conflict [OF ops ch n])
  let ?conflict = "hash_unique ops \<and> other_has_key ops x h"
  let ?i = "my_hash_mask (hash_function ops k) ?b ?n"
  show thesis
  proof (cases ?conflict)
    case True
    then have "my_hash_update ops x k h = Some (True, h)" using found by (simp add: my_hash_update_def)
    with True show thesis by (intro that [of h]) simp_all
  next
    case False
    show thesis
    proof (cases "?i = home ops ?b ?n x")
      case True
      then have "chained (home ops ?b ?n) (hash_array h) {..<?n} C"
        by (intro chained_rehome [OF chains_ofD(3) [OF ch]]) (metis home_rekeyed)
      then have "hash_inv ops h" using chains_ofD(1,2) [OF ch] by (auto simp: hash_inv_def chains_of_def)
      moreover have "my_hash_update ops x k h = Some (False, h)"
        using False found True by (auto simp: my_hash_update_def home_def)
      ultimately show thesis using False by (intro that [of h]) auto
    next
      case moved: False
      show thesis
      proof (rule my_hash_update_moves [OF ch once moved])
        fix p prev d e d' h'
        assume s: "find_record (hash_array h) x None ?i = Some (Some (prev, p))" "p < length (hash_array h)"
            "unlink_record (hash_array h) prev p = Some (d, e)"
            "relink_record ops ?b ?n p (home ops ?b ?n x) (hash_array h ! p) e d = Some d'"
          and h': "h' = h\<lparr>hash_array := d'\<rparr>" "hash_inv ops h'" "hash_records h' = hash_records h"
        have "my_hash_update ops x k h = Some (False, h')"
          using s h'(1) False moved found by (auto simp: my_hash_update_def home_def link_at_def Let_def)
        with h' False show thesis by (intro that [of h']) auto
      qed
    qed
  qed
qed

end
