(* ===== verification/Hash_Store.thy ===== *)
theory Hash_Store
  imports Hash_Table_Update
begin

text \<open>
  What the hash table promises to its callers, as the locale \<open>record_store\<close>: a bag of records under
  insertions and deletions. Scripts of operations are run on the store and on the bag; the hash
  table is an instance.
\<close>

section \<open>Scripts of operations\<close>

text \<open>An insertion says whether memory is available and what the new cell holds before.\<close>

datatype ('c, 'r) store_op = Insert_record bool 'c 'r | Delete_record 'r

primrec run_script ::
  "(bool \<Rightarrow> 'c \<Rightarrow> 'r \<Rightarrow> 't \<Rightarrow> (bool \<times> 't) option) \<Rightarrow> ('r \<Rightarrow> 't \<Rightarrow> (bool \<times> 't) option)
     \<Rightarrow> ('c, 'r) store_op list \<Rightarrow> 't \<Rightarrow> (bool list \<times> 't) option" where
  "run_script ins del [] t = Some ([], t)"
| "run_script ins del (x # xs) t = do {
     (e, t1) \<leftarrow> (case x of Insert_record ok c r \<Rightarrow> ins ok c r t | Delete_record r \<Rightarrow> del r t);
     (es, t2) \<leftarrow> run_script ins del xs t1;
     Some (e # es, t2) }"

text \<open>The same on a bag: \<open>clash s r\<close> says that the stored record \<open>s\<close> keeps \<open>r\<close> out.\<close>

fun bag_step :: "('r \<Rightarrow> 'r \<Rightarrow> bool) \<Rightarrow> ('c, 'r) store_op \<Rightarrow> 'r multiset \<Rightarrow> bool \<times> 'r multiset" where
  "bag_step clash (Insert_record ok c r) M =
     (if \<not> ok \<or> (\<exists>s \<in># M. clash s r) then (True, M) else (False, add_mset r M))"
| "bag_step clash (Delete_record r) M = (r \<notin># M, M - {#r#})"

primrec bag_script :: "('r \<Rightarrow> 'r \<Rightarrow> bool) \<Rightarrow> ('c, 'r) store_op list \<Rightarrow> 'r multiset \<Rightarrow> bool list \<times> 'r multiset" where
  "bag_script clash [] M = ([], M)"
| "bag_script clash (x # xs) M =
     (let (e, M1) = bag_step clash x M; (es, M2) = bag_script clash xs M1 in (e # es, M2))"

definition no_clash :: "('r \<Rightarrow> 'r \<Rightarrow> bool) \<Rightarrow> 'r multiset \<Rightarrow> bool" where
  "no_clash clash M \<longleftrightarrow> (\<forall>r s. {#r, s#} \<subseteq># M \<longrightarrow> \<not> clash r s \<or> \<not> clash s r)"

lemma no_clash_add: "no_clash clash M \<Longrightarrow> \<not> (\<exists>s \<in># M. clash s r) \<Longrightarrow> no_clash clash (add_mset r M)"
proof -
  assume a: "no_clash clash M" "\<not> (\<exists>s \<in># M. clash s r)"
  have "\<not> clash x y \<or> \<not> clash y x" if xy: "{#x, y#} \<subseteq># add_mset r M" for x y
  proof (cases "x = r \<or> y = r")
    case True
    then have "(x = r \<and> y \<in># M) \<or> (y = r \<and> x \<in># M)" using xy by (auto simp: insert_subset_eq_iff)
    with a(2) show ?thesis by blast
  next
    case False
    then have "{#x, y#} \<subseteq># M" using xy by (auto simp: insert_subset_eq_iff)
    with a(1) show ?thesis by (auto simp: no_clash_def)
  qed
  then show ?thesis by (auto simp: no_clash_def)
qed

lemma no_clash_diff: "no_clash clash M \<Longrightarrow> no_clash clash (M - N)"
  unfolding no_clash_def by (metis diff_subset_eq_self subset_mset.order_trans)

lemma bag_step_no_clash: "no_clash clash M \<Longrightarrow> no_clash clash (snd (bag_step clash x M))"
  by (cases x) (auto intro: no_clash_add no_clash_diff)

lemma bag_script_no_clash: "no_clash clash M \<Longrightarrow> no_clash clash (snd (bag_script clash xs M))"
proof (induction xs arbitrary: M)
  case (Cons x xs)
  from Cons.IH [OF bag_step_no_clash [OF Cons.prems, of x]] show ?case by (simp add: split_beta)
qed simp

section \<open>The interface\<close>

locale record_store =
  fixes inv :: "'t \<Rightarrow> bool" and contents :: "'t \<Rightarrow> 'r multiset" and clash :: "'r \<Rightarrow> 'r \<Rightarrow> bool"
    and ins :: "bool \<Rightarrow> 'c \<Rightarrow> 'r \<Rightarrow> 't \<Rightarrow> (bool \<times> 't) option" and del :: "'r \<Rightarrow> 't \<Rightarrow> (bool \<times> 't) option"
  assumes ins_law: "inv t \<Longrightarrow> \<exists>t'. inv t' \<and> ins ok c r t = Some (fst (bag_step clash (Insert_record ok c r) (contents t)), t') \<and>
      contents t' = snd (bag_step clash (Insert_record ok c r) (contents t))"
    and del_law: "inv t \<Longrightarrow> \<exists>t'. inv t' \<and> del r t = Some (fst (bag_step clash (Delete_record r) (contents t)), t') \<and>
      contents t' = snd (bag_step clash (Delete_record r) (contents t))"
begin

lemma step_refines:
  assumes "inv t"
  shows "\<exists>t'. inv t' \<and> (case x of Insert_record ok c r \<Rightarrow> ins ok c r t | Delete_record r \<Rightarrow> del r t) =
      Some (fst (bag_step clash x (contents t)), t') \<and> contents t' = snd (bag_step clash x (contents t))"
  using ins_law [OF assms] del_law [OF assms] by (cases x) auto

lemma script_refines:
  "inv t \<Longrightarrow> \<exists>t'. inv t' \<and> run_script ins del xs t = Some (fst (bag_script clash xs (contents t)), t') \<and>
     contents t' = snd (bag_script clash xs (contents t))"
proof (induction xs arbitrary: t)
  case (Cons x xs)
  from step_refines [OF Cons.prems, of x] obtain t1 where t1: "inv t1"
      "(case x of Insert_record ok c r \<Rightarrow> ins ok c r t | Delete_record r \<Rightarrow> del r t) = Some (fst (bag_step clash x (contents t)), t1)"
      "contents t1 = snd (bag_step clash x (contents t))" by blast
  from Cons.IH [OF t1(1)] obtain t2 where "inv t2"
      "run_script ins del xs t1 = Some (fst (bag_script clash xs (contents t1)), t2)"
      "contents t2 = snd (bag_script clash xs (contents t1))" by blast
  with t1 show ?case by (auto simp: split_beta Let_def)
qed simp

lemma script_no_clash:
  assumes "inv t" and "no_clash clash (contents t)" and "run_script ins del xs t = Some (es, t')"
  shows "no_clash clash (contents t')"
  using script_refines [OF assms(1), of xs] bag_script_no_clash [OF assms(2), of xs] assms(3) by auto

text \<open>An insertion that is taken back by a deletion.\<close>

lemma insert_delete:
  assumes "inv t" and "ins ok c r t = Some (False, t1)"
  shows "\<exists>t2. inv t2 \<and> del r t1 = Some (False, t2) \<and> contents t2 = contents t"
proof -
  from ins_law [OF assms(1), of ok c r] assms(2) have t1: "inv t1" "contents t1 = add_mset r (contents t)"
    by (auto split: if_splits)
  from del_law [OF t1(1), of r] t1(2) show ?thesis by auto
qed

end

section \<open>The hash table is a store\<close>

definition table_inv :: "('r, 'k) hash_ops \<Rightarrow> 'r my_hash \<Rightarrow> bool" where
  "table_inv ops h \<longleftrightarrow> ops_ok ops \<and> hash_inv ops h"

definition key_clash :: "('r, 'k) hash_ops \<Rightarrow> 'r \<Rightarrow> 'r \<Rightarrow> bool" where
  "key_clash ops s r \<longleftrightarrow> hash_unique ops \<and> \<not> key_differs ops (get_key ops s) (get_key ops r)"

lemma insert_refused_clash: "insert_refused ops ok r h \<longleftrightarrow> \<not> ok \<or> (\<exists>s \<in># hash_records h. key_clash ops s r)"
  by (auto simp: insert_refused_def has_key_def key_clash_def)

interpretation hstore: record_store "table_inv ops" hash_records "key_clash ops" "my_hash_insert ops" "my_hash_delete ops"
  for ops :: "('r, 'k) hash_ops"
proof
  fix h :: "'r my_hash" and ok c r
  assume "table_inv ops h"
  then have inv: "ops_ok ops" "hash_inv ops h" by (simp_all add: table_inv_def)
  obtain h1 where "my_hash_insert ops ok c r h = Some (insert_refused ops ok r h, h1)" "hash_inv ops h1"
      "insert_refused ops ok r h \<Longrightarrow> h1 = h" "\<not> insert_refused ops ok r h \<Longrightarrow> hash_records h1 = add_mset r (hash_records h)"
    by (rule my_hash_insert_correct [OF inv, where alloc_ok = ok and fresh = c and x = r]) blast
  then show "\<exists>t'. table_inv ops t' \<and>
      my_hash_insert ops ok c r h = Some (fst (bag_step (key_clash ops) (Insert_record ok c r) (hash_records h)), t') \<and>
      hash_records t' = snd (bag_step (key_clash ops) (Insert_record ok c r) (hash_records h))"
    using inv by (intro exI [of _ h1]) (auto simp: insert_refused_clash table_inv_def)
  obtain h2 where "my_hash_delete ops r h = Some (r \<notin># hash_records h, h2)" "hash_inv ops h2"
      "hash_records h2 = hash_records h - {#r#}"
    by (rule my_hash_delete_correct [OF inv(2), where x = r]) blast
  then show "\<exists>t'. table_inv ops t' \<and>
      my_hash_delete ops r h = Some (fst (bag_step (key_clash ops) (Delete_record r) (hash_records h)), t') \<and>
      hash_records t' = snd (bag_step (key_clash ops) (Delete_record r) (hash_records h))"
    using inv by (intro exI [of _ h2]) (auto simp: table_inv_def)
qed

end
