(* ===== verification/Hash_Properties.thy ===== *)
theory Hash_Properties
  imports Hash_Store
begin

text \<open>
  The properties of the hash table of \<^verbatim>\<open>mysys/hash.c\<close>, each with an instance on a table that a short
  script of operations builds. The records of the instances are pairs of a number and a key.
\<close>

section \<open>A table\<close>

definition ex_ops :: "bool \<Rightarrow> (nat \<times> nat, nat) hash_ops" where
  "ex_ops u = \<lparr>get_key = snd, hash_function = (\<lambda>k. 7 * k), key_differs = (\<noteq>), hash_unique = u\<rparr>"

definition ex_cell :: "(nat \<times> nat) hash_link" where
  "ex_cell = \<lparr>hl_next = None, hl_data = (0, 0)\<rparr>"

definition ex_script :: "((nat \<times> nat) hash_link, nat \<times> nat) store_op list" where
  "ex_script = [Insert_record True ex_cell (1, 1), Insert_record True ex_cell (2, 5), Insert_record True ex_cell (3, 3),
     Insert_record True ex_cell (4, 9), Delete_record (2, 5), Insert_record False ex_cell (5, 6)]"

definition ex_table :: "(nat \<times> nat, nat) hash_ops \<Rightarrow> (nat \<times> nat) my_hash" where
  "ex_table ops = snd (the (run_script (my_hash_insert ops) (my_hash_delete ops) ex_script my_hash_init))"

lemma ex_ops_ok [simp]: "ops_ok (ex_ops u)" "hash_unique (ex_ops u) = u"
  "get_key (ex_ops u) = snd" "key_differs (ex_ops u) = (\<noteq>)"
  by (simp_all add: ops_ok_def ex_ops_def)

lemma ex_table_run:
  assumes "ops_ok ops"
  shows "hash_inv ops (ex_table ops)" and "hash_records (ex_table ops) = snd (bag_script (key_clash ops) ex_script {#})"
proof -
  have "table_inv ops my_hash_init" using assms by (simp add: table_inv_def)
  from hstore.script_refines [OF this, of ex_script]
  show "hash_inv ops (ex_table ops)" "hash_records (ex_table ops) = snd (bag_script (key_clash ops) ex_script {#})"
    by (auto simp: ex_table_def table_inv_def)
qed

lemma ex_table_inv [simp]: "hash_inv (ex_ops u) (ex_table (ex_ops u))"
  by (rule ex_table_run) simp

lemma ex_table_records [simp]: "hash_records (ex_table (ex_ops u)) = {#(1, 1), (3, 3), (4, 9)#}"
  unfolding ex_table_run(2) [OF ex_ops_ok(1)] by (simp add: ex_script_def key_clash_def)

section \<open>Operations\<close>

text \<open>
  C29. \<open>my_hash_first\<close> and then \<open>my_hash_next\<close> until it returns no record give every record of the table
  with the key, each as often as it is stored, and no other record; \<open>my_hash_search\<close> gives the first
  of them. The searches end and stay inside the array.
\<close>

theorem hash_lookup_correct:
  assumes "ops_ok ops" and "hash_inv ops h"
  shows "\<exists>rs. hash_collect ops h key = Some rs \<and>
    mset rs = filter_mset (\<lambda>r. \<not> key_differs ops (get_key ops r) key) (hash_records h) \<and>
    my_hash_search ops h key = Some (case rs of [] \<Rightarrow> None | r # _ \<Rightarrow> Some r)"
  by (rule hash_collect_correct [OF assms, of key]) blast

theorem hash_lookup_correct_witness:
  "\<exists>rs. hash_collect (ex_ops False) (ex_table (ex_ops False)) 9 = Some rs \<and> mset rs = {#(4, 9)#} \<and>
    my_hash_search (ex_ops False) (ex_table (ex_ops False)) 9 = Some (case rs of [] \<Rightarrow> None | r # _ \<Rightarrow> Some r)"
  using hash_lookup_correct [of "ex_ops False" "ex_table (ex_ops False)" 9] by simp

text \<open>
  C30. \<open>my_hash_insert\<close> keeps the invariant of the table: it splits the chain of one position between this
  position and the new last one, and puts the record at its position. It adds the record, unless memory
  runs out or the table is unique and has the key; then it reports an error and changes nothing.
\<close>

theorem hash_insert_correct:
  assumes "ops_ok ops" and "hash_inv ops h"
  shows "\<exists>h'. my_hash_insert ops alloc_ok fresh x h = Some (insert_refused ops alloc_ok x h, h') \<and> hash_inv ops h' \<and>
    (if insert_refused ops alloc_ok x h then h' = h else hash_records h' = add_mset x (hash_records h))"
  by (rule my_hash_insert_correct [OF assms, where alloc_ok = alloc_ok and fresh = fresh and x = x]) auto

theorem hash_insert_correct_witness:
  "\<not> insert_refused (ex_ops True) True (6, 4) (ex_table (ex_ops True)) \<and>
   (\<exists>h'. my_hash_insert (ex_ops True) True ex_cell (6, 4) (ex_table (ex_ops True)) = Some (False, h') \<and>
     hash_inv (ex_ops True) h' \<and> hash_records h' = {#(6, 4), (1, 1), (3, 3), (4, 9)#})"
proof -
  have "\<not> insert_refused (ex_ops True) True (6, 4) (ex_table (ex_ops True))"
    by (simp add: insert_refused_def has_key_def)
  then show ?thesis
    using hash_insert_correct [of "ex_ops True" "ex_table (ex_ops True)" True ex_cell "(6, 4)"] by simp
qed

text \<open>
  C31. \<open>my_hash_delete\<close> keeps the invariant of the table: it unlinks the record, moves the last cell into
  the free one and merges the chain of the last position into the chain it was split from. It removes one
  occurrence of the record; when there is none it reports an error and changes nothing.
\<close>

theorem hash_delete_correct:
  assumes "hash_inv ops h"
  shows "\<exists>h'. my_hash_delete ops x h = Some (x \<notin># hash_records h, h') \<and> hash_inv ops h' \<and>
    hash_records h' = hash_records h - {#x#} \<and> (x \<in># hash_records h \<or> h' = h)"
  by (rule my_hash_delete_correct [OF assms, where x = x]) blast

theorem hash_delete_correct_witness:
  "\<exists>h'. my_hash_delete (ex_ops True) (3, 3) (ex_table (ex_ops True)) = Some (False, h') \<and>
     hash_inv (ex_ops True) h' \<and> hash_records h' = {#(1, 1), (4, 9)#}"
proof -
  have "{#(1, 1), (3, 3), (4, 9)#} - {#(3 :: nat, 3 :: nat)#} = {#(1, 1), (4, 9)#}" by simp
  then show ?thesis using hash_delete_correct [of "ex_ops True" "ex_table (ex_ops True)" "(3, 3)"] by auto
qed

text \<open>
  C32. \<open>my_hash_update\<close> repairs a table in which one record got a new key: afterwards the invariant holds
  with the new key and the records are the same. In a unique table it refuses the change, and leaves the
  table alone, exactly when another record has the new key.
\<close>

theorem hash_update_correct:
  assumes "ops_ok ops" and "hash_inv (rekeyed ops x old_key) h" and "count (hash_records h) x = 1"
  shows "\<exists>h'. my_hash_update ops x old_key h = Some (hash_unique ops \<and> other_has_key ops x h, h') \<and>
    hash_records h' = hash_records h \<and> (if hash_unique ops \<and> other_has_key ops x h then h' = h else hash_inv ops h')"
  by (rule my_hash_update_correct [OF assms]) auto

theorem hash_update_correct_witness:
  "\<exists>h'. my_hash_update (ex_ops True) (3, 3) 8 (ex_table (rekeyed (ex_ops True) (3, 3) 8)) = Some (False, h') \<and>
     hash_records h' = {#(1, 1), (3, 3), (4, 9)#} \<and> hash_inv (ex_ops True) h'"
proof -
  let ?ops = "rekeyed (ex_ops True) (3, 3) 8"
  have ok: "ops_ok ?ops" by (simp add: ops_ok_def rekeyed_def ex_ops_def)
  have records: "hash_records (ex_table ?ops) = {#(1, 1), (3, 3), (4, 9)#}"
    unfolding ex_table_run(2) [OF ok] by (simp add: ex_script_def key_clash_def rekeyed_def)
  then have "\<not> other_has_key (ex_ops True) (3, 3) (ex_table ?ops)" by (simp add: other_has_key_def)
  then show ?thesis using hash_update_correct [of "ex_ops True" "(3, 3)" 8 "ex_table ?ops"] ex_table_run(1) [OF ok] records
    by simp
qed

text \<open>
  \<open>my_hash_check\<close>, the self-check of debug builds, ends and reports no error on a table that satisfies
  the invariant: its walk over the chains finds every record once.
\<close>

theorem hash_check_passes:
  assumes "hash_inv ops h"
  shows "my_hash_check ops h = Some False"
  using assms by (rule my_hash_check_correct)

theorem hash_check_passes_witness: "my_hash_check (ex_ops True) (ex_table (ex_ops True)) = Some False"
  using hash_check_passes [of "ex_ops True" "ex_table (ex_ops True)"] by simp

section \<open>Sequences of operations\<close>

text \<open>
  C33. A hash table behaves like a bag of records: for every sequence of insertions and deletions on a new
  table, all calls return, the errors they report are those of the bag, and the records at the end are the
  bag's. The invariant holds at the end; so the array has a cell for every record and its power of two
  \<open>blength\<close> is at least the number of records and at most twice this number, unless the table is empty.
\<close>

theorem hash_refines_bag:
  assumes "ops_ok ops"
  shows "\<exists>h. run_script (my_hash_insert ops) (my_hash_delete ops) script my_hash_init =
      Some (fst (bag_script (key_clash ops) script {#}), h) \<and>
    hash_records h = snd (bag_script (key_clash ops) script {#}) \<and> hash_inv ops h \<and>
    records h = length (hash_array h) \<and> records h < blength h \<and> blength h div 2 \<le> records h"
proof -
  have "table_inv ops my_hash_init" using assms by (simp add: table_inv_def)
  from hstore.script_refines [OF this, of script] obtain h where "table_inv ops h"
      "run_script (my_hash_insert ops) (my_hash_delete ops) script my_hash_init = Some (fst (bag_script (key_clash ops) script {#}), h)"
      "hash_records h = snd (bag_script (key_clash ops) script {#})" by auto
  then show ?thesis by (auto simp: table_inv_def hash_inv_def chains_of_def sizes_ok_def)
qed

theorem hash_refines_bag_witness:
  "\<exists>h. run_script (my_hash_insert (ex_ops True)) (my_hash_delete (ex_ops True)) ex_script my_hash_init =
      Some ([False, False, False, False, False, True], h) \<and>
    hash_records h = {#(1, 1), (3, 3), (4, 9)#} \<and> hash_inv (ex_ops True) h \<and>
    records h = length (hash_array h) \<and> records h < blength h \<and> blength h div 2 \<le> records h"
proof -
  have "bag_script (key_clash (ex_ops True)) ex_script {#} =
      ([False, False, False, False, False, True], {#(1, 1), (3, 3), (4, 9)#})"
    by (simp add: ex_script_def key_clash_def)
  then show ?thesis using hash_refines_bag [of "ex_ops True" ex_script] by simp
qed

text \<open>
  In a unique table no two stored records have the same key, whatever insertions and deletions were
  made.
\<close>

theorem hash_unique_keys:
  assumes "ops_ok ops" and "hash_unique ops"
    and "run_script (my_hash_insert ops) (my_hash_delete ops) script my_hash_init = Some (errors, h)"
    and "{#r, s#} \<subseteq># hash_records h"
  shows "key_differs ops (get_key ops r) (get_key ops s) \<or> key_differs ops (get_key ops s) (get_key ops r)"
proof -
  have "table_inv ops my_hash_init" using assms(1) by (simp add: table_inv_def)
  moreover have "no_clash (key_clash ops) (hash_records my_hash_init)" by (simp add: no_clash_def)
  ultimately have "no_clash (key_clash ops) (hash_records h)" using assms(3) by (rule hstore.script_no_clash)
  with assms(2,4) show ?thesis by (auto simp: no_clash_def key_clash_def)
qed

theorem hash_unique_keys_witness:
  "\<exists>h. run_script (my_hash_insert (ex_ops True)) (my_hash_delete (ex_ops True)) ex_script my_hash_init =
      Some ([False, False, False, False, False, True], h) \<and> {#(3, 3), (4, 9)#} \<subseteq># hash_records h \<and>
    (key_differs (ex_ops True) 3 9 \<or> key_differs (ex_ops True) 9 3)"
proof -
  have "table_inv (ex_ops True) my_hash_init" by (simp add: table_inv_def)
  from hstore.script_refines [OF this, of ex_script] obtain h where
    h: "run_script (my_hash_insert (ex_ops True)) (my_hash_delete (ex_ops True)) ex_script my_hash_init =
        Some ([False, False, False, False, False, True], h)" "hash_records h = {#(1, 1), (3, 3), (4, 9)#}"
    by (auto simp: ex_script_def key_clash_def)
  then have sub: "{#(3, 3), (4, 9)#} \<subseteq># hash_records h" by simp
  from hash_unique_keys [OF ex_ops_ok(1) _ h(1) sub] have "key_differs (ex_ops True) 3 9 \<or> key_differs (ex_ops True) 9 3"
    by simp
  with h(1) sub show ?thesis by blast
qed

end
