(* ===== verification/Owned_Gtids.thy ===== *)
theory Owned_Gtids
  imports Hash_Store Byte_Order Gtid_Set_Queries
begin

text \<open>
  \<open>Owned_gtids\<close> of \<^verbatim>\<open>sql/rpl_gtid_owned.cc\<close> and \<^verbatim>\<open>sql/rpl_gtid.h\<close>: for every SIDNO a hash table of the GNOs
  that some thread owns, with their owners. The key of a table is the GNO in memory, hashed by
  \<open>my_hash_sort_bin\<close> of \<^verbatim>\<open>strings/ctype-bin.c\<close>. Here a thread identifier is a natural number. A result
  \<open>None\<close> says that the code would violate an assertion or use memory it must not use.
\<close>

unbundle bit_operations_syntax

section \<open>Definitions\<close>

subsection \<open>The hash function\<close>

fun my_hash_sort_bin :: "byte list \<Rightarrow> 64 word \<times> 64 word \<Rightarrow> 64 word \<times> 64 word" where
  "my_hash_sort_bin [] (tmp1, tmp2) = (tmp1, tmp2)"
| "my_hash_sort_bin (b # key) (tmp1, tmp2) =
     my_hash_sort_bin key
       (tmp1 XOR ((ucast ((ucast tmp1 :: 32 word) AND 63) + tmp2) * ucast b + push_bit 8 tmp1), tmp2 + 3)"

definition cset_hash_sort_adapter :: "byte list \<Rightarrow> nat" where
  "cset_hash_sort_adapter key = unat (ucast (fst (my_hash_sort_bin key (1, 4))) :: 32 word)"

subsection \<open>Nodes\<close>

record owned_node =
  node_gno :: int
  node_owner :: nat

text \<open>
  The eight bytes of a GNO in memory, low byte first, as one word. The tables are made with key
  offset and length of \<open>Node::gno\<close>, the collation \<open>my_charset_bin\<close> and no flags.
\<close>

definition gno_key :: "int \<Rightarrow> 64 word" where
  "gno_key gno = word_of_int gno"

definition node_ops :: "(owned_node, 64 word) hash_ops" where
  "node_ops =
     \<lparr>get_key = (\<lambda>n. gno_key (node_gno n)),
      hash_function = (\<lambda>key. cset_hash_sort_adapter (int8store key)),
      key_differs = (\<lambda>a b. memcmp (int8store a) (int8store b) \<noteq> 0),
      hash_unique = False\<rparr>"

record owned_gtids =
  sidno_to_hash :: "owned_node my_hash list"

definition owned_init :: owned_gtids where
  "owned_init = \<lparr>sidno_to_hash = []\<rparr>"

definition og_max_sidno :: "owned_gtids \<Rightarrow> nat" where
  "og_max_sidno og = length (sidno_to_hash og)"

definition get_hash :: "owned_gtids \<Rightarrow> nat \<Rightarrow> owned_node my_hash option" where
  "get_hash og sidno =
     (if 1 \<le> sidno \<and> sidno \<le> og_max_sidno og then Some (sidno_to_hash og ! (sidno - 1)) else None)"

definition set_hash :: "owned_gtids \<Rightarrow> nat \<Rightarrow> owned_node my_hash \<Rightarrow> owned_gtids" where
  "set_hash og sidno h = og\<lparr>sidno_to_hash := (sidno_to_hash og)[sidno - 1 := h]\<rparr>"

subsection \<open>Operations\<close>

text \<open>\<open>alloc i\<close> says whether the allocation of the table with index \<open>i\<close> succeeds.\<close>

fun push_hashes :: "(nat \<Rightarrow> bool) \<Rightarrow> nat \<Rightarrow> owned_gtids \<Rightarrow> enum_return_status \<times> owned_gtids" where
  "push_hashes alloc 0 og = (RETURN_STATUS_OK, og)"
| "push_hashes alloc (Suc n) og =
     (if alloc (og_max_sidno og)
      then push_hashes alloc n (og\<lparr>sidno_to_hash := sidno_to_hash og @ [my_hash_init]\<rparr>)
      else (RETURN_STATUS_REPORTED_ERROR, og))"

definition og_ensure_sidno :: "(nat \<Rightarrow> bool) \<Rightarrow> nat \<Rightarrow> owned_gtids \<Rightarrow> enum_return_status \<times> owned_gtids" where
  "og_ensure_sidno alloc sidno og =
     (if sidno > og_max_sidno og then push_hashes alloc (sidno - og_max_sidno og) og
      else (RETURN_STATUS_OK, og))"

text \<open>
  \<open>add_gtid_owner\<close>: \<open>node_ok\<close> and \<open>cell_ok\<close> say whether the node and the cell of the hash table get
  their memory, \<open>fresh\<close> is what the new cell holds.
\<close>

record og_env =
  node_ok :: bool
  cell_ok :: bool
  fresh_cell :: "owned_node hash_link"

definition add_gtid_owner ::
  "og_env \<Rightarrow> nat \<Rightarrow> int \<Rightarrow> nat \<Rightarrow> owned_gtids \<Rightarrow> (enum_return_status \<times> owned_gtids) option" where
  "add_gtid_owner env sidno gno owner og =
     (if \<not> node_ok env then Some (RETURN_STATUS_REPORTED_ERROR, og)
      else do {
        h \<leftarrow> get_hash og sidno;
        (error, h1) \<leftarrow> my_hash_insert node_ops (cell_ok env) (fresh_cell env) \<lparr>node_gno = gno, node_owner = owner\<rparr> h;
        Some (if error then RETURN_STATUS_REPORTED_ERROR else RETURN_STATUS_OK, set_hash og sidno h1) })"

text \<open>
  \<open>remove_gtid\<close>: the loop goes on with the search state of \<open>my_hash_next\<close>, which \<open>my_hash_search\<close> does not
  set; \<open>state\<close> is what the uninitialised variable holds.
\<close>

partial_function (option) remove_gtid_loop ::
  "int \<Rightarrow> nat \<Rightarrow> owned_node my_hash \<Rightarrow> nat option \<Rightarrow> owned_node option \<Rightarrow> owned_node my_hash option" where
  [code]: "remove_gtid_loop gno owner h state node =
     (case node of
        None \<Rightarrow> Some h
      | Some n \<Rightarrow>
          if node_owner n = owner then map_option snd (my_hash_delete node_ops n h)
          else do {
            (state', node') \<leftarrow> my_hash_next node_ops h (gno_key gno) state;
            remove_gtid_loop gno owner h state' node' })"

definition og_remove_gtid :: "nat option \<Rightarrow> nat \<Rightarrow> int \<Rightarrow> nat \<Rightarrow> owned_gtids \<Rightarrow> owned_gtids option" where
  "og_remove_gtid state sidno gno owner og = do {
     h \<leftarrow> get_hash og sidno;
     node \<leftarrow> my_hash_search node_ops h (gno_key gno);
     h1 \<leftarrow> remove_gtid_loop gno owner h state node;
     Some (set_hash og sidno h1) }"

definition og_contains_gtid :: "owned_gtids \<Rightarrow> nat \<Rightarrow> int \<Rightarrow> bool option" where
  "og_contains_gtid og sidno gno = do {
     h \<leftarrow> get_hash og sidno;
     node \<leftarrow> my_hash_search node_ops h (gno_key gno);
     Some (node \<noteq> None) }"

partial_function (option) owned_by_loop ::
  "int \<Rightarrow> nat \<Rightarrow> owned_node my_hash \<Rightarrow> nat option \<Rightarrow> owned_node option \<Rightarrow> bool option" where
  [code]: "owned_by_loop gno thd_id h state node =
     (case node of
        None \<Rightarrow> Some False
      | Some n \<Rightarrow>
          if node_owner n = thd_id then Some True
          else do {
            (state', node') \<leftarrow> my_hash_next node_ops h (gno_key gno) state;
            owned_by_loop gno thd_id h state' node' })"

definition is_owned_by :: "owned_gtids \<Rightarrow> nat \<Rightarrow> int \<Rightarrow> nat \<Rightarrow> bool option" where
  "is_owned_by og sidno gno thd_id = do {
     h \<leftarrow> get_hash og sidno;
     (state, node) \<leftarrow> my_hash_first node_ops h (gno_key gno);
     if thd_id = 0 then Some (node = None)
     else owned_by_loop gno thd_id h state node }"

subsection \<open>Iteration\<close>

record og_iterator =
  oi_sidno :: nat
  oi_index :: nat
  oi_node :: "owned_node option"

fun og_seek :: "nat \<Rightarrow> nat \<Rightarrow> owned_node my_hash list \<Rightarrow> og_iterator" where
  "og_seek sidno index [] = \<lparr>oi_sidno = sidno, oi_index = index, oi_node = None\<rparr>"
| "og_seek sidno index (h # hs) =
     (if index < records h then \<lparr>oi_sidno = sidno, oi_index = index + 1, oi_node = my_hash_element h index\<rparr>
      else og_seek (sidno + 1) 0 hs)"

definition og_next :: "owned_gtids \<Rightarrow> og_iterator \<Rightarrow> og_iterator" where
  "og_next og it = og_seek (oi_sidno it) (oi_index it) (drop (oi_sidno it - 1) (sidno_to_hash og))"

definition og_first :: "owned_gtids \<Rightarrow> og_iterator" where
  "og_first og = og_next og \<lparr>oi_sidno = 1, oi_index = 0, oi_node = None\<rparr>"

text \<open>The loops over an iterator: of \<open>is_intersection_nonempty\<close>, \<open>get_gtids\<close> and \<open>thread_owns_anything\<close>.\<close>

partial_function (option) og_intersects :: "owned_gtids \<Rightarrow> gtid_set \<Rightarrow> og_iterator \<Rightarrow> bool option" where
  [code]: "og_intersects og other git =
     (case oi_node git of
        None \<Rightarrow> Some False
      | Some n \<Rightarrow>
          if contains_gtid other (oi_sidno git) (node_gno n) then Some True
          else og_intersects og other (og_next og git))"

definition og_is_intersection_nonempty :: "owned_gtids \<Rightarrow> gtid_set \<Rightarrow> bool option" where
  "og_is_intersection_nonempty og other = og_intersects og other (og_first og)"

partial_function (option) get_gtids_loop :: "owned_gtids \<Rightarrow> og_iterator \<Rightarrow> gtid_set \<Rightarrow> gtid_set option" where
  [code]: "get_gtids_loop og git gs =
     (case oi_node git of
        None \<Rightarrow> Some gs
      | Some n \<Rightarrow> do {
          gs1 \<leftarrow> gs_add_gtid (oi_sidno git) (node_gno n) gs;
          get_gtids_loop og (og_next og git) gs1 })"

definition og_get_gtids :: "owned_gtids \<Rightarrow> gtid_set \<Rightarrow> gtid_set option" where
  "og_get_gtids og gs = get_gtids_loop og (og_first og) gs"

partial_function (option) owns_loop :: "owned_gtids \<Rightarrow> nat \<Rightarrow> og_iterator \<Rightarrow> bool option" where
  [code]: "owns_loop og thd_id git =
     (case oi_node git of
        None \<Rightarrow> Some False
      | Some n \<Rightarrow> if node_owner n = thd_id then Some True else owns_loop og thd_id (og_next og git))"

definition thread_owns_anything :: "owned_gtids \<Rightarrow> nat \<Rightarrow> bool option" where
  "thread_owns_anything og thd_id = owns_loop og thd_id (og_first og)"

definition og_is_empty :: "owned_gtids \<Rightarrow> bool" where
  "og_is_empty og \<longleftrightarrow> oi_node (og_first og) = None"

end
