(* ===== verification/Gtid_State.thy ===== *)
theory Gtid_State
  imports Owned_Gtids Gtid_Text
begin

text \<open>
  \<open>Gtid_state\<close> of \<^verbatim>\<open>sql/rpl_gtid_state.cc\<close> and \<^verbatim>\<open>sql/rpl_gtid.h\<close>: which GTIDs are executed, lost and owned, the
  assignment of new GTIDs, and the changes at the end of a transaction; with the session state it
  uses from \<open>THD\<close>. Assertions are not evaluated, as in a release build; a result \<open>None\<close> says that the code
  would use memory it must not use. The locks of the SIDNOs are a trace of what is done to them.
\<close>

section \<open>State\<close>

subsection \<open>Sessions\<close>

text \<open>
  The fields of \<open>THD\<close>. The SIDNO of \<open>owned_gtid\<close> is 0 for nothing, \<open>OWNED_SIDNO_ANONYMOUS\<close> for an anonymous
  transaction; \<open>OWNED_SIDNO_GTID_SET\<close> needs \<open>HAVE_GTID_NEXT_LIST\<close>, which no build defines. \<open>trx_cache_empty\<close> is
  the result of \<open>is_binlog_cache_empty(true)\<close>, \<open>commit_error\<close> the test for \<open>CE_COMMIT_ERROR\<close>.
\<close>

record thd =
  thread_id :: nat
  owned_gtid :: "int \<times> int"
  owned_sid :: sid
  gtid_next :: gtid_specification
  has_gtid_consistency_violation :: bool
  is_commit_in_middle_of_statement :: bool
  skip_gtid_rollback :: bool
  commit_error :: bool
  slave_thread :: bool
  trx_cache_empty :: bool

definition OWNED_SIDNO_GTID_SET :: int where
  "OWNED_SIDNO_GTID_SET = -1"

definition OWNED_SIDNO_ANONYMOUS :: int where
  "OWNED_SIDNO_ANONYMOUS = -2"

definition sid_clear :: sid where
  "sid_clear = replicate 16 0"

definition clear_owned_gtids :: "thd \<Rightarrow> thd" where
  "clear_owned_gtids t = t\<lparr>owned_gtid := (0, 0), owned_sid := sid_clear\<rparr>"

definition spec_set_type :: "enum_group_type \<Rightarrow> thd \<Rightarrow> thd" where
  "spec_set_type ty t = t\<lparr>gtid_next := (gtid_next t)\<lparr>spec_type := ty\<rparr>\<rparr>"

subsection \<open>The global state\<close>

datatype lock_event = Lock_sidno nat | Unlock_sidno nat | Broadcast_sidno nat

text \<open>
  The SID maps are a store indexed by address, as in the theory of GTID sets; the map of the state
  is at address 0. \<open>n_sid_locks\<close> is the number of the pairs of mutex and condition in \<open>sid_locks\<close>; there is
  one with index 0 that no SIDNO uses.
\<close>

record gtid_state =
  st_maps :: sid_maps
  n_sid_locks :: nat
  lost_gtids :: gtid_set
  executed_gtids :: gtid_set
  gtids_only_in_table :: gtid_set
  previous_gtids_logged :: gtid_set
  owned_gtids :: owned_gtids
  server_sidno :: nat
  next_free_gno :: int
  anonymous_gtid_count :: int
  automatic_gtid_violation_count :: int
  anonymous_gtid_violation_count :: int
  gtid_wait_count :: int
  commit_group_sidnos :: "bool list"
  sidno_trace :: "lock_event list"

text \<open>The constructor; \<open>sidno\<close> and \<open>gno\<close> are what the two fields hold that it does not initialise.\<close>

definition st_new :: "nat \<Rightarrow> int \<Rightarrow> gtid_state" where
  "st_new sidno gno =
     \<lparr>st_maps = (\<lambda>_. sid_map_init), n_sid_locks = 0, lost_gtids = gtid_set_init (Some 0),
      executed_gtids = gtid_set_init (Some 0), gtids_only_in_table = gtid_set_init (Some 0),
      previous_gtids_logged = gtid_set_init (Some 0), owned_gtids = owned_init, server_sidno = sidno,
      next_free_gno = gno, anonymous_gtid_count = 0, automatic_gtid_violation_count = 0,
      anonymous_gtid_violation_count = 0, gtid_wait_count = 0, commit_group_sidnos = [], sidno_trace = []\<rparr>"

definition sidno_event :: "(nat \<Rightarrow> lock_event) \<Rightarrow> nat \<Rightarrow> gtid_state \<Rightarrow> gtid_state option" where
  "sidno_event ev sidno st =
     (if sidno < n_sid_locks st then Some (st\<lparr>sidno_trace := sidno_trace st @ [ev sidno]\<rparr>) else None)"

definition lock_sidno :: "nat \<Rightarrow> gtid_state \<Rightarrow> gtid_state option" where
  "lock_sidno = sidno_event Lock_sidno"

definition unlock_sidno :: "nat \<Rightarrow> gtid_state \<Rightarrow> gtid_state option" where
  "unlock_sidno = sidno_event Unlock_sidno"

definition broadcast_sidno :: "nat \<Rightarrow> gtid_state \<Rightarrow> gtid_state option" where
  "broadcast_sidno = sidno_event Broadcast_sidno"

text \<open>\<open>lock_sidnos\<close>, \<open>unlock_sidnos\<close> and \<open>broadcast_sidnos\<close> for the SIDNOs of a set.\<close>

fun each_sidno :: "(nat \<Rightarrow> gtid_state \<Rightarrow> gtid_state option) \<Rightarrow> nat list \<Rightarrow> gtid_state \<Rightarrow> gtid_state option" where
  "each_sidno f [] st = Some st"
| "each_sidno f (n # ns) st = do { st1 \<leftarrow> f n st; each_sidno f ns st1 }"

definition sidnos_of :: "gtid_set \<Rightarrow> nat list" where
  "sidnos_of gs = [n \<leftarrow> [1 ..< Suc (get_max_sidno gs)]. contains_sidno gs n]"

definition lock_sidnos :: "gtid_set \<Rightarrow> gtid_state \<Rightarrow> gtid_state option" where
  "lock_sidnos gs = each_sidno lock_sidno (sidnos_of gs)"

definition unlock_sidnos :: "gtid_set \<Rightarrow> gtid_state \<Rightarrow> gtid_state option" where
  "unlock_sidnos gs = each_sidno unlock_sidno (sidnos_of gs)"

definition broadcast_sidnos :: "gtid_set \<Rightarrow> gtid_state \<Rightarrow> gtid_state option" where
  "broadcast_sidnos gs = each_sidno broadcast_sidno (sidnos_of gs)"

section \<open>Operations\<close>

subsection \<open>Ownership\<close>

definition is_executed :: "gtid_state \<Rightarrow> nat \<Rightarrow> int \<Rightarrow> bool" where
  "is_executed st sidno gno = contains_gtid (executed_gtids st) sidno gno"

definition is_owned :: "gtid_state \<Rightarrow> nat \<Rightarrow> int \<Rightarrow> bool option" where
  "is_owned st sidno gno = map_option Not (is_owned_by (owned_gtids st) sidno gno 0)"

definition acquire_anonymous_ownership :: "gtid_state \<Rightarrow> gtid_state" where
  "acquire_anonymous_ownership st = st\<lparr>anonymous_gtid_count := anonymous_gtid_count st + 1\<rparr>"

definition release_anonymous_ownership :: "gtid_state \<Rightarrow> gtid_state" where
  "release_anonymous_ownership st = st\<lparr>anonymous_gtid_count := anonymous_gtid_count st - 1\<rparr>"

definition acquire_ownership ::
  "og_env \<Rightarrow> nat \<Rightarrow> int \<Rightarrow> thd \<times> gtid_state \<Rightarrow> (enum_return_status \<times> thd \<times> gtid_state) option" where
  "acquire_ownership env sidno gno ts = do {
     let (t, st) = ts;
     (status, og) \<leftarrow> add_gtid_owner env sidno gno (thread_id t) (owned_gtids st);
     let st1 = st\<lparr>owned_gtids := og\<rparr>;
     if status = RETURN_STATUS_OK
     then Some (RETURN_STATUS_OK,
                t\<lparr>owned_gtid := (int sidno, gno), owned_sid := sidno_to_sid (st_maps st 0) sidno\<rparr>, st1)
     else Some (RETURN_STATUS_REPORTED_ERROR, clear_owned_gtids t, st1) }"

subsection \<open>New GTIDs\<close>

text \<open>The inner loop of \<open>get_automatic_gno\<close>: the first number below the limit that nobody owns.\<close>

function find_unowned :: "owned_gtids \<Rightarrow> nat \<Rightarrow> int \<Rightarrow> int \<Rightarrow> int option option" where
  "find_unowned og sidno gno limit =
     (if gno < limit then do {
        free \<leftarrow> is_owned_by og sidno gno 0;
        if free then Some (Some gno) else find_unowned og sidno (gno + 1) limit }
      else Some None)"
  by pat_completeness auto
termination
  by (relation "measure (\<lambda>(og, sidno, gno, limit). nat (limit - gno))") auto

fun automatic_gno_loop :: "owned_gtids \<Rightarrow> nat \<Rightarrow> int \<Rightarrow> interval list \<Rightarrow> int option" where
  "automatic_gno_loop og sidno gno [] = do {
     found \<leftarrow> find_unowned og sidno gno GNO_END;
     Some (case found of Some g \<Rightarrow> g | None \<Rightarrow> -1) }"
| "automatic_gno_loop og sidno gno (iv # ivs) = do {
     found \<leftarrow> find_unowned og sidno gno (iv_start iv);
     (case found of
        Some g \<Rightarrow> Some g
      | None \<Rightarrow>
          let gno1 = max gno (iv_start iv) in
          automatic_gno_loop og sidno (if gno1 < iv_end iv then iv_end iv else gno1) ivs) }"

definition get_automatic_gno :: "gtid_state \<Rightarrow> nat \<Rightarrow> int option" where
  "get_automatic_gno st sidno = do {
     ivs \<leftarrow> ivs_at (executed_gtids st) sidno;
     automatic_gno_loop (owned_gtids st) sidno (if sidno = server_sidno st then next_free_gno st else 1) ivs }"

definition get_last_executed_gno :: "gtid_state \<Rightarrow> nat \<Rightarrow> (int \<times> gtid_state) option" where
  "get_last_executed_gno st sidno = do {
     st1 \<leftarrow> lock_sidno sidno st;
     let gno = get_last_gno (executed_gtids st1) sidno;
     st2 \<leftarrow> unlock_sidno sidno st1;
     Some (gno, st2) }"

datatype enum_gtid_mode = GTID_MODE_OFF | GTID_MODE_OFF_PERMISSIVE | GTID_MODE_ON_PERMISSIVE | GTID_MODE_ON

definition mode_on :: "enum_gtid_mode \<Rightarrow> bool" where
  "mode_on mode \<longleftrightarrow> mode = GTID_MODE_ON_PERMISSIVE \<or> mode = GTID_MODE_ON"

text \<open>
  \<open>generate_automatic_gtid\<close>. \<open>locked_sidno\<close> is \<open>None\<close> for a null pointer, and the last part of the result is
  what the pointer refers to at the end. The status of \<open>acquire_ownership\<close> is not used.
\<close>

definition lock_automatic_sidno :: "nat \<Rightarrow> nat option \<Rightarrow> gtid_state \<Rightarrow> (nat option \<times> gtid_state) option" where
  "lock_automatic_sidno sidno locked st =
     (if locked = None \<or> locked \<noteq> Some sidno then do {
        st1 \<leftarrow> (case locked of Some n \<Rightarrow> if n \<noteq> 0 then unlock_sidno n st else Some st | None \<Rightarrow> Some st);
        st2 \<leftarrow> lock_sidno sidno st1;
        Some (map_option (\<lambda>_. sidno) locked, st2) }
      else Some (locked, st))"

definition generate_automatic_gtid ::
  "og_env \<Rightarrow> enum_gtid_mode \<Rightarrow> nat \<Rightarrow> int \<Rightarrow> nat option \<Rightarrow> thd \<times> gtid_state
     \<Rightarrow> (enum_return_status \<times> (thd \<times> gtid_state) \<times> nat option) option" where
  "generate_automatic_gtid env mode specified_sidno specified_gno locked ts = do {
     let (t, st) = ts;
     if mode_on mode then do {
       let sidno = (if specified_sidno = 0 then server_sidno st else specified_sidno);
       (locked1, st1) \<leftarrow> lock_automatic_sidno sidno locked st;
       (gno, st2) \<leftarrow>
         (if specified_gno = 0 then do {
            gno \<leftarrow> get_automatic_gno st1 sidno;
            Some (gno, if sidno = server_sidno st1 \<and> gno \<noteq> -1 then st1\<lparr>next_free_gno := gno + 1\<rparr> else st1) }
          else Some (specified_gno, st1));
       (status, t3, st3) \<leftarrow>
         (if gno \<noteq> -1 then do {
            (_, t3, st3) \<leftarrow> acquire_ownership env sidno gno (t, st2);
            Some (RETURN_STATUS_OK, t3, st3) }
          else Some (RETURN_STATUS_REPORTED_ERROR, t, st2));
       st4 \<leftarrow> (if locked = None then unlock_sidno sidno st3 else Some st3);
       Some (status, (t3, st4), locked1) }
     else Some (RETURN_STATUS_OK,
                (t\<lparr>owned_gtid := (OWNED_SIDNO_ANONYMOUS, 0)\<rparr>, acquire_anonymous_ownership st), locked) }"

subsection \<open>The end of a transaction\<close>

text \<open>
  What the end of a transaction reads from elsewhere: two server options, and for every session what
  the uninitialised variable of \<open>Owned_gtids::remove_gtid\<close> holds.
\<close>

record end_env =
  opt_bin_log :: bool
  opt_log_slave_updates :: bool
  search_state :: "thd \<Rightarrow> nat option"

definition end_automatic_gtid_violating_transaction :: "gtid_state \<Rightarrow> gtid_state" where
  "end_automatic_gtid_violating_transaction st =
     st\<lparr>automatic_gtid_violation_count := automatic_gtid_violation_count st - 1\<rparr>"

definition end_anonymous_gtid_violating_transaction :: "gtid_state \<Rightarrow> gtid_state" where
  "end_anonymous_gtid_violating_transaction st =
     st\<lparr>anonymous_gtid_violation_count := anonymous_gtid_violation_count st - 1\<rparr>"

definition begin_automatic_gtid_violating_transaction :: "gtid_state \<Rightarrow> gtid_state" where
  "begin_automatic_gtid_violating_transaction st =
     st\<lparr>automatic_gtid_violation_count := automatic_gtid_violation_count st + 1\<rparr>"

definition begin_anonymous_gtid_violating_transaction :: "gtid_state \<Rightarrow> gtid_state" where
  "begin_anonymous_gtid_violating_transaction st =
     st\<lparr>anonymous_gtid_violation_count := anonymous_gtid_violation_count st + 1\<rparr>"

definition begin_gtid_wait :: "gtid_state \<Rightarrow> gtid_state" where
  "begin_gtid_wait st = st\<lparr>gtid_wait_count := gtid_wait_count st + 1\<rparr>"

definition end_gtid_wait :: "gtid_state \<Rightarrow> gtid_state" where
  "end_gtid_wait st = st\<lparr>gtid_wait_count := gtid_wait_count st - 1\<rparr>"

definition end_gtid_violating_transaction :: "thd \<times> gtid_state \<Rightarrow> thd \<times> gtid_state" where
  "end_gtid_violating_transaction ts =
     (let (t, st) = ts in
      if has_gtid_consistency_violation t then
        (t\<lparr>has_gtid_consistency_violation := False\<rparr>,
         if spec_type (gtid_next t) = AUTOMATIC_GROUP then end_automatic_gtid_violating_transaction st
         else end_anonymous_gtid_violating_transaction st)
      else (t, st))"

definition update_gtids_impl_check_skip_gtid_rollback :: "thd \<Rightarrow> bool" where
  "update_gtids_impl_check_skip_gtid_rollback t = skip_gtid_rollback t"

definition update_gtids_impl_do_nothing :: "thd \<Rightarrow> bool \<times> thd" where
  "update_gtids_impl_do_nothing t =
     (if fst (owned_gtid t) = 0 \<and> \<not> has_gtid_consistency_violation t then
        (True, if spec_type (gtid_next t) = GTID_GROUP then spec_set_type UNDEFINED_GROUP t else t)
      else (False, t))"

definition update_gtids_impl_begin :: "thd \<Rightarrow> bool" where
  "update_gtids_impl_begin t = is_commit_in_middle_of_statement t"

text \<open>What a commit and a rollback do to the sets and to \<open>next_free_gno\<close>, after the ownership is gone.\<close>

definition commit_gtid :: "end_env \<Rightarrow> thd \<Rightarrow> gtid_state \<Rightarrow> gtid_state option" where
  "commit_gtid env t st = do {
     let (sidno, gno) = owned_gtid t;
     executed \<leftarrow> gs_add_gtid (nat sidno) gno (executed_gtids st);
     let st1 = st\<lparr>executed_gtids := executed\<rparr>;
     if slave_thread t \<and> opt_bin_log env \<and> \<not> opt_log_slave_updates env then do {
       lost \<leftarrow> gs_add_gtid (nat sidno) gno (lost_gtids st1);
       only_in_table \<leftarrow> gs_add_gtid (nat sidno) gno (gtids_only_in_table st1);
       Some (st1\<lparr>lost_gtids := lost, gtids_only_in_table := only_in_table\<rparr>) }
     else Some st1 }"

definition rollback_gtid :: "thd \<Rightarrow> gtid_state \<Rightarrow> gtid_state" where
  "rollback_gtid t st =
     (let (sidno, gno) = owned_gtid t in
      if sidno = int (server_sidno st) \<and> next_free_gno st > gno then st\<lparr>next_free_gno := gno\<rparr> else st)"

definition update_gtids_impl_own_gtid :: "end_env \<Rightarrow> bool \<Rightarrow> thd \<times> gtid_state \<Rightarrow> (thd \<times> gtid_state) option" where
  "update_gtids_impl_own_gtid env is_commit ts = do {
     let (t, st) = ts;
     let (sidno, gno) = owned_gtid t;
     og \<leftarrow> og_remove_gtid (search_state env t) (nat sidno) gno (thread_id t) (owned_gtids st);
     let st1 = st\<lparr>owned_gtids := og\<rparr>;
     st2 \<leftarrow> (if is_commit then commit_gtid env t st1 else Some (rollback_gtid t st1));
     let t1 = clear_owned_gtids t;
     Some (if spec_type (gtid_next t1) = GTID_GROUP then spec_set_type UNDEFINED_GROUP t1 else t1, st2) }"

definition update_gtids_impl_own_anonymous :: "end_env \<Rightarrow> bool \<Rightarrow> thd \<times> gtid_state \<Rightarrow> bool \<times> thd \<times> gtid_state" where
  "update_gtids_impl_own_anonymous env more_trx ts =
     (let (t, st) = ts; more = (more_trx \<or> opt_bin_log env \<and> \<not> trx_cache_empty t) in
      if \<not> (more \<and> spec_type (gtid_next t) = ANONYMOUS_GROUP)
      then (more, clear_owned_gtids t, release_anonymous_ownership st)
      else (more, t, st))"

definition update_gtids_impl_end :: "bool \<Rightarrow> thd \<times> gtid_state \<Rightarrow> thd \<times> gtid_state" where
  "update_gtids_impl_end more_trx ts = (if \<not> more_trx then end_gtid_violating_transaction ts else ts)"

text \<open>The four cases of ownership; the case of a set of GTIDs is not compiled.\<close>

definition update_owned :: "end_env \<Rightarrow> bool \<Rightarrow> bool \<Rightarrow> thd \<times> gtid_state \<Rightarrow> (bool \<times> thd \<times> gtid_state) option" where
  "update_owned env is_commit more_trx ts =
     (let sidno = fst (owned_gtid (fst ts)) in
      if sidno = OWNED_SIDNO_GTID_SET then None
      else if sidno > 0 then do {
        ts1 \<leftarrow> update_gtids_impl_own_gtid env is_commit ts;
        Some (more_trx, ts1) }
      else if sidno = OWNED_SIDNO_ANONYMOUS then Some (update_gtids_impl_own_anonymous env more_trx ts)
      else Some (more_trx, ts))"

definition update_gtids_impl :: "end_env \<Rightarrow> bool \<Rightarrow> thd \<times> gtid_state \<Rightarrow> (thd \<times> gtid_state) option" where
  "update_gtids_impl env is_commit ts =
     (case update_gtids_impl_do_nothing (fst ts) of
        (True, t) \<Rightarrow> Some (t, snd ts)
      | (False, _) \<Rightarrow> do {
          let more_trx = update_gtids_impl_begin (fst ts);
          let sidno = fst (owned_gtid (fst ts));
          st1 \<leftarrow> (if sidno > 0 then lock_sidno (nat sidno) (snd ts) else Some (snd ts));
          (more1, t2, st2) \<leftarrow> update_owned env is_commit more_trx (fst ts, st1);
          st3 \<leftarrow> (if sidno > 0 then do { s \<leftarrow> broadcast_sidno (nat sidno) st2; unlock_sidno (nat sidno) s } else Some st2);
          Some (update_gtids_impl_end more1 (t2, st3)) })"

definition update_on_commit :: "end_env \<Rightarrow> thd \<times> gtid_state \<Rightarrow> (thd \<times> gtid_state) option" where
  "update_on_commit env ts = update_gtids_impl env True ts"

definition update_on_rollback :: "end_env \<Rightarrow> thd \<times> gtid_state \<Rightarrow> (thd \<times> gtid_state) option" where
  "update_on_rollback env ts =
     (if \<not> update_gtids_impl_check_skip_gtid_rollback (fst ts) then update_gtids_impl env False ts else Some ts)"

subsection \<open>Group commit\<close>

fun mark_sidnos :: "thd list \<Rightarrow> bool list \<Rightarrow> bool list option" where
  "mark_sidnos [] flags = Some flags"
| "mark_sidnos (t # ts) flags =
     (let sidno = fst (owned_gtid t) in
      if sidno > 0 then
        if nat sidno < length flags then mark_sidnos ts (flags[nat sidno := True]) else None
      else if sidno = OWNED_SIDNO_GTID_SET then None
      else mark_sidnos ts flags)"

definition marked :: "bool list \<Rightarrow> nat list" where
  "marked flags = [i \<leftarrow> [1 ..< length flags]. flags ! i]"

definition update_gtids_impl_lock_sidnos :: "thd list \<Rightarrow> gtid_state \<Rightarrow> gtid_state option" where
  "update_gtids_impl_lock_sidnos ts st = do {
     flags \<leftarrow> mark_sidnos ts (commit_group_sidnos st);
     each_sidno lock_sidno (marked flags) (st\<lparr>commit_group_sidnos := flags\<rparr>) }"

definition broadcast_and_unlock :: "nat \<Rightarrow> gtid_state \<Rightarrow> gtid_state option" where
  "broadcast_and_unlock i st = do {
     st1 \<leftarrow> broadcast_sidno i st;
     st2 \<leftarrow> unlock_sidno i st1;
     Some (st2\<lparr>commit_group_sidnos := (commit_group_sidnos st2)[i := False]\<rparr>) }"

definition update_gtids_impl_broadcast_and_unlock_sidnos :: "gtid_state \<Rightarrow> gtid_state option" where
  "update_gtids_impl_broadcast_and_unlock_sidnos st =
     each_sidno broadcast_and_unlock (marked (commit_group_sidnos st)) st"

text \<open>The sessions of a commit group, in the order of \<open>next_to_commit\<close>.\<close>

fun commit_group_loop :: "end_env \<Rightarrow> thd list \<Rightarrow> gtid_state \<Rightarrow> (thd list \<times> gtid_state) option" where
  "commit_group_loop env [] st = Some ([], st)"
| "commit_group_loop env (t # ts) st = do {
     let is_commit = (\<not> commit_error t);
     let (nothing, t0) = update_gtids_impl_do_nothing t;
     (t1, st1) \<leftarrow>
       (if nothing \<or> \<not> is_commit \<and> update_gtids_impl_check_skip_gtid_rollback t0 then Some (t0, st)
        else do {
          (more, t2, st2) \<leftarrow> update_owned env is_commit (update_gtids_impl_begin t0) (t0, st);
          Some (update_gtids_impl_end more (t2, st2)) });
     (ts1, st3) \<leftarrow> commit_group_loop env ts st1;
     Some (t1 # ts1, st3) }"

definition update_commit_group :: "end_env \<Rightarrow> thd list \<Rightarrow> gtid_state \<Rightarrow> (thd list \<times> gtid_state) option" where
  "update_commit_group env ts st = do {
     st1 \<leftarrow> update_gtids_impl_lock_sidnos ts st;
     (ts1, st2) \<leftarrow> commit_group_loop env ts st1;
     st3 \<leftarrow> update_gtids_impl_broadcast_and_unlock_sidnos st2;
     Some (ts1, st3) }"

subsection \<open>Room for SIDNOs\<close>

text \<open>
  \<open>Mutex_cond_array::ensure_index\<close> and \<open>ensure_commit_group_sidnos\<close>: an array grows one element at a time;
  \<open>alloc i\<close> says whether the element with index \<open>i\<close> gets its memory.
\<close>

fun ensure_index_loop :: "(nat \<Rightarrow> bool) \<Rightarrow> nat \<Rightarrow> nat \<Rightarrow> enum_return_status \<times> nat" where
  "ensure_index_loop alloc 0 n_elems = (RETURN_STATUS_OK, n_elems)"
| "ensure_index_loop alloc (Suc k) n_elems =
     (if alloc n_elems then ensure_index_loop alloc k (n_elems + 1) else (RETURN_STATUS_REPORTED_ERROR, n_elems))"

definition ensure_index :: "(nat \<Rightarrow> bool) \<Rightarrow> nat \<Rightarrow> nat \<Rightarrow> enum_return_status \<times> nat" where
  "ensure_index alloc n n_elems = ensure_index_loop alloc (n + 1 - n_elems) n_elems"

fun ensure_flags_loop :: "(nat \<Rightarrow> bool) \<Rightarrow> nat \<Rightarrow> bool list \<Rightarrow> enum_return_status \<times> bool list" where
  "ensure_flags_loop alloc 0 flags = (RETURN_STATUS_OK, flags)"
| "ensure_flags_loop alloc (Suc k) flags =
     (if alloc (length flags) then ensure_flags_loop alloc k (flags @ [False])
      else (RETURN_STATUS_REPORTED_ERROR, flags))"

definition ensure_commit_group_sidnos :: "(nat \<Rightarrow> bool) \<Rightarrow> nat \<Rightarrow> bool list \<Rightarrow> enum_return_status \<times> bool list" where
  "ensure_commit_group_sidnos alloc sidno flags = ensure_flags_loop alloc (sidno + 1 - length flags) flags"

text \<open>\<open>PROPAGATE_REPORTED_ERROR\<close>: the steps up to the first one that fails.\<close>

fun propagate :: "(gtid_state \<Rightarrow> enum_return_status \<times> gtid_state) list \<Rightarrow> gtid_state \<Rightarrow> enum_return_status \<times> gtid_state" where
  "propagate [] st = (RETURN_STATUS_OK, st)"
| "propagate (f # fs) st =
     (let (status, st1) = f st in
      if status = RETURN_STATUS_OK then propagate fs st1 else (RETURN_STATUS_REPORTED_ERROR, st1))"

text \<open>\<open>ensure_sidno\<close>: \<open>alloc k\<close> is for the \<open>k\<close>-th array.\<close>

definition st_ensure_sidno :: "(nat \<Rightarrow> nat \<Rightarrow> bool) \<Rightarrow> gtid_state \<Rightarrow> enum_return_status \<times> gtid_state" where
  "st_ensure_sidno alloc st =
     (let sidno = sm_max_sidno (st_maps st 0) in
      if sidno > 0 then
        propagate
          [\<lambda>st. map_prod id (\<lambda>gs. st\<lparr>executed_gtids := gs\<rparr>) (gs_ensure_sidno (alloc 0) id sidno (executed_gtids st)),
           \<lambda>st. map_prod id (\<lambda>gs. st\<lparr>gtids_only_in_table := gs\<rparr>) (gs_ensure_sidno (alloc 1) id sidno (gtids_only_in_table st)),
           \<lambda>st. map_prod id (\<lambda>gs. st\<lparr>previous_gtids_logged := gs\<rparr>) (gs_ensure_sidno (alloc 2) id sidno (previous_gtids_logged st)),
           \<lambda>st. map_prod id (\<lambda>gs. st\<lparr>lost_gtids := gs\<rparr>) (gs_ensure_sidno (alloc 3) id sidno (lost_gtids st)),
           \<lambda>st. map_prod id (\<lambda>og. st\<lparr>owned_gtids := og\<rparr>) (og_ensure_sidno (alloc 4) sidno (owned_gtids st)),
           \<lambda>st. map_prod id (\<lambda>n. st\<lparr>n_sid_locks := n\<rparr>) (ensure_index (alloc 5) sidno (n_sid_locks st)),
           \<lambda>st. map_prod id (\<lambda>fl. st\<lparr>commit_group_sidnos := fl\<rparr>) (ensure_commit_group_sidnos (alloc 6) sidno (commit_group_sidnos st))]
          st
      else (RETURN_STATUS_OK, st))"

subsection \<open>Administration\<close>

text \<open>\<open>reset_ret\<close> is the result of \<open>gtid_table_persistor->reset\<close>.\<close>

definition st_clear :: "int \<Rightarrow> gtid_state \<Rightarrow> int \<times> gtid_state" where
  "st_clear reset_ret st =
     (if reset_ret = 1 then 0 else reset_ret,
      st\<lparr>lost_gtids := gs_clear (lost_gtids st), executed_gtids := gs_clear (executed_gtids st),
         gtids_only_in_table := gs_clear (gtids_only_in_table st),
         previous_gtids_logged := gs_clear (previous_gtids_logged st), next_free_gno := 1\<rparr>)"

definition st_init :: "add_node_env \<Rightarrow> string \<Rightarrow> gtid_state \<Rightarrow> int \<times> gtid_state" where
  "st_init env server_uuid st =
     (case uuid_parse server_uuid of
        None \<Rightarrow> (1, st)
      | Some (server_sid, _) \<Rightarrow>
          (case add_sid env server_sid (st_maps st 0) of
             (None, sm) \<Rightarrow> (1, st\<lparr>st_maps := (st_maps st)(0 := sm)\<rparr>)
           | (Some sidno, sm) \<Rightarrow>
               (0, st\<lparr>st_maps := (st_maps st)(0 := sm), server_sidno := sidno, next_free_gno := 1\<rparr>)))"

text \<open>\<open>save_ret\<close> is the result of \<open>gtid_table_persistor->save\<close>.\<close>

definition add_lost_gtids ::
  "gs_env \<Rightarrow> int \<Rightarrow> gtid_set \<Rightarrow> gtid_state \<Rightarrow> (enum_return_status \<times> gtid_state) option" where
  "add_lost_gtids env save_ret gs st =
     (if \<not> gs_is_empty (executed_gtids st) then Some (RETURN_STATUS_REPORTED_ERROR, st)
      else if \<not> og_is_empty (owned_gtids st) then Some (RETURN_STATUS_REPORTED_ERROR, st)
      else if save_ret \<noteq> 0 then Some (RETURN_STATUS_REPORTED_ERROR, st)
      else do {
        (s1, maps1, only) \<leftarrow> add_gtid_set env gs (st_maps st) (gtids_only_in_table st);
        let st1 = st\<lparr>st_maps := maps1, gtids_only_in_table := only\<rparr>;
        if s1 \<noteq> RETURN_STATUS_OK then Some (RETURN_STATUS_REPORTED_ERROR, st1) else do {
        (s2, maps2, lost) \<leftarrow> add_gtid_set env gs (st_maps st1) (lost_gtids st1);
        let st2 = st1\<lparr>st_maps := maps2, lost_gtids := lost\<rparr>;
        if s2 \<noteq> RETURN_STATUS_OK then Some (RETURN_STATUS_REPORTED_ERROR, st2) else do {
        (s3, maps3, executed) \<leftarrow> add_gtid_set env gs (st_maps st2) (executed_gtids st2);
        let st3 = st2\<lparr>st_maps := maps3, executed_gtids := executed\<rparr>;
        if s3 \<noteq> RETURN_STATUS_OK then Some (RETURN_STATUS_REPORTED_ERROR, st3) else do {
        st4 \<leftarrow> lock_sidnos gs st3;
        st5 \<leftarrow> broadcast_sidnos gs st4;
        st6 \<leftarrow> unlock_sidnos gs st5;
        Some (RETURN_STATUS_OK, st6) }}}})"

text \<open>
  \<open>save_gtids_of_last_binlog_into_table\<close>: the set of the last binary log is built over a SID map of its
  own, at address 1 of the store. The result is the return value, the state, and the set that was
  saved. A local set starts with a number of interval cells on the stack. The value that \<open>save\<close> of the set returns is \<open>save_ret\<close>; a status of \<open>add_gtid_set\<close> becomes its number.
\<close>

definition status_code :: "enum_return_status \<Rightarrow> int" where
  "status_code s = (case s of RETURN_STATUS_OK \<Rightarrow> 0 | RETURN_STATUS_UNREPORTED_ERROR \<Rightarrow> 1 | RETURN_STATUS_REPORTED_ERROR \<Rightarrow> 2)"

definition set_with_memory :: "nat \<Rightarrow> nat \<Rightarrow> gtid_set" where
  "set_with_memory sm n =
     (gtid_set_init (Some sm))\<lparr>gs_pool := add_interval_memory n (gs_pool (gtid_set_init (Some sm)))\<rparr>"

definition save_gtids_of_last_binlog_into_table ::
  "gs_env \<Rightarrow> (gtid_set \<Rightarrow> int) \<Rightarrow> bool \<Rightarrow> bool \<Rightarrow> gtid_state \<Rightarrow> (int \<times> gtid_state \<times> (sid_maps \<times> gtid_set) option) option" where
  "save_gtids_of_last_binlog_into_table env save_ret rotating_incident on_rotation st = do {
     let maps = (st_maps st)(1 := sid_map_init);
     (s1, maps1, logged) \<leftarrow> add_gtid_set env (executed_gtids st) maps (set_with_memory 1 64);
     if s1 \<noteq> RETURN_STATUS_OK then Some (1, st, None)
     else do {
       logged1 \<leftarrow> remove_gtid_set (previous_gtids_logged st) maps1 logged;
       logged2 \<leftarrow> remove_gtid_set (gtids_only_in_table st) maps1 logged1;
       if \<not> gs_is_empty logged2 \<or> rotating_incident then do {
         (ret, st1) \<leftarrow>
           (if on_rotation then do {
              (s2, maps2, prev) \<leftarrow> add_gtid_set env logged2 maps1 (previous_gtids_logged st);
              Some (status_code s2, st\<lparr>st_maps := maps2(1 := st_maps st 1), previous_gtids_logged := prev\<rparr>) }
            else Some (0, st));
         if ret = 0 then Some (save_ret logged2, st1, Some (maps1, logged2)) else Some (ret, st1, None) }
       else Some (0, st, None) } }"

end
