(* ===== verification/Owned_Gtids_Laws.thy ===== *)
theory Owned_Gtids_Laws
  imports Owned_Gtids
begin

text \<open>
  What the operations of \<open>Owned_gtids\<close> do to the bag of owned GTIDs: the nodes of every SIDNO. The laws
  of the hash table carry over through its interface; the iterator visits every node once.
\<close>

section \<open>Keys\<close>

lemma int8store_inject: "int8store a = int8store b \<Longrightarrow> a = b"
  using uint8korr_int8store [of a "[]"] uint8korr_int8store [of b "[]"] by simp

lemma node_key_differs: "key_differs node_ops a b \<longleftrightarrow> a \<noteq> b"
  using memcmp_0 [of "int8store a" "int8store b"] int8store_inject [of a b] by (auto simp: node_ops_def)

lemma node_ops_simps [simp]: "get_key node_ops n = gno_key (node_gno n)" "hash_unique node_ops = False"
  by (simp_all add: node_ops_def)

lemma node_ops_ok [simp]: "ops_ok node_ops"
  by (simp add: ops_ok_def node_key_differs)

definition gno_ok :: "int \<Rightarrow> bool" where
  "gno_ok gno \<longleftrightarrow> 1 \<le> gno \<and> gno < GNO_END"

lemma gno_key_inject: "gno_ok a \<Longrightarrow> gno_ok b \<Longrightarrow> gno_key a = gno_key b \<longleftrightarrow> a = b"
proof -
  assume ok: "gno_ok a" "gno_ok b"
  have "uint (gno_key x) = x" if "gno_ok x" for x
    using that by (simp add: gno_key_def gno_ok_def GNO_END_def uint_word_of_int)
  then show ?thesis using ok by metis
qed

section \<open>The bag of owned GTIDs\<close>

definition table_ok :: "owned_node my_hash \<Rightarrow> bool" where
  "table_ok h \<longleftrightarrow> hash_inv node_ops h \<and> (\<forall>n \<in># hash_records h. gno_ok (node_gno n))"

definition og_inv :: "owned_gtids \<Rightarrow> bool" where
  "og_inv og \<longleftrightarrow> (\<forall>h \<in> set (sidno_to_hash og). table_ok h)"

definition og_nodes :: "owned_gtids \<Rightarrow> nat \<Rightarrow> owned_node multiset" where
  "og_nodes og sidno = (case get_hash og sidno of None \<Rightarrow> {#} | Some h \<Rightarrow> hash_records h)"

lemma get_hash_ok: "og_inv og \<Longrightarrow> get_hash og sidno = Some h \<Longrightarrow> table_ok h \<and> og_nodes og sidno = hash_records h"
  by (auto simp: get_hash_def og_inv_def og_nodes_def og_max_sidno_def split: if_splits)

lemma get_hash_exists: "1 \<le> sidno \<Longrightarrow> sidno \<le> og_max_sidno og \<Longrightarrow> \<exists>h. get_hash og sidno = Some h"
  by (simp add: get_hash_def)

lemma og_nodes_outside: "\<not> (1 \<le> sidno \<and> sidno \<le> og_max_sidno og) \<Longrightarrow> og_nodes og sidno = {#}"
  by (auto simp: og_nodes_def get_hash_def split: if_splits)

lemma og_nodes_range: "n \<in># og_nodes og sidno \<Longrightarrow> 1 \<le> sidno \<and> sidno \<le> og_max_sidno og"
  by (rule ccontr) (simp add: og_nodes_outside)

lemma og_nodes_gno: "og_inv og \<Longrightarrow> n \<in># og_nodes og sidno \<Longrightarrow> gno_ok (node_gno n)"
proof -
  assume a: "og_inv og" "n \<in># og_nodes og sidno"
  then obtain h where h: "get_hash og sidno = Some h" by (cases "get_hash og sidno") (auto simp: og_nodes_def)
  from get_hash_ok [OF a(1) h] a(2) show ?thesis by (auto simp: table_ok_def)
qed

lemma set_hash_laws:
  assumes inv: "og_inv og" and h: "get_hash og sidno = Some h" and ok: "table_ok h'"
  shows "og_inv (set_hash og sidno h')" and "og_max_sidno (set_hash og sidno h') = og_max_sidno og"
    and "og_nodes (set_hash og sidno h') = (og_nodes og)(sidno := hash_records h')"
proof -
  have s: "1 \<le> sidno" "sidno \<le> og_max_sidno og" using h by (auto simp: get_hash_def split: if_splits)
  have "set ((sidno_to_hash og)[sidno - 1 := h']) \<subseteq> insert h' (set (sidno_to_hash og))" by (rule set_update_subset_insert)
  then show "og_inv (set_hash og sidno h')" using inv ok by (auto simp: og_inv_def set_hash_def)
  show m: "og_max_sidno (set_hash og sidno h') = og_max_sidno og" by (simp add: set_hash_def og_max_sidno_def)
  show "og_nodes (set_hash og sidno h') = (og_nodes og)(sidno := hash_records h')"
  proof
    fix k
    have "get_hash (set_hash og sidno h') k = (if k = sidno then Some h' else get_hash og k)"
      using s m by (auto simp: get_hash_def set_hash_def og_max_sidno_def nth_list_update)
    then show "og_nodes (set_hash og sidno h') k = ((og_nodes og)(sidno := hash_records h')) k"
      by (simp add: og_nodes_def)
  qed
qed

lemma og_inv_init [simp]: "og_inv owned_init" "og_nodes owned_init sidno = {#}" "og_max_sidno owned_init = 0"
  by (auto simp: og_inv_def owned_init_def og_nodes_def get_hash_def og_max_sidno_def split: if_splits)

lemma table_ok_init [simp]: "table_ok my_hash_init"
  by (simp add: table_ok_def)

lemma push_hashes_laws:
  assumes "og_inv og" and "push_hashes alloc n og = (status, og')"
  shows "og_inv og' \<and> og_nodes og' = og_nodes og \<and> og_max_sidno og \<le> og_max_sidno og' \<and>
    og_max_sidno og' \<le> og_max_sidno og + n \<and> (status = RETURN_STATUS_OK \<longleftrightarrow> og_max_sidno og' = og_max_sidno og + n)"
  using assms
proof (induction n arbitrary: og)
  case (Suc n)
  let ?og = "og\<lparr>sidno_to_hash := sidno_to_hash og @ [my_hash_init]\<rparr>"
  show ?case
  proof (cases "alloc (og_max_sidno og)")
    case True
    have "og_inv ?og" using Suc.prems(1) by (auto simp: og_inv_def)
    moreover have "og_nodes ?og = og_nodes og"
      by (auto simp: og_nodes_def get_hash_def og_max_sidno_def nth_append fun_eq_iff le_Suc_eq)
    moreover have "og_max_sidno ?og = Suc (og_max_sidno og)" by (simp add: og_max_sidno_def)
    ultimately show ?thesis using Suc.IH [of ?og] Suc.prems(2) True by auto
  qed (use Suc.prems in auto)
qed auto

lemma og_ensure_sidno_laws:
  assumes "og_inv og" and "og_ensure_sidno alloc sidno og = (status, og')"
  shows "og_inv og'" and "og_nodes og' = og_nodes og" and "og_max_sidno og \<le> og_max_sidno og'"
    and "status = RETURN_STATUS_OK \<longleftrightarrow> sidno \<le> og_max_sidno og'"
  using assms(2) push_hashes_laws [OF assms(1), of alloc "sidno - og_max_sidno og" status og'] assms(1)
  by (auto simp: og_ensure_sidno_def split: if_splits)

section \<open>Owners\<close>

definition owner_node :: "int \<Rightarrow> nat \<Rightarrow> owned_node" where
  "owner_node gno owner = \<lparr>node_gno = gno, node_owner = owner\<rparr>"

lemma owner_node_eq: "n = owner_node gno owner \<longleftrightarrow> node_gno n = gno \<and> node_owner n = owner"
  by (cases n) (simp add: owner_node_def)

lemma add_gtid_owner_laws:
  assumes inv: "og_inv og" and s: "1 \<le> sidno" "sidno \<le> og_max_sidno og" and g: "gno_ok gno"
  obtains og' where "add_gtid_owner env sidno gno owner og =
      Some (if node_ok env \<and> cell_ok env then RETURN_STATUS_OK else RETURN_STATUS_REPORTED_ERROR, og')"
    and "og_inv og'" and "og_max_sidno og' = og_max_sidno og"
    and "og_nodes og' = (if node_ok env \<and> cell_ok env
      then (og_nodes og)(sidno := add_mset (owner_node gno owner) (og_nodes og sidno)) else og_nodes og)"
proof (cases "node_ok env")
  case False
  then show thesis using inv by (intro that [of og]) (simp_all add: add_gtid_owner_def)
next
  case True
  obtain h where h: "get_hash og sidno = Some h" using get_hash_exists [OF s] by blast
  note hk = get_hash_ok [OF inv h]
  then have "table_inv node_ops h" by (simp add: table_inv_def table_ok_def)
  from hstore.ins_law [OF this, of "cell_ok env" "fresh_cell env" "owner_node gno owner"]
  obtain h1 where h1: "hash_inv node_ops h1"
      "my_hash_insert node_ops (cell_ok env) (fresh_cell env) (owner_node gno owner) h = Some (\<not> cell_ok env, h1)"
      "hash_records h1 = (if cell_ok env then add_mset (owner_node gno owner) (hash_records h) else hash_records h)"
    by (auto simp: table_inv_def key_clash_def)
  have ok: "table_ok h1" using h1 hk g by (auto simp: table_ok_def owner_node_def split: if_splits)
  note laws = set_hash_laws [OF inv h ok]
  have "add_gtid_owner env sidno gno owner og =
      Some (if cell_ok env then RETURN_STATUS_OK else RETURN_STATUS_REPORTED_ERROR, set_hash og sidno h1)"
    using True h h1(2) by (simp add: add_gtid_owner_def owner_node_def)
  with True laws h1(3) hk show thesis by (intro that [of "set_hash og sidno h1"]) auto
qed

text \<open>The nodes of a GNO, and the searches for them.\<close>

definition gno_nodes :: "owned_gtids \<Rightarrow> nat \<Rightarrow> int \<Rightarrow> owned_node multiset" where
  "gno_nodes og sidno gno = filter_mset (\<lambda>n. node_gno n = gno) (og_nodes og sidno)"

lemma gno_nodes_lookup:
  assumes inv: "og_inv og" and h: "get_hash og sidno = Some h" and g: "gno_ok gno"
  obtains rs where "hash_collect node_ops h (gno_key gno) = Some rs" and "mset rs = gno_nodes og sidno gno"
    and "my_hash_search node_ops h (gno_key gno) = Some (case rs of [] \<Rightarrow> None | r # _ \<Rightarrow> Some r)"
proof -
  note hk = get_hash_ok [OF inv h]
  have eq: "filter_mset (\<lambda>r. \<not> key_differs node_ops (get_key node_ops r) (gno_key gno)) (hash_records h) =
      gno_nodes og sidno gno"
    unfolding gno_nodes_def using hk g
    by (auto simp: node_key_differs table_ok_def gno_key_inject intro!: filter_mset_cong)
  have "hash_inv node_ops h" using hk by (simp add: table_ok_def)
  then show thesis
  proof (rule hash_collect_correct [OF node_ops_ok, where key = "gno_key gno"])
    fix rs
    assume "hash_collect node_ops h (gno_key gno) = Some rs"
      "mset rs = filter_mset (\<lambda>r. \<not> key_differs node_ops (get_key node_ops r) (gno_key gno)) (hash_records h)"
      "my_hash_search node_ops h (gno_key gno) = Some (case rs of [] \<Rightarrow> None | r # _ \<Rightarrow> Some r)"
    then show thesis unfolding eq by (rule that)
  qed
qed

lemma og_contains_gtid_laws:
  assumes "og_inv og" and "1 \<le> sidno" "sidno \<le> og_max_sidno og" and "gno_ok gno"
  shows "og_contains_gtid og sidno gno = Some (gno_nodes og sidno gno \<noteq> {#})"
proof -
  obtain h where h: "get_hash og sidno = Some h" using get_hash_exists [OF assms(2,3)] by blast
  obtain rs where "mset rs = gno_nodes og sidno gno"
    "my_hash_search node_ops h (gno_key gno) = Some (case rs of [] \<Rightarrow> None | r # _ \<Rightarrow> Some r)"
    by (rule gno_nodes_lookup [OF assms(1) h assms(4)])
  then show ?thesis using h by (cases rs) (auto simp: og_contains_gtid_def)
qed

lemma owned_by_loop_collect:
  "collect_loop node_ops h (gno_key gno) (state, node) = Some rs \<Longrightarrow>
    owned_by_loop gno thd_id h state node = Some (\<exists>n \<in> set rs. node_owner n = thd_id)"
proof (induction rs arbitrary: state node)
  case Nil
  then have "node = None" by (subst (asm) collect_loop.simps) (auto split: option.splits bind_splits)
  then show ?case by (subst owned_by_loop.simps) simp
next
  case (Cons r rs)
  then obtain found where f: "node = Some r" "my_hash_next node_ops h (gno_key gno) state = Some found"
      "collect_loop node_ops h (gno_key gno) found = Some rs"
    by (subst (asm) collect_loop.simps) (auto split: option.splits bind_splits)
  obtain state' node' where found: "found = (state', node')" by (cases found)
  from Cons.IH [of state' node'] f(3) have "owned_by_loop gno thd_id h state' node' = Some (\<exists>n \<in> set rs. node_owner n = thd_id)"
    unfolding found .
  with f(1,2) found show ?case by (subst owned_by_loop.simps) auto
qed

lemma is_owned_by_laws:
  assumes inv: "og_inv og" and s: "1 \<le> sidno" "sidno \<le> og_max_sidno og" and g: "gno_ok gno"
  shows "is_owned_by og sidno gno thd_id =
    Some (if thd_id = 0 then gno_nodes og sidno gno = {#} else owner_node gno thd_id \<in># og_nodes og sidno)"
proof -
  obtain h where h: "get_hash og sidno = Some h" using get_hash_exists [OF s] by blast
  obtain rs where rs: "hash_collect node_ops h (gno_key gno) = Some rs" "mset rs = gno_nodes og sidno gno"
    by (rule gno_nodes_lookup [OF inv h g]) blast
  then obtain state node where f: "my_hash_first node_ops h (gno_key gno) = Some (state, node)"
      "collect_loop node_ops h (gno_key gno) (state, node) = Some rs"
    by (auto simp: hash_collect_def split: bind_splits)
  have "node = None \<longleftrightarrow> rs = []"
    using f(2) by (subst (asm) collect_loop.simps) (auto split: option.splits bind_splits)
  moreover have "rs = [] \<longleftrightarrow> gno_nodes og sidno gno = {#}" using rs(2) by (metis mset_zero_iff)
  moreover have "(\<exists>n \<in> set rs. node_owner n = thd_id) \<longleftrightarrow> owner_node gno thd_id \<in># og_nodes og sidno"
  proof -
    have rs_set: "set rs = {n \<in> set_mset (og_nodes og sidno). node_gno n = gno}"
      using arg_cong [OF rs(2), of set_mset] by (simp add: gno_nodes_def)
    show ?thesis
    proof
      assume "\<exists>n \<in> set rs. node_owner n = thd_id"
      then obtain n where n: "n \<in># og_nodes og sidno" "node_gno n = gno" "node_owner n = thd_id" unfolding rs_set by auto
      then have "n = owner_node gno thd_id" unfolding owner_node_eq by simp
      with n(1) show "owner_node gno thd_id \<in># og_nodes og sidno" by simp
    next
      assume "owner_node gno thd_id \<in># og_nodes og sidno"
      then show "\<exists>n \<in> set rs. node_owner n = thd_id" unfolding rs_set
        by (intro bexI [of _ "owner_node gno thd_id"]) (simp_all add: owner_node_def)
    qed
  qed
  ultimately show ?thesis using h f owned_by_loop_collect [OF f(2), of thd_id] by (simp add: is_owned_by_def)
qed

text \<open>
  \<open>remove_gtid\<close> removes the node when all nodes of the GNO have this owner, whatever the uninitialised
  variable holds.
\<close>

lemma og_remove_gtid_laws:
  assumes inv: "og_inv og" and s: "1 \<le> sidno" "sidno \<le> og_max_sidno og" and g: "gno_ok gno"
    and own: "\<forall>n \<in># gno_nodes og sidno gno. node_owner n = owner"
  obtains og' where "og_remove_gtid state sidno gno owner og = Some og'" and "og_inv og'"
    and "og_max_sidno og' = og_max_sidno og"
    and "og_nodes og' = (og_nodes og)(sidno := og_nodes og sidno - {#owner_node gno owner#})"
proof -
  obtain h where h: "get_hash og sidno = Some h" using get_hash_exists [OF s] by blast
  note hk = get_hash_ok [OF inv h]
  have inv_h: "table_inv node_ops h" using hk by (simp add: table_inv_def table_ok_def)
  obtain rs where rs: "mset rs = gno_nodes og sidno gno"
      "my_hash_search node_ops h (gno_key gno) = Some (case rs of [] \<Rightarrow> None | r # _ \<Rightarrow> Some r)"
    by (rule gno_nodes_lookup [OF inv h g])
  show thesis
  proof (cases rs)
    case Nil
    then have "owner_node gno owner \<notin># gno_nodes og sidno gno" using rs(1) by simp
    then have "owner_node gno owner \<notin># og_nodes og sidno" by (simp add: gno_nodes_def owner_node_def)
    then have "og_nodes og sidno - {#owner_node gno owner#} = hash_records h" using hk by simp
    moreover have "og_remove_gtid state sidno gno owner og = Some (set_hash og sidno h)"
      using h rs(2) Nil by (simp add: og_remove_gtid_def remove_gtid_loop.simps)
    ultimately show thesis using set_hash_laws [OF inv h, of h] hk by (intro that) auto
  next
    case (Cons r rs')
    then have "r \<in># gno_nodes og sidno gno" using rs(1) by (metis list.set_intros(1) set_mset_mset)
    then have r: "r = owner_node gno owner" "r \<in># hash_records h"
      using own hk by (auto simp: gno_nodes_def owner_node_def)
    from hstore.del_law [OF inv_h, of r] obtain h1 where h1: "hash_inv node_ops h1"
        "my_hash_delete node_ops r h = Some (False, h1)" "hash_records h1 = hash_records h - {#r#}"
      using r(2) by (auto simp: table_inv_def)
    have ok: "table_ok h1" using h1 hk by (auto simp: table_ok_def dest: in_diffD)
    have "og_remove_gtid state sidno gno owner og = Some (set_hash og sidno h1)"
      using h rs(2) Cons r(1) h1(2) by (simp add: og_remove_gtid_def remove_gtid_loop.simps owner_node_def)
    with set_hash_laws [OF inv h ok] h1(3) r hk show thesis by (intro that) auto
  qed
qed

text \<open>With two owners of a GNO and no record in the uninitialised variable, one owner is not removed.\<close>

lemma og_remove_gtid_misses:
  assumes inv: "og_inv og" and s: "1 \<le> sidno" "sidno \<le> og_max_sidno og" and g: "gno_ok gno" and ab: "a \<noteq> b"
    and own: "owner_node gno a \<in># og_nodes og sidno" "owner_node gno b \<in># og_nodes og sidno"
  obtains owner og' where "owner \<in> {a, b}" and "og_remove_gtid None sidno gno owner og = Some og'"
    and "og_nodes og' = og_nodes og"
proof -
  obtain h where h: "get_hash og sidno = Some h" using get_hash_exists [OF s] by blast
  note hk = get_hash_ok [OF inv h]
  obtain rs where rs: "mset rs = gno_nodes og sidno gno"
      "my_hash_search node_ops h (gno_key gno) = Some (case rs of [] \<Rightarrow> None | r # _ \<Rightarrow> Some r)"
    by (rule gno_nodes_lookup [OF inv h g])
  have "owner_node gno a \<in># gno_nodes og sidno gno" using own by (simp add: gno_nodes_def owner_node_def)
  then obtain r rs' where Cons: "rs = r # rs'" using rs(1) by (cases rs) auto
  have "\<exists>owner \<in> {a, b}. node_owner r \<noteq> owner" using ab by auto
  then obtain owner where ow: "owner \<in> {a, b}" "node_owner r \<noteq> owner" by blast
  then have "og_remove_gtid None sidno gno owner og = Some (set_hash og sidno h)"
    using h rs(2) Cons by (simp add: og_remove_gtid_def remove_gtid_loop.simps)
  moreover have "og_nodes (set_hash og sidno h) = og_nodes og"
    using set_hash_laws(3) [OF inv h, of h] hk by auto
  ultimately show thesis using that ow(1) by blast
qed

section \<open>Iteration\<close>

fun enum_nodes :: "nat \<Rightarrow> nat \<Rightarrow> owned_node my_hash list \<Rightarrow> (nat \<times> owned_node) list" where
  "enum_nodes sidno index [] = []"
| "enum_nodes sidno index (h # hs) =
     map (Pair sidno) (drop index (map hl_data (hash_array h))) @ enum_nodes (sidno + 1) 0 hs"

lemma table_ok_records: "table_ok h \<Longrightarrow> records h = length (hash_array h)"
  by (auto simp: table_ok_def hash_inv_def chains_of_def)

lemma og_seek_enum:
  fixes sidno index :: nat
  assumes "\<forall>h \<in> set hs. records h = length (hash_array h)"
  defines "it \<equiv> og_seek sidno index hs"
  shows "sidno \<le> oi_sidno it \<and>
    (case oi_node it of
       None \<Rightarrow> enum_nodes sidno index hs = []
     | Some n \<Rightarrow> enum_nodes sidno index hs =
         (oi_sidno it, n) # enum_nodes (oi_sidno it) (oi_index it) (drop (oi_sidno it - sidno) hs))"
  using assms(1) unfolding it_def
proof (induction hs arbitrary: sidno index)
  case (Cons h hs)
  show ?case
  proof (cases "index < records h")
    case True
    then have "my_hash_element h index = Some (hl_data (hash_array h ! index))"
      using Cons.prems by (simp add: my_hash_element_def link_at_def)
    with True Cons.prems show ?thesis by (simp add: Cons_nth_drop_Suc [symmetric])
  next
    case False
    let ?it = "og_seek (sidno + 1) 0 hs"
    have IH: "sidno + 1 \<le> oi_sidno ?it" "case oi_node ?it of
       None \<Rightarrow> enum_nodes (sidno + 1) 0 hs = []
     | Some n \<Rightarrow> enum_nodes (sidno + 1) 0 hs =
         (oi_sidno ?it, n) # enum_nodes (oi_sidno ?it) (oi_index ?it) (drop (oi_sidno ?it - (sidno + 1)) hs)"
      using Cons.IH [of "sidno + 1" 0] Cons.prems by auto
    then have "oi_sidno ?it - sidno = Suc (oi_sidno ?it - (sidno + 1))" by linarith
    then have "drop (oi_sidno ?it - sidno) (h # hs) = drop (oi_sidno ?it - (sidno + 1)) hs" by simp
    with IH False Cons.prems show ?thesis by (auto split: option.splits)
  qed
qed simp

text \<open>What an iterator has still to visit, its current node first.\<close>

definition og_rest :: "owned_gtids \<Rightarrow> og_iterator \<Rightarrow> (nat \<times> owned_node) list" where
  "og_rest og it =
     (case oi_node it of
        None \<Rightarrow> []
      | Some n \<Rightarrow> (oi_sidno it, n) # enum_nodes (oi_sidno it) (oi_index it) (drop (oi_sidno it - 1) (sidno_to_hash og)))"

lemma og_rest_next:
  assumes inv: "og_inv og" and s: "1 \<le> oi_sidno it"
  shows "og_rest og (og_next og it) = enum_nodes (oi_sidno it) (oi_index it) (drop (oi_sidno it - 1) (sidno_to_hash og))"
    and "1 \<le> oi_sidno (og_next og it)"
proof -
  let ?hs = "drop (oi_sidno it - 1) (sidno_to_hash og)"
  have "\<forall>h \<in> set ?hs. records h = length (hash_array h)"
    using inv table_ok_records unfolding og_inv_def by (meson in_set_dropD)
  note e = og_seek_enum [OF this, of "oi_sidno it" "oi_index it"]
  show "1 \<le> oi_sidno (og_next og it)" using e s unfolding og_next_def by linarith
  show "og_rest og (og_next og it) = enum_nodes (oi_sidno it) (oi_index it) ?hs"
  proof (cases "oi_node (og_seek (oi_sidno it) (oi_index it) ?hs)")
    case None
    then show ?thesis using e by (simp add: og_rest_def og_next_def)
  next
    case (Some n)
    let ?s = "oi_sidno (og_seek (oi_sidno it) (oi_index it) ?hs)"
    have "?s - 1 = ?s - oi_sidno it + (oi_sidno it - 1)" using e s by linarith
    then have "drop (?s - oi_sidno it) ?hs = drop (?s - 1) (sidno_to_hash og)" by simp
    with Some e show ?thesis by (simp add: og_rest_def og_next_def)
  qed
qed

lemma og_rest_Cons:
  assumes "og_inv og" and "1 \<le> oi_sidno it" and "og_rest og it = x # xs"
  shows "oi_node it = Some (snd x)" and "oi_sidno it = fst x" and "og_rest og (og_next og it) = xs"
  using assms og_rest_next(1) [OF assms(1,2)] by (auto simp: og_rest_def split: option.splits)

lemma og_rest_Nil: "og_rest og it = [] \<Longrightarrow> oi_node it = None"
  by (auto simp: og_rest_def split: option.splits)

definition og_list :: "owned_gtids \<Rightarrow> (nat \<times> owned_node) list" where
  "og_list og = enum_nodes 1 0 (sidno_to_hash og)"

lemma og_first_laws:
  assumes "og_inv og"
  shows "og_rest og (og_first og) = og_list og" and "1 \<le> oi_sidno (og_first og)"
  using og_rest_next [OF assms, of "\<lparr>oi_sidno = 1, oi_index = 0, oi_node = None\<rparr>"]
  by (simp_all add: og_first_def og_list_def)

lemma enum_nodes_iff:
  "(s, n) \<in> set (enum_nodes k 0 hs) \<longleftrightarrow> k \<le> s \<and> s < k + length hs \<and> n \<in># hash_records (hs ! (s - k))"
proof (induction hs arbitrary: k)
  case (Cons h hs)
  show ?case
  proof (cases "s = k")
    case True
    then show ?thesis using Cons.IH [of "k + 1"] by (auto simp: hash_records_def)
  next
    case False
    then have "(h # hs) ! (s - k) = hs ! (s - (k + 1))" if "k < s" using that by (simp add: nth_Cons')
    with False Cons.IH [of "k + 1"] show ?thesis by auto
  qed
qed simp

lemma og_list_iff: "(s, n) \<in> set (og_list og) \<longleftrightarrow> n \<in># og_nodes og s"
  unfolding og_list_def enum_nodes_iff
  by (auto simp: og_nodes_def get_hash_def og_max_sidno_def split: if_splits)

lemma Bex_og_list: "(\<exists>(s, n) \<in> set (og_list og). P s n) \<longleftrightarrow> (\<exists>s n. n \<in># og_nodes og s \<and> P s n)"
proof -
  have "(\<exists>(s, n) \<in> set (og_list og). P s n) \<longleftrightarrow> (\<exists>s n. (s, n) \<in> set (og_list og) \<and> P s n)" by auto
  then show ?thesis unfolding og_list_iff .
qed

lemma og_is_empty_laws: "og_inv og \<Longrightarrow> og_is_empty og \<longleftrightarrow> (\<forall>s. og_nodes og s = {#})"
proof -
  assume inv: "og_inv og"
  have "og_is_empty og \<longleftrightarrow> og_list og = []"
    using og_first_laws(1) [OF inv] by (auto simp: og_is_empty_def og_rest_def split: option.splits)
  also have "\<dots> \<longleftrightarrow> (\<forall>s n. (s, n) \<notin> set (og_list og))" by (metis last_in_set empty_iff empty_set surj_pair)
  also have "\<dots> \<longleftrightarrow> (\<forall>s. set_mset (og_nodes og s) = {})" unfolding og_list_iff by auto
  finally show ?thesis by simp
qed

lemma og_intersects_laws:
  assumes "og_inv og" and "1 \<le> oi_sidno it"
  shows "og_intersects og other it = Some (\<exists>(s, n) \<in> set (og_rest og it). contains_gtid other s (node_gno n))"
  using assms(2)
proof (induction "og_rest og it" arbitrary: it)
  case Nil
  then show ?case using og_rest_Nil [of og it] by (subst og_intersects.simps) simp
next
  case (Cons x xs)
  note c = og_rest_Cons [OF assms(1) Cons.prems Cons.hyps(2) [symmetric]]
  from Cons.hyps(1) [OF c(3) [symmetric] og_rest_next(2) [OF assms(1) Cons.prems]] show ?case
    unfolding Cons.hyps(2) [symmetric] c(3) using c by (subst og_intersects.simps) auto
qed

lemma owns_loop_laws:
  assumes "og_inv og" and "1 \<le> oi_sidno it"
  shows "owns_loop og t it = Some (\<exists>(s, n) \<in> set (og_rest og it). node_owner n = t)"
  using assms(2)
proof (induction "og_rest og it" arbitrary: it)
  case Nil
  then show ?case using og_rest_Nil [of og it] by (subst owns_loop.simps) simp
next
  case (Cons x xs)
  note c = og_rest_Cons [OF assms(1) Cons.prems Cons.hyps(2) [symmetric]]
  from Cons.hyps(1) [OF c(3) [symmetric] og_rest_next(2) [OF assms(1) Cons.prems]] show ?case
    unfolding Cons.hyps(2) [symmetric] c(3) using c by (subst owns_loop.simps) auto
qed

lemma gs_add_gtid_correct:
  assumes "gs_inv gs" and "1 \<le> n" and "n \<le> get_max_sidno gs" and "gno_ok g"
  obtains gs' where "gs_add_gtid n g gs = Some gs'" and "gs_inv gs'" and "gtids gs' = insert (n, g) (gtids gs)"
    and "get_max_sidno gs' = get_max_sidno gs" and "gs_sid_map gs' = gs_sid_map gs"
proof -
  let ?iv = "\<lparr>iv_start = g, iv_end = g + 1\<rparr>"
  have iv: "wf_ivs [?iv]" "gnos [?iv] = {g}" using assms(4) by (auto simp: iv_ok_def gno_ok_def)
  show thesis
  proof (rule add_gno_intervals_correct [OF assms(1-3) iv(1)])
    fix gs' assume "add_gno_intervals n [?iv] gs = Some gs'" "gs_inv gs'" "gtids gs' = gtids gs \<union> {n} \<times> gnos [?iv]"
      "get_max_sidno gs' = get_max_sidno gs" "gs_sid_map gs' = gs_sid_map gs"
    then show thesis unfolding iv(2) by (intro that [of gs']) (simp_all add: single_as_list(1))
  qed
qed

lemma get_gtids_loop_laws:
  assumes inv: "og_inv og" and "1 \<le> oi_sidno it" and "gs_inv gs" and "og_max_sidno og \<le> get_max_sidno gs"
    and "set (og_rest og it) \<subseteq> set (og_list og)"
  obtains gs' where "get_gtids_loop og it gs = Some gs'" and "gs_inv gs'"
    and "gtids gs' = gtids gs \<union> (\<lambda>(s, n). (s, node_gno n)) ` set (og_rest og it)"
    and "get_max_sidno gs' = get_max_sidno gs"
  using assms(2-)
proof (induction "og_rest og it" arbitrary: it gs thesis)
  case Nil
  then have "get_gtids_loop og it gs = Some gs" using og_rest_Nil [of og it] by (subst get_gtids_loop.simps) simp
  then show ?case using Nil.hyps [symmetric] Nil.prems by (intro Nil.prems(1) [of gs]) simp_all
next
  case (Cons x xs)
  note c = og_rest_Cons [OF inv Cons.prems(2) Cons.hyps(2) [symmetric]]
  have x: "snd x \<in># og_nodes og (fst x)" using Cons.prems(5) unfolding Cons.hyps(2) [symmetric] og_list_iff [symmetric] by auto
  have r: "1 \<le> fst x" "fst x \<le> get_max_sidno gs" using og_nodes_range [OF x] Cons.prems(4) by auto
  show ?case
  proof (rule gs_add_gtid_correct [OF Cons.prems(3) r og_nodes_gno [OF inv x]])
    fix gs1 assume a: "gs_add_gtid (fst x) (node_gno (snd x)) gs = Some gs1" "gs_inv gs1"
      "gtids gs1 = insert (fst x, node_gno (snd x)) (gtids gs)" "get_max_sidno gs1 = get_max_sidno gs"
    show ?case
    proof (rule Cons.hyps(1) [OF c(3) [symmetric], of gs1])
      show "1 \<le> oi_sidno (og_next og it)" by (rule og_rest_next(2) [OF inv Cons.prems(2)])
      show "set (og_rest og (og_next og it)) \<subseteq> set (og_list og)"
        using Cons.prems(5) unfolding c(3) Cons.hyps(2) [symmetric] by simp
      fix gs' assume g: "get_gtids_loop og (og_next og it) gs1 = Some gs'" "gs_inv gs'"
        "gtids gs' = gtids gs1 \<union> (\<lambda>(s, n). (s, node_gno n)) ` set (og_rest og (og_next og it))"
        "get_max_sidno gs' = get_max_sidno gs1"
      have "get_gtids_loop og it gs = Some gs'" using a(1) g(1) c(1,2) by (subst get_gtids_loop.simps) simp
      moreover have "gtids gs' = gtids gs \<union> (\<lambda>(s, n). (s, node_gno n)) ` set (og_rest og it)"
        unfolding g(3) a(3) c(3) Cons.hyps(2) [symmetric] by (cases x) auto
      ultimately show ?case using g a by (intro Cons.prems(1) [of gs']) simp_all
    qed (use a Cons.prems(4) in simp_all)
  qed
qed

text \<open>The three loops over all owned GTIDs.\<close>

lemma og_is_intersection_nonempty_laws:
  assumes "og_inv og" and "gs_inv other"
  shows "og_is_intersection_nonempty og other = Some (\<exists>s n. n \<in># og_nodes og s \<and> (s, node_gno n) \<in> gtids other)"
proof -
  have "contains_gtid other s (node_gno n) \<longleftrightarrow> (s, node_gno n) \<in> gtids other" if "n \<in># og_nodes og s" for s n
    using og_nodes_range [OF that] by (intro contains_gtid_iff [OF assms(2)]) simp
  then have "(\<exists>s n. n \<in># og_nodes og s \<and> contains_gtid other s (node_gno n)) \<longleftrightarrow>
      (\<exists>s n. n \<in># og_nodes og s \<and> (s, node_gno n) \<in> gtids other)" by blast
  then show ?thesis
    unfolding og_is_intersection_nonempty_def og_intersects_laws [OF assms(1) og_first_laws(2) [OF assms(1)]]
      og_first_laws(1) [OF assms(1)] Bex_og_list by simp
qed

lemma thread_owns_anything_laws:
  assumes "og_inv og"
  shows "thread_owns_anything og t = Some (\<exists>s n. n \<in># og_nodes og s \<and> node_owner n = t)"
  unfolding thread_owns_anything_def owns_loop_laws [OF assms og_first_laws(2) [OF assms]]
    og_first_laws(1) [OF assms] Bex_og_list ..

lemma og_get_gtids_laws:
  assumes "og_inv og" and "gs_inv gs" and "og_max_sidno og \<le> get_max_sidno gs"
  obtains gs' where "og_get_gtids og gs = Some gs'" and "gs_inv gs'"
    and "gtids gs' = gtids gs \<union> {(s, g). \<exists>n \<in># og_nodes og s. node_gno n = g}"
proof (rule get_gtids_loop_laws [OF assms(1) og_first_laws(2) [OF assms(1)] assms(2,3)])
  note f = og_first_laws(1) [OF assms(1)]
  show "set (og_rest og (og_first og)) \<subseteq> set (og_list og)" unfolding f ..
  fix gs' assume "get_gtids_loop og (og_first og) gs = Some gs'" "gs_inv gs'"
    "gtids gs' = gtids gs \<union> (\<lambda>(s, n). (s, node_gno n)) ` set (og_rest og (og_first og))"
  moreover have "(\<lambda>(s, n). (s, node_gno n)) ` set (og_list og) = {(s, g). \<exists>n \<in># og_nodes og s. node_gno n = g}"
    by (auto simp: og_list_iff [symmetric] image_iff intro!: bexI)
  ultimately show thesis unfolding f by (intro that [of gs']) (simp_all add: og_get_gtids_def)
qed

end
