(* ===== verification/Gtid_State_Laws.thy ===== *)
theory Gtid_State_Laws
  imports Gtid_State Owned_Gtids_Laws
begin

text \<open>
  The laws of the operations of \<open>Gtid_state\<close>: which number \<open>get_automatic_gno\<close> finds, what the start and
  the end of a transaction do to the sets and to the ownership, and what is done to the locks.
\<close>

section \<open>The next free number\<close>

definition owned_gno :: "owned_gtids \<Rightarrow> nat \<Rightarrow> int \<Rightarrow> bool" where
  "owned_gno og sidno gno \<longleftrightarrow> gno_nodes og sidno gno \<noteq> {#}"

lemma owned_gno_iff: "owned_gno og sidno gno \<longleftrightarrow> (\<exists>n \<in># og_nodes og sidno. node_gno n = gno)"
proof -
  have "gno_nodes og sidno gno = {#} \<longleftrightarrow> set_mset (gno_nodes og sidno gno) = {}" by simp
  then show ?thesis unfolding owned_gno_def by (auto simp: gno_nodes_def)
qed

text \<open>\<open>first_free used lo g\<close>: the first number from \<open>lo\<close> on that is not used, or -1 when there is none.\<close>

definition first_free :: "(int \<Rightarrow> bool) \<Rightarrow> int \<Rightarrow> int \<Rightarrow> bool" where
  "first_free used lo g \<longleftrightarrow>
     (if g = -1 then \<forall>x. lo \<le> x \<and> x < GNO_END \<longrightarrow> used x
      else lo \<le> g \<and> g < GNO_END \<and> \<not> used g \<and> (\<forall>x. lo \<le> x \<and> x < g \<longrightarrow> used x))"

lemma first_free_lower:
  assumes "first_free used lo g" and "\<And>x. lo' \<le> x \<Longrightarrow> x < lo \<Longrightarrow> used' x" and "lo' \<le> lo"
    and "\<And>x. lo \<le> x \<Longrightarrow> used' x \<longleftrightarrow> used x"
  shows "first_free used' lo' g"
  unfolding first_free_def
proof (cases "g = -1")
  case True
  have "used' x" if "lo' \<le> x" "x < GNO_END" for x
    using that assms True by (cases "x < lo") (auto simp: first_free_def)
  with True show "if g = -1 then \<forall>x. lo' \<le> x \<and> x < GNO_END \<longrightarrow> used' x
      else lo' \<le> g \<and> g < GNO_END \<and> \<not> used' g \<and> (\<forall>x. lo' \<le> x \<and> x < g \<longrightarrow> used' x)" by simp
next
  case False
  with assms(1) have g: "lo \<le> g" "g < GNO_END" "\<not> used g" "\<And>x. lo \<le> x \<Longrightarrow> x < g \<Longrightarrow> used x"
    by (auto simp: first_free_def)
  have "used' x" if "lo' \<le> x" "x < g" for x using that assms(2,4) g(4) by (cases "x < lo") auto
  with g assms(3,4) False show "if g = -1 then \<forall>x. lo' \<le> x \<and> x < GNO_END \<longrightarrow> used' x
      else lo' \<le> g \<and> g < GNO_END \<and> \<not> used' g \<and> (\<forall>x. lo' \<le> x \<and> x < g \<longrightarrow> used' x)" by auto
qed

lemma find_unowned_laws:
  assumes "og_inv og" and "1 \<le> sidno" "sidno \<le> og_max_sidno og" and "1 \<le> gno" and "limit \<le> GNO_END"
  shows "\<exists>found. find_unowned og sidno gno limit = Some found \<and>
    (case found of
       None \<Rightarrow> \<forall>x. gno \<le> x \<and> x < limit \<longrightarrow> owned_gno og sidno x
     | Some g \<Rightarrow> gno \<le> g \<and> g < limit \<and> \<not> owned_gno og sidno g \<and> (\<forall>x. gno \<le> x \<and> x < g \<longrightarrow> owned_gno og sidno x))"
  using assms
proof (induction og sidno gno limit rule: find_unowned.induct)
  case (1 og sidno gno limit)
  show ?case
  proof (cases "gno < limit")
    case False
    then show ?thesis by (subst find_unowned.simps) auto
  next
    case True
    then have g: "gno_ok gno" using "1.prems" by (simp add: gno_ok_def)
    have o: "is_owned_by og sidno gno 0 = Some (\<not> owned_gno og sidno gno)"
      using is_owned_by_laws [OF "1.prems"(1-3) g, of 0] by (simp add: owned_gno_def)
    show ?thesis
    proof (cases "owned_gno og sidno gno")
      case free: False
      with True o show ?thesis by (subst find_unowned.simps) auto
    next
      case own: True
      have "\<exists>found. find_unowned og sidno (gno + 1) limit = Some found \<and>
        (case found of
           None \<Rightarrow> \<forall>x. gno + 1 \<le> x \<and> x < limit \<longrightarrow> owned_gno og sidno x
         | Some g \<Rightarrow> gno + 1 \<le> g \<and> g < limit \<and> \<not> owned_gno og sidno g \<and>
             (\<forall>x. gno + 1 \<le> x \<and> x < g \<longrightarrow> owned_gno og sidno x))"
        using True o own "1.prems" by (intro "1.IH") auto
      then obtain found where f: "find_unowned og sidno (gno + 1) limit = Some found"
        "case found of
           None \<Rightarrow> \<forall>x. gno + 1 \<le> x \<and> x < limit \<longrightarrow> owned_gno og sidno x
         | Some g \<Rightarrow> gno + 1 \<le> g \<and> g < limit \<and> \<not> owned_gno og sidno g \<and>
             (\<forall>x. gno + 1 \<le> x \<and> x < g \<longrightarrow> owned_gno og sidno x)" by blast
      have step: "x = gno \<or> gno + 1 \<le> x" if "gno \<le> x" for x using that by linarith
      have "find_unowned og sidno gno limit = Some found" using True o own f(1) by (subst find_unowned.simps) simp
      moreover have "case found of
           None \<Rightarrow> \<forall>x. gno \<le> x \<and> x < limit \<longrightarrow> owned_gno og sidno x
         | Some g \<Rightarrow> gno \<le> g \<and> g < limit \<and> \<not> owned_gno og sidno g \<and>
             (\<forall>x. gno \<le> x \<and> x < g \<longrightarrow> owned_gno og sidno x)"
        using f(2) own step by (auto split: option.splits)
      ultimately show ?thesis by blast
    qed
  qed
qed

lemma automatic_gno_loop_laws:
  assumes inv: "og_inv og" and s: "1 \<le> sidno" "sidno \<le> og_max_sidno og" and "1 \<le> gno" and "wf_ivs ivs"
  shows "\<exists>g. automatic_gno_loop og sidno gno ivs = Some g \<and>
    first_free (\<lambda>x. x \<in> gnos ivs \<or> owned_gno og sidno x) gno g"
  using assms(4,5)
proof (induction ivs arbitrary: gno)
  case Nil
  obtain found where f: "find_unowned og sidno gno GNO_END = Some found"
    "case found of
       None \<Rightarrow> \<forall>x. gno \<le> x \<and> x < GNO_END \<longrightarrow> owned_gno og sidno x
     | Some g \<Rightarrow> gno \<le> g \<and> g < GNO_END \<and> \<not> owned_gno og sidno g \<and> (\<forall>x. gno \<le> x \<and> x < g \<longrightarrow> owned_gno og sidno x)"
    using find_unowned_laws [OF inv s Nil(1), of GNO_END] by auto
  then show ?case using Nil by (cases found) (auto simp: first_free_def)
next
  case (Cons iv ivs)
  have iv: "iv_start iv < iv_end iv" "iv_end iv \<le> GNO_END" "iv_start iv \<le> GNO_END" and wf: "wf_ivs ivs"
    and gap: "\<And>b. b \<in> set ivs \<Longrightarrow> iv_end iv < iv_start b"
    using Cons.prems(2) by (auto simp: iv_ok_def)
  have rest: "x \<notin> gnos ivs" if "x < iv_end iv" for x using that gap by (fastforce simp: gnos_iff)
  obtain found where f: "find_unowned og sidno gno (iv_start iv) = Some found"
    "case found of
       None \<Rightarrow> \<forall>x. gno \<le> x \<and> x < iv_start iv \<longrightarrow> owned_gno og sidno x
     | Some g \<Rightarrow> gno \<le> g \<and> g < iv_start iv \<and> \<not> owned_gno og sidno g \<and> (\<forall>x. gno \<le> x \<and> x < g \<longrightarrow> owned_gno og sidno x)"
    using find_unowned_laws [OF inv s Cons.prems(1) iv(3)] by auto
  show ?case
  proof (cases found)
    case (Some g)
    then have "first_free (\<lambda>x. x \<in> gnos (iv # ivs) \<or> owned_gno og sidno x) gno g"
      using f(2) iv rest [of g] Cons.prems(1) by (auto simp: first_free_def)
    with Some f(1) show ?thesis by simp
  next
    case None
    let ?c = "if max gno (iv_start iv) < iv_end iv then iv_end iv else max gno (iv_start iv)"
    have c: "1 \<le> ?c" "gno \<le> ?c" "iv_end iv \<le> ?c" using Cons.prems(1) iv by auto
    obtain g where g: "automatic_gno_loop og sidno ?c ivs = Some g"
        "first_free (\<lambda>x. x \<in> gnos ivs \<or> owned_gno og sidno x) ?c g" using Cons.IH [OF c(1) wf] by blast
    have "first_free (\<lambda>x. x \<in> gnos (iv # ivs) \<or> owned_gno og sidno x) gno g"
    proof (rule first_free_lower [OF g(2) _ c(2)])
      show "x \<in> gnos (iv # ivs) \<or> owned_gno og sidno x" if "gno \<le> x" "x < ?c" for x
        using that None f(2) by (cases "x < iv_start iv") (auto split: if_splits)
      show "(x \<in> gnos (iv # ivs) \<or> owned_gno og sidno x) \<longleftrightarrow> (x \<in> gnos ivs \<or> owned_gno og sidno x)" if "?c \<le> x" for x
        using that c(3) by auto
    qed
    with None f(1) g(1) show ?thesis by (auto simp: Let_def)
  qed
qed

section \<open>Well-formed states\<close>

definition n_sidnos :: "gtid_state \<Rightarrow> nat" where
  "n_sidnos st = sm_max_sidno (st_maps st 0)"

definition set_ok :: "nat \<Rightarrow> gtid_set \<Rightarrow> bool" where
  "set_ok n gs \<longleftrightarrow> gs_inv gs \<and> gs_sid_map gs = Some 0 \<and> get_max_sidno gs = n"

definition set_fits :: "nat \<Rightarrow> gtid_set \<Rightarrow> bool" where
  "set_fits n gs \<longleftrightarrow> gs_inv gs \<and> gs_sid_map gs = Some 0 \<and> get_max_sidno gs \<le> n"

text \<open>
  The state has room for every SIDNO of its map, in each of its arrays, and no SIDNO is marked between
  two group commits.
\<close>

definition st_ok :: "gtid_state \<Rightarrow> bool" where
  "st_ok st \<longleftrightarrow>
     sid_map_inv (st_maps st 0) \<and>
     set_ok (n_sidnos st) (lost_gtids st) \<and> set_ok (n_sidnos st) (executed_gtids st) \<and>
     set_ok (n_sidnos st) (gtids_only_in_table st) \<and> set_ok (n_sidnos st) (previous_gtids_logged st) \<and>
     og_inv (owned_gtids st) \<and> n_sidnos st \<le> og_max_sidno (owned_gtids st) \<and> n_sidnos st < n_sid_locks st \<and>
     n_sidnos st < length (commit_group_sidnos st) \<and> length (commit_group_sidnos st) \<le> n_sid_locks st \<and>
     1 \<le> server_sidno st \<and> server_sidno st \<le> n_sidnos st \<and> 1 \<le> next_free_gno st \<and> next_free_gno st \<le> GNO_END"

abbreviation nodes_of :: "gtid_state \<Rightarrow> nat \<Rightarrow> owned_node multiset" where
  "nodes_of st \<equiv> og_nodes (owned_gtids st)"

lemma n_sidnos_simps [simp]:
  "n_sidnos (st\<lparr>owned_gtids := og\<rparr>) = n_sidnos st" "n_sidnos (st\<lparr>executed_gtids := e\<rparr>) = n_sidnos st"
  "n_sidnos (st\<lparr>lost_gtids := l\<rparr>) = n_sidnos st" "n_sidnos (st\<lparr>gtids_only_in_table := o1\<rparr>) = n_sidnos st"
  "n_sidnos (st\<lparr>previous_gtids_logged := p\<rparr>) = n_sidnos st" "n_sidnos (st\<lparr>next_free_gno := g\<rparr>) = n_sidnos st"
  "n_sidnos (st\<lparr>sidno_trace := tr\<rparr>) = n_sidnos st" "n_sidnos (st\<lparr>anonymous_gtid_count := c\<rparr>) = n_sidnos st"
  "n_sidnos (st\<lparr>commit_group_sidnos := fl\<rparr>) = n_sidnos st" "n_sidnos (st\<lparr>n_sid_locks := k\<rparr>) = n_sidnos st"
  "n_sidnos (st\<lparr>automatic_gtid_violation_count := c\<rparr>) = n_sidnos st"
  "n_sidnos (st\<lparr>anonymous_gtid_violation_count := c\<rparr>) = n_sidnos st"
  by (simp_all add: n_sidnos_def)

text \<open>What a change of ownership, sets, next number, trace or counters leaves alone.\<close>

definition st_frame :: "gtid_state \<Rightarrow> gtid_state \<Rightarrow> bool" where
  "st_frame st st' \<longleftrightarrow>
     st_maps st' = st_maps st \<and> n_sid_locks st' = n_sid_locks st \<and> server_sidno st' = server_sidno st \<and>
     commit_group_sidnos st' = commit_group_sidnos st \<and> previous_gtids_logged st' = previous_gtids_logged st"

lemma st_frame_refl [simp]: "st_frame st st"
  by (simp add: st_frame_def)

lemma st_frame_trans: "st_frame a b \<Longrightarrow> st_frame b c \<Longrightarrow> st_frame a c"
  by (simp add: st_frame_def)

lemma st_frame_n: "st_frame st st' \<Longrightarrow> n_sidnos st' = n_sidnos st"
  by (simp add: st_frame_def n_sidnos_def)

section \<open>Locks\<close>

lemma sidno_event_ok: "sidno < n_sid_locks st \<Longrightarrow>
    sidno_event ev sidno st = Some (st\<lparr>sidno_trace := sidno_trace st @ [ev sidno]\<rparr>)"
  by (simp add: sidno_event_def)

lemma lock_ok:
  assumes "sidno < n_sid_locks st"
  shows "lock_sidno sidno st = Some (st\<lparr>sidno_trace := sidno_trace st @ [Lock_sidno sidno]\<rparr>)"
    and "unlock_sidno sidno st = Some (st\<lparr>sidno_trace := sidno_trace st @ [Unlock_sidno sidno]\<rparr>)"
    and "broadcast_sidno sidno st = Some (st\<lparr>sidno_trace := sidno_trace st @ [Broadcast_sidno sidno]\<rparr>)"
  using assms by (simp_all add: lock_sidno_def unlock_sidno_def broadcast_sidno_def sidno_event_ok)

lemma each_sidno_event:
  "\<forall>n \<in> set ns. n < n_sid_locks st \<Longrightarrow>
     each_sidno (sidno_event ev) ns st = Some (st\<lparr>sidno_trace := sidno_trace st @ map ev ns\<rparr>)"
  by (induction ns arbitrary: st) (auto simp: sidno_event_ok)

lemma st_ok_trace [simp]: "st_ok (st\<lparr>sidno_trace := tr\<rparr>) \<longleftrightarrow> st_ok st"
  by (simp add: st_ok_def)

lemma st_ok_locks: "st_ok st \<Longrightarrow> s \<le> n_sidnos st \<Longrightarrow> s < n_sid_locks st"
  by (simp add: st_ok_def)

section \<open>Ownership\<close>

lemma st_ok_og: "st_ok st \<Longrightarrow> s \<le> n_sidnos st \<Longrightarrow> og_inv (owned_gtids st) \<and> s \<le> og_max_sidno (owned_gtids st)"
  by (auto simp: st_ok_def)

lemma st_ok_owned:
  "st_ok st \<Longrightarrow> og_inv og \<Longrightarrow> og_max_sidno og = og_max_sidno (owned_gtids st) \<Longrightarrow> st_ok (st\<lparr>owned_gtids := og\<rparr>)"
  by (simp add: st_ok_def)

lemma is_owned_laws:
  assumes "st_ok st" and "1 \<le> s" "s \<le> n_sidnos st" and "gno_ok g"
  shows "is_owned st s g = Some (owned_gno (owned_gtids st) s g)"
  using is_owned_by_laws [of "owned_gtids st" s g 0] st_ok_og [OF assms(1,3)] assms(2,4)
  by (simp add: is_owned_def owned_gno_def)

lemma is_executed_laws:
  assumes "st_ok st" and "1 \<le> s"
  shows "is_executed st s g \<longleftrightarrow> (s, g) \<in> gtids (executed_gtids st)"
  using assms contains_gtid_iff [of "executed_gtids st" s g] by (simp add: is_executed_def st_ok_def set_ok_def)

definition own_session :: "gtid_state \<Rightarrow> nat \<Rightarrow> int \<Rightarrow> thd \<Rightarrow> thd" where
  "own_session st s g t = t\<lparr>owned_gtid := (int s, g), owned_sid := sidno_to_sid (st_maps st 0) s\<rparr>"

text \<open>With memory the session owns the GTID, without memory it owns nothing and the table is as before.\<close>

lemma acquire_ownership_laws:
  assumes "st_ok st" and "1 \<le> s" "s \<le> n_sidnos st" and "gno_ok g"
  obtains og where "acquire_ownership env s g (t, st) =
      Some (if node_ok env \<and> cell_ok env
            then (RETURN_STATUS_OK, own_session st s g t, st\<lparr>owned_gtids := og\<rparr>)
            else (RETURN_STATUS_REPORTED_ERROR, clear_owned_gtids t, st\<lparr>owned_gtids := og\<rparr>))"
    and "og_inv og" and "og_max_sidno og = og_max_sidno (owned_gtids st)"
    and "og_nodes og = (if node_ok env \<and> cell_ok env
      then (nodes_of st)(s := add_mset (owner_node g (thread_id t)) (nodes_of st s)) else nodes_of st)"
proof -
  have o: "og_inv (owned_gtids st)" "s \<le> og_max_sidno (owned_gtids st)" using st_ok_og [OF assms(1,3)] by auto
  show thesis
  proof (rule add_gtid_owner_laws [OF o(1) assms(2) o(2) assms(4), of env "thread_id t"])
    fix og assume a: "add_gtid_owner env s g (thread_id t) (owned_gtids st) =
        Some (if node_ok env \<and> cell_ok env then RETURN_STATUS_OK else RETURN_STATUS_REPORTED_ERROR, og)"
      "og_inv og" "og_max_sidno og = og_max_sidno (owned_gtids st)"
      "og_nodes og = (if node_ok env \<and> cell_ok env
         then (nodes_of st)(s := add_mset (owner_node g (thread_id t)) (nodes_of st s)) else nodes_of st)"
    show thesis
      by (rule that [OF _ a(2-4)]) (simp add: acquire_ownership_def a(1) own_session_def Let_def)
  qed
qed

section \<open>New GTIDs\<close>

abbreviation used_gno :: "gtid_state \<Rightarrow> nat \<Rightarrow> int \<Rightarrow> bool" where
  "used_gno st s x \<equiv> (s, x) \<in> gtids (executed_gtids st) \<or> owned_gno (owned_gtids st) s x"

definition first_candidate :: "gtid_state \<Rightarrow> nat \<Rightarrow> int" where
  "first_candidate st s = (if s = server_sidno st then next_free_gno st else 1)"

lemma first_candidate_trace [simp]: "first_candidate (st\<lparr>sidno_trace := tr\<rparr>) s = first_candidate st s"
  by (simp add: first_candidate_def)

lemma get_automatic_gno_laws:
  assumes "st_ok st" and s: "1 \<le> s" "s \<le> n_sidnos st"
  shows "\<exists>g. get_automatic_gno st s = Some g \<and> first_free (used_gno st s) (first_candidate st s) g"
proof -
  let ?e = "executed_gtids st" and ?lo = "first_candidate st s"
  have e: "gs_inv ?e" "get_max_sidno ?e = n_sidnos st" "1 \<le> ?lo"
    using assms(1) by (auto simp: st_ok_def set_ok_def first_candidate_def)
  have n: "n_sidnos st \<le> og_max_sidno (owned_gtids st)" "og_inv (owned_gtids st)" using assms(1) by (auto simp: st_ok_def)
  have at: "ivs_at ?e s = Some (m_intervals ?e ! (s - 1))" using s e(2) by simp
  have in_e: "x \<in> gnos (m_intervals ?e ! (s - 1)) \<longleftrightarrow> (s, x) \<in> gtids ?e" for x using s e(2) by (simp add: gtids_iff)
  obtain g where "automatic_gno_loop (owned_gtids st) s ?lo (m_intervals ?e ! (s - 1)) = Some g"
      "first_free (used_gno st s) ?lo g"
    using automatic_gno_loop_laws [OF n(2) s(1) order_trans [OF s(2) n(1)] e(3) gs_inv_wf [OF e(1) s(1)]] s(2) e(2)
    unfolding in_e by auto
  with at show ?thesis by (auto simp: get_automatic_gno_def first_candidate_def)
qed

definition automatic_sidno :: "gtid_state \<Rightarrow> nat \<Rightarrow> nat" where
  "automatic_sidno st specified = (if specified = 0 then server_sidno st else specified)"

lemma automatic_sidno_range:
  "st_ok st \<Longrightarrow> specified \<le> n_sidnos st \<Longrightarrow> 1 \<le> automatic_sidno st specified \<and> automatic_sidno st specified \<le> n_sidnos st"
  by (auto simp: automatic_sidno_def st_ok_def)

text \<open>What is done to the locks; without a pointer to a locked SIDNO the lock is released at the end.\<close>

definition automatic_events :: "nat \<Rightarrow> nat option \<Rightarrow> lock_event list" where
  "automatic_events s locked =
     (case locked of
        None \<Rightarrow> [Lock_sidno s, Unlock_sidno s]
      | Some n \<Rightarrow> if n = s then [] else (if n = 0 then [] else [Unlock_sidno n]) @ [Lock_sidno s])"

lemma lock_automatic_sidno_laws:
  assumes "s < n_sid_locks st" and "case locked of None \<Rightarrow> True | Some n \<Rightarrow> n < n_sid_locks st"
  obtains tr where "lock_automatic_sidno s locked st = Some (map_option (\<lambda>_. s) locked, st\<lparr>sidno_trace := tr\<rparr>)"
    and "tr @ (if locked = None then [Unlock_sidno s] else []) = sidno_trace st @ automatic_events s locked"
proof (rule that)
  let ?tr = "sidno_trace st @ (if locked = None then [Lock_sidno s] else automatic_events s locked)"
  show "?tr @ (if locked = None then [Unlock_sidno s] else []) = sidno_trace st @ automatic_events s locked"
    by (simp add: automatic_events_def)
  show "lock_automatic_sidno s locked st = Some (map_option (\<lambda>_. s) locked, st\<lparr>sidno_trace := ?tr\<rparr>)"
  proof (cases locked)
    case None
    then show ?thesis using assms(1) by (simp add: lock_automatic_sidno_def lock_ok)
  next
    case (Some n)
    then show ?thesis using assms
      by (cases "n = s"; cases "n = 0") (simp_all add: lock_automatic_sidno_def automatic_events_def lock_ok)
  qed
qed

text \<open>
  Taking a number that is known to be used or not, as \<open>generate_automatic_gtid\<close> does with the number that the
  context of the transaction gives: nothing is checked.
\<close>

lemma generate_specified_gtid_laws:
  assumes st: "st_ok st" and spec: "specified \<le> n_sidnos st" and on: "mode_on mode" and g: "gno_ok g"
    and loc: "case locked of None \<Rightarrow> True | Some n \<Rightarrow> n < n_sid_locks st"
  defines "s \<equiv> automatic_sidno st specified"
  obtains og where "generate_automatic_gtid env mode specified g locked (t, st) =
      Some (RETURN_STATUS_OK,
            (if node_ok env \<and> cell_ok env then own_session st s g t else clear_owned_gtids t,
             st\<lparr>owned_gtids := og, sidno_trace := sidno_trace st @ automatic_events s locked\<rparr>),
            map_option (\<lambda>_. s) locked)"
    and "og_inv og" and "og_max_sidno og = og_max_sidno (owned_gtids st)"
    and "og_nodes og = (if node_ok env \<and> cell_ok env
      then (nodes_of st)(s := add_mset (owner_node g (thread_id t)) (nodes_of st s)) else nodes_of st)"
proof -
  have s: "1 \<le> s" "s \<le> n_sidnos st" using automatic_sidno_range [OF st spec] by (auto simp: s_def)
  obtain tr where tr: "lock_automatic_sidno s locked st = Some (map_option (\<lambda>_. s) locked, st\<lparr>sidno_trace := tr\<rparr>)"
      "tr @ (if locked = None then [Unlock_sidno s] else []) = sidno_trace st @ automatic_events s locked"
    by (rule lock_automatic_sidno_laws [OF st_ok_locks [OF st s(2)] loc])
  let ?st1 = "st\<lparr>sidno_trace := tr\<rparr>"
  have sd: "(if specified = 0 then server_sidno st else specified) = s" by (simp add: s_def automatic_sidno_def)
  have g0: "g \<noteq> 0" "g \<noteq> -1" using g by (auto simp: gno_ok_def)
  have gen: "generate_automatic_gtid env mode specified g locked (t, st) = do {
      (_, t3, st3) \<leftarrow> acquire_ownership env s g (t, ?st1);
      st4 \<leftarrow> (if locked = None then unlock_sidno s st3 else Some st3);
      Some (RETURN_STATUS_OK, (t3, st4), map_option (\<lambda>_. s) locked) }"
    unfolding generate_automatic_gtid_def Let_def prod.case sd
    by (cases "acquire_ownership env s g (t, ?st1)") (simp_all add: on tr(1) g0 split: prod.splits)
  have unl: "(if locked = None then unlock_sidno s st3 else Some st3) =
      Some (st3\<lparr>sidno_trace := sidno_trace st @ automatic_events s locked\<rparr>)"
    if "sidno_trace st3 = tr" "n_sid_locks st3 = n_sid_locks st" for st3
    using that tr(2) st_ok_locks [OF st s(2)] by (cases locked; cases st3) (simp_all add: lock_ok)
  show thesis
  proof (rule acquire_ownership_laws [of ?st1 s g env t])
    fix og assume a: "acquire_ownership env s g (t, ?st1) =
        Some (if node_ok env \<and> cell_ok env
              then (RETURN_STATUS_OK, own_session ?st1 s g t, ?st1\<lparr>owned_gtids := og\<rparr>)
              else (RETURN_STATUS_REPORTED_ERROR, clear_owned_gtids t, ?st1\<lparr>owned_gtids := og\<rparr>))"
      "og_inv og" "og_max_sidno og = og_max_sidno (owned_gtids ?st1)"
      "og_nodes og = (if node_ok env \<and> cell_ok env
        then (nodes_of ?st1)(s := add_mset (owner_node g (thread_id t)) (nodes_of ?st1 s)) else nodes_of ?st1)"
    have same: "own_session ?st1 s g t = own_session st s g t" by (simp add: own_session_def)
    show thesis
    proof (rule that [of og])
      show "generate_automatic_gtid env mode specified g locked (t, st) =
        Some (RETURN_STATUS_OK, (if node_ok env \<and> cell_ok env then own_session st s g t else clear_owned_gtids t,
          st\<lparr>owned_gtids := og, sidno_trace := sidno_trace st @ automatic_events s locked\<rparr>), map_option (\<lambda>_. s) locked)"
        unfolding gen a(1) same by (cases "node_ok env"; cases "cell_ok env") (simp_all add: unl)
    qed (use a in simp_all)
  qed (use st s g in \<open>simp_all add: st_ok_def\<close>)
qed

text \<open>
  A session that asks for an automatic GTID gets the first free number, or an error when there is
  none. When there is no memory for the owner, the session gets success and owns nothing.
\<close>

lemma generate_automatic_gtid_laws:
  assumes st: "st_ok st" and spec: "specified \<le> n_sidnos st" and on: "mode_on mode"
    and loc: "case locked of None \<Rightarrow> True | Some n \<Rightarrow> n < n_sid_locks st"
  defines "s \<equiv> automatic_sidno st specified"
  obtains g og where "first_free (used_gno st s) (first_candidate st s) g"
    and "generate_automatic_gtid env mode specified 0 locked (t, st) =
      Some (if g = -1 then RETURN_STATUS_REPORTED_ERROR else RETURN_STATUS_OK,
            (if g = -1 then t else if node_ok env \<and> cell_ok env then own_session st s g t else clear_owned_gtids t,
             st\<lparr>owned_gtids := og, next_free_gno := if g \<noteq> -1 \<and> s = server_sidno st then g + 1 else next_free_gno st,
                sidno_trace := sidno_trace st @ automatic_events s locked\<rparr>),
            map_option (\<lambda>_. s) locked)"
    and "og_inv og" and "og_max_sidno og = og_max_sidno (owned_gtids st)"
    and "og_nodes og = (if g \<noteq> -1 \<and> node_ok env \<and> cell_ok env
      then (nodes_of st)(s := add_mset (owner_node g (thread_id t)) (nodes_of st s)) else nodes_of st)"
proof -
  have s: "1 \<le> s" "s \<le> n_sidnos st" using automatic_sidno_range [OF st spec] by (auto simp: s_def)
  obtain tr where tr: "lock_automatic_sidno s locked st = Some (map_option (\<lambda>_. s) locked, st\<lparr>sidno_trace := tr\<rparr>)"
      "tr @ (if locked = None then [Unlock_sidno s] else []) = sidno_trace st @ automatic_events s locked"
    by (rule lock_automatic_sidno_laws [OF st_ok_locks [OF st s(2)] loc])
  let ?st1 = "st\<lparr>sidno_trace := tr\<rparr>"
  obtain g where g: "get_automatic_gno ?st1 s = Some g" "first_free (used_gno st s) (first_candidate st s) g"
    using get_automatic_gno_laws [of ?st1 s] st s by auto
  let ?st2 = "if s = server_sidno st \<and> g \<noteq> -1 then ?st1\<lparr>next_free_gno := g + 1\<rparr> else ?st1"
  have fr: "1 \<le> first_candidate st s" using st by (auto simp: first_candidate_def st_ok_def)
  have sd: "(if specified = 0 then server_sidno st else specified) = s" by (simp add: s_def automatic_sidno_def)
  have gen: "generate_automatic_gtid env mode specified 0 locked (t, st) = do {
      (status, t3, st3) \<leftarrow>
        (if g \<noteq> -1 then do {
           (_, t3, st3) \<leftarrow> acquire_ownership env s g (t, ?st2);
           Some (RETURN_STATUS_OK, t3, st3) }
         else Some (RETURN_STATUS_REPORTED_ERROR, t, ?st2));
      st4 \<leftarrow> (if locked = None then unlock_sidno s st3 else Some st3);
      Some (status, (t3, st4), map_option (\<lambda>_. s) locked) }"
    unfolding generate_automatic_gtid_def Let_def prod.case sd by (simp add: on tr(1) g(1))
  have unl: "(if locked = None then unlock_sidno s st3 else Some st3) =
      Some (st3\<lparr>sidno_trace := sidno_trace st @ automatic_events s locked\<rparr>)"
    if "sidno_trace st3 = tr" "n_sid_locks st3 = n_sid_locks st" for st3
  proof (cases locked)
    case None
    with that tr(2) st_ok_locks [OF st s(2)] show ?thesis by (simp add: lock_ok)
  next
    case (Some n)
    with that(1) tr(2) show ?thesis by (cases st3) simp
  qed
  show thesis
  proof (cases "g = -1")
    case True
    show thesis
    proof (rule that [OF g(2)])
      show "generate_automatic_gtid env mode specified 0 locked (t, st) =
        Some (if g = -1 then RETURN_STATUS_REPORTED_ERROR else RETURN_STATUS_OK,
              (if g = -1 then t else if node_ok env \<and> cell_ok env then own_session st s g t else clear_owned_gtids t,
               st\<lparr>owned_gtids := owned_gtids st, next_free_gno := if g \<noteq> -1 \<and> s = server_sidno st then g + 1 else next_free_gno st,
                  sidno_trace := sidno_trace st @ automatic_events s locked\<rparr>),
              map_option (\<lambda>_. s) locked)"
        unfolding gen by (simp add: True unl)
    qed (use st True in \<open>simp_all add: st_ok_def\<close>)
  next
    case False
    then have ok: "gno_ok g" using g(2) fr by (auto simp: first_free_def gno_ok_def)
    then have st2: "st_ok ?st2" using st by (auto simp: st_ok_def gno_ok_def)
    show thesis
    proof (rule acquire_ownership_laws [OF st2 s(1) _ ok, of env t])
      show "s \<le> n_sidnos ?st2" using s(2) by simp
      fix og assume a: "acquire_ownership env s g (t, ?st2) =
          Some (if node_ok env \<and> cell_ok env
                then (RETURN_STATUS_OK, own_session ?st2 s g t, ?st2\<lparr>owned_gtids := og\<rparr>)
                else (RETURN_STATUS_REPORTED_ERROR, clear_owned_gtids t, ?st2\<lparr>owned_gtids := og\<rparr>))"
        "og_inv og" "og_max_sidno og = og_max_sidno (owned_gtids ?st2)"
        "og_nodes og = (if node_ok env \<and> cell_ok env
          then (nodes_of ?st2)(s := add_mset (owner_node g (thread_id t)) (nodes_of ?st2 s)) else nodes_of ?st2)"
      have same: "owned_gtids ?st2 = owned_gtids st" "own_session ?st2 s g t = own_session st s g t"
        by (simp_all add: own_session_def)
      show thesis
      proof (rule that [OF g(2)])
        show "generate_automatic_gtid env mode specified 0 locked (t, st) =
          Some (if g = -1 then RETURN_STATUS_REPORTED_ERROR else RETURN_STATUS_OK,
                (if g = -1 then t else if node_ok env \<and> cell_ok env then own_session st s g t else clear_owned_gtids t,
                 st\<lparr>owned_gtids := og, next_free_gno := if g \<noteq> -1 \<and> s = server_sidno st then g + 1 else next_free_gno st,
                    sidno_trace := sidno_trace st @ automatic_events s locked\<rparr>),
                map_option (\<lambda>_. s) locked)"
          unfolding gen a(1) same using False
          by (cases "s = server_sidno st"; cases "node_ok env"; cases "cell_ok env") (simp_all add: unl)
      qed (use a False in \<open>simp_all add: same\<close>)
    qed
  qed
qed

end
