(* ===== verification/Gtid_Commit_Laws.thy ===== *)
theory Gtid_Commit_Laws
  imports Gtid_State_Laws
begin

text \<open>
  What the end of a transaction does to the GTID state: commit and rollback of a session that owns a
  GTID, of an anonymous session and of one that owns nothing, and the commit of a group of sessions.
\<close>

section \<open>A session that owns a GTID\<close>

definition released :: "thd \<Rightarrow> thd" where
  "released t =
     (if spec_type (gtid_next t) = GTID_GROUP then spec_set_type UNDEFINED_GROUP (clear_owned_gtids t)
      else clear_owned_gtids t)"

lemma released_simps [simp]:
  "owned_gtid (released t) = (0, 0)" "thread_id (released t) = thread_id t"
  "has_gtid_consistency_violation (released t) = has_gtid_consistency_violation t"
  by (simp_all add: released_def clear_owned_gtids_def spec_set_type_def)

text \<open>A replica that does not log what it applies: its GTIDs are in the table only.\<close>

definition unlogged :: "end_env \<Rightarrow> thd \<Rightarrow> bool" where
  "unlogged env t \<longleftrightarrow> slave_thread t \<and> opt_bin_log env \<and> \<not> opt_log_slave_updates env"

definition counters_same :: "gtid_state \<Rightarrow> gtid_state \<Rightarrow> bool" where
  "counters_same st st' \<longleftrightarrow>
     anonymous_gtid_count st' = anonymous_gtid_count st \<and> gtid_wait_count st' = gtid_wait_count st \<and>
     automatic_gtid_violation_count st' = automatic_gtid_violation_count st \<and>
     anonymous_gtid_violation_count st' = anonymous_gtid_violation_count st"

text \<open>The effect on the state of the end of a transaction that owns the GTID \<open>(s, g)\<close>.\<close>

definition end_effect :: "end_env \<Rightarrow> bool \<Rightarrow> nat \<Rightarrow> int \<Rightarrow> thd \<Rightarrow> gtid_state \<Rightarrow> gtid_state \<Rightarrow> bool" where
  "end_effect env is_commit s g t st st' \<longleftrightarrow>
     st_frame st st' \<and> counters_same st st' \<and>
     nodes_of st' = (nodes_of st)(s := nodes_of st s - {#owner_node g (thread_id t)#}) \<and>
     gtids (executed_gtids st') = gtids (executed_gtids st) \<union> (if is_commit then {(s, g)} else {}) \<and>
     gtids (lost_gtids st') = gtids (lost_gtids st) \<union> (if is_commit \<and> unlogged env t then {(s, g)} else {}) \<and>
     gtids (gtids_only_in_table st') =
       gtids (gtids_only_in_table st) \<union> (if is_commit \<and> unlogged env t then {(s, g)} else {}) \<and>
     next_free_gno st' = (if \<not> is_commit \<and> s = server_sidno st \<and> g < next_free_gno st then g else next_free_gno st)"

lemma set_ok_add:
  assumes "set_ok n gs" and "1 \<le> s" "s \<le> n" and "gno_ok g"
  obtains gs' where "gs_add_gtid s g gs = Some gs'" and "set_ok n gs'" and "gtids gs' = gtids gs \<union> {(s, g)}"
proof (rule gs_add_gtid_correct [of gs s g])
  show "gs_inv gs" "1 \<le> s" "s \<le> get_max_sidno gs" "gno_ok g" using assms by (auto simp: set_ok_def)
  fix gs' assume a: "gs_add_gtid s g gs = Some gs'" "gs_inv gs'" "gtids gs' = insert (s, g) (gtids gs)"
    "get_max_sidno gs' = get_max_sidno gs" "gs_sid_map gs' = gs_sid_map gs"
  show thesis by (rule that [OF a(1)]) (use a assms(1) in \<open>auto simp: set_ok_def\<close>)
qed

lemma st_ok_sets:
  assumes "st_ok st"
  shows "set_ok (n_sidnos st) (lost_gtids st)" "set_ok (n_sidnos st) (executed_gtids st)"
    "set_ok (n_sidnos st) (gtids_only_in_table st)" "set_ok (n_sidnos st) (previous_gtids_logged st)"
  using assms by (simp_all add: st_ok_def)

lemma st_ok_new_sets:
  "st_ok st \<Longrightarrow> set_ok (n_sidnos st) e \<Longrightarrow> st_ok (st\<lparr>executed_gtids := e\<rparr>)"
  "st_ok st \<Longrightarrow> set_ok (n_sidnos st) l \<Longrightarrow> st_ok (st\<lparr>lost_gtids := l\<rparr>)"
  "st_ok st \<Longrightarrow> set_ok (n_sidnos st) o1 \<Longrightarrow> st_ok (st\<lparr>gtids_only_in_table := o1\<rparr>)"
  by (simp_all add: st_ok_def)

lemma commit_gtid_laws:
  assumes st: "st_ok st" and own: "owned_gtid t = (int s, g)" and s: "1 \<le> s" "s \<le> n_sidnos st" and g: "gno_ok g"
  obtains e l o1 where "commit_gtid env t st =
      Some (st\<lparr>executed_gtids := e, lost_gtids := l, gtids_only_in_table := o1\<rparr>)"
    and "set_ok (n_sidnos st) e" and "set_ok (n_sidnos st) l" and "set_ok (n_sidnos st) o1"
    and "gtids e = gtids (executed_gtids st) \<union> {(s, g)}"
    and "gtids l = gtids (lost_gtids st) \<union> (if unlogged env t then {(s, g)} else {})"
    and "gtids o1 = gtids (gtids_only_in_table st) \<union> (if unlogged env t then {(s, g)} else {})"
proof -
  obtain e where e: "gs_add_gtid s g (executed_gtids st) = Some e" "set_ok (n_sidnos st) e"
      "gtids e = gtids (executed_gtids st) \<union> {(s, g)}" by (rule set_ok_add [OF st_ok_sets(2) [OF st] s g])
  obtain l where l: "gs_add_gtid s g (lost_gtids st) = Some l" "set_ok (n_sidnos st) l"
      "gtids l = gtids (lost_gtids st) \<union> {(s, g)}" by (rule set_ok_add [OF st_ok_sets(1) [OF st] s g])
  obtain o1 where o1: "gs_add_gtid s g (gtids_only_in_table st) = Some o1" "set_ok (n_sidnos st) o1"
      "gtids o1 = gtids (gtids_only_in_table st) \<union> {(s, g)}" by (rule set_ok_add [OF st_ok_sets(3) [OF st] s g])
  show thesis
  proof (cases "unlogged env t")
    case True
    have "commit_gtid env t st = Some (st\<lparr>executed_gtids := e, lost_gtids := l, gtids_only_in_table := o1\<rparr>)"
      using True e(1) l(1) o1(1) own by (simp add: commit_gtid_def unlogged_def)
    then show thesis by (rule that) (use True e l o1 in simp_all)
  next
    case False
    have "commit_gtid env t st =
        Some (st\<lparr>executed_gtids := e, lost_gtids := lost_gtids st, gtids_only_in_table := gtids_only_in_table st\<rparr>)"
      using False e(1) own by (auto simp: commit_gtid_def unlogged_def)
    then show thesis by (rule that) (use False e st_ok_sets [OF st] in simp_all)
  qed
qed

lemma own_gtid_laws:
  assumes st: "st_ok st" and own: "owned_gtid t = (int s, g)" and s: "1 \<le> s" "s \<le> n_sidnos st" and g: "gno_ok g"
    and nodes: "\<forall>n \<in># gno_nodes (owned_gtids st) s g. node_owner n = thread_id t"
  obtains st' where "update_gtids_impl_own_gtid env is_commit (t, st) = Some (released t, st')"
    and "st_ok st'" and "end_effect env is_commit s g t st st'" and "sidno_trace st' = sidno_trace st"
proof -
  have o: "og_inv (owned_gtids st)" "s \<le> og_max_sidno (owned_gtids st)" using st_ok_og [OF st s(2)] by auto
  obtain og where og: "og_remove_gtid (search_state env t) s g (thread_id t) (owned_gtids st) = Some og" "og_inv og"
      "og_max_sidno og = og_max_sidno (owned_gtids st)"
      "og_nodes og = (nodes_of st)(s := nodes_of st s - {#owner_node g (thread_id t)#})"
    by (rule og_remove_gtid_laws [OF o(1) s(1) o(2) g nodes])
  let ?st1 = "st\<lparr>owned_gtids := og\<rparr>"
  have st1: "st_ok ?st1" by (rule st_ok_owned [OF st og(2,3)])
  have rel: "(if spec_type (gtid_next (clear_owned_gtids t)) = GTID_GROUP
      then spec_set_type UNDEFINED_GROUP (clear_owned_gtids t) else clear_owned_gtids t) = released t"
    by (simp add: released_def clear_owned_gtids_def)
  show thesis
  proof (cases is_commit)
    case True
    show thesis
    proof (rule commit_gtid_laws [OF st1 own s(1) _ g, of env])
      show "s \<le> n_sidnos ?st1" using s(2) by simp
      fix e l o1 assume c: "commit_gtid env t ?st1 = Some (?st1\<lparr>executed_gtids := e, lost_gtids := l, gtids_only_in_table := o1\<rparr>)"
        "set_ok (n_sidnos ?st1) e" "set_ok (n_sidnos ?st1) l" "set_ok (n_sidnos ?st1) o1"
        "gtids e = gtids (executed_gtids ?st1) \<union> {(s, g)}"
        "gtids l = gtids (lost_gtids ?st1) \<union> (if unlogged env t then {(s, g)} else {})"
        "gtids o1 = gtids (gtids_only_in_table ?st1) \<union> (if unlogged env t then {(s, g)} else {})"
      let ?st' = "?st1\<lparr>executed_gtids := e, lost_gtids := l, gtids_only_in_table := o1\<rparr>"
      show thesis
      proof (rule that [of ?st'])
        show "update_gtids_impl_own_gtid env is_commit (t, st) = Some (released t, ?st')"
          using True own og(1) c(1) by (simp add: update_gtids_impl_own_gtid_def rel)
        show "st_ok ?st'" using st1 c(2-4) by (simp add: st_ok_def)
        show "end_effect env is_commit s g t st ?st'"
          using True og(4) c(5-7) by (simp add: end_effect_def st_frame_def counters_same_def)
      qed simp
    qed
  next
    case False
    let ?st' = "rollback_gtid t ?st1"
    show thesis
    proof (rule that [of ?st'])
      show "update_gtids_impl_own_gtid env is_commit (t, st) = Some (released t, ?st')"
        using False own og(1) by (simp add: update_gtids_impl_own_gtid_def rel)
      show "st_ok ?st'" using st1 own g by (auto simp: rollback_gtid_def st_ok_def gno_ok_def)
      show "end_effect env is_commit s g t st ?st'"
        using False og(4) own by (auto simp: end_effect_def st_frame_def counters_same_def rollback_gtid_def)
      show "sidno_trace ?st' = sidno_trace st" using own by (simp add: rollback_gtid_def)
    qed
  qed
qed

end
