(* ===== verification/Gtid_Execution.thy ===== *)
theory Gtid_Execution
  imports Gtid_State
begin

text \<open>
  Where sessions meet the GTID state: \<open>set_gtid_next\<close> and the checks before a statement, of
  \<^verbatim>\<open>sql/rpl_gtid_execution.cc\<close>, and \<open>wait_for_gtid_set\<close> of \<^verbatim>\<open>sql/rpl_gtid_state.cc\<close>. While a session waits
  for a condition the other sessions change the state: what they do during the \<open>i\<close>-th wait is an
  argument. A result \<open>None\<close> says that a loop does not end or that the code would use memory it must not use.
\<close>

section \<open>Setting GTID_NEXT\<close>

datatype gtid_next_error =
  ER_CANT_SET_GTID_NEXT_WHEN_OWNING_GTID
| ER_CANT_SET_GTID_NEXT_TO_ANONYMOUS_WHEN_GTID_MODE_IS_ON
| ER_CANT_SET_GTID_NEXT_TO_GTID_WHEN_GTID_MODE_IS_OFF
| Wait_interrupted

text \<open>
  What one iteration of the loop for a GTID ends with: the function returns an error or success, or
  the session has to wait. The wait itself releases the mutex of the SIDNO.
\<close>

datatype gtid_next_pass = Pass_error gtid_next_error | Pass_done | Pass_wait

definition set_gtid_next_pass ::
  "og_env \<Rightarrow> enum_gtid_mode \<Rightarrow> gtid_specification \<Rightarrow> thd \<times> gtid_state \<Rightarrow> (gtid_next_pass \<times> thd \<times> gtid_state) option" where
  "set_gtid_next_pass env mode spec ts = do {
     let (t, st) = ts;
     let (sidno, gno) = spec_gtid spec;
     if mode = GTID_MODE_OFF then Some (Pass_error ER_CANT_SET_GTID_NEXT_TO_GTID_WHEN_GTID_MODE_IS_OFF, t, st)
     else do {
       st1 \<leftarrow> lock_sidno sidno st;
       if is_executed st1 sidno gno then do {
         st2 \<leftarrow> unlock_sidno sidno st1;
         Some (Pass_done, t\<lparr>gtid_next := spec\<rparr>, st2) }
       else do {
         owned \<leftarrow> is_owned st1 sidno gno;
         if \<not> owned then do {
           (_, t2, st2) \<leftarrow> acquire_ownership env sidno gno (t, st1);
           st3 \<leftarrow> unlock_sidno sidno st2;
           Some (Pass_done, t2\<lparr>gtid_next := spec\<rparr>, st3) }
         else do {
           st2 \<leftarrow> unlock_sidno sidno st1;
           Some (Pass_wait, t, st2) } } } }"

text \<open>
  For every wait: the mode of the server and the memory before it, what the other sessions do during
  it, and whether the session is killed or its replica thread stopped at the end of it.
\<close>

record wait_env =
  wait_mode :: "nat \<Rightarrow> enum_gtid_mode"
  wait_mem :: "nat \<Rightarrow> og_env"
  others :: "nat \<Rightarrow> gtid_state \<Rightarrow> gtid_state"
  interrupted :: "nat \<Rightarrow> bool"
  timed_out :: "nat \<Rightarrow> bool"

partial_function (option) set_gtid_next_loop ::
  "wait_env \<Rightarrow> gtid_specification \<Rightarrow> nat \<Rightarrow> thd \<times> gtid_state \<Rightarrow> (gtid_next_error option \<times> thd \<times> gtid_state) option" where
  "set_gtid_next_loop env spec i ts =
     Option.bind (set_gtid_next_pass (wait_mem env i) (wait_mode env i) spec ts) (\<lambda>r.
       case fst r of
         Pass_error e \<Rightarrow> Some (Some e, snd r)
       | Pass_done \<Rightarrow> Some (None, snd r)
       | Pass_wait \<Rightarrow>
           (let st1 = others env i (snd (snd r)) in
            if interrupted env i then Some (Some Wait_interrupted, fst (snd r), st1)
            else set_gtid_next_loop env spec (i + 1) (fst (snd r), st1)))"

definition set_gtid_next ::
  "wait_env \<Rightarrow> gtid_specification \<Rightarrow> thd \<times> gtid_state \<Rightarrow> (gtid_next_error option \<times> thd \<times> gtid_state) option" where
  "set_gtid_next env spec ts =
     (let (t, st) = ts in
      if fst (owned_gtid t) > 0 \<or> fst (owned_gtid t) = OWNED_SIDNO_ANONYMOUS
      then Some (Some ER_CANT_SET_GTID_NEXT_WHEN_OWNING_GTID, t, st)
      else if spec_type spec = AUTOMATIC_GROUP then Some (None, spec_set_type AUTOMATIC_GROUP t, st)
      else if spec_type spec = ANONYMOUS_GROUP then
        if wait_mode env 0 = GTID_MODE_ON
        then Some (Some ER_CANT_SET_GTID_NEXT_TO_ANONYMOUS_WHEN_GTID_MODE_IS_ON, t, st)
        else Some (None, (spec_set_type ANONYMOUS_GROUP t)\<lparr>owned_gtid := (OWNED_SIDNO_ANONYMOUS, 0)\<rparr>,
                   acquire_anonymous_ownership st)
      else set_gtid_next_loop env spec 0 ts)"

section \<open>Checks before a statement\<close>

text \<open>
  What the checks read of a statement. \<open>is_status_command\<close> is the flag \<open>CF_STATUS_COMMAND\<close> of the command,
  \<open>implicit_commit_begin\<close> the result of \<open>stmt_causes_implicit_commit(thd, CF_IMPLICIT_COMMIT_BEGIN)\<close>.
\<close>

datatype enum_sql_command =
  SQLCOM_SELECT | SQLCOM_SET_OPTION | SQLCOM_DO | SQLCOM_EMPTY_QUERY | SQLCOM_CHANGE_DB | SQLCOM_BEGIN
| SQLCOM_COMMIT | SQLCOM_ROLLBACK | SQLCOM_BINLOG_BASE64_EVENT | SQLCOM_other nat

record stmt =
  sql_command :: enum_sql_command
  is_status_command :: bool
  is_set_password_sql :: bool
  uses_stored_routines :: bool
  implicit_commit_begin :: bool
  in_active_multi_stmt_transaction :: bool
  is_ddl_gtid_compatible :: bool

datatype enum_gtid_statement_status = GTID_STATEMENT_EXECUTE | GTID_STATEMENT_CANCEL | GTID_STATEMENT_SKIP

definition is_already_logged_transaction :: "thd \<Rightarrow> bool" where
  "is_already_logged_transaction t \<longleftrightarrow> spec_type (gtid_next t) = GTID_GROUP \<and> fst (owned_gtid t) = 0"

definition is_stmt_innocent :: "stmt \<Rightarrow> bool" where
  "is_stmt_innocent s =
     (let is_show = (is_status_command s \<and> sql_command s \<noteq> SQLCOM_BINLOG_BASE64_EVENT);
          is_set = (sql_command s = SQLCOM_SET_OPTION \<and> \<not> is_set_password_sql s);
          is_select = (sql_command s = SQLCOM_SELECT);
          is_do = (sql_command s = SQLCOM_DO);
          is_empty = (sql_command s = SQLCOM_EMPTY_QUERY);
          is_use = (sql_command s = SQLCOM_CHANGE_DB)
      in (is_set \<or> is_select \<or> is_do \<or> is_show \<or> is_empty \<or> is_use) \<and> \<not> uses_stored_routines s)"

definition gtid_pre_statement_checks :: "stmt \<Rightarrow> thd \<Rightarrow> enum_gtid_statement_status" where
  "gtid_pre_statement_checks s t =
     (if (implicit_commit_begin s \<or> sql_command s = SQLCOM_BEGIN) \<and> in_active_multi_stmt_transaction s \<and>
         spec_type (gtid_next t) = GTID_GROUP then GTID_STATEMENT_CANCEL
      else if sql_command s = SQLCOM_COMMIT \<or> sql_command s = SQLCOM_BEGIN \<or>
              sql_command s = SQLCOM_ROLLBACK \<or> is_stmt_innocent s then GTID_STATEMENT_EXECUTE
      else if spec_type (gtid_next t) = UNDEFINED_GROUP then GTID_STATEMENT_CANCEL
      else if is_already_logged_transaction t then GTID_STATEMENT_SKIP
      else GTID_STATEMENT_EXECUTE)"

definition gtid_reacquire_ownership_if_anonymous ::
  "wait_env \<Rightarrow> thd \<times> gtid_state \<Rightarrow> (bool \<times> thd \<times> gtid_state) option" where
  "gtid_reacquire_ownership_if_anonymous env ts =
     (let t = fst ts in
      if spec_type (gtid_next t) = NOT_YET_DETERMINED_GROUP \<or>
         spec_type (gtid_next t) = ANONYMOUS_GROUP \<and> fst (owned_gtid t) = 0 then do {
        (err, ts1) \<leftarrow> set_gtid_next env \<lparr>spec_type = ANONYMOUS_GROUP, spec_gtid = (0, 0)\<rparr> ts;
        Some (err \<noteq> None, ts1) }
      else Some (False, ts))"

definition gtid_pre_statement_post_implicit_commit_checks ::
  "wait_env \<Rightarrow> stmt \<Rightarrow> thd \<times> gtid_state \<Rightarrow> (bool \<times> thd \<times> gtid_state) option" where
  "gtid_pre_statement_post_implicit_commit_checks env s ts = do {
     (err, ts1) \<leftarrow> (if \<not> is_stmt_innocent s then gtid_reacquire_ownership_if_anonymous env ts else Some (False, ts));
     if err then Some (True, ts1)
     else if \<not> is_ddl_gtid_compatible s then Some (True, ts1)
     else Some (False, ts1) }"

section \<open>Waiting for a set of GTIDs\<close>

text \<open>
  The innermost loop, for one SIDNO. The result is the return value if the function returns from the
  loop, the number of waits so far, the set \<open>todo\<close>, the flag \<open>verified\<close>, and the state.
\<close>

type_synonym wait_result = "bool option \<times> nat \<times> gtid_set \<times> bool \<times> gtid_state"

definition wait_sidno_pass :: "nat \<Rightarrow> gtid_set \<Rightarrow> gtid_state \<Rightarrow> (bool \<times> gtid_set \<times> gtid_state) option" where
  "wait_sidno_pass sidno todo st = do {
     st1 \<leftarrow> lock_sidno sidno st;
     todo1 \<leftarrow> remove_intervals_for_sidno (executed_gtids st1) sidno todo;
     st2 \<leftarrow> unlock_sidno sidno st1;
     Some (contains_sidno todo1 sidno, todo1, st2) }"

partial_function (option) wait_sidno_loop ::
  "wait_env \<Rightarrow> nat \<Rightarrow> nat \<Rightarrow> gtid_set \<Rightarrow> bool \<Rightarrow> gtid_state \<Rightarrow> wait_result option" where
  "wait_sidno_loop env sidno i todo verified st =
     (if \<not> contains_sidno todo sidno then Some (None, i, todo, verified, st)
      else Option.bind (wait_sidno_pass sidno todo st) (\<lambda>r.
        if \<not> fst r then Some (None, i, fst (snd r), verified, snd (snd r))
        else (let st1 = others env i (snd (snd r)) in
              if interrupted env i \<or> timed_out env i then Some (Some True, i + 1, fst (snd r), False, st1)
              else wait_sidno_loop env sidno (i + 1) (fst (snd r)) False st1)))"

fun wait_sidnos :: "wait_env \<Rightarrow> nat list \<Rightarrow> nat \<Rightarrow> gtid_set \<Rightarrow> bool \<Rightarrow> gtid_state \<Rightarrow> wait_result option" where
  "wait_sidnos env [] i todo verified st = Some (None, i, todo, verified, st)"
| "wait_sidnos env (sidno # sidnos) i todo verified st = do {
     (ret, i1, todo1, verified1, st1) \<leftarrow> wait_sidno_loop env sidno i todo verified st;
     if ret = None then wait_sidnos env sidnos i1 todo1 verified1 st1
     else Some (ret, i1, todo1, verified1, st1) }"

text \<open>One iteration of the outermost loop; the status of \<open>add_gtid_set\<close> is not used.\<close>

definition wait_all_sidnos :: "wait_env \<Rightarrow> gs_env \<Rightarrow> gtid_set \<Rightarrow> nat \<Rightarrow> gtid_set \<Rightarrow> gtid_state \<Rightarrow> wait_result option" where
  "wait_all_sidnos env mem wait_for i todo st = do {
     (_, _, todo1) \<leftarrow> add_gtid_set mem wait_for (st_maps st) todo;
     wait_sidnos env [1 ..< Suc (get_max_sidno todo1)] i todo1 True st }"

partial_function (option) wait_verify_loop ::
  "wait_env \<Rightarrow> gs_env \<Rightarrow> gtid_set \<Rightarrow> nat \<Rightarrow> gtid_set \<Rightarrow> gtid_state \<Rightarrow> (bool \<times> gtid_state) option" where
  "wait_verify_loop env mem wait_for i todo st =
     Option.bind (wait_all_sidnos env mem wait_for i todo st) (\<lambda>r.
       case fst r of
         Some ret \<Rightarrow> Some (ret, snd (snd (snd (snd r))))
       | None \<Rightarrow>
           if fst (snd (snd (snd r))) then Some (False, snd (snd (snd (snd r))))
           else wait_verify_loop env mem wait_for (fst (snd r)) (fst (snd (snd r))) (snd (snd (snd (snd r)))))"

definition wait_for_gtid_set :: "wait_env \<Rightarrow> gs_env \<Rightarrow> gtid_set \<Rightarrow> gtid_state \<Rightarrow> (bool \<times> gtid_state) option" where
  "wait_for_gtid_set env mem wait_for st =
     wait_verify_loop env mem wait_for 0 (set_with_memory 0 100) st"

end
