(* ===== verification/Gtid_System.thy ===== *)
theory Gtid_System
  imports Gtid_Commit_Laws Gtid_Execution
begin

text \<open>
  The sessions of a server together with the GTID state they share: an invariant that ties the table
  of owners to what the sessions own and the sets of the state to each other, a specification of what
  the operations promise, and the proof that getting a GTID and the end of a transaction keep the
  invariant and are steps of the specification.
\<close>

section \<open>What the sessions own\<close>

definition owns :: "thd \<Rightarrow> nat \<Rightarrow> owned_node multiset" where
  "owns t s = (if 1 \<le> s \<and> fst (owned_gtid t) = int s then {#owner_node (snd (owned_gtid t)) (thread_id t)#} else {#})"

definition session_nodes :: "thd list \<Rightarrow> nat \<Rightarrow> owned_node multiset" where
  "session_nodes ts s = (\<Sum>t\<leftarrow>ts. owns t s)"

lemma session_nodes_simps [simp]:
  "session_nodes [] s = {#}" "session_nodes (t # ts) s = owns t s + session_nodes ts s"
  by (simp_all add: session_nodes_def)

lemma session_nodes_update:
  "k < length ts \<Longrightarrow> session_nodes (ts[k := t']) s + owns (ts ! k) s = session_nodes ts s + owns t' s"
proof (induction ts arbitrary: k)
  case Nil
  then show ?case by simp
next
  case (Cons t ts)
  then show ?case by (cases k) (simp_all add: ac_simps)
qed

lemma owns_session_nodes: "t \<in> set ts \<Longrightarrow> owns t s \<subseteq># session_nodes ts s"
proof (induction ts)
  case Nil
  then show ?case by simp
next
  case (Cons u ts)
  have "owns u s \<subseteq># session_nodes (u # ts) s" "session_nodes ts s \<subseteq># session_nodes (u # ts) s" by simp_all
  with Cons show ?case by (auto intro: subset_mset.trans)
qed

definition is_anonymous :: "thd \<Rightarrow> bool" where
  "is_anonymous t \<longleftrightarrow> fst (owned_gtid t) = OWNED_SIDNO_ANONYMOUS"

definition n_anonymous :: "thd list \<Rightarrow> int" where
  "n_anonymous ts = (\<Sum>t\<leftarrow>ts. if is_anonymous t then 1 else 0)"

lemma n_anonymous_update:
  "k < length ts \<Longrightarrow>
     n_anonymous (ts[k := t']) = n_anonymous ts - (if is_anonymous (ts ! k) then 1 else 0) + (if is_anonymous t' then 1 else 0)"
proof (induction ts arbitrary: k)
  case Nil
  then show ?case by simp
next
  case (Cons t ts)
  then show ?case by (cases k) (simp_all add: n_anonymous_def)
qed

text \<open>A session owns nothing, or is anonymous, or owns a GTID that the state has room for.\<close>

definition session_ok :: "nat \<Rightarrow> thd \<Rightarrow> bool" where
  "session_ok n t \<longleftrightarrow>
     fst (owned_gtid t) = 0 \<or> is_anonymous t \<or>
     1 \<le> fst (owned_gtid t) \<and> fst (owned_gtid t) \<le> int n \<and> gno_ok (snd (owned_gtid t))"

lemma owns_other: "fst (owned_gtid t) \<le> 0 \<Longrightarrow> owns t = (\<lambda>_. {#})"
  by (auto simp: owns_def fun_eq_iff)

lemma owns_gtid: "owned_gtid t = (int s, g) \<Longrightarrow> 1 \<le> s \<Longrightarrow> owns t = (\<lambda>_. {#})(s := {#owner_node g (thread_id t)#})"
  by (auto simp: owns_def fun_eq_iff)

section \<open>The invariant\<close>

definition sys_inv :: "thd list \<Rightarrow> gtid_state \<Rightarrow> bool" where
  "sys_inv ts st \<longleftrightarrow>
     st_ok st \<and> (\<forall>t \<in> set ts. session_ok (n_sidnos st) t) \<and> nodes_of st = session_nodes ts \<and>
     (\<forall>s g. size (gno_nodes (owned_gtids st) s g) \<le> 1) \<and>
     (\<forall>(s, g) \<in> gtids (executed_gtids st). \<not> owned_gno (owned_gtids st) s g) \<and>
     gtids (lost_gtids st) \<subseteq> gtids (executed_gtids st) \<and>
     gtids (gtids_only_in_table st) \<subseteq> gtids (executed_gtids st) \<and>
     anonymous_gtid_count st = n_anonymous ts"

text \<open>Every number of this server below the next free one is used.\<close>

definition no_gaps :: "gtid_state \<Rightarrow> bool" where
  "no_gaps st \<longleftrightarrow> (\<forall>x. 1 \<le> x \<and> x < next_free_gno st \<longrightarrow> used_gno st (server_sidno st) x)"

text \<open>Between two group commits no SIDNO is marked.\<close>

definition unmarked :: "gtid_state \<Rightarrow> bool" where
  "unmarked st \<longleftrightarrow> (\<forall>f \<in> set (commit_group_sidnos st). \<not> f)"

text \<open>The invariant does not look at the trace of the locks nor at the other counters and flags.\<close>

definition same_view :: "gtid_state \<Rightarrow> gtid_state \<Rightarrow> bool" where
  "same_view st st' \<longleftrightarrow>
     nodes_of st' = nodes_of st \<and> gtids (executed_gtids st') = gtids (executed_gtids st) \<and>
     gtids (lost_gtids st') = gtids (lost_gtids st) \<and> gtids (gtids_only_in_table st') = gtids (gtids_only_in_table st) \<and>
     next_free_gno st' = next_free_gno st \<and> server_sidno st' = server_sidno st \<and>
     anonymous_gtid_count st' = anonymous_gtid_count st"

lemma sys_inv_view:
  assumes "sys_inv ts st" and "st_ok st'" and "same_view st st'" and "n_sidnos st \<le> n_sidnos st'"
  shows "sys_inv ts st'"
proof -
  have "gno_nodes (owned_gtids st') s g = gno_nodes (owned_gtids st) s g"
    "owned_gno (owned_gtids st') s g = owned_gno (owned_gtids st) s g" for s g
    using assms(3) by (simp_all add: same_view_def owned_gno_def gno_nodes_def)
  moreover have "session_ok (n_sidnos st') t" if "session_ok (n_sidnos st) t" for t
    using that assms(4) by (auto simp: session_ok_def)
  ultimately show ?thesis using assms by (auto simp: sys_inv_def same_view_def)
qed

lemma no_gaps_view: "no_gaps st \<Longrightarrow> same_view st st' \<Longrightarrow> no_gaps st'"
  by (simp add: no_gaps_def same_view_def owned_gno_def gno_nodes_def)

text \<open>Nor at anything of a session but what it owns and its number.\<close>

definition same_session :: "thd \<Rightarrow> thd \<Rightarrow> bool" where
  "same_session t t' \<longleftrightarrow> owned_gtid t' = owned_gtid t \<and> thread_id t' = thread_id t"

lemma sys_inv_session:
  assumes "sys_inv ts st" and k: "k < length ts" and same: "same_session (ts ! k) t'"
  shows "sys_inv (ts[k := t']) st"
proof -
  have "owns t' = owns (ts ! k)" "is_anonymous t' = is_anonymous (ts ! k)" "session_ok n t' = session_ok n (ts ! k)" for n
    using same by (simp_all add: same_session_def owns_def fun_eq_iff is_anonymous_def session_ok_def)
  moreover have "session_nodes (ts[k := t']) s = session_nodes ts s" for s
    using session_nodes_update [OF k, of t' s] calculation(1) by simp
  moreover have "n_anonymous (ts[k := t']) = n_anonymous ts"
    using n_anonymous_update [OF k, of t'] calculation(2) by simp
  moreover have "session_ok (n_sidnos st) (ts ! k)" using assms(1) k by (simp add: sys_inv_def)
  moreover have "set (ts[k := t']) \<subseteq> insert t' (set ts)" by (rule set_update_subset_insert)
  ultimately show ?thesis using assms(1) unfolding sys_inv_def by (auto simp: fun_eq_iff)
qed

section \<open>The specification\<close>

text \<open>
  What the operations promise: sets of GTIDs, and for every session the GTID it owns. Every operation has
  its own effect: a GTID is executed when its owner commits and only then, it is free again when the owner
  rolls back, and only a reset and a purge replace the sets.
\<close>

record spec_state =
  spec_executed :: "(nat \<times> int) set"
  spec_lost :: "(nat \<times> int) set"
  spec_table :: "(nat \<times> int) set"
  spec_owner :: "nat \<rightharpoonup> nat \<times> int"

text \<open>
  The operations, with the session and what decides about the effect: the GTID that a session is given, if it
  is given one; whether a commit is not logged; whether a rollback is skipped; for the members of a group
  \<open>None\<close> when the rollback is skipped, and otherwise whether it is a commit and whether that is not logged;
  the set and the success of a purge.
\<close>

datatype operation =
    Generate nat "(nat \<times> int) option"
  | Set_next nat "nat \<times> int" bool
  | Commit nat bool
  | Rollback nat bool
  | Group_commit "(nat \<times> (bool \<times> bool) option) list"
  | Reset
  | Purge "(nat \<times> int) set" bool
  | Unrelated

definition spec_own :: "nat \<Rightarrow> nat \<times> int \<Rightarrow> spec_state \<Rightarrow> spec_state \<Rightarrow> bool" where
  "spec_own k x a a' \<longleftrightarrow>
     spec_owner a k = None \<and> x \<notin> spec_executed a \<and> x \<notin> ran (spec_owner a) \<and> a' = a\<lparr>spec_owner := (spec_owner a)(k \<mapsto> x)\<rparr>"

definition spec_finish :: "bool \<Rightarrow> bool \<Rightarrow> nat \<Rightarrow> spec_state \<Rightarrow> spec_state" where
  "spec_finish is_commit not_logged k a =
     (case spec_owner a k of
        None \<Rightarrow> a
      | Some x \<Rightarrow>
          let E = (if is_commit then {x} else {}); P = (if is_commit \<and> not_logged then {x} else {}) in
          a\<lparr>spec_executed := spec_executed a \<union> E, spec_lost := spec_lost a \<union> P, spec_table := spec_table a \<union> P,
            spec_owner := (spec_owner a)(k := None)\<rparr>)"

definition spec_member :: "nat \<times> (bool \<times> bool) option \<Rightarrow> spec_state \<Rightarrow> spec_state" where
  "spec_member m a = (case m of (k, None) \<Rightarrow> a | (k, Some (is_commit, not_logged)) \<Rightarrow> spec_finish is_commit not_logged k a)"

fun spec_step :: "operation \<Rightarrow> spec_state \<Rightarrow> spec_state \<Rightarrow> bool" where
  "spec_step (Generate k None) a a' \<longleftrightarrow> a' = a"
| "spec_step (Generate k (Some x)) a a' \<longleftrightarrow> spec_own k x a a'"
| "spec_step (Set_next k x got) a a' \<longleftrightarrow> (if got then spec_own k x a a' else a' = a)"
| "spec_step (Commit k not_logged) a a' \<longleftrightarrow> a' = spec_finish True not_logged k a"
| "spec_step (Rollback k skipped) a a' \<longleftrightarrow> a' = (if skipped then a else spec_finish False False k a)"
| "spec_step (Group_commit ms) a a' \<longleftrightarrow> a' = fold spec_member ms a"
| "spec_step Reset a a' \<longleftrightarrow> a' = a\<lparr>spec_executed := {}, spec_lost := {}, spec_table := {}\<rparr>"
| "spec_step (Purge X done) a a' \<longleftrightarrow>
     (if done then spec_executed a = {} \<and> spec_owner a = Map.empty \<and>
        a' = a\<lparr>spec_executed := X, spec_lost := spec_lost a \<union> X, spec_table := spec_table a \<union> X\<rparr>
      else a' = a)"
| "spec_step Unrelated a a' \<longleftrightarrow> a' = a"

definition owner_of :: "thd \<Rightarrow> (nat \<times> int) option" where
  "owner_of t = (if fst (owned_gtid t) > 0 then Some (nat (fst (owned_gtid t)), snd (owned_gtid t)) else None)"

definition view :: "thd list \<Rightarrow> gtid_state \<Rightarrow> spec_state" where
  "view ts st =
     \<lparr>spec_executed = gtids (executed_gtids st), spec_lost = gtids (lost_gtids st),
      spec_table = gtids (gtids_only_in_table st),
      spec_owner = (\<lambda>k. if k < length ts then owner_of (ts ! k) else None)\<rparr>"

lemma view_update: "k < length ts \<Longrightarrow>
    spec_owner (view (ts[k := t']) st') = (spec_owner (view ts st))(k := owner_of t')"
  by (auto simp: view_def fun_eq_iff)

lemma view_same:
  "k < length ts \<Longrightarrow> same_view st st' \<Longrightarrow> owner_of t' = owner_of (ts ! k) \<Longrightarrow> view (ts[k := t']) st' = view ts st"
  by (auto simp: view_def same_view_def fun_eq_iff nth_list_update)

lemma view_same_state: "same_view st st' \<Longrightarrow> view ts st' = view ts st"
  by (simp add: view_def same_view_def)

lemma view_locks [simp]:
  "view ts (st\<lparr>sidno_trace := tr\<rparr>) = view ts st" "view ts (st\<lparr>commit_group_sidnos := fl\<rparr>) = view ts st"
  by (simp_all add: view_def)

lemma owner_of_owned:
  assumes "sys_inv ts st" and "k < length ts" and "owner_of (ts ! k) = Some (s, g)"
  shows "owned_gno (owned_gtids st) s g"
proof -
  have own: "owned_gtid (ts ! k) = (int s, g)" "1 \<le> s" using assms(3) by (auto simp: owner_of_def split: if_splits intro: prod_eqI)
  have "owner_node g (thread_id (ts ! k)) \<in># nodes_of st s"
    using owns_session_nodes [OF nth_mem [OF assms(2)], of s] assms(1) unfolding owns_gtid [OF own] by (simp add: sys_inv_def)
  then show ?thesis by (auto simp: owned_gno_iff owner_node_def intro!: bexI)
qed

lemma view_own:
  assumes inv: "sys_inv ts st" and k: "k < length ts" and none: "fst (owned_gtid (ts ! k)) = 0"
    and free: "\<not> used_gno st s g" and t': "owned_gtid t' = (int s, g)" "1 \<le> s"
    and sets: "gtids (executed_gtids st') = gtids (executed_gtids st)" "gtids (lost_gtids st') = gtids (lost_gtids st)"
      "gtids (gtids_only_in_table st') = gtids (gtids_only_in_table st)"
  shows "spec_own k (s, g) (view ts st) (view (ts[k := t']) st')"
proof -
  have "(s, g) \<notin> ran (spec_owner (view ts st))"
  proof
    assume "(s, g) \<in> ran (spec_owner (view ts st))"
    then obtain j where "j < length ts" "owner_of (ts ! j) = Some (s, g)" by (auto simp: ran_def view_def split: if_splits)
    then show False using owner_of_owned [OF inv] free by blast
  qed
  moreover have "spec_owner (view ts st) k = None" using k none by (simp add: view_def owner_of_def)
  moreover have "(s, g) \<notin> spec_executed (view ts st)" using free by (simp add: view_def)
  moreover have "view (ts[k := t']) st' = (view ts st)\<lparr>spec_owner := (spec_owner (view ts st))(k \<mapsto> (s, g))\<rparr>"
    using view_update [OF k, of t' st' st] sets t' by (auto simp: view_def owner_of_def)
  ultimately show ?thesis by (simp add: spec_own_def)
qed

lemma view_end:
  assumes k: "k < length ts" and own: "owned_gtid (ts ! k) = (int s, g)" "1 \<le> s"
    and eff: "end_effect env is_commit s g (ts ! k) st st'" and t': "fst (owned_gtid t') = 0"
  shows "view (ts[k := t']) st' = spec_finish is_commit (unlogged env (ts ! k)) k (view ts st)"
proof -
  have o: "spec_owner (view ts st) k = Some (s, g)" using k own by (simp add: view_def owner_of_def)
  have "owner_of t' = None" using t' by (simp add: owner_of_def)
  then show ?thesis
    using view_update [OF k, of t' st' st] eff o by (auto simp: spec_finish_def view_def end_effect_def Let_def)
qed

lemma spec_finish_none: "k < length ts \<Longrightarrow> fst (owned_gtid (ts ! k)) \<le> 0 \<Longrightarrow> spec_finish c u k (view ts st) = view ts st"
  by (simp add: spec_finish_def view_def owner_of_def)

section \<open>The operations keep the invariant\<close>

subsection \<open>Acquiring a GTID\<close>

lemma gno_nodes_add:
  "og_nodes og' = (og_nodes og)(s := add_mset (owner_node g t) (og_nodes og s)) \<Longrightarrow>
     gno_nodes og' s' g' = (if s' = s \<and> g' = g then add_mset (owner_node g t) (gno_nodes og s g) else gno_nodes og s' g')"
  by (simp add: gno_nodes_def owner_node_def)

lemma owned_gno_add:
  "og_nodes og' = (og_nodes og)(s := add_mset (owner_node g t) (og_nodes og s)) \<Longrightarrow>
     owned_gno og' s' g' \<longleftrightarrow> s' = s \<and> g' = g \<or> owned_gno og s' g'"
  unfolding owned_gno_def by (auto simp: gno_nodes_add)

lemma sys_inv_acquire:
  assumes inv: "sys_inv ts st" and k: "k < length ts" and none: "fst (owned_gtid (ts ! k)) = 0"
    and s: "1 \<le> s" "s \<le> n_sidnos st" and g: "gno_ok g" and free: "\<not> used_gno st s g"
    and st': "st_ok st'" "n_sidnos st' = n_sidnos st"
      "nodes_of st' = (nodes_of st)(s := add_mset (owner_node g (thread_id (ts ! k))) (nodes_of st s))"
    and sets: "gtids (executed_gtids st') = gtids (executed_gtids st)" "gtids (lost_gtids st') = gtids (lost_gtids st)"
      "gtids (gtids_only_in_table st') = gtids (gtids_only_in_table st)"
      "anonymous_gtid_count st' = anonymous_gtid_count st"
    and t': "owned_gtid t' = (int s, g)" "thread_id t' = thread_id (ts ! k)"
  shows "sys_inv (ts[k := t']) st'"
proof -
  note own = owns_gtid [OF t'(1) s(1)] owns_other [of "ts ! k"]
  have nodes: "nodes_of st' = session_nodes (ts[k := t'])"
  proof
    fix s' show "nodes_of st' s' = session_nodes (ts[k := t']) s'"
      using session_nodes_update [OF k, of t' s'] inv own t'(2) none unfolding st'(3) by (auto simp: sys_inv_def)
  qed
  have anon: "\<not> is_anonymous t'" "\<not> is_anonymous (ts ! k)"
    using t'(1) s none by (auto simp: is_anonymous_def OWNED_SIDNO_ANONYMOUS_def)
  have "gno_nodes (owned_gtids st) s g = {#}" using free by (simp add: owned_gno_def)
  then have one: "\<forall>s' g'. size (gno_nodes (owned_gtids st') s' g') \<le> 1"
    using inv unfolding gno_nodes_add [OF st'(3)] by (auto simp: sys_inv_def)
  have dis: "\<forall>(s', g') \<in> gtids (executed_gtids st'). \<not> owned_gno (owned_gtids st') s' g'"
    using inv free unfolding owned_gno_add [OF st'(3)] sets(1) by (auto simp: sys_inv_def)
  have ses: "\<forall>t \<in> set (ts[k := t']). session_ok (n_sidnos st') t"
    using inv t'(1) s g set_update_subset_insert [of ts k t'] st'(2) by (auto simp: sys_inv_def session_ok_def)
  show ?thesis
    using inv st'(1) ses nodes one dis sets anon n_anonymous_update [OF k, of t'] by (simp add: sys_inv_def)
qed

subsection \<open>The end of a transaction with a GTID\<close>

lemma sys_inv_owned:
  assumes inv: "sys_inv ts st" and k: "k < length ts" and own: "owned_gtid (ts ! k) = (int s, g)" and s: "1 \<le> s"
  shows "s \<le> n_sidnos st" and "gno_ok g"
    and "gno_nodes (owned_gtids st) s g = {#owner_node g (thread_id (ts ! k))#}"
proof -
  have "session_ok (n_sidnos st) (ts ! k)" using inv k by (simp add: sys_inv_def)
  then show "s \<le> n_sidnos st" "gno_ok g" using own s by (auto simp: session_ok_def is_anonymous_def OWNED_SIDNO_ANONYMOUS_def)
  have "owner_node g (thread_id (ts ! k)) \<in># nodes_of st s"
    using owns_session_nodes [OF nth_mem [OF k], of s] inv unfolding owns_gtid [OF own s] by (simp add: sys_inv_def)
  then have "owner_node g (thread_id (ts ! k)) \<in># gno_nodes (owned_gtids st) s g"
    by (simp add: gno_nodes_def owner_node_def)
  moreover have "size (gno_nodes (owned_gtids st) s g) \<le> 1" using inv by (simp add: sys_inv_def)
  ultimately show "gno_nodes (owned_gtids st) s g = {#owner_node g (thread_id (ts ! k))#}"
    by (auto dest!: multi_member_split)
qed

lemma gno_nodes_remove:
  "og_nodes og' = (og_nodes og)(s := og_nodes og s - {#owner_node g t#}) \<Longrightarrow>
     gno_nodes og' s' g' = (if s' = s \<and> g' = g then gno_nodes og s g - {#owner_node g t#} else gno_nodes og s' g')"
  by (simp add: gno_nodes_def owner_node_def)

lemma sys_inv_end:
  assumes inv: "sys_inv ts st" and k: "k < length ts" and own: "owned_gtid (ts ! k) = (int s, g)" and s: "1 \<le> s"
    and st': "st_ok st'" "end_effect env is_commit s g (ts ! k) st st'"
    and t': "fst (owned_gtid t') = 0"
  shows "sys_inv (ts[k := t']) st'"
proof -
  note o = sys_inv_owned [OF inv k own s]
  have eff: "nodes_of st' = (nodes_of st)(s := nodes_of st s - {#owner_node g (thread_id (ts ! k))#})"
      "anonymous_gtid_count st' = anonymous_gtid_count st" "n_sidnos st' = n_sidnos st"
    using st'(2) by (auto simp: end_effect_def counters_same_def dest: st_frame_n)
  have nodes: "nodes_of st' = session_nodes (ts[k := t'])"
  proof
    fix s' show "nodes_of st' s' = session_nodes (ts[k := t']) s'"
      using session_nodes_update [OF k, of t' s', symmetric] inv owns_gtid [OF own s] owns_other [of t'] t'
      unfolding eff(1) by (auto simp: sys_inv_def)
  qed
  have gn: "gno_nodes (owned_gtids st') s' g' = (if s' = s \<and> g' = g then {#} else gno_nodes (owned_gtids st) s' g')" for s' g'
    unfolding gno_nodes_remove [OF eff(1)] o(3) by simp
  have one: "\<forall>s' g'. size (gno_nodes (owned_gtids st') s' g') \<le> 1" using inv unfolding gn by (auto simp: sys_inv_def)
  have dis: "\<forall>(s', g') \<in> gtids (executed_gtids st'). \<not> owned_gno (owned_gtids st') s' g'"
    using inv st'(2) unfolding owned_gno_def gn by (auto simp: sys_inv_def end_effect_def owned_gno_def split: if_splits)
  have anon: "\<not> is_anonymous t'" "\<not> is_anonymous (ts ! k)"
    using t' own s by (auto simp: is_anonymous_def OWNED_SIDNO_ANONYMOUS_def)
  have ses: "\<forall>t \<in> set (ts[k := t']). session_ok (n_sidnos st') t"
    using inv t' set_update_subset_insert [of ts k t'] eff(3) by (auto simp: sys_inv_def session_ok_def)
  have sub: "gtids (lost_gtids st') \<subseteq> gtids (executed_gtids st')" "gtids (gtids_only_in_table st') \<subseteq> gtids (executed_gtids st')"
    using inv st'(2) by (auto simp: sys_inv_def end_effect_def)
  show ?thesis
    using inv st'(1) ses nodes one dis sub eff(2) anon n_anonymous_update [OF k, of t'] by (simp add: sys_inv_def)
qed

lemma no_gaps_end:
  assumes "sys_inv ts st" and "k < length ts" and "owned_gtid (ts ! k) = (int s, g)" and "1 \<le> s"
    and eff: "end_effect env is_commit s g (ts ! k) st st'" and gaps: "no_gaps st"
  shows "no_gaps st'"
proof -
  note o = sys_inv_owned [OF assms(1-4)]
  have n: "nodes_of st' = (nodes_of st)(s := nodes_of st s - {#owner_node g (thread_id (ts ! k))#})"
    and sv: "server_sidno st' = server_sidno st" using eff by (auto simp: end_effect_def st_frame_def)
  have og: "owned_gno (owned_gtids st') s' x \<longleftrightarrow> owned_gno (owned_gtids st) s' x \<and> \<not> (s' = s \<and> x = g)" for s' x
    unfolding owned_gno_def gno_nodes_remove [OF n] using o(3) by simp
  show ?thesis unfolding no_gaps_def
  proof (intro allI impI)
    fix x assume x: "1 \<le> x \<and> x < next_free_gno st'"
    then have "x < next_free_gno st" using eff by (auto simp: end_effect_def split: if_splits)
    then have u: "used_gno st (server_sidno st) x" using gaps x by (simp add: no_gaps_def)
    show "used_gno st' (server_sidno st') x"
    proof (cases "server_sidno st = s \<and> x = g")
      case True
      then show ?thesis using x eff sv by (auto simp: end_effect_def split: if_splits)
    next
      case False
      then show ?thesis using u eff unfolding og sv by (auto simp: end_effect_def)
    qed
  qed
qed

lemma no_gaps_acquire:
  assumes gaps: "no_gaps st" and "server_sidno st' = server_sidno st"
    and n: "nodes_of st' = (nodes_of st)(s := add_mset (owner_node g t) (nodes_of st s))"
    and "gtids (executed_gtids st') = gtids (executed_gtids st)"
    and "next_free_gno st' = next_free_gno st \<or> s = server_sidno st \<and> next_free_gno st' = g + 1 \<and>
      (\<forall>x. next_free_gno st \<le> x \<and> x < g \<longrightarrow> used_gno st s x)"
  shows "no_gaps st'"
  unfolding no_gaps_def owned_gno_add [OF n] assms(2,4)
proof (intro allI impI)
  fix x assume x: "1 \<le> x \<and> x < next_free_gno st'"
  consider "x < next_free_gno st" | "x = g" "s = server_sidno st" | "next_free_gno st \<le> x" "x < g" "s = server_sidno st"
    using x assms(5) by force
  then show "(server_sidno st, x) \<in> gtids (executed_gtids st) \<or>
      server_sidno st = s \<and> x = g \<or> owned_gno (owned_gtids st) (server_sidno st) x"
    using gaps x assms(5) by cases (auto simp: no_gaps_def)
qed

subsection \<open>Anonymous sessions\<close>

lemma sys_inv_anonymous:
  assumes inv: "sys_inv ts st" and k: "k < length ts" and le: "fst (owned_gtid (ts ! k)) \<le> 0"
    and t': "fst (owned_gtid t') = 0 \<or> is_anonymous t'"
    and c: "c = anonymous_gtid_count st - (if is_anonymous (ts ! k) then 1 else 0) + (if is_anonymous t' then 1 else 0)"
  shows "sys_inv (ts[k := t']) (st\<lparr>anonymous_gtid_count := c\<rparr>)"
proof -
  have le': "fst (owned_gtid t') \<le> 0" using t' by (auto simp: is_anonymous_def OWNED_SIDNO_ANONYMOUS_def)
  have "session_nodes (ts[k := t']) s = session_nodes ts s" for s
    using session_nodes_update [OF k, of t' s] owns_other [OF le] owns_other [OF le'] by simp
  moreover have "session_ok n t'" for n using t' by (auto simp: session_ok_def)
  moreover have "set (ts[k := t']) \<subseteq> insert t' (set ts)" by (rule set_update_subset_insert)
  moreover have "st_ok (st\<lparr>anonymous_gtid_count := c\<rparr>)" using inv by (simp add: sys_inv_def st_ok_def)
  ultimately show ?thesis
    using inv c n_anonymous_update [OF k, of t'] unfolding sys_inv_def by (auto simp: fun_eq_iff)
qed

subsection \<open>The end of any transaction\<close>

text \<open>
  A session ends its transaction; \<open>F\<close> is the effect in the specification, and \<open>ev\<close> is what it does to the locks.
\<close>

definition end_post :: "(spec_state \<Rightarrow> spec_state) \<Rightarrow> thd list \<Rightarrow> nat \<Rightarrow> lock_event list \<Rightarrow> gtid_state \<Rightarrow> thd \<Rightarrow> gtid_state \<Rightarrow> bool" where
  "end_post F ts k ev st t' st' \<longleftrightarrow>
     sys_inv (ts[k := t']) st' \<and> st_frame st st' \<and> sidno_trace st' = sidno_trace st @ ev \<and>
     thread_id t' = thread_id (ts ! k) \<and> (no_gaps st \<longrightarrow> no_gaps st') \<and>
     view (ts[k := t']) st' = F (view ts st)"

lemma update_owned_post:
  assumes inv: "sys_inv ts st" and k: "k < length ts"
  shows "\<exists>more t' st'. update_owned env is_commit m (ts ! k, st) = Some (more, t', st') \<and>
    end_post (spec_finish is_commit (unlogged env (ts ! k)) k) ts k [] st t' st'"
proof -
  let ?t = "ts ! k" and ?F = "spec_finish is_commit (unlogged env (ts ! k)) k"
  have "session_ok (n_sidnos st) ?t" using inv k by (simp add: sys_inv_def)
  then consider "fst (owned_gtid ?t) = 0" | "is_anonymous ?t" | "1 \<le> fst (owned_gtid ?t)" by (auto simp: session_ok_def)
  then show ?thesis
  proof cases
    case 1
    then have "update_owned env is_commit m (?t, st) = Some (m, ?t, st)"
      by (simp add: update_owned_def OWNED_SIDNO_GTID_SET_def OWNED_SIDNO_ANONYMOUS_def)
    then show ?thesis using inv k 1 spec_finish_none [OF k] by (auto simp: end_post_def)
  next
    case 2
    then have le: "fst (owned_gtid ?t) \<le> 0" by (simp add: is_anonymous_def OWNED_SIDNO_ANONYMOUS_def)
    obtain more t' st' where u: "update_gtids_impl_own_anonymous env m (?t, st) = (more, t', st')"
      by (cases "update_gtids_impl_own_anonymous env m (?t, st)") auto
    have "t' = ?t \<and> st' = st \<or>
        t' = clear_owned_gtids ?t \<and> st' = st\<lparr>anonymous_gtid_count := anonymous_gtid_count st - 1\<rparr>"
      using u by (auto simp: update_gtids_impl_own_anonymous_def release_anonymous_ownership_def Let_def split: if_splits)
    moreover have "end_post ?F ts k [] st ?t st" using inv k spec_finish_none [OF k le] by (simp add: end_post_def)
    moreover have "end_post ?F ts k [] st (clear_owned_gtids ?t) (st\<lparr>anonymous_gtid_count := anonymous_gtid_count st - 1\<rparr>)"
      unfolding end_post_def
    proof (intro conjI)
      show "sys_inv (ts[k := clear_owned_gtids ?t]) (st\<lparr>anonymous_gtid_count := anonymous_gtid_count st - 1\<rparr>)"
        by (rule sys_inv_anonymous [OF inv k])
          (use 2 in \<open>auto simp: is_anonymous_def OWNED_SIDNO_ANONYMOUS_def clear_owned_gtids_def\<close>)
      have "view (ts[k := clear_owned_gtids ?t]) (st\<lparr>anonymous_gtid_count := anonymous_gtid_count st - 1\<rparr>) = view ts st"
        using 2 k by (auto simp: view_def owner_of_def clear_owned_gtids_def is_anonymous_def OWNED_SIDNO_ANONYMOUS_def
            fun_eq_iff nth_list_update)
      then show "view (ts[k := clear_owned_gtids ?t]) (st\<lparr>anonymous_gtid_count := anonymous_gtid_count st - 1\<rparr>) = ?F (view ts st)"
        using spec_finish_none [OF k le] by simp
    qed (auto simp: st_frame_def clear_owned_gtids_def no_gaps_def)
    moreover have "update_owned env is_commit m (?t, st) = Some (more, t', st')"
      using 2 u by (simp add: update_owned_def is_anonymous_def OWNED_SIDNO_GTID_SET_def OWNED_SIDNO_ANONYMOUS_def)
    ultimately show ?thesis by blast
  next
    case 3
    then obtain s where s: "fst (owned_gtid ?t) = int s" "1 \<le> s" using zero_le_imp_eq_int [of "fst (owned_gtid ?t)"] by auto
    then have own: "owned_gtid ?t = (int s, snd (owned_gtid ?t))" by (metis prod.collapse)
    note o = sys_inv_owned [OF inv k own s(2)]
    have st: "st_ok st" using inv by (simp add: sys_inv_def)
    have all: "\<forall>n \<in># gno_nodes (owned_gtids st) s (snd (owned_gtid ?t)). node_owner n = thread_id ?t"
      unfolding o(3) by (simp add: owner_node_def)
    obtain st' where st': "update_gtids_impl_own_gtid env is_commit (?t, st) = Some (released ?t, st')" "st_ok st'"
        "end_effect env is_commit s (snd (owned_gtid ?t)) ?t st st'" "sidno_trace st' = sidno_trace st"
      by (rule own_gtid_laws [OF st own s(2) o(1,2) all])
    have "update_owned env is_commit m (?t, st) = Some (m, released ?t, st')"
      using st'(1) s by (simp add: update_owned_def OWNED_SIDNO_GTID_SET_def)
    moreover have "end_post ?F ts k [] st (released ?t) st'"
      using sys_inv_end [OF inv k own s(2) st'(2,3), of "released ?t"] no_gaps_end [OF inv k own s(2) st'(3)] st'(3,4)
        view_end [OF k own s(2) st'(3), of "released ?t"]
      by (auto simp: end_post_def end_effect_def)
    ultimately show ?thesis by blast
  qed
qed

lemma same_view_trace [simp]: "same_view st (st\<lparr>sidno_trace := tr\<rparr>)"
  by (simp add: same_view_def)

lemma sys_inv_trace: "sys_inv ts st \<Longrightarrow> sys_inv ts (st\<lparr>sidno_trace := tr\<rparr>)"
  by (rule sys_inv_view) (auto simp: sys_inv_def)

lemma no_gaps_trace [simp]: "no_gaps (st\<lparr>sidno_trace := tr\<rparr>) \<longleftrightarrow> no_gaps st"
  by (simp add: no_gaps_def)

lemma update_gtids_impl_end_post:
  assumes "end_post F ts k ev st t1 st1" and k: "k < length ts"
  shows "\<exists>t' st'. update_gtids_impl_end m (t1, st1) = (t', st') \<and> end_post F ts k ev st t' st'"
proof -
  obtain t' st' where e: "update_gtids_impl_end m (t1, st1) = (t', st')" by fastforce
  have same: "same_session t1 t'" "same_view st1 st'" "st_frame st1 st'" "sidno_trace st' = sidno_trace st1"
    "st_ok st1 \<Longrightarrow> st_ok st'"
    using e by (auto simp: update_gtids_impl_end_def end_gtid_violating_transaction_def Let_def same_session_def
        same_view_def st_frame_def st_ok_def end_automatic_gtid_violating_transaction_def
        end_anonymous_gtid_violating_transaction_def split: if_splits)
  have 1: "sys_inv (ts[k := t1]) st1" using assms(1) by (simp add: end_post_def)
  have "sys_inv (ts[k := t1]) st'"
    by (rule sys_inv_view [OF 1 same(5) same(2)]) (use 1 st_frame_n [OF same(3)] in \<open>auto simp: sys_inv_def\<close>)
  then have "sys_inv ((ts[k := t1])[k := t']) st'" by (rule sys_inv_session) (use k same(1) in auto)
  moreover have "view ((ts[k := t1])[k := t']) st' = view (ts[k := t1]) st1"
    by (rule view_same) (use k same(1,2) in \<open>auto simp: same_session_def owner_of_def\<close>)
  ultimately show ?thesis
    using assms(1) same e no_gaps_view [OF _ same(2)]
    by (auto simp: end_post_def same_session_def elim: st_frame_trans)
qed

definition end_events :: "thd \<Rightarrow> lock_event list" where
  "end_events t =
     (if fst (owned_gtid t) > 0
      then (let s = nat (fst (owned_gtid t)) in [Lock_sidno s, Broadcast_sidno s, Unlock_sidno s]) else [])"

lemma do_nothing_post:
  assumes inv: "sys_inv ts st" and k: "k < length ts" and "update_gtids_impl_do_nothing (ts ! k) = (b, t')"
  shows "end_post id ts k [] st t' st" and "b \<Longrightarrow> fst (owned_gtid (ts ! k)) = 0" and "\<not> b \<Longrightarrow> t' = ts ! k"
proof -
  have same: "same_session (ts ! k) t'"
    using assms(3) by (auto simp: update_gtids_impl_do_nothing_def same_session_def spec_set_type_def split: if_splits)
  show "end_post id ts k [] st t' st"
    using sys_inv_session [OF inv k same] same view_same [OF k, of st st t']
    by (simp add: end_post_def same_session_def owner_of_def same_view_def)
  show "b \<Longrightarrow> fst (owned_gtid (ts ! k)) = 0" "\<not> b \<Longrightarrow> t' = ts ! k"
    using assms(3) by (auto simp: update_gtids_impl_do_nothing_def split: if_splits)
qed

lemma sys_inv_sidno:
  assumes "sys_inv ts st" and "k < length ts" and "fst (owned_gtid (ts ! k)) > 0"
  shows "nat (fst (owned_gtid (ts ! k))) \<le> n_sidnos st" and "nat (fst (owned_gtid (ts ! k))) < n_sid_locks st"
proof -
  have "session_ok (n_sidnos st) (ts ! k)" and st: "st_ok st" using assms by (auto simp: sys_inv_def)
  then show "nat (fst (owned_gtid (ts ! k))) \<le> n_sidnos st"
    using assms(3) by (auto simp: session_ok_def is_anonymous_def OWNED_SIDNO_ANONYMOUS_def)
  then show "nat (fst (owned_gtid (ts ! k))) < n_sid_locks st" by (rule st_ok_locks [OF st])
qed

lemma end_post_trace:
  assumes "end_post F ts k [] (st\<lparr>sidno_trace := tr\<rparr>) t' st'" and "tr @ tr' = sidno_trace st @ ev"
  shows "end_post F ts k ev st t' (st'\<lparr>sidno_trace := tr @ tr'\<rparr>)"
  using assms sys_inv_trace [of "ts[k := t']" st' "tr @ tr'"] by (auto simp: end_post_def st_frame_def)

lemma update_gtids_impl_post:
  assumes inv: "sys_inv ts st" and k: "k < length ts"
  shows "\<exists>t' st'. update_gtids_impl env is_commit (ts ! k, st) = Some (t', st') \<and>
    end_post (spec_finish is_commit (unlogged env (ts ! k)) k) ts k (end_events (ts ! k)) st t' st'"
proof -
  let ?t = "ts ! k" and ?s = "nat (fst (owned_gtid (ts ! k)))" and ?F = "spec_finish is_commit (unlogged env (ts ! k)) k"
  obtain b t0 where d: "update_gtids_impl_do_nothing ?t = (b, t0)" by fastforce
  note d' = do_nothing_post [OF inv k d]
  show ?thesis
  proof (cases b)
    case True
    then show ?thesis using d d' spec_finish_none [OF k] by (auto simp: update_gtids_impl_def end_events_def end_post_def)
  next
    case b: False
    show ?thesis
    proof (cases "fst (owned_gtid ?t) > 0")
      case False
      obtain more t1 st1 where u: "update_owned env is_commit (update_gtids_impl_begin ?t) (?t, st) = Some (more, t1, st1)"
          "end_post ?F ts k [] st t1 st1" using update_owned_post [OF inv k] by blast
      with update_gtids_impl_end_post [OF u(2) k, of more] d b False show ?thesis
        by (auto simp: update_gtids_impl_def end_events_def)
    next
      case True
      note n = sys_inv_sidno [OF inv k True]
      let ?tr = "sidno_trace st @ [Lock_sidno ?s]" let ?st1 = "st\<lparr>sidno_trace := ?tr\<rparr>"
      let ?tr' = "?tr @ [Broadcast_sidno ?s, Unlock_sidno ?s]"
      obtain more t1 st2 where u: "update_owned env is_commit (update_gtids_impl_begin ?t) (?t, ?st1) = Some (more, t1, st2)"
          "end_post ?F ts k [] ?st1 t1 st2" using update_owned_post [OF sys_inv_trace [OF inv] k] by blast
      have st2: "n_sid_locks st2 = n_sid_locks st" "sidno_trace st2 = ?tr"
        using u(2) by (simp_all add: end_post_def st_frame_def)
      have "end_post ?F ts k (end_events ?t) st t1 (st2\<lparr>sidno_trace := ?tr'\<rparr>)"
        by (rule end_post_trace [OF u(2)]) (simp add: end_events_def True Let_def)
      from update_gtids_impl_end_post [OF this k, of more] d b True u(1) st2 n(2) show ?thesis
        by (auto simp: update_gtids_impl_def lock_ok Let_def)
    qed
  qed
qed

end
