(* ===== verification/Gtid_Growth_Laws.thy ===== *)
theory Gtid_Growth_Laws
  imports Gtid_System
begin

text \<open>
  Operations on the whole GTID state: the start of the server, a new server identifier, RESET MASTER
  and setting \<open>gtid_purged\<close>. With memory they keep the invariant of the system.
\<close>

section \<open>Room for new SIDNOs\<close>

lemma ensure_index_ok: "ensure_index (\<lambda>_. True) n k = (RETURN_STATUS_OK, max (n + 1) k)"
proof -
  have "ensure_index_loop (\<lambda>_. True) m k = (RETURN_STATUS_OK, k + m)" for m k by (induction m arbitrary: k) auto
  then show ?thesis by (simp add: ensure_index_def max_def)
qed

lemma ensure_flags_ok:
  "ensure_commit_group_sidnos (\<lambda>_. True) n fl = (RETURN_STATUS_OK, fl @ replicate (n + 1 - length fl) False)"
proof -
  have "ensure_flags_loop (\<lambda>_. True) m fl = (RETURN_STATUS_OK, fl @ replicate m False)" for m fl
    by (induction m arbitrary: fl) auto
  then show ?thesis by (simp add: ensure_commit_group_sidnos_def)
qed

lemma push_hashes_ok: "fst (push_hashes (\<lambda>_. True) n og) = RETURN_STATUS_OK"
  by (induction n arbitrary: og) auto

lemma set_ensure_ok:
  assumes "set_fits n gs"
  shows "\<exists>gs'. gs_ensure_sidno (\<lambda>_. True) id n gs = (RETURN_STATUS_OK, gs') \<and> set_ok n gs' \<and> gtids gs' = gtids gs"
proof (rule gs_ensure_sidno_ok [of gs n])
  show "gs_inv gs" using assms by (simp add: set_fits_def)
  fix gs' assume "gs_ensure_sidno (\<lambda>_. True) id n gs = (RETURN_STATUS_OK, gs')" "gs_inv gs'" "gtids gs' = gtids gs"
    "get_max_sidno gs' = max n (get_max_sidno gs)" "gs_sid_map gs' = gs_sid_map gs"
  with assms show ?thesis by (auto simp: set_ok_def set_fits_def)
qed

lemma og_ensure_ok:
  assumes "og_inv og"
  shows "\<exists>og'. og_ensure_sidno (\<lambda>_. True) n og = (RETURN_STATUS_OK, og') \<and> og_inv og' \<and> og_nodes og' = og_nodes og \<and>
    n \<le> og_max_sidno og'"
proof -
  obtain status og' where e: "og_ensure_sidno (\<lambda>_. True) n og = (status, og')" by fastforce
  have "status = RETURN_STATUS_OK"
    using e push_hashes_ok [of "n - og_max_sidno og" og] by (auto simp: og_ensure_sidno_def split: if_splits)
  with e og_ensure_sidno_laws [OF assms e] show ?thesis by auto
qed

definition grown :: "gtid_state \<Rightarrow> gtid_set \<Rightarrow> gtid_set \<Rightarrow> gtid_set \<Rightarrow> gtid_set \<Rightarrow> owned_gtids \<Rightarrow> gtid_state" where
  "grown st e o1 p l og =
     st\<lparr>executed_gtids := e, gtids_only_in_table := o1, previous_gtids_logged := p, lost_gtids := l, owned_gtids := og,
        n_sid_locks := max (n_sidnos st + 1) (n_sid_locks st),
        commit_group_sidnos := commit_group_sidnos st @ replicate (n_sidnos st + 1 - length (commit_group_sidnos st)) False\<rparr>"

lemma st_ensure_sidno_ok:
  assumes "set_fits (n_sidnos st) (lost_gtids st)" "set_fits (n_sidnos st) (executed_gtids st)"
    "set_fits (n_sidnos st) (gtids_only_in_table st)" "set_fits (n_sidnos st) (previous_gtids_logged st)"
    "og_inv (owned_gtids st)" and n: "0 < n_sidnos st"
  obtains e o1 p l og where "st_ensure_sidno (\<lambda>_ _. True) st =
      (RETURN_STATUS_OK, grown st e o1 p l og)"
    and "set_ok (n_sidnos st) e" "gtids e = gtids (executed_gtids st)"
    and "set_ok (n_sidnos st) o1" "gtids o1 = gtids (gtids_only_in_table st)"
    and "set_ok (n_sidnos st) p" and "set_ok (n_sidnos st) l" "gtids l = gtids (lost_gtids st)"
    and "og_inv og" "og_nodes og = nodes_of st" "n_sidnos st \<le> og_max_sidno og"
proof -
  obtain e where e: "gs_ensure_sidno (\<lambda>_. True) id (n_sidnos st) (executed_gtids st) = (RETURN_STATUS_OK, e)"
      "set_ok (n_sidnos st) e" "gtids e = gtids (executed_gtids st)" using set_ensure_ok [OF assms(2)] by blast
  obtain o1 where o: "gs_ensure_sidno (\<lambda>_. True) id (n_sidnos st) (gtids_only_in_table st) = (RETURN_STATUS_OK, o1)"
      "set_ok (n_sidnos st) o1" "gtids o1 = gtids (gtids_only_in_table st)" using set_ensure_ok [OF assms(3)] by blast
  obtain p where p: "gs_ensure_sidno (\<lambda>_. True) id (n_sidnos st) (previous_gtids_logged st) = (RETURN_STATUS_OK, p)"
      "set_ok (n_sidnos st) p" using set_ensure_ok [OF assms(4)] by blast
  obtain l where l: "gs_ensure_sidno (\<lambda>_. True) id (n_sidnos st) (lost_gtids st) = (RETURN_STATUS_OK, l)"
      "set_ok (n_sidnos st) l" "gtids l = gtids (lost_gtids st)" using set_ensure_ok [OF assms(1)] by blast
  obtain og where og: "og_ensure_sidno (\<lambda>_. True) (n_sidnos st) (owned_gtids st) = (RETURN_STATUS_OK, og)"
      "og_inv og" "og_nodes og = nodes_of st" "n_sidnos st \<le> og_max_sidno og" using og_ensure_ok [OF assms(5)] by blast
  show thesis
  proof (rule that [OF _ e(2,3) o(2,3) p(2) l(2,3) og(2-4)])
    show "st_ensure_sidno (\<lambda>_ _. True) st =
      (RETURN_STATUS_OK, grown st e o1 p l og)"
      using e(1) o(1) p(1) l(1) og(1) n unfolding st_ensure_sidno_def n_sidnos_def [symmetric] Let_def
      by (simp add: ensure_index_ok ensure_flags_ok grown_def)
  qed
qed

section \<open>A new server identifier\<close>

lemma set_ok_fits: "set_ok n gs \<Longrightarrow> n \<le> m \<Longrightarrow> set_fits m gs"
  by (simp add: set_ok_def set_fits_def)

lemma sys_inv_new_sid:
  assumes inv: "sys_inv ts st" and un: "unmarked st" and len: "length sid = BYTE_LENGTH"
    and add: "add_sid env_ok sid (st_maps st 0) = (Some n, sm)"
    and ens: "st_ensure_sidno (\<lambda>_ _. True) (st\<lparr>st_maps := (st_maps st)(0 := sm)\<rparr>) = (status, st')"
  shows "status = RETURN_STATUS_OK" and "sys_inv ts st'" and "unmarked st'" and "same_view st st'"
proof -
  let ?st1 = "st\<lparr>st_maps := (st_maps st)(0 := sm)\<rparr>"
  have st: "st_ok st" using inv by (simp add: sys_inv_def)
  have "sid_map_inv (st_maps st 0)" using st by (simp add: st_ok_def)
  then have sm: "sid_map_inv sm" "sm_extends (st_maps st 0) sm" using add add_sid_ok [OF _ len] by (metis Pair_inject)+
  then have n: "n_sidnos st \<le> n_sidnos ?st1" by (auto simp: n_sidnos_def sm_extends_def sm_max_sidno_def)
  then have pos: "0 < n_sidnos ?st1" using st by (auto simp: st_ok_def)
  have fits: "set_fits (n_sidnos ?st1) (lost_gtids ?st1)" "set_fits (n_sidnos ?st1) (executed_gtids ?st1)"
      "set_fits (n_sidnos ?st1) (gtids_only_in_table ?st1)" "set_fits (n_sidnos ?st1) (previous_gtids_logged ?st1)"
    using st_ok_sets [OF st] n by (auto intro: set_ok_fits)
  have og: "og_inv (owned_gtids ?st1)" using st by (simp add: st_ok_def)
  obtain e o1 p l og' where r: "st_ensure_sidno (\<lambda>_ _. True) ?st1 =
      (RETURN_STATUS_OK, grown ?st1 e o1 p l og')"
      "set_ok (n_sidnos ?st1) e" "gtids e = gtids (executed_gtids ?st1)"
      "set_ok (n_sidnos ?st1) o1" "gtids o1 = gtids (gtids_only_in_table ?st1)"
      "set_ok (n_sidnos ?st1) p" "set_ok (n_sidnos ?st1) l" "gtids l = gtids (lost_gtids ?st1)"
      "og_inv og'" "og_nodes og' = nodes_of ?st1" "n_sidnos ?st1 \<le> og_max_sidno og'"
    by (rule st_ensure_sidno_ok [OF fits og pos])
  have eq: "status = RETURN_STATUS_OK" "st' = grown ?st1 e o1 p l og'"
    using ens r(1) by auto
  have n': "n_sidnos st' = n_sidnos ?st1" unfolding eq(2) by (simp add: n_sidnos_def grown_def)
  have st': "st_ok st'" using st sm(1) r n unfolding st_ok_def n' by (auto simp: eq(2) grown_def)
  show view: "same_view st st'" using r unfolding eq(2) by (simp add: same_view_def grown_def)
  show "sys_inv ts st'" by (rule sys_inv_view [OF inv st' view]) (use n n' in simp)
  show "status = RETURN_STATUS_OK" by (rule eq(1))
  show "unmarked st'" using un unfolding eq(2) by (auto simp: unmarked_def grown_def)
qed

section \<open>The start of the server\<close>

text \<open>The identifier of the server is the first SIDNO of a new state; \<open>a\<close> and \<open>b\<close> are not initialised.\<close>

definition server_start :: "string \<Rightarrow> nat \<Rightarrow> int \<Rightarrow> gtid_state option" where
  "server_start uuid a b =
     (case st_init env_ok uuid (st_new a b) of
        (ret, st) \<Rightarrow>
          if ret \<noteq> 0 then None
          else (case st_ensure_sidno (\<lambda>_ _. True) st of (status, st') \<Rightarrow> if status = RETURN_STATUS_OK then Some st' else None))"

lemma server_start_laws:
  assumes uuid: "uuid_is_valid uuid"
  shows "\<exists>st. server_start uuid a b = Some st"
    and "server_start uuid a b = Some st \<Longrightarrow> st_ok st \<and> unmarked st \<and> nodes_of st = (\<lambda>_. {#}) \<and> gtids (executed_gtids st) = {} \<and>
      gtids (lost_gtids st) = {} \<and> gtids (gtids_only_in_table st) = {} \<and> anonymous_gtid_count st = 0 \<and> next_free_gno st = 1"
proof -
  obtain sid rest where p: "uuid_parse uuid = Some (sid, rest)" using uuid uuid_is_valid_iff by fastforce
  have len: "length sid = BYTE_LENGTH" by (rule uuid_parse_length [OF p])
  obtain n sm where a: "add_sid env_ok sid sid_map_init = (Some n, sm)" "sid_map_inv sm" "1 \<le> n" "n \<le> sm_max_sidno sm"
    by (rule add_sid_ok [OF sid_map_inv_init len]) blast
  let ?st1 = "(st_new a b)\<lparr>st_maps := (\<lambda>_. sid_map_init)(0 := sm), server_sidno := n, next_free_gno := 1\<rparr>"
  have i: "st_init env_ok uuid (st_new a b) = (0, ?st1)" using p a(1) by (simp add: st_init_def st_new_def)
  have n: "n_sidnos ?st1 = sm_max_sidno sm" by (simp add: n_sidnos_def)
  then have pos: "0 < n_sidnos ?st1" using a(3,4) by simp
  have fits: "set_fits (n_sidnos ?st1) (lost_gtids ?st1)" "set_fits (n_sidnos ?st1) (executed_gtids ?st1)"
      "set_fits (n_sidnos ?st1) (gtids_only_in_table ?st1)" "set_fits (n_sidnos ?st1) (previous_gtids_logged ?st1)"
      "og_inv (owned_gtids ?st1)"
    by (simp_all add: st_new_def set_fits_def)
  obtain e o1 p l og' where r: "st_ensure_sidno (\<lambda>_ _. True) ?st1 =
      (RETURN_STATUS_OK, grown ?st1 e o1 p l og')"
      "set_ok (n_sidnos ?st1) e" "gtids e = gtids (executed_gtids ?st1)"
      "set_ok (n_sidnos ?st1) o1" "gtids o1 = gtids (gtids_only_in_table ?st1)"
      "set_ok (n_sidnos ?st1) p" "set_ok (n_sidnos ?st1) l" "gtids l = gtids (lost_gtids ?st1)"
      "og_inv og'" "og_nodes og' = nodes_of ?st1" "n_sidnos ?st1 \<le> og_max_sidno og'"
    by (rule st_ensure_sidno_ok [OF fits pos])
  let ?st2 = "grown ?st1 e o1 p l og'"
  have s: "server_start uuid a b = Some ?st2" using i r(1) by (simp add: server_start_def)
  then show "\<exists>st. server_start uuid a b = Some st" by blast
  have n2: "n_sidnos ?st2 = sm_max_sidno sm" by (simp add: n_sidnos_def grown_def)
  have "st_ok ?st2" unfolding st_ok_def n2 using a r n by (auto simp: st_new_def GNO_END_def grown_def)
  moreover have "unmarked ?st2" by (auto simp: unmarked_def st_new_def grown_def)
  moreover assume "server_start uuid a b = Some st"
  ultimately show "st_ok st \<and> unmarked st \<and> nodes_of st = (\<lambda>_. {#}) \<and> gtids (executed_gtids st) = {} \<and>
      gtids (lost_gtids st) = {} \<and> gtids (gtids_only_in_table st) = {} \<and> anonymous_gtid_count st = 0 \<and> next_free_gno st = 1"
    using s r by (auto simp: st_new_def fun_eq_iff grown_def)
qed

section \<open>RESET MASTER\<close>

lemma set_ok_clear: "set_ok n gs \<Longrightarrow> set_ok n (gs_clear gs)" "set_ok n gs \<Longrightarrow> gtids (gs_clear gs) = {}"
  using gs_clear_correct [of gs] by (auto simp: set_ok_def gs_clear_def Let_def)

lemma sys_inv_clear:
  assumes inv: "sys_inv ts st"
  shows "sys_inv ts (snd (st_clear ret st))" and "no_gaps (snd (st_clear ret st))"
    and "unmarked st \<Longrightarrow> unmarked (snd (st_clear ret st))"
proof -
  let ?st = "snd (st_clear ret st)"
  have st: "st_ok st" using inv by (simp add: sys_inv_def)
  have n: "n_sidnos ?st = n_sidnos st" by (simp add: st_clear_def n_sidnos_def)
  have st': "st_ok ?st" using st unfolding st_ok_def n by (auto simp: st_clear_def set_ok_clear GNO_END_def)
  have e: "gtids (executed_gtids ?st) = {}" "gtids (lost_gtids ?st) = {}" "gtids (gtids_only_in_table ?st) = {}"
    using st_ok_sets [OF st] by (simp_all add: st_clear_def set_ok_clear)
  have o: "owned_gtids ?st = owned_gtids st" "anonymous_gtid_count ?st = anonymous_gtid_count st" by (simp_all add: st_clear_def)
  show "sys_inv ts ?st" using inv st' e unfolding sys_inv_def n o by simp
  show "no_gaps ?st" by (auto simp: no_gaps_def st_clear_def)
  show "unmarked st \<Longrightarrow> unmarked ?st" by (simp add: unmarked_def st_clear_def)
qed

section \<open>Setting gtid_purged\<close>

lemma set_ok_union:
  assumes "set_ok n gs" and "set_fits n other"
  shows "\<exists>gs'. add_gtid_set gs_env_ok other maps gs = Some (RETURN_STATUS_OK, maps, gs') \<and> set_ok n gs' \<and>
    gtids gs' = gtids gs \<union> gtids other"
proof (rule add_gtid_set_same_map [of gs other maps])
  show "gs_inv gs" "gs_inv other" "same_sid_map gs other"
    using assms by (auto simp: set_ok_def set_fits_def same_sid_map_def)
  fix gs' assume "add_gtid_set gs_env_ok other maps gs = Some (RETURN_STATUS_OK, maps, gs')" "gs_inv gs'"
    "gtids gs' = gtids gs \<union> gtids other" "get_max_sidno gs' = max (get_max_sidno other) (get_max_sidno gs)"
    "gs_sid_map gs' = gs_sid_map gs"
  with assms show ?thesis by (auto simp: set_ok_def set_fits_def)
qed

definition purge_events :: "gtid_set \<Rightarrow> lock_event list" where
  "purge_events gs = map Lock_sidno (sidnos_of gs) @ map Broadcast_sidno (sidnos_of gs) @ map Unlock_sidno (sidnos_of gs)"

lemma purge_locks:
  assumes "st_ok st" and "set_fits (n_sidnos st) gs"
  shows "do { st1 \<leftarrow> lock_sidnos gs st; st2 \<leftarrow> broadcast_sidnos gs st1; st3 \<leftarrow> unlock_sidnos gs st2; f st3 } =
    f (st\<lparr>sidno_trace := sidno_trace st @ purge_events gs\<rparr>)"
proof -
  have "\<forall>n \<in> set (sidnos_of gs). n < n_sid_locks st"
    using assms by (auto simp: sidnos_of_def set_fits_def st_ok_def simp del: upt_Suc)
  then show ?thesis
    by (simp add: lock_sidnos_def broadcast_sidnos_def unlock_sidnos_def lock_sidno_def broadcast_sidno_def unlock_sidno_def
        each_sidno_event purge_events_def)
qed

text \<open>
  Only when nothing is executed and nothing is owned, and the table has taken the set, the set becomes
  the executed, the lost and the table-only GTIDs.
\<close>

definition purge_allowed :: "int \<Rightarrow> gtid_state \<Rightarrow> bool" where
  "purge_allowed save_ret st \<longleftrightarrow> gtids (executed_gtids st) = {} \<and> nodes_of st = (\<lambda>_. {#}) \<and> save_ret = 0"

lemma add_lost_gtids_laws:
  assumes st: "st_ok st" and gs: "set_fits (n_sidnos st) gs"
  obtains e l o1 where "add_lost_gtids gs_env_ok save_ret gs st =
      Some (if purge_allowed save_ret st then (RETURN_STATUS_OK, st\<lparr>executed_gtids := e, lost_gtids := l, gtids_only_in_table := o1,
              sidno_trace := sidno_trace st @ purge_events gs\<rparr>)
            else (RETURN_STATUS_REPORTED_ERROR, st))"
    and "set_ok (n_sidnos st) e" "set_ok (n_sidnos st) l" "set_ok (n_sidnos st) o1"
    and "gtids e = gtids (executed_gtids st) \<union> gtids gs" and "gtids l = gtids (lost_gtids st) \<union> gtids gs"
    and "gtids o1 = gtids (gtids_only_in_table st) \<union> gtids gs"
proof -
  obtain e where e: "add_gtid_set gs_env_ok gs (st_maps st) (executed_gtids st) = Some (RETURN_STATUS_OK, st_maps st, e)"
      "set_ok (n_sidnos st) e" "gtids e = gtids (executed_gtids st) \<union> gtids gs"
    using set_ok_union [OF st_ok_sets(2) [OF st] gs] by blast
  obtain l where l: "add_gtid_set gs_env_ok gs (st_maps st) (lost_gtids st) = Some (RETURN_STATUS_OK, st_maps st, l)"
      "set_ok (n_sidnos st) l" "gtids l = gtids (lost_gtids st) \<union> gtids gs"
    using set_ok_union [OF st_ok_sets(1) [OF st] gs] by blast
  obtain o1 where o: "add_gtid_set gs_env_ok gs (st_maps st) (gtids_only_in_table st) = Some (RETURN_STATUS_OK, st_maps st, o1)"
      "set_ok (n_sidnos st) o1" "gtids o1 = gtids (gtids_only_in_table st) \<union> gtids gs"
    using set_ok_union [OF st_ok_sets(3) [OF st] gs] by blast
  let ?st = "st\<lparr>gtids_only_in_table := o1, lost_gtids := l, executed_gtids := e\<rparr>"
  have st3: "st_ok ?st" "set_fits (n_sidnos ?st) gs" using st e(2) l(2) o(2) gs by (simp_all add: st_ok_def)
  have emp: "gs_is_empty (executed_gtids st) \<longleftrightarrow> gtids (executed_gtids st) = {}"
    using gs_is_empty_iff [of "executed_gtids st"] st by (simp add: st_ok_def set_ok_def)
  have own: "og_is_empty (owned_gtids st) \<longleftrightarrow> nodes_of st = (\<lambda>_. {#})"
    using og_is_empty_laws [of "owned_gtids st"] st by (auto simp: st_ok_def fun_eq_iff)
  show thesis
  proof (rule that [OF _ e(2) l(2) o(2) e(3) l(3) o(3)])
    show "add_lost_gtids gs_env_ok save_ret gs st =
      Some (if purge_allowed save_ret st then (RETURN_STATUS_OK, st\<lparr>executed_gtids := e, lost_gtids := l, gtids_only_in_table := o1,
              sidno_trace := sidno_trace st @ purge_events gs\<rparr>)
            else (RETURN_STATUS_REPORTED_ERROR, st))"
    proof (cases "purge_allowed save_ret st")
      case False
      then show ?thesis by (auto simp: add_lost_gtids_def emp own purge_allowed_def)
    next
      case True
      show ?thesis using True e(1) l(1) o(1) purge_locks [OF st3, of "\<lambda>st. Some (RETURN_STATUS_OK, st)"]
        by (simp add: add_lost_gtids_def emp own purge_allowed_def Let_def)
    qed
  qed
qed

lemma sys_inv_purge:
  assumes inv: "sys_inv ts st" and gs: "set_fits (n_sidnos st) gs"
    and "add_lost_gtids gs_env_ok save_ret gs st = Some (status, st')"
  shows "sys_inv ts st'" and "no_gaps st \<Longrightarrow> no_gaps st'" and "unmarked st \<Longrightarrow> unmarked st'"
proof -
  have st: "st_ok st" using inv by (simp add: sys_inv_def)
  let ?ok = "purge_allowed save_ret st"
  obtain e l o1 where r: "add_lost_gtids gs_env_ok save_ret gs st =
      Some (if ?ok then (RETURN_STATUS_OK, st\<lparr>executed_gtids := e, lost_gtids := l, gtids_only_in_table := o1,
              sidno_trace := sidno_trace st @ purge_events gs\<rparr>)
            else (RETURN_STATUS_REPORTED_ERROR, st))"
      "set_ok (n_sidnos st) e" "set_ok (n_sidnos st) l" "set_ok (n_sidnos st) o1"
      "gtids e = gtids (executed_gtids st) \<union> gtids gs" "gtids l = gtids (lost_gtids st) \<union> gtids gs"
      "gtids o1 = gtids (gtids_only_in_table st) \<union> gtids gs"
    by (rule add_lost_gtids_laws [OF st gs])
  have *: "sys_inv ts st' \<and> (no_gaps st \<longrightarrow> no_gaps st') \<and> (unmarked st \<longrightarrow> unmarked st')"
  proof (cases ?ok)
    case False
    then have "st' = st" using assms(3) r(1) by (auto split: if_splits)
    then show ?thesis using inv by simp
  next
    case True
    then have eq: "st' = st\<lparr>executed_gtids := e, lost_gtids := l, gtids_only_in_table := o1,
        sidno_trace := sidno_trace st @ purge_events gs\<rparr>" using assms(3) r(1) by simp
    have "st_ok st'" using st r(2-4) by (simp add: eq st_ok_def)
    moreover have "\<not> owned_gno (owned_gtids st') s g" for s g
      using True by (simp add: eq owned_gno_def gno_nodes_def purge_allowed_def)
    moreover have "n_sidnos st' = n_sidnos st" by (simp add: eq)
    ultimately have "sys_inv ts st'" using inv r(5-7) unfolding sys_inv_def by (auto simp: eq)
    moreover have "no_gaps st \<longrightarrow> no_gaps st'" using r(5) by (auto simp: no_gaps_def eq)
    ultimately show ?thesis by (simp add: eq unmarked_def)
  qed
  then show "sys_inv ts st'" "no_gaps st \<Longrightarrow> no_gaps st'" "unmarked st \<Longrightarrow> unmarked st'" by simp_all
qed

end
