(* ===== verification/Gtid_Group_Commit.thy ===== *)
theory Gtid_Group_Commit
  imports Gtid_System
begin

text \<open>
  The commit of a group of sessions: which SIDNOs are locked and in which order, that every lock is
  released, that the invariant is kept, and that the group has the effect of its members one by one.
\<close>

section \<open>The locks of a group\<close>

definition group_sidnos :: "thd list \<Rightarrow> nat set" where
  "group_sidnos ts = {s. 1 \<le> s \<and> (\<exists>t \<in> set ts. fst (owned_gtid t) = int s)}"

definition sidno_list :: "nat \<Rightarrow> thd list \<Rightarrow> nat list" where
  "sidno_list n ts = [i \<leftarrow> [1 ..< n]. i \<in> group_sidnos ts]"

lemma sidno_list_ordered: "sorted_wrt (<) (sidno_list n ts)"
  unfolding sidno_list_def by (intro sorted_wrt_filter) simp

lemma sidno_list_set: "group_sidnos ts \<subseteq> {..< n} \<Longrightarrow> set (sidno_list n ts) = group_sidnos ts"
  by (auto simp: sidno_list_def group_sidnos_def)

lemma mark_sidnos_laws:
  assumes "\<forall>t \<in> set ts. fst (owned_gtid t) \<noteq> OWNED_SIDNO_GTID_SET" and "group_sidnos ts \<subseteq> {..< length flags}"
  shows "\<exists>flags'. mark_sidnos ts flags = Some flags' \<and> length flags' = length flags \<and>
    (\<forall>i < length flags. flags' ! i \<longleftrightarrow> flags ! i \<or> i \<in> group_sidnos ts)"
  using assms
proof (induction ts arbitrary: flags)
  case Nil
  then show ?case by (simp add: group_sidnos_def)
next
  case (Cons t ts)
  let ?s = "fst (owned_gtid t)"
  let ?flags = "if ?s > 0 then flags[nat ?s := True] else flags"
  have len: "length ?flags = length flags" by simp
  have "group_sidnos ts \<subseteq> {..< length ?flags}" using Cons.prems(2) unfolding len by (auto simp: group_sidnos_def)
  with Cons.IH [of ?flags] Cons.prems(1) obtain flags' where f: "mark_sidnos ts ?flags = Some flags'" "length flags' = length flags"
      "\<And>i. i < length flags \<Longrightarrow> flags' ! i \<longleftrightarrow> ?flags ! i \<or> i \<in> group_sidnos ts"
    unfolding len by auto
  have in_range: "nat ?s < length flags" if "?s > 0"
  proof -
    have "nat ?s \<in> group_sidnos (t # ts)" using that by (auto simp: group_sidnos_def)
    then show ?thesis using Cons.prems(2) by auto
  qed
  have g: "i \<in> group_sidnos (t # ts) \<longleftrightarrow> ?s > 0 \<and> i = nat ?s \<or> i \<in> group_sidnos ts" for i by (auto simp: group_sidnos_def)
  have "mark_sidnos (t # ts) flags = Some flags'"
    using f(1) in_range Cons.prems(1) by (simp add: Let_def split: if_splits)
  moreover have "flags' ! i \<longleftrightarrow> flags ! i \<or> i \<in> group_sidnos (t # ts)" if "i < length flags" for i
    unfolding f(3) [OF that] g using that in_range by (auto simp: nth_list_update)
  ultimately show ?case using f(2) by blast
qed

definition unlock_events :: "nat list \<Rightarrow> lock_event list" where
  "unlock_events ns = concat (map (\<lambda>s. [Broadcast_sidno s, Unlock_sidno s]) ns)"

definition unmark :: "nat list \<Rightarrow> bool list \<Rightarrow> bool list" where
  "unmark ns flags = fold (\<lambda>i flags. flags[i := False]) ns flags"

lemma nth_update: "i < length xs \<Longrightarrow> xs[a := v] ! i = (if a = i then v else xs ! i)"
  by (cases "a = i") simp_all

lemma unmark_nth: "length (unmark ns flags) = length flags \<and>
    (\<forall>i < length flags. unmark ns flags ! i \<longleftrightarrow> flags ! i \<and> i \<notin> set ns)"
  unfolding unmark_def by (induction ns arbitrary: flags) (auto simp: nth_update)

lemma broadcast_and_unlock_laws:
  "\<forall>n \<in> set ns. n < n_sid_locks st \<Longrightarrow>
     each_sidno broadcast_and_unlock ns st =
       Some (st\<lparr>sidno_trace := sidno_trace st @ unlock_events ns,
                commit_group_sidnos := unmark ns (commit_group_sidnos st)\<rparr>)"
  by (induction ns arbitrary: st) (auto simp: broadcast_and_unlock_def lock_ok unlock_events_def unmark_def)

section \<open>The members of a group\<close>

text \<open>The group consists of the sessions with the indices \<open>ks\<close>; \<open>put\<close> stores their new states.\<close>

fun put :: "thd list \<Rightarrow> nat list \<Rightarrow> thd list \<Rightarrow> thd list" where
  "put ts (k # ks) (t # us) = put (ts[k := t]) ks us"
| "put ts _ _ = ts"

text \<open>The effect of a member in the specification.\<close>

definition member_of :: "end_env \<Rightarrow> thd list \<Rightarrow> nat \<Rightarrow> nat \<times> (bool \<times> bool) option" where
  "member_of env ts k =
     (k, if commit_error (ts ! k) \<and> skip_gtid_rollback (ts ! k) then None
         else Some (\<not> commit_error (ts ! k), unlogged env (ts ! k)))"

lemma member_of_update: "k \<notin> set ks \<Longrightarrow> map (member_of env (ts[k := t])) ks = map (member_of env ts) ks"
proof (intro map_cong refl)
  fix j assume "k \<notin> set ks" "j \<in> set ks"
  then have "ts[k := t] ! j = ts ! j" by (intro nth_list_update_neq) auto
  then show "member_of env (ts[k := t]) j = member_of env ts j" by (simp add: member_of_def)
qed

lemma commit_group_member:
  assumes inv: "sys_inv ts st" and k: "k < length ts"
  shows "\<exists>t' st'. commit_group_loop env ((ts ! k) # us) st =
      do { (us', st3) \<leftarrow> commit_group_loop env us st'; Some (t' # us', st3) } \<and>
    end_post (spec_member (member_of env ts k)) ts k [] st t' st'"
proof -
  let ?t = "ts ! k" and ?F = "spec_member (member_of env ts k)"
  obtain b t0 where d: "update_gtids_impl_do_nothing ?t = (b, t0)" by fastforce
  note d' = do_nothing_post [OF inv k d]
  show ?thesis
  proof (cases "b \<or> commit_error ?t \<and> update_gtids_impl_check_skip_gtid_rollback t0")
    case True
    have skip: "skip_gtid_rollback t0 = skip_gtid_rollback ?t"
      using d by (auto simp: update_gtids_impl_do_nothing_def spec_set_type_def split: if_splits)
    have "?F (view ts st) = view ts st"
      using True d'(2) skip spec_finish_none [OF k]
      by (auto simp: spec_member_def member_of_def update_gtids_impl_check_skip_gtid_rollback_def)
    then have "end_post ?F ts k [] st t0 st" using d'(1) by (simp add: end_post_def)
    then show ?thesis using True d by (auto intro!: exI [of _ t0] exI [of _ st])
  next
    case False
    then have t0: "t0 = ?t" using d'(3) by simp
    obtain m t1 st1 where u: "update_owned env (\<not> commit_error ?t) (update_gtids_impl_begin ?t) (?t, st) = Some (m, t1, st1)"
        "end_post (spec_finish (\<not> commit_error ?t) (unlogged env ?t) k) ts k [] st t1 st1" using update_owned_post [OF inv k] by blast
    have "spec_finish (\<not> commit_error ?t) (unlogged env ?t) k = ?F"
      using False t0 by (auto simp: fun_eq_iff spec_member_def member_of_def update_gtids_impl_check_skip_gtid_rollback_def)
    then obtain t' st' where e: "update_gtids_impl_end m (t1, st1) = (t', st')" "end_post ?F ts k [] st t' st'"
      using update_gtids_impl_end_post [OF u(2) k, of m] by auto
    have "commit_group_loop env (?t # us) st = do { (us', st3) \<leftarrow> commit_group_loop env us st'; Some (t' # us', st3) }"
      using False d t0 u(1) e(1) by auto
    with e(2) show ?thesis by blast
  qed
qed

lemma map_nth_update: "k \<notin> set ks \<Longrightarrow> map ((!) (xs[k := x])) ks = map ((!) xs) ks"
  by (intro map_cong refl nth_list_update_neq) auto

lemma commit_group_loop_laws:
  assumes "sys_inv ts st" and "distinct ks" and "\<forall>k \<in> set ks. k < length ts"
  shows "\<exists>us st'. commit_group_loop env (map ((!) ts) ks) st = Some (us, st') \<and> length us = length ks \<and>
    sys_inv (put ts ks us) st' \<and> st_frame st st' \<and> sidno_trace st' = sidno_trace st \<and>
    (no_gaps st \<longrightarrow> no_gaps st') \<and> view (put ts ks us) st' = fold spec_member (map (member_of env ts) ks) (view ts st)"
  using assms
proof (induction ks arbitrary: ts st)
  case Nil
  then show ?case by simp
next
  case (Cons k ks)
  then have k: "k < length ts" by simp
  obtain t' st1 where m: "commit_group_loop env ((ts ! k) # map ((!) ts) ks) st =
        do { (us', st3) \<leftarrow> commit_group_loop env (map ((!) ts) ks) st1; Some (t' # us', st3) }"
      "end_post (spec_member (member_of env ts k)) ts k [] st t' st1" using commit_group_member [OF Cons.prems(1) k] by blast
  have ks: "map ((!) ts) ks = map ((!) (ts[k := t'])) ks" using Cons.prems(2) by (simp add: map_nth_update)
  have "sys_inv (ts[k := t']) st1" using m(2) by (simp add: end_post_def)
  then obtain us st' where u: "commit_group_loop env (map ((!) ts) ks) st1 = Some (us, st')" "length us = length ks"
      "sys_inv (put (ts[k := t']) ks us) st'" "st_frame st1 st'" "sidno_trace st' = sidno_trace st1" "no_gaps st1 \<longrightarrow> no_gaps st'"
      "view (put (ts[k := t']) ks us) st' = fold spec_member (map (member_of env ts) ks) (view (ts[k := t']) st1)"
    using Cons.IH [of "ts[k := t']" st1] Cons.prems unfolding ks by (auto simp: member_of_update)
  have "commit_group_loop env (map ((!) ts) (k # ks)) st = Some (t' # us, st')" using m(1) u(1) by simp
  with u m(2) show ?case by (auto simp: end_post_def elim: st_frame_trans)
qed

lemma group_in_range:
  assumes inv: "sys_inv ts st" and ks: "\<forall>k \<in> set ks. k < length ts"
  shows "\<forall>t \<in> set (map ((!) ts) ks). fst (owned_gtid t) \<noteq> OWNED_SIDNO_GTID_SET"
    and "group_sidnos (map ((!) ts) ks) \<subseteq> {..< length (commit_group_sidnos st)}"
proof -
  have ok: "session_ok (n_sidnos st) (ts ! k)" if "k \<in> set ks" for k using inv ks that by (auto simp: sys_inv_def)
  then show "\<forall>t \<in> set (map ((!) ts) ks). fst (owned_gtid t) \<noteq> OWNED_SIDNO_GTID_SET"
    by (fastforce simp: session_ok_def is_anonymous_def OWNED_SIDNO_GTID_SET_def OWNED_SIDNO_ANONYMOUS_def)
  have "s \<le> n_sidnos st" if "s \<in> group_sidnos (map ((!) ts) ks)" for s
    using that ok by (fastforce simp: group_sidnos_def session_ok_def is_anonymous_def OWNED_SIDNO_ANONYMOUS_def)
  moreover have "n_sidnos st < length (commit_group_sidnos st)" using inv by (simp add: sys_inv_def st_ok_def)
  ultimately show "group_sidnos (map ((!) ts) ks) \<subseteq> {..< length (commit_group_sidnos st)}" by fastforce
qed

lemma sys_inv_flags:
  assumes "sys_inv ts st" and "length fl = length (commit_group_sidnos st)"
  shows "sys_inv ts (st\<lparr>sidno_trace := tr, commit_group_sidnos := fl\<rparr>)"
  by (rule sys_inv_view [OF assms(1)]) (use assms in \<open>auto simp: sys_inv_def st_ok_def same_view_def\<close>)

lemma sys_inv_locks: "sys_inv ts st \<Longrightarrow> i < length (commit_group_sidnos st) \<Longrightarrow> i < n_sid_locks st"
  by (simp add: sys_inv_def st_ok_def)

text \<open>
  The SIDNOs of the group are locked once each and in increasing order, before anything is changed,
  and after the last change each of them is signalled and unlocked.
\<close>

lemma update_commit_group_laws:
  assumes inv: "sys_inv ts st" and un: "unmarked st" and ks: "distinct ks" "\<forall>k \<in> set ks. k < length ts"
  defines "grp \<equiv> map ((!) ts) ks"
  defines "ns \<equiv> sidno_list (length (commit_group_sidnos st)) grp"
  obtains us fl st' where "commit_group_loop env grp (st\<lparr>sidno_trace := sidno_trace st @ map Lock_sidno ns, commit_group_sidnos := fl\<rparr>) = Some (us, st')"
    and "update_commit_group env grp st =
      Some (us, st'\<lparr>sidno_trace := sidno_trace st @ map Lock_sidno ns @ unlock_events ns,
                    commit_group_sidnos := commit_group_sidnos st\<rparr>)"
    and "length us = length ks"
    and "sys_inv (put ts ks us) (st'\<lparr>sidno_trace := sidno_trace st @ map Lock_sidno ns @ unlock_events ns,
                    commit_group_sidnos := commit_group_sidnos st\<rparr>)"
    and "st_frame st (st'\<lparr>commit_group_sidnos := commit_group_sidnos st\<rparr>)" and "no_gaps st \<longrightarrow> no_gaps st'"
    and "view (put ts ks us) st' = fold spec_member (map (member_of env ts) ks) (view ts st)"
proof -
  let ?old = "commit_group_sidnos st"
  note r = group_in_range [OF inv ks(2)]
  obtain fl where fl: "mark_sidnos grp ?old = Some fl" "length fl = length ?old"
      "\<And>i. i < length ?old \<Longrightarrow> fl ! i \<longleftrightarrow> ?old ! i \<or> i \<in> group_sidnos grp"
    using mark_sidnos_laws [OF r] unfolding grp_def by blast
  have old: "\<not> ?old ! i" if "i < length ?old" for i using un nth_mem [OF that] unfolding unmarked_def by (rule bspec)
  have marked: "marked fl = ns" unfolding marked_def ns_def sidno_list_def fl(2) by (rule filter_cong) (use fl(3) old in auto)
  have range: "\<forall>n \<in> set ns. n < n_sid_locks st"
    using sys_inv_locks [OF inv] by (auto simp: ns_def sidno_list_def)
  let ?st1 = "st\<lparr>sidno_trace := sidno_trace st @ map Lock_sidno ns, commit_group_sidnos := fl\<rparr>"
  have lock: "update_gtids_impl_lock_sidnos grp st = Some ?st1"
    using each_sidno_event [of ns "st\<lparr>commit_group_sidnos := fl\<rparr>" Lock_sidno] range fl(1) marked
    by (simp add: update_gtids_impl_lock_sidnos_def lock_sidno_def)
  obtain us st' where u: "commit_group_loop env grp ?st1 = Some (us, st')" "length us = length ks"
      "sys_inv (put ts ks us) st'" "st_frame ?st1 st'" "sidno_trace st' = sidno_trace ?st1" "no_gaps ?st1 \<longrightarrow> no_gaps st'"
      "view (put ts ks us) st' = fold spec_member (map (member_of env ts) ks) (view ts ?st1)"
    using commit_group_loop_laws [OF sys_inv_flags [OF inv fl(2)] ks] unfolding grp_def by blast
  have flags: "commit_group_sidnos st' = fl" "n_sid_locks st' = n_sid_locks st" using u(4) by (auto simp: st_frame_def)
  have "unmark ns fl = ?old"
    by (rule nth_equalityI) (use unmark_nth [of ns fl] fl old r(2) [folded grp_def] in \<open>auto simp: ns_def sidno_list_def group_sidnos_def\<close>)
  then have unl: "update_gtids_impl_broadcast_and_unlock_sidnos st' =
      Some (st'\<lparr>sidno_trace := sidno_trace st @ map Lock_sidno ns @ unlock_events ns, commit_group_sidnos := ?old\<rparr>)"
    using broadcast_and_unlock_laws [of ns st'] range flags marked u(5)
    by (simp add: update_gtids_impl_broadcast_and_unlock_sidnos_def)
  show thesis
  proof (rule that [OF u(1)])
    show "update_commit_group env grp st =
        Some (us, st'\<lparr>sidno_trace := sidno_trace st @ map Lock_sidno ns @ unlock_events ns, commit_group_sidnos := ?old\<rparr>)"
      using lock u(1) unl by (simp add: update_commit_group_def)
    show "sys_inv (put ts ks us) (st'\<lparr>sidno_trace := sidno_trace st @ map Lock_sidno ns @ unlock_events ns, commit_group_sidnos := ?old\<rparr>)"
      by (rule sys_inv_flags [OF u(3)]) (use flags fl(2) in simp)
    show "st_frame st (st'\<lparr>commit_group_sidnos := ?old\<rparr>)" using u(4) by (simp add: st_frame_def)
    show "no_gaps st \<longrightarrow> no_gaps st'" using u(6) by (simp add: no_gaps_def)
    show "view (put ts ks us) st' = fold spec_member (map (member_of env ts) ks) (view ts st)" using u(7) by simp
  qed (rule u(2))
qed

section \<open>The group and its members one by one\<close>

text \<open>What would happen to the sessions of the group without a group.\<close>

fun one_by_one :: "end_env \<Rightarrow> thd list \<Rightarrow> gtid_state \<Rightarrow> (thd list \<times> gtid_state) option" where
  "one_by_one env [] st = Some ([], st)"
| "one_by_one env (t # ts) st = do {
     (t1, st1) \<leftarrow> (if commit_error t then update_on_rollback env (t, st) else update_on_commit env (t, st));
     (ts1, st2) \<leftarrow> one_by_one env ts st1;
     Some (t1 # ts1, st2) }"

text \<open>The state without the trace of the locks and without the marks.\<close>

definition core :: "gtid_state \<Rightarrow> gtid_state" where
  "core st = st\<lparr>sidno_trace := [], commit_group_sidnos := []\<rparr>"

definition with_locks :: "lock_event list \<Rightarrow> bool list \<Rightarrow> gtid_state \<Rightarrow> gtid_state" where
  "with_locks tr fl st = st\<lparr>sidno_trace := tr, commit_group_sidnos := fl\<rparr>"

lemma core_eq: "core a = core b \<longleftrightarrow> (\<exists>tr fl. a = with_locks tr fl b)"
proof
  assume "core a = core b"
  then have "a = with_locks (sidno_trace a) (commit_group_sidnos a) b" by (cases a; cases b) (simp add: core_def with_locks_def)
  then show "\<exists>tr fl. a = with_locks tr fl b" by blast
qed (auto simp: core_def with_locks_def)

lemma core_with_locks [simp]: "core (with_locks tr fl st) = core st"
  by (simp add: core_def with_locks_def)

text \<open>No change at the end of a transaction looks at them.\<close>

lemma update_owned_with_locks:
  "update_owned env c m (t, with_locks tr fl st) =
     map_option (\<lambda>(b, t', st'). (b, t', with_locks tr fl st')) (update_owned env c m (t, st))"
proof -
  have "commit_gtid env t (with_locks tr fl st\<lparr>owned_gtids := og\<rparr>) =
      map_option (with_locks tr fl) (commit_gtid env t (st\<lparr>owned_gtids := og\<rparr>))" for og
    by (cases "owned_gtid t") (auto simp: commit_gtid_def with_locks_def Let_def split: bind_splits)
  moreover have "rollback_gtid t (with_locks tr fl st\<lparr>owned_gtids := og\<rparr>) =
      with_locks tr fl (rollback_gtid t (st\<lparr>owned_gtids := og\<rparr>))" for og
    by (cases "owned_gtid t") (simp add: rollback_gtid_def with_locks_def)
  moreover have "owned_gtids (with_locks tr fl st) = owned_gtids st" by (simp add: with_locks_def)
  ultimately have "update_gtids_impl_own_gtid env c (t, with_locks tr fl st) =
      map_option (\<lambda>(t', st'). (t', with_locks tr fl st')) (update_gtids_impl_own_gtid env c (t, st))"
    by (cases "owned_gtid t") (auto simp: update_gtids_impl_own_gtid_def Let_def split: bind_splits)
  moreover have "update_gtids_impl_own_anonymous env m (t, with_locks tr fl st) =
      (\<lambda>(b, t', st'). (b, t', with_locks tr fl st')) (update_gtids_impl_own_anonymous env m (t, st))"
    by (simp add: update_gtids_impl_own_anonymous_def Let_def release_anonymous_ownership_def with_locks_def)
  ultimately show ?thesis
    by (auto simp: update_owned_def Let_def split: bind_splits option.splits)
qed

lemma update_end_with_locks:
  "update_gtids_impl_end m (t, with_locks tr fl st) = map_prod id (with_locks tr fl) (update_gtids_impl_end m (t, st))"
  by (simp add: update_gtids_impl_end_def end_gtid_violating_transaction_def Let_def with_locks_def
      end_automatic_gtid_violating_transaction_def end_anonymous_gtid_violating_transaction_def)

lemma with_locks_simps [simp]:
  "with_locks tr fl (with_locks tr' fl' st) = with_locks tr fl st"
  "n_sid_locks (with_locks tr fl st) = n_sid_locks st" "sidno_trace (with_locks tr fl st) = tr"
  "commit_group_sidnos (with_locks tr fl st) = fl" "with_locks (sidno_trace st) (commit_group_sidnos st) st = st"
  by (simp_all add: with_locks_def)

lemma trace_with_locks: "st\<lparr>sidno_trace := tr\<rparr> = with_locks tr (commit_group_sidnos st) st"
  by (simp add: with_locks_def)

lemma with_locks_trace: "(with_locks tr fl st)\<lparr>sidno_trace := tr'\<rparr> = with_locks tr' fl st"
  by (simp add: with_locks_def)

definition skips :: "thd \<Rightarrow> bool" where
  "skips t \<longleftrightarrow> commit_error t \<and> skip_gtid_rollback t"

lemma member_alone:
  assumes inv: "sys_inv ts st" and k: "k < length ts" and ok: "\<not> skips (ts ! k)"
  shows "\<exists>t' st'. (if commit_error (ts ! k) then update_on_rollback env (ts ! k, st) else update_on_commit env (ts ! k, st)) =
      Some (t', st') \<and> sys_inv (ts[k := t']) st' \<and>
    (\<forall>tr fl us. commit_group_loop env ((ts ! k) # us) (with_locks tr fl st) =
      do { (us', st3) \<leftarrow> commit_group_loop env us (with_locks tr fl st'); Some (t' # us', st3) })"
proof -
  let ?t = "ts ! k" and ?c = "\<not> commit_error (ts ! k)" and ?s = "fst (owned_gtid (ts ! k))"
  have impl: "(if commit_error ?t then update_on_rollback env (?t, st) else update_on_commit env (?t, st)) =
      update_gtids_impl env ?c (?t, st)"
    using ok by (auto simp: skips_def update_on_rollback_def update_on_commit_def update_gtids_impl_check_skip_gtid_rollback_def)
  obtain t' st' where u: "update_gtids_impl env ?c (?t, st) = Some (t', st')" "sys_inv (ts[k := t']) st'"
    using update_gtids_impl_post [OF inv k, of env ?c] by (auto simp: end_post_def)
  obtain b t0 where d: "update_gtids_impl_do_nothing ?t = (b, t0)" by fastforce
  have grp: "commit_group_loop env (?t # us) (with_locks tr fl st) =
      do { (us', st3) \<leftarrow> commit_group_loop env us (with_locks tr fl st'); Some (t' # us', st3) }" for tr fl us
  proof (cases b)
    case True
    then show ?thesis using d u(1) by (simp add: update_gtids_impl_def)
  next
    case False
    then have t0: "t0 = ?t" using do_nothing_post(3) [OF inv k d] by simp
    have skip: "\<not> (commit_error ?t \<and> update_gtids_impl_check_skip_gtid_rollback ?t)"
      using ok by (simp add: skips_def update_gtids_impl_check_skip_gtid_rollback_def)
    obtain m t1 st1 where o: "update_owned env ?c (update_gtids_impl_begin ?t) (?t, st) = Some (m, t1, st1)"
        "n_sid_locks st1 = n_sid_locks st"
      using update_owned_post [OF inv k, of env ?c "update_gtids_impl_begin ?t"] by (auto simp: end_post_def st_frame_def)
    obtain t2 st2 where e: "update_gtids_impl_end m (t1, st1) = (t2, st2)" by fastforce
    have "t' = t2 \<and> with_locks tr fl st' = with_locks tr fl st2"
    proof (cases "?s > 0")
      case True
      have n: "nat ?s < n_sid_locks st" "nat ?s < n_sid_locks st1"
        using sys_inv_sidno [OF inv k True] o(2) by simp_all
      show ?thesis
        using u(1) d False t0 True n o(1) e
        by (auto simp: update_gtids_impl_def Let_def lock_ok trace_with_locks update_owned_with_locks with_locks_trace
            update_end_with_locks)
    next
      case s: False
      then show ?thesis using u(1) d False o(1) e by (simp add: update_gtids_impl_def)
    qed
    then show ?thesis
      using d False t0 skip o(1) e by (auto simp: update_owned_with_locks update_end_with_locks)
  qed
  show ?thesis unfolding impl using u grp by blast
qed

text \<open>
  A session with an error that skips its rollback: alone it is left as it is; in the group its
  \<open>GTID_NEXT\<close> becomes undefined when it owns nothing, has no violation and \<open>GTID_NEXT\<close> is a GTID.
\<close>

lemma member_skips:
  assumes "skips t"
  shows "update_on_rollback env (t, st) = Some (t, st)"
    and "commit_group_loop env (t # us) st =
      do { (us', st3) \<leftarrow> commit_group_loop env us st; Some (snd (update_gtids_impl_do_nothing t) # us', st3) }"
  using assms
  by (auto simp: skips_def update_on_rollback_def update_gtids_impl_check_skip_gtid_rollback_def update_gtids_impl_do_nothing_def
      spec_set_type_def split: if_splits)

definition in_group :: "thd \<Rightarrow> thd \<Rightarrow> thd" where
  "in_group t t' = (if skips t then snd (update_gtids_impl_do_nothing t) else t')"

lemma commit_group_one_by_one:
  assumes "sys_inv ts st" and "distinct ks" and "\<forall>k \<in> set ks. k < length ts"
  shows "\<exists>us st'. one_by_one env (map ((!) ts) ks) st = Some (us, st') \<and> length us = length ks \<and>
    (\<forall>tr fl. commit_group_loop env (map ((!) ts) ks) (with_locks tr fl st) =
      Some (map2 in_group (map ((!) ts) ks) us, with_locks tr fl st'))"
  using assms
proof (induction ks arbitrary: ts st)
  case Nil
  then show ?case by simp
next
  case (Cons k ks)
  then have k: "k < length ts" by simp
  show ?case
  proof (cases "skips (ts ! k)")
    case True
    obtain us st' where "one_by_one env (map ((!) ts) ks) st = Some (us, st')" "length us = length ks"
        "\<And>tr fl. commit_group_loop env (map ((!) ts) ks) (with_locks tr fl st) = Some (map2 in_group (map ((!) ts) ks) us, with_locks tr fl st')"
      using Cons.IH [OF Cons.prems(1)] Cons.prems(2,3) by auto
    then show ?thesis using member_skips [OF True] True by (auto simp: skips_def in_group_def simp del: commit_group_loop.simps)
  next
    case False
    obtain t' st1 where m: "(if commit_error (ts ! k) then update_on_rollback env (ts ! k, st) else update_on_commit env (ts ! k, st)) =
        Some (t', st1)" "sys_inv (ts[k := t']) st1"
      "\<And>tr fl us. commit_group_loop env ((ts ! k) # us) (with_locks tr fl st) =
        do { (us', st3) \<leftarrow> commit_group_loop env us (with_locks tr fl st1); Some (t' # us', st3) }"
      using member_alone [OF Cons.prems(1) k False, of env] by blast
    have ks: "map ((!) (ts[k := t'])) ks = map ((!) ts) ks" using Cons.prems(2) by (simp add: map_nth_update)
    obtain us st' where "one_by_one env (map ((!) ts) ks) st1 = Some (us, st')" "length us = length ks"
        "\<And>tr fl. commit_group_loop env (map ((!) ts) ks) (with_locks tr fl st1) = Some (map2 in_group (map ((!) ts) ks) us, with_locks tr fl st')"
      using Cons.IH [OF m(2)] Cons.prems(2,3) unfolding ks by auto
    then show ?thesis using m(1,3) False by (cases "commit_error (ts ! k)") (auto simp: in_group_def simp del: commit_group_loop.simps)
  qed
qed

end
