(* ===== verification/Gtid_Execution_Laws.thy ===== *)
theory Gtid_Execution_Laws
  imports Gtid_Execution Gtid_Commit_Laws
begin

text \<open>
  The laws of \<open>set_gtid_next\<close>, which waits while another session owns the GTID, of the checks before a
  statement, and of \<open>wait_for_gtid_set\<close>.
\<close>

section \<open>Setting GTID_NEXT to a GTID\<close>

definition lock_unlock :: "nat \<Rightarrow> gtid_state \<Rightarrow> gtid_state" where
  "lock_unlock s st = st\<lparr>sidno_trace := sidno_trace st @ [Lock_sidno s, Unlock_sidno s]\<rparr>"

lemma lock_unlock_simps [simp]:
  "st_ok (lock_unlock s st) = st_ok st" "n_sidnos (lock_unlock s st) = n_sidnos st"
  "executed_gtids (lock_unlock s st) = executed_gtids st" "owned_gtids (lock_unlock s st) = owned_gtids st"
  "st_maps (lock_unlock s st) = st_maps st"
  by (simp_all add: lock_unlock_def)

lemma set_gtid_next_pass_off:
  "set_gtid_next_pass env GTID_MODE_OFF spec (t, st) =
     Some (Pass_error ER_CANT_SET_GTID_NEXT_TO_GTID_WHEN_GTID_MODE_IS_OFF, t, st)"
  by (cases "spec_gtid spec") (simp add: set_gtid_next_pass_def)

lemma set_gtid_next_pass_busy:
  assumes st: "st_ok st" and spec: "spec_gtid spec = (s, g)" and s: "1 \<le> s" "s \<le> n_sidnos st" and g: "gno_ok g"
    and mode: "mode \<noteq> GTID_MODE_OFF"
  shows "(s, g) \<in> gtids (executed_gtids st) \<Longrightarrow>
      set_gtid_next_pass env mode spec (t, st) = Some (Pass_done, t\<lparr>gtid_next := spec\<rparr>, lock_unlock s st)"
    and "(s, g) \<notin> gtids (executed_gtids st) \<Longrightarrow> owned_gno (owned_gtids st) s g \<Longrightarrow>
      set_gtid_next_pass env mode spec (t, st) = Some (Pass_wait, t, lock_unlock s st)"
  using is_executed_laws [of "st\<lparr>sidno_trace := sidno_trace st @ [Lock_sidno s]\<rparr>" s g]
    is_owned_laws [of "st\<lparr>sidno_trace := sidno_trace st @ [Lock_sidno s]\<rparr>" s g] assms st_ok_locks [OF st s(2)]
  by (simp_all add: set_gtid_next_pass_def lock_ok lock_unlock_def)

lemma set_gtid_next_pass_free:
  assumes st: "st_ok st" and spec: "spec_gtid spec = (s, g)" and s: "1 \<le> s" "s \<le> n_sidnos st" and g: "gno_ok g"
    and mode: "mode \<noteq> GTID_MODE_OFF" and free: "\<not> used_gno st s g"
  obtains og where "set_gtid_next_pass env mode spec (t, st) =
      Some (Pass_done, (if node_ok env \<and> cell_ok env then own_session st s g t else clear_owned_gtids t)\<lparr>gtid_next := spec\<rparr>,
            lock_unlock s (st\<lparr>owned_gtids := og\<rparr>))"
    and "og_inv og" and "og_max_sidno og = og_max_sidno (owned_gtids st)"
    and "og_nodes og = (if node_ok env \<and> cell_ok env
      then (nodes_of st)(s := add_mset (owner_node g (thread_id t)) (nodes_of st s)) else nodes_of st)"
proof -
  let ?st1 = "st\<lparr>sidno_trace := sidno_trace st @ [Lock_sidno s]\<rparr>"
  have st1: "st_ok ?st1" "s \<le> n_sidnos ?st1" using st s by simp_all
  show thesis
  proof (rule acquire_ownership_laws [OF st1(1) s(1) st1(2) g, of env t])
    fix og assume a: "acquire_ownership env s g (t, ?st1) =
        Some (if node_ok env \<and> cell_ok env
              then (RETURN_STATUS_OK, own_session ?st1 s g t, ?st1\<lparr>owned_gtids := og\<rparr>)
              else (RETURN_STATUS_REPORTED_ERROR, clear_owned_gtids t, ?st1\<lparr>owned_gtids := og\<rparr>))"
      "og_inv og" "og_max_sidno og = og_max_sidno (owned_gtids ?st1)"
      "og_nodes og = (if node_ok env \<and> cell_ok env
        then (nodes_of ?st1)(s := add_mset (owner_node g (thread_id t)) (nodes_of ?st1 s)) else nodes_of ?st1)"
    show thesis
    proof (rule that)
      show "set_gtid_next_pass env mode spec (t, st) =
          Some (Pass_done, (if node_ok env \<and> cell_ok env then own_session st s g t else clear_owned_gtids t)\<lparr>gtid_next := spec\<rparr>,
            lock_unlock s (st\<lparr>owned_gtids := og\<rparr>))"
        using is_executed_laws [OF st1(1) s(1), of g] is_owned_laws [OF st1(1) s(1) st1(2) g] free mode spec
          st_ok_locks [OF st s(2)] a(1)
        by (simp add: set_gtid_next_pass_def lock_ok lock_unlock_def own_session_def)
    qed (use a in simp_all)
  qed
qed

section \<open>The loop of \<open>set_gtid_next\<close>\<close>

text \<open>
  The state after the first \<open>i\<close> waits, while the GTID is owned by another session before each of them.
\<close>

fun waiting_state :: "wait_env \<Rightarrow> nat \<Rightarrow> nat \<Rightarrow> nat \<Rightarrow> gtid_state \<Rightarrow> gtid_state" where
  "waiting_state env s i 0 st = st"
| "waiting_state env s i (Suc n) st = waiting_state env s (i + 1) n (others env i (lock_unlock s st))"

text \<open>What the other sessions do keeps the state well-formed, with the SIDNO among its SIDNOs.\<close>

definition others_ok :: "wait_env \<Rightarrow> nat \<Rightarrow> bool" where
  "others_ok env s \<longleftrightarrow> (\<forall>i st. st_ok st \<and> s \<le> n_sidnos st \<longrightarrow> st_ok (others env i st) \<and> s \<le> n_sidnos (others env i st))"

lemma others_okD: "others_ok env s \<Longrightarrow> st_ok st \<Longrightarrow> s \<le> n_sidnos st \<Longrightarrow>
    st_ok (others env i (lock_unlock s st)) \<and> s \<le> n_sidnos (others env i (lock_unlock s st))"
  by (simp add: others_ok_def)

definition must_wait :: "wait_env \<Rightarrow> nat \<Rightarrow> nat \<Rightarrow> int \<Rightarrow> gtid_state \<Rightarrow> bool" where
  "must_wait env i s g st \<longleftrightarrow>
     wait_mode env i \<noteq> GTID_MODE_OFF \<and> (s, g) \<notin> gtids (executed_gtids st) \<and> owned_gno (owned_gtids st) s g \<and> \<not> interrupted env i"

lemma set_gtid_next_loop_wait:
  assumes "st_ok st" and "spec_gtid spec = (s, g)" and "1 \<le> s" "s \<le> n_sidnos st" and "gno_ok g" and "must_wait env i s g st"
  shows "set_gtid_next_loop env spec i (t, st) = set_gtid_next_loop env spec (i + 1) (t, others env i (lock_unlock s st))"
proof -
  have "set_gtid_next_pass (wait_mem env i) (wait_mode env i) spec (t, st) = Some (Pass_wait, t, lock_unlock s st)"
    using assms by (intro set_gtid_next_pass_busy) (auto simp: must_wait_def)
  then show ?thesis using assms(6) by (subst set_gtid_next_loop.simps) (simp add: must_wait_def Let_def)
qed

lemma set_gtid_next_loop_waits:
  assumes "st_ok st" and spec: "spec_gtid spec = (s, g)" and s: "1 \<le> s" "s \<le> n_sidnos st" and g: "gno_ok g"
    and ok: "others_ok env s" and "\<forall>j < n. must_wait env (i + j) s g (waiting_state env s i j st)"
  shows "set_gtid_next_loop env spec i (t, st) = set_gtid_next_loop env spec (i + n) (t, waiting_state env s i n st) \<and>
    st_ok (waiting_state env s i n st) \<and> s \<le> n_sidnos (waiting_state env s i n st)"
  using assms(1,4,7)
proof (induction n arbitrary: i st)
  case 0
  then show ?case by simp
next
  case (Suc n)
  let ?st = "others env i (lock_unlock s st)"
  have first: "must_wait env i s g st" using Suc.prems(3) [rule_format, of 0] by simp
  have st: "st_ok ?st" "s \<le> n_sidnos ?st" using others_okD [OF ok Suc.prems(1,2)] by auto
  have rest: "\<forall>j < n. must_wait env (i + 1 + j) s g (waiting_state env s (i + 1) j ?st)"
  proof (intro allI impI)
    fix j assume "j < n"
    then show "must_wait env (i + 1 + j) s g (waiting_state env s (i + 1) j ?st)"
      using Suc.prems(3) [rule_format, of "Suc j"] by simp
  qed
  show ?case
    using Suc.IH [OF st rest] set_gtid_next_loop_wait [OF Suc.prems(1) spec s(1) Suc.prems(2) g first, of t]
    by simp
qed

text \<open>
  If at some time the session does not have to wait, \<open>set_gtid_next\<close> returns: with an error when GTIDs
  are off or the wait was interrupted, and with success when the GTID is executed or the session owns it.
\<close>

definition next_outcome ::
  "wait_env \<Rightarrow> nat \<Rightarrow> nat \<Rightarrow> int \<Rightarrow> gtid_specification \<Rightarrow> thd \<Rightarrow> gtid_state \<Rightarrow> gtid_next_error option \<Rightarrow> thd \<Rightarrow> gtid_state \<Rightarrow> bool" where
  "next_outcome env n s g spec t st err t' st' \<longleftrightarrow>
     (if wait_mode env n = GTID_MODE_OFF then
        err = Some ER_CANT_SET_GTID_NEXT_TO_GTID_WHEN_GTID_MODE_IS_OFF \<and> t' = t \<and> st' = st
      else if (s, g) \<in> gtids (executed_gtids st) then err = None \<and> t' = t\<lparr>gtid_next := spec\<rparr> \<and> st' = lock_unlock s st
      else if owned_gno (owned_gtids st) s g then
        err = Some Wait_interrupted \<and> t' = t \<and> st' = others env n (lock_unlock s st)
      else if node_ok (wait_mem env n) \<and> cell_ok (wait_mem env n) then
        err = None \<and> t' = (own_session st s g t)\<lparr>gtid_next := spec\<rparr> \<and> st_ok st' \<and>
        nodes_of st' = (nodes_of st)(s := add_mset (owner_node g (thread_id t)) (nodes_of st s))
      else err = None \<and> t' = (clear_owned_gtids t)\<lparr>gtid_next := spec\<rparr> \<and> st_ok st' \<and> nodes_of st' = nodes_of st)"

lemma set_gtid_next_loop_ends:
  assumes st: "st_ok st" and spec: "spec_gtid spec = (s, g)" and s: "1 \<le> s" "s \<le> n_sidnos st" and g: "gno_ok g"
    and no: "\<not> must_wait env n s g st"
  shows "\<exists>err t' st'. set_gtid_next_loop env spec n (t, st) = Some (err, t', st') \<and> next_outcome env n s g spec t st err t' st'"
proof -
  let ?pass = "set_gtid_next_pass (wait_mem env n) (wait_mode env n) spec (t, st)"
  consider (off) "wait_mode env n = GTID_MODE_OFF" | (executed) "wait_mode env n \<noteq> GTID_MODE_OFF" "(s, g) \<in> gtids (executed_gtids st)"
    | (owned) "wait_mode env n \<noteq> GTID_MODE_OFF" "(s, g) \<notin> gtids (executed_gtids st)" "owned_gno (owned_gtids st) s g" "interrupted env n"
    | (free) "wait_mode env n \<noteq> GTID_MODE_OFF" "\<not> used_gno st s g"
    using no by (auto simp: must_wait_def)
  then show ?thesis
  proof cases
    case off
    then show ?thesis
      by (subst set_gtid_next_loop.simps) (simp add: set_gtid_next_pass_off next_outcome_def)
  next
    case executed
    then show ?thesis using set_gtid_next_pass_busy(1) [OF st spec s g executed]
      by (subst set_gtid_next_loop.simps) (simp add: next_outcome_def)
  next
    case owned
    then show ?thesis using set_gtid_next_pass_busy(2) [OF st spec s g owned(1-3)]
      by (subst set_gtid_next_loop.simps) (simp add: next_outcome_def Let_def)
  next
    case free
    show ?thesis
    proof (rule set_gtid_next_pass_free [OF st spec s g free, of "wait_mem env n" t])
      fix og assume a: "?pass = Some (Pass_done, (if node_ok (wait_mem env n) \<and> cell_ok (wait_mem env n)
            then own_session st s g t else clear_owned_gtids t)\<lparr>gtid_next := spec\<rparr>, lock_unlock s (st\<lparr>owned_gtids := og\<rparr>))"
        "og_inv og" "og_max_sidno og = og_max_sidno (owned_gtids st)"
        "og_nodes og = (if node_ok (wait_mem env n) \<and> cell_ok (wait_mem env n)
          then (nodes_of st)(s := add_mset (owner_node g (thread_id t)) (nodes_of st s)) else nodes_of st)"
      have "st_ok (lock_unlock s (st\<lparr>owned_gtids := og\<rparr>))" using st_ok_owned [OF st a(2,3)] by simp
      then show ?thesis using a(1,4) free
        by (subst set_gtid_next_loop.simps) (simp add: next_outcome_def)
    qed
  qed
qed

lemma set_gtid_next_gtid:
  "fst (owned_gtid t) = 0 \<Longrightarrow> spec_type spec = GTID_GROUP \<Longrightarrow>
     set_gtid_next env spec (t, st) = set_gtid_next_loop env spec 0 (t, st)"
  by (simp add: set_gtid_next_def OWNED_SIDNO_ANONYMOUS_def)

lemma set_gtid_next_ends:
  assumes "st_ok st" and "fst (owned_gtid t) = 0" and "spec_type spec = GTID_GROUP" "spec_gtid spec = (s, g)"
    and "1 \<le> s" "s \<le> n_sidnos st" and "gno_ok g" and "others_ok env s"
    and ends: "\<not> must_wait env m s g (waiting_state env s 0 m st)"
  shows "\<exists>n \<le> m. \<exists>err t' st'. \<not> must_wait env n s g (waiting_state env s 0 n st) \<and>
    set_gtid_next env spec (t, st) = Some (err, t', st') \<and>
    next_outcome env n s g spec t (waiting_state env s 0 n st) err t' st'"
proof -
  define stop where "stop n \<longleftrightarrow> \<not> must_wait env n s g (waiting_state env s 0 n st)" for n
  define n where "n = (LEAST n. stop n)"
  have "stop m" using ends by (simp add: stop_def)
  then have "stop n" and n2: "n \<le> m" unfolding n_def by (rule LeastI, rule Least_le)
  then have n: "\<not> must_wait env n s g (waiting_state env s 0 n st)" "n \<le> m" by (simp_all add: stop_def)
  have "\<not> stop j" if "j < n" for j using that unfolding n_def by (rule not_less_Least)
  then have "\<forall>j < n. must_wait env (0 + j) s g (waiting_state env s 0 j st)" by (simp add: stop_def)
  note w = set_gtid_next_loop_waits [OF assms(1,4-8) this, of t]
  then have "st_ok (waiting_state env s 0 n st)" "s \<le> n_sidnos (waiting_state env s 0 n st)" by simp_all
  from set_gtid_next_loop_ends [OF this(1) assms(4,5) this(2) assms(7) n(1), of t] w n show ?thesis
    by (auto simp: set_gtid_next_gtid [OF assms(2,3)])
qed

section \<open>Waiting for a set of GTIDs\<close>

definition list_of :: "nat \<Rightarrow> gtid_set \<Rightarrow> int set" where
  "list_of s gs = {g. (s, g) \<in> gtids gs}"

lemma remove_intervals_for_sidno_laws:
  assumes "gs_inv todo" and "gs_inv other" and "1 \<le> s" "s \<le> get_max_sidno todo" "s \<le> get_max_sidno other"
  shows "\<exists>todo'. remove_intervals_for_sidno other s todo = Some todo' \<and> gs_inv todo' \<and>
    gtids todo' = gtids todo - {s} \<times> list_of s other \<and> get_max_sidno todo' = get_max_sidno todo \<and>
    gs_sid_map todo' = gs_sid_map todo"
proof (rule remove_gno_intervals_correct [OF assms(1,3,4) gs_inv_wf [OF assms(2,3,5)]])
  fix gs' assume "remove_gno_intervals s (m_intervals other ! (s - 1)) todo = Some gs'" "gs_inv gs'"
    "gtids gs' = gtids todo - {s} \<times> gnos (m_intervals other ! (s - 1))"
    "get_max_sidno gs' = get_max_sidno todo" "gs_sid_map gs' = gs_sid_map todo"
  then show ?thesis
    unfolding list_of_def gnos_at [OF assms(3,5), symmetric] remove_intervals_for_sidno_def
    using assms(3,5) by (simp add: ivs_at_def)
qed

text \<open>What one test of a SIDNO does to the set \<open>todo\<close>.\<close>

lemma wait_sidno_pass_laws:
  assumes st: "st_ok st" and todo: "set_fits (n_sidnos st) todo" and s: "1 \<le> s" "s \<le> get_max_sidno todo"
  shows "\<exists>todo'. wait_sidno_pass s todo st = Some (\<not> list_of s todo \<subseteq> list_of s (executed_gtids st), todo', lock_unlock s st) \<and>
    set_fits (n_sidnos st) todo' \<and> get_max_sidno todo' = get_max_sidno todo \<and>
    gtids todo' = gtids todo - {s} \<times> list_of s (executed_gtids st)"
proof -
  have e: "gs_inv (executed_gtids st)" "get_max_sidno (executed_gtids st) = n_sidnos st"
    using st by (simp_all add: st_ok_def set_ok_def)
  have n: "s \<le> n_sidnos st" using todo s(2) by (simp add: set_fits_def)
  have "gs_inv todo" "s \<le> get_max_sidno (executed_gtids st)" using todo e n by (simp_all add: set_fits_def)
  from remove_intervals_for_sidno_laws [OF this(1) e(1) s this(2)] obtain todo' where
    t: "remove_intervals_for_sidno (executed_gtids st) s todo = Some todo'" "gs_inv todo'"
      "gtids todo' = gtids todo - {s} \<times> list_of s (executed_gtids st)" "get_max_sidno todo' = get_max_sidno todo"
      "gs_sid_map todo' = gs_sid_map todo" by blast
  have "contains_sidno todo' s \<longleftrightarrow> \<not> list_of s todo \<subseteq> list_of s (executed_gtids st)"
    unfolding contains_sidno_iff [OF t(2) s(1)] t(3) by (auto simp: list_of_def)
  with t todo st_ok_locks [OF st n] show ?thesis
    by (auto simp: wait_sidno_pass_def lock_ok lock_unlock_def set_fits_def)
qed

text \<open>
  What holds between the start and the end of a part of the wait: the set \<open>todo\<close> only shrinks, and when
  there was no wait the state is the same but for the locks, and what left \<open>todo\<close> is executed.
\<close>

definition wait_post :: "gtid_set \<Rightarrow> bool \<Rightarrow> gtid_state \<Rightarrow> gtid_set \<Rightarrow> bool \<Rightarrow> gtid_state \<Rightarrow> bool" where
  "wait_post todo verified st todo' verified' st' \<longleftrightarrow>
     st_ok st' \<and> n_sidnos st \<le> n_sidnos st' \<and> set_fits (n_sidnos st') todo' \<and>
     get_max_sidno todo' = get_max_sidno todo \<and> gtids todo' \<subseteq> gtids todo \<and>
     (verified' \<longrightarrow> verified \<and> executed_gtids st' = executed_gtids st \<and> gtids todo - gtids todo' \<subseteq> gtids (executed_gtids st))"

lemma wait_post_refl: "st_ok st \<Longrightarrow> set_fits (n_sidnos st) todo \<Longrightarrow> wait_post todo v st todo v st"
  by (simp add: wait_post_def)

lemma wait_post_trans:
  "wait_post todo v st todo1 v1 st1 \<Longrightarrow> wait_post todo1 v1 st1 todo2 v2 st2 \<Longrightarrow> wait_post todo v st todo2 v2 st2"
  by (auto simp: wait_post_def)

text \<open>What the other sessions do keeps the state well-formed and does not lose SIDNOs.\<close>

definition waits_ok :: "wait_env \<Rightarrow> bool" where
  "waits_ok env \<longleftrightarrow> (\<forall>i st. st_ok st \<longrightarrow> st_ok (others env i st) \<and> n_sidnos st \<le> n_sidnos (others env i st))"

definition sidno_post :: "nat \<Rightarrow> gtid_set \<Rightarrow> bool \<Rightarrow> gtid_state \<Rightarrow> wait_result \<Rightarrow> bool" where
  "sidno_post s todo v st r \<longleftrightarrow>
     (case r of (ret, i', todo', v', st') \<Rightarrow>
        ret \<noteq> Some False \<and> (ret = None \<longrightarrow> wait_post todo v st todo' v' st' \<and> list_of s todo' = {}))"

lemma waits_okD: "waits_ok env \<Longrightarrow> st_ok st \<Longrightarrow> set_fits (n_sidnos st) todo \<Longrightarrow>
    st_ok (others env i (lock_unlock s st)) \<and> set_fits (n_sidnos (others env i (lock_unlock s st))) todo \<and>
    n_sidnos st \<le> n_sidnos (others env i (lock_unlock s st))"
  unfolding waits_ok_def set_fits_def by (metis lock_unlock_simps(1,2) order_trans)

lemma contains_list_of: "set_fits n todo \<Longrightarrow> 1 \<le> s \<Longrightarrow> contains_sidno todo s \<longleftrightarrow> list_of s todo \<noteq> {}"
  by (simp add: set_fits_def contains_sidno_iff list_of_def)

lemma wait_sidno_loop_safe:
  assumes "wait_sidno_loop env s i todo v st = Some r" and "waits_ok env" and "1 \<le> s" and "s \<le> get_max_sidno todo"
    and "st_ok st" and "set_fits (n_sidnos st) todo"
  shows "sidno_post s todo v st r"
  using assms
proof (induction rule: wait_sidno_loop.raw_induct [rotated, consumes 1, case_names step])
  case (step loop env s i todo v st r)
  note prems = step.prems
  show ?case
  proof (cases "contains_sidno todo s")
    case False
    then show ?thesis using step.hyps wait_post_refl [OF prems(4,5)] contains_list_of [OF prems(5,2)]
      by (auto simp: sidno_post_def)
  next
    case c: True
    obtain todo' where p: "wait_sidno_pass s todo st =
        Some (\<not> list_of s todo \<subseteq> list_of s (executed_gtids st), todo', lock_unlock s st)"
      "set_fits (n_sidnos st) todo'" "get_max_sidno todo' = get_max_sidno todo"
      "gtids todo' = gtids todo - {s} \<times> list_of s (executed_gtids st)"
      using wait_sidno_pass_laws [OF prems(4,5,2,3)] by blast
    have e: "gtids todo - gtids todo' \<subseteq> gtids (executed_gtids st)" unfolding p(4) by (auto simp: list_of_def)
    show ?thesis
    proof (cases "list_of s todo \<subseteq> list_of s (executed_gtids st)")
      case True
      have "list_of s todo' = {}" using True unfolding list_of_def p(4) by auto
      moreover have "r = (None, i, todo', v, lock_unlock s st)" using step.hyps c p(1) True by simp
      ultimately show ?thesis using prems(4) p(2-4) e by (auto simp: sidno_post_def wait_post_def)
    next
      case False
      let ?st = "others env i (lock_unlock s st)"
      have st: "st_ok ?st" "set_fits (n_sidnos ?st) todo'" "n_sidnos st \<le> n_sidnos ?st" using waits_okD [OF prems(1,4) p(2)] by auto
      show ?thesis
      proof (cases "interrupted env i \<or> timed_out env i")
        case True
        then have "r = (Some True, i + 1, todo', False, ?st)" using step.hyps c p(1) False by (simp add: Let_def)
        then show ?thesis by (simp add: sidno_post_def)
      next
        case cont: False
        then have "loop env s (i + 1) todo' False ?st = Some r" using step.hyps c p(1) False by (simp add: Let_def)
        then have "sidno_post s todo' False ?st r" by (rule step.IH) (use prems(1-3) p(3) st in auto)
        then show ?thesis using p(3,4) st(3) by (auto simp: sidno_post_def wait_post_def split: prod.splits)
      qed
    qed
  qed
qed

lemma wait_sidnos_safe:
  assumes "wait_sidnos env ss i todo v st = Some r" and env: "waits_ok env"
    and "\<forall>s \<in> set ss. 1 \<le> s \<and> s \<le> get_max_sidno todo" and "st_ok st" and "set_fits (n_sidnos st) todo"
  shows "case r of (ret, i', todo', v', st') \<Rightarrow>
    ret \<noteq> Some False \<and> (ret = None \<longrightarrow> wait_post todo v st todo' v' st' \<and> (\<forall>s \<in> set ss. list_of s todo' = {}))"
  using assms(1,3-)
proof (induction ss arbitrary: i todo v st)
  case Nil
  then show ?case using wait_post_refl [of st todo v] by auto
next
  case (Cons s ss)
  obtain ret i1 todo1 v1 st1 where w: "wait_sidno_loop env s i todo v st = Some (ret, i1, todo1, v1, st1)"
      "if ret = None then wait_sidnos env ss i1 todo1 v1 st1 = Some r else r = (ret, i1, todo1, v1, st1)"
    using Cons.prems(1) by (auto split: bind_splits if_splits)
  have p: "sidno_post s todo v st (ret, i1, todo1, v1, st1)"
    using wait_sidno_loop_safe [OF w(1) env] Cons.prems by auto
  show ?case
  proof (cases "ret = None")
    case False
    then show ?thesis using w(2) p by (auto simp: sidno_post_def)
  next
    case True
    then have wp: "wait_post todo v st todo1 v1 st1" "list_of s todo1 = {}" using p by (auto simp: sidno_post_def)
    have "case r of (ret, i', todo', v', st') \<Rightarrow>
        ret \<noteq> Some False \<and> (ret = None \<longrightarrow> wait_post todo1 v1 st1 todo' v' st' \<and> (\<forall>s \<in> set ss. list_of s todo' = {}))"
      by (rule Cons.IH [of i1 todo1 v1 st1]) (use w(2) True Cons.prems wp in \<open>auto simp: wait_post_def\<close>)
    moreover have "list_of s todo' = {}" if "wait_post todo1 v1 st1 todo' v' st'" for todo' v' st'
      using that wp(2) by (auto simp: wait_post_def list_of_def)
    ultimately show ?thesis using wait_post_trans [OF wp(1)] by (auto split: prod.splits)
  qed
qed

lemma wait_all_sidnos_start:
  assumes st: "st_ok st" and todo: "set_fits (n_sidnos st) todo" and wf: "set_fits (n_sidnos st) wait_for"
  obtains todo1 where "wait_all_sidnos env gs_env_ok wait_for i todo st =
      wait_sidnos env [1 ..< Suc (get_max_sidno todo1)] i todo1 True st"
    and "set_fits (n_sidnos st) todo1" and "gtids todo1 = gtids todo \<union> gtids wait_for"
proof -
  have a: "gs_inv todo" "gs_inv wait_for" "same_sid_map todo wait_for"
    using todo wf by (auto simp: set_fits_def same_sid_map_def)
  show thesis
  proof (rule add_gtid_set_same_map [OF a, of "st_maps st"])
    fix todo1 assume "add_gtid_set gs_env_ok wait_for (st_maps st) todo = Some (RETURN_STATUS_OK, st_maps st, todo1)"
      "gs_inv todo1" "gtids todo1 = gtids todo \<union> gtids wait_for"
      "get_max_sidno todo1 = max (get_max_sidno wait_for) (get_max_sidno todo)" "gs_sid_map todo1 = gs_sid_map todo"
    then show thesis using todo wf by (intro that [of todo1]) (auto simp: wait_all_sidnos_def set_fits_def)
  qed
qed

lemma empty_todo: "\<forall>s \<in> set [1 ..< Suc (get_max_sidno todo)]. list_of s todo = {} \<Longrightarrow> gtids todo = {}"
  unfolding list_of_def set_upt by (fastforce dest: gtids_range)

lemma all_sidnos: "\<forall>s \<in> set [1 ..< Suc n]. 1 \<le> s \<and> s \<le> n"
  unfolding set_upt by simp

lemma wait_all_sidnos_safe:
  assumes "wait_all_sidnos env gs_env_ok wait_for i todo st = Some (ret, i', todo', v', st')" and "waits_ok env"
    and st: "st_ok st" "set_fits (n_sidnos st) todo" "set_fits (n_sidnos st) wait_for"
  shows "ret \<noteq> Some False" and "ret = None \<Longrightarrow> st_ok st' \<and> set_fits (n_sidnos st') todo' \<and> set_fits (n_sidnos st') wait_for"
    and "ret = None \<Longrightarrow> v' \<Longrightarrow> gtids wait_for \<subseteq> gtids (executed_gtids st')"
proof -
  obtain todo1 where t: "wait_all_sidnos env gs_env_ok wait_for i todo st =
        wait_sidnos env [1 ..< Suc (get_max_sidno todo1)] i todo1 True st"
      "set_fits (n_sidnos st) todo1" "gtids todo1 = gtids todo \<union> gtids wait_for"
    by (rule wait_all_sidnos_start [OF st])
  have r: "wait_sidnos env [1 ..< Suc (get_max_sidno todo1)] i todo1 True st = Some (ret, i', todo', v', st')"
    using assms(1) t(1) by simp
  have post: "ret \<noteq> Some False" "ret = None \<Longrightarrow> wait_post todo1 True st todo' v' st'"
      "ret = None \<Longrightarrow> \<forall>s \<in> set [1 ..< Suc (get_max_sidno todo1)]. list_of s todo' = {}"
    using wait_sidnos_safe [OF r assms(2) all_sidnos st(1) t(2)] by (auto simp del: upt_Suc set_upt)
  show "ret \<noteq> Some False" by (rule post(1))
  show "st_ok st' \<and> set_fits (n_sidnos st') todo' \<and> set_fits (n_sidnos st') wait_for" if "ret = None"
    using post(2) [OF that] st(3) by (auto simp: wait_post_def set_fits_def)
  show "gtids wait_for \<subseteq> gtids (executed_gtids st')" if "ret = None" v'
  proof -
    have "gtids todo' = {}" using empty_todo [of todo'] post(2,3) that(1) by (simp add: wait_post_def)
    then show ?thesis using post(2) that t(3) by (auto simp: wait_post_def)
  qed
qed

text \<open>
  When the wait ends with success, every GTID of the set is executed at that moment, whatever the other
  sessions did, a reset of the executed GTIDs included.
\<close>

lemma wait_verify_loop_safe:
  assumes "wait_verify_loop env mem wait_for i todo st = Some r" and "mem = gs_env_ok" and "waits_ok env" and "st_ok st"
    and "set_fits (n_sidnos st) todo" and "set_fits (n_sidnos st) wait_for" and "\<not> fst r"
  shows "st_ok (snd r) \<and> gtids wait_for \<subseteq> gtids (executed_gtids (snd r))"
  using assms
proof (induction rule: wait_verify_loop.raw_induct [rotated, consumes 1, case_names step])
  case (step loop env mem wait_for i todo st r)
  obtain ret i' todo' v' st' where a: "wait_all_sidnos env gs_env_ok wait_for i todo st = Some (ret, i', todo', v', st')"
    using step.hyps step.prems(1) by (auto split: bind_splits)
  note safe = wait_all_sidnos_safe [OF a step.prems(2-5)]
  show ?case
  proof (cases ret)
    case (Some b)
    then have "r = (b, st')" using step.hyps step.prems(1) a by simp
    then show ?thesis using safe(1) Some step.prems(6) by auto
  next
    case None
    show ?thesis
    proof (cases v')
      case True
      then have "r = (False, st')" using step.hyps step.prems(1) a None by simp
      then show ?thesis using safe(2,3) None True by simp
    next
      case False
      then have "loop env mem wait_for i' todo' st' = Some r" using step.hyps step.prems(1) a None by simp
      then show ?thesis by (rule step.IH) (use step.prems safe(2) None in auto)
    qed
  qed
qed

lemma set_with_memory_laws:
  assumes "0 < n"
  shows "gs_inv (set_with_memory sm n)" "gtids (set_with_memory sm n) = {}" "get_max_sidno (set_with_memory sm n) = 0"
    "gs_sid_map (set_with_memory sm n) = Some sm"
  using assms
  by (auto simp: set_with_memory_def gs_inv_def gtids_def get_max_sidno_def gtid_set_init_def pool_inv_def cells_used_def
      add_interval_memory_def add_interval_memory_lock_taken_def pool_init_def)

lemma set_fits_init: "set_fits n (set_with_memory 0 100)"
  using set_with_memory_laws [of 100 0] by (simp add: set_fits_def)

text \<open>
  If from some wait on the other sessions leave all GTIDs of the set executed, and the session is neither
  killed nor out of time, the wait ends with success.
\<close>

definition in_time :: "wait_env \<Rightarrow> bool" where
  "in_time env \<longleftrightarrow> (\<forall>i. \<not> interrupted env i \<and> \<not> timed_out env i)"

definition executed_after :: "wait_env \<Rightarrow> nat \<Rightarrow> (nat \<times> int) set \<Rightarrow> bool" where
  "executed_after env k W \<longleftrightarrow> (\<forall>i \<ge> k. \<forall>st. st_ok st \<longrightarrow> W \<subseteq> gtids (executed_gtids (others env i st)))"

text \<open>After \<open>i\<close> waits, more than \<open>k\<close>, all is executed; the result tells whether there was another wait.\<close>

definition live_post :: "nat \<Rightarrow> (nat \<times> int) set \<Rightarrow> nat \<Rightarrow> bool \<Rightarrow> wait_result \<Rightarrow> bool" where
  "live_post k W i v r \<longleftrightarrow>
     (case r of (ret, i', todo', v', st') \<Rightarrow>
        ret = None \<and> i \<le> i' \<and> (k < i' \<longrightarrow> W \<subseteq> gtids (executed_gtids st')) \<and> (i' = i \<longrightarrow> v' = v) \<and> (k < i \<longrightarrow> i' = i))"

lemma wait_sidno_loop_live:
  assumes env: "waits_ok env" "in_time env" "executed_after env k W" and s: "1 \<le> s"
    and "s \<le> get_max_sidno todo" and "st_ok st" and "set_fits (n_sidnos st) todo" and "gtids todo \<subseteq> W"
    and "k < i \<longrightarrow> W \<subseteq> gtids (executed_gtids st)"
  shows "\<exists>r. wait_sidno_loop env s i todo v st = Some r \<and> live_post k W i v r"
  using assms(5-)
proof (induction "Suc k - i" arbitrary: i todo v st rule: less_induct)
  case less
  show ?case
  proof (cases "contains_sidno todo s")
    case False
    then show ?thesis using less.prems(5) by (subst wait_sidno_loop.simps) (simp add: live_post_def)
  next
    case c: True
    obtain todo' where p: "wait_sidno_pass s todo st =
        Some (\<not> list_of s todo \<subseteq> list_of s (executed_gtids st), todo', lock_unlock s st)"
      "set_fits (n_sidnos st) todo'" "get_max_sidno todo' = get_max_sidno todo"
      "gtids todo' = gtids todo - {s} \<times> list_of s (executed_gtids st)"
      using wait_sidno_pass_laws [OF less.prems(2,3) s less.prems(1)] by blast
    show ?thesis
    proof (cases "list_of s todo \<subseteq> list_of s (executed_gtids st)")
      case True
      then show ?thesis using c p(1) less.prems(5) by (subst wait_sidno_loop.simps) (simp add: live_post_def)
    next
      case False
      let ?st = "others env i (lock_unlock s st)"
      have st: "st_ok ?st" "set_fits (n_sidnos ?st) todo'" using waits_okD [OF env(1) less.prems(2) p(2)] by auto
      have i: "i \<le> k" using False less.prems(4,5) unfolding list_of_def by (cases "i \<le> k") auto
      have ex: "k < i + 1 \<longrightarrow> W \<subseteq> gtids (executed_gtids ?st)"
        using env(3) less.prems(2) by (auto simp: executed_after_def)
      have "\<exists>r. wait_sidno_loop env s (i + 1) todo' False ?st = Some r \<and> live_post k W (i + 1) False r"
        by (rule less.hyps) (use i p(3,4) less.prems(1,4) st ex in auto)
      then obtain r where r: "wait_sidno_loop env s (i + 1) todo' False ?st = Some r" "live_post k W (i + 1) False r" by blast
      have "wait_sidno_loop env s i todo v st = Some r"
        using c p(1) False env(2) r(1) by (subst wait_sidno_loop.simps) (simp add: Let_def in_time_def)
      moreover have "live_post k W i v r" using r(2) i by (auto simp: live_post_def split: prod.splits)
      ultimately show ?thesis by blast
    qed
  qed
qed

lemma wait_sidnos_live:
  assumes env: "waits_ok env" "in_time env" "executed_after env k W"
    and "\<forall>s \<in> set ss. 1 \<le> s \<and> s \<le> get_max_sidno todo" and "st_ok st" and "set_fits (n_sidnos st) todo"
    and "gtids todo \<subseteq> W" and "k < i \<longrightarrow> W \<subseteq> gtids (executed_gtids st)"
  shows "\<exists>r. wait_sidnos env ss i todo v st = Some r \<and> live_post k W i v r"
  using assms(4-)
proof (induction ss arbitrary: i todo v st)
  case Nil
  then show ?case by (simp add: live_post_def)
next
  case (Cons s ss)
  have s: "1 \<le> s" "s \<le> get_max_sidno todo" using Cons.prems(1) by auto
  obtain i1 todo1 v1 st1 where w: "wait_sidno_loop env s i todo v st = Some (None, i1, todo1, v1, st1)"
      "live_post k W i v (None, i1, todo1, v1, st1)"
    using wait_sidno_loop_live [OF env s Cons.prems(2-5), of v] by (auto simp: live_post_def)
  have p: "wait_post todo v st todo1 v1 st1"
    using wait_sidno_loop_safe [OF w(1) env(1) s Cons.prems(2,3)] by (simp add: sidno_post_def)
  have "\<exists>r. wait_sidnos env ss i1 todo1 v1 st1 = Some r \<and> live_post k W i1 v1 r"
    by (rule Cons.IH) (use p w(2) Cons.prems in \<open>auto simp: wait_post_def live_post_def\<close>)
  then obtain r where "wait_sidnos env ss i1 todo1 v1 st1 = Some r" "live_post k W i1 v1 r" by blast
  with w show ?case by (auto simp: live_post_def split: prod.splits)
qed

lemma wait_verify_loop_live:
  assumes env: "waits_ok env" "in_time env" "executed_after env k (gtids wait_for)"
    and "st_ok st" and "set_fits (n_sidnos st) todo" and "set_fits (n_sidnos st) wait_for" and "gtids todo \<subseteq> gtids wait_for"
    and "k < i \<longrightarrow> gtids wait_for \<subseteq> gtids (executed_gtids st)"
  shows "\<exists>st'. wait_verify_loop env gs_env_ok wait_for i todo st = Some (False, st')"
  using assms(4-)
proof (induction "Suc k - i" arbitrary: i todo st rule: less_induct)
  case less
  obtain todo1 where t: "wait_all_sidnos env gs_env_ok wait_for i todo st =
        wait_sidnos env [1 ..< Suc (get_max_sidno todo1)] i todo1 True st"
      "set_fits (n_sidnos st) todo1" "gtids todo1 = gtids todo \<union> gtids wait_for"
    by (rule wait_all_sidnos_start [OF less.prems(1-3)])
  have "gtids todo1 \<subseteq> gtids wait_for" using t(3) less.prems(4) by auto
  from wait_sidnos_live [OF env all_sidnos less.prems(1) t(2) this less.prems(5), of True] t(1)
  obtain i' todo' v' st' where w: "wait_all_sidnos env gs_env_ok wait_for i todo st = Some (None, i', todo', v', st')"
      "live_post k (gtids wait_for) i True (None, i', todo', v', st')" by (auto simp: live_post_def)
  show ?case
  proof (cases v')
    case True
    then show ?thesis using w(1) by (subst wait_verify_loop.simps) simp
  next
    case False
    have p: "wait_post todo1 True st todo' v' st'"
      using wait_sidnos_safe [OF _ env(1) all_sidnos less.prems(1) t(2)] w(1) t(1) by fastforce
    have i: "i \<le> k" "i < i'" "k < i' \<longrightarrow> gtids wait_for \<subseteq> gtids (executed_gtids st')"
      using w(2) False by (auto simp: live_post_def)
    have "\<exists>st''. wait_verify_loop env gs_env_ok wait_for i' todo' st' = Some (False, st'')"
      by (rule less.hyps)
        (use i p t(3) less.prems wait_all_sidnos_safe(2) [OF w(1) env(1) less.prems(1-3)] in \<open>auto simp: wait_post_def\<close>)
    then show ?thesis using w(1) False by (subst wait_verify_loop.simps) simp
  qed
qed

end
