(* ===== verification/Gtid_Steps.thy ===== *)
theory Gtid_Steps
  imports Gtid_Growth_Laws Gtid_Group_Commit Gtid_Execution_Laws
begin

text \<open>
  The steps of a server: the sessions and the GTID state with one rule for each operation, in any order
  and for any session. Every reachable state satisfies the invariant, and every step is a step of the
  specification.
\<close>

section \<open>The step relation\<close>

text \<open>
  Each operation is atomic under the locks it takes; a wait of \<open>set_gtid_next\<close> is a pass that changes nothing
  and is tried again later. The flag \<open>mem\<close> says that there is always memory for an owner. A session can
  change its other fields at any time.

  A new GTID gets the number that the context of the transaction gives, as the certification of Group
  Replication does, or the first free one when this is 0. \<open>generate_automatic_gtid\<close> does not check a given
  number; in these steps it is one that nobody has used. So every GTID has at most one owner, which
  \<^verbatim>\<open>sql/rpl_gtid.h\<close> says of a server without Group Replication; what a number in use does is shown apart.
\<close>

inductive sys_step :: "bool \<Rightarrow> operation \<Rightarrow> thd list \<times> gtid_state \<Rightarrow> thd list \<times> gtid_state \<Rightarrow> bool" for mem :: bool where
  automatic: "k < length ts \<Longrightarrow> fst (owned_gtid (ts ! k)) = 0 \<Longrightarrow> specified \<le> n_sidnos st \<Longrightarrow>
    (mem \<longrightarrow> node_ok env \<and> cell_ok env) \<Longrightarrow>
    gno = 0 \<or> gno_ok gno \<and> \<not> used_gno st (automatic_sidno st specified) gno \<Longrightarrow>
    (case locked of None \<Rightarrow> True | Some n \<Rightarrow> n < n_sid_locks st) \<Longrightarrow>
    generate_automatic_gtid env mode specified gno locked (ts ! k, st) = Some (status, (t', st'), l) \<Longrightarrow>
    sys_step mem (Generate k (owner_of t')) (ts, st) (ts[k := t'], st')"
| next_gtid: "k < length ts \<Longrightarrow> fst (owned_gtid (ts ! k)) = 0 \<Longrightarrow> spec_gtid spec = (s, g) \<Longrightarrow> 1 \<le> s \<Longrightarrow>
    s \<le> n_sidnos st \<Longrightarrow> gno_ok g \<Longrightarrow> (mem \<longrightarrow> node_ok env \<and> cell_ok env) \<Longrightarrow>
    set_gtid_next_pass env mode spec (ts ! k, st) = Some (pass, t', st') \<Longrightarrow>
    sys_step mem (Set_next k (s, g) (owner_of t' \<noteq> None)) (ts, st) (ts[k := t'], st')"
| next_other: "k < length ts \<Longrightarrow> spec_type spec = AUTOMATIC_GROUP \<or> spec_type spec = ANONYMOUS_GROUP \<Longrightarrow>
    set_gtid_next wenv spec (ts ! k, st) = Some (err, t', st') \<Longrightarrow>
    sys_step mem Unrelated (ts, st) (ts[k := t'], st')"
| commit: "k < length ts \<Longrightarrow> update_on_commit eenv (ts ! k, st) = Some (t', st') \<Longrightarrow>
    sys_step mem (Commit k (unlogged eenv (ts ! k))) (ts, st) (ts[k := t'], st')"
| rollback: "k < length ts \<Longrightarrow> update_on_rollback eenv (ts ! k, st) = Some (t', st') \<Longrightarrow>
    sys_step mem (Rollback k (skip_gtid_rollback (ts ! k))) (ts, st) (ts[k := t'], st')"
| group_commit: "distinct ks \<Longrightarrow> (\<And>k. k \<in> set ks \<Longrightarrow> k < length ts) \<Longrightarrow>
    update_commit_group eenv (map ((!) ts) ks) st = Some (us, st') \<Longrightarrow>
    sys_step mem (Group_commit (map (member_of eenv ts) ks)) (ts, st) (put ts ks us, st')"
| reset_master: "st_clear ret st = (ret', st') \<Longrightarrow> sys_step mem Reset (ts, st) (ts, st')"
| purge: "set_fits (n_sidnos st) gs \<Longrightarrow> add_lost_gtids gs_env_ok save_ret gs st = Some (status, st') \<Longrightarrow>
    sys_step mem (Purge (gtids gs) (status = RETURN_STATUS_OK)) (ts, st) (ts, st')"
| new_sid: "length sid = BYTE_LENGTH \<Longrightarrow> add_sid env_ok sid (st_maps st 0) = (Some n, sm) \<Longrightarrow>
    st_ensure_sidno (\<lambda>_ _. True) (st\<lparr>st_maps := (st_maps st)(0 := sm)\<rparr>) = (status, st') \<Longrightarrow>
    sys_step mem Unrelated (ts, st) (ts, st')"
| session: "k < length ts \<Longrightarrow> same_session (ts ! k) t' \<Longrightarrow> sys_step mem Unrelated (ts, st) (ts[k := t'], st)"
| connect: "owned_gtid t = (0, 0) \<Longrightarrow> sys_step mem Unrelated (ts, st) (ts @ [t], st)"

inductive reachable :: "bool \<Rightarrow> thd list \<times> gtid_state \<Rightarrow> bool" for mem :: bool where
  start: "uuid_is_valid uuid \<Longrightarrow> server_start uuid a b = Some st \<Longrightarrow> reachable mem ([], st)"
| step: "reachable mem x \<Longrightarrow> sys_step mem op x y \<Longrightarrow> reachable mem y"

section \<open>Every step keeps the invariant\<close>

definition step_post :: "bool \<Rightarrow> operation \<Rightarrow> thd list \<times> gtid_state \<Rightarrow> thd list \<times> gtid_state \<Rightarrow> bool" where
  "step_post mem op x y \<longleftrightarrow>
     sys_inv (fst y) (snd y) \<and> unmarked (snd y) \<and> (mem \<and> no_gaps (snd x) \<longrightarrow> no_gaps (snd y)) \<and>
     spec_step op (view (fst x) (snd x)) (view (fst y) (snd y))"

lemma frame_unmarked: "st_frame st st' \<Longrightarrow> unmarked st \<Longrightarrow> unmarked st'"
  by (simp add: unmarked_def st_frame_def)

lemma unmarked_same: "commit_group_sidnos st' = commit_group_sidnos st \<Longrightarrow> unmarked st \<Longrightarrow> unmarked st'"
  by (simp add: unmarked_def)

lemma end_post_step:
  assumes "end_post F ts k ev st t' st'" and "unmarked st" and "spec_step op (view ts st) (F (view ts st))"
  shows "step_post mem op (ts, st) (ts[k := t'], st')"
  using assms frame_unmarked [of st st'] by (simp add: step_post_def end_post_def)

lemma view_none: "k < length ts \<Longrightarrow> fst (owned_gtid (ts ! k)) \<le> 0 \<Longrightarrow> fst (owned_gtid t') \<le> 0 \<Longrightarrow> same_view st st' \<Longrightarrow>
    view (ts[k := t']) st' = view ts st"
  by (rule view_same) (simp_all add: owner_of_def)

text \<open>A session that owned nothing and owns nothing afterwards, with the same view of the state.\<close>

lemma nothing_step:
  assumes inv: "sys_inv ts st" and un: "unmarked st" and k: "k < length ts" and none: "fst (owned_gtid (ts ! k)) = 0"
    and t': "fst (owned_gtid t') = 0" and st': "st_ok st'" "same_view st st'" "n_sidnos st' = n_sidnos st"
      "commit_group_sidnos st' = commit_group_sidnos st" and op: "\<And>a. spec_step op a a"
  shows "step_post mem op (ts, st) (ts[k := t'], st')"
proof -
  have a: "\<not> is_anonymous t'" "\<not> is_anonymous (ts ! k)" using t' none by (auto simp: is_anonymous_def OWNED_SIDNO_ANONYMOUS_def)
  have "sys_inv (ts[k := t']) (st\<lparr>anonymous_gtid_count := anonymous_gtid_count st\<rparr>)"
    by (rule sys_inv_anonymous [OF inv k]) (use none t' a in auto)
  then have 1: "sys_inv (ts[k := t']) st" by simp
  have "sys_inv (ts[k := t']) st'" by (rule sys_inv_view [OF 1 st'(1,2)]) (use st'(3) in simp)
  then show ?thesis
    using view_none [OF k _ _ st'(2), of t'] none t' un st'(4) no_gaps_view [OF _ st'(2)] op
    by (simp add: step_post_def unmarked_def)
qed

lemma own_step:
  assumes inv: "sys_inv ts st" and un: "unmarked st" and k: "k < length ts" and none: "fst (owned_gtid (ts ! k)) = 0"
    and s: "1 \<le> s" "s \<le> n_sidnos st" and g: "gno_ok g" and free: "\<not> used_gno st s g"
    and st': "st_ok st'" "n_sidnos st' = n_sidnos st"
      "nodes_of st' = (nodes_of st)(s := add_mset (owner_node g (thread_id (ts ! k))) (nodes_of st s))"
    and sets: "gtids (executed_gtids st') = gtids (executed_gtids st)" "gtids (lost_gtids st') = gtids (lost_gtids st)"
      "gtids (gtids_only_in_table st') = gtids (gtids_only_in_table st)"
      "anonymous_gtid_count st' = anonymous_gtid_count st"
    and rest: "server_sidno st' = server_sidno st" "commit_group_sidnos st' = commit_group_sidnos st"
    and next_free: "next_free_gno st' = next_free_gno st \<or> s = server_sidno st \<and> next_free_gno st' = g + 1 \<and>
      (\<forall>x. next_free_gno st \<le> x \<and> x < g \<longrightarrow> used_gno st s x)"
    and t': "owned_gtid t' = (int s, g)" "thread_id t' = thread_id (ts ! k)"
    and op: "op = Generate k (owner_of t') \<or> op = Set_next k (s, g) (owner_of t' \<noteq> None)"
  shows "step_post mem op (ts, st) (ts[k := t'], st')"
proof -
  have "sys_inv (ts[k := t']) st'" by (rule sys_inv_acquire [OF inv k none s g free st' sets t'])
  moreover have "spec_own k (s, g) (view ts st) (view (ts[k := t']) st')" by (rule view_own [OF inv k none free t'(1) s(1) sets(1-3)])
  then have "spec_step op (view ts st) (view (ts[k := t']) st')" using op t'(1) s(1) by (auto simp: owner_of_def)
  moreover have "no_gaps st \<longrightarrow> no_gaps st'" using no_gaps_acquire [OF _ rest(1) st'(3) sets(1) next_free] by blast
  ultimately show ?thesis using unmarked_same [OF rest(2) un] by (auto simp: step_post_def)
qed

lemma anonymous_step:
  assumes inv: "sys_inv ts st" and un: "unmarked st" and k: "k < length ts" and none: "fst (owned_gtid (ts ! k)) = 0"
    and t': "is_anonymous t'" and st': "st' = acquire_anonymous_ownership st" and op: "\<And>a. spec_step op a a"
  shows "step_post mem op (ts, st) (ts[k := t'], st')"
proof -
  have a: "\<not> is_anonymous (ts ! k)" "fst (owned_gtid t') \<le> 0" using t' none by (auto simp: is_anonymous_def OWNED_SIDNO_ANONYMOUS_def)
  have inv': "sys_inv (ts[k := t']) st'" unfolding st' acquire_anonymous_ownership_def
    by (rule sys_inv_anonymous [OF inv k]) (use none t' a in auto)
  have "view (ts[k := t']) st' = view ts st"
    using k none a(2) by (auto simp: view_def st' acquire_anonymous_ownership_def owner_of_def fun_eq_iff nth_list_update)
  then show ?thesis
    using inv' un op by (simp add: step_post_def st' acquire_anonymous_ownership_def unmarked_def no_gaps_def)
qed

lemma automatic_step:
  assumes inv: "sys_inv ts st" and un: "unmarked st" and k: "k < length ts" and none: "fst (owned_gtid (ts ! k)) = 0"
    and spec: "specified \<le> n_sidnos st" and mem: "mem \<longrightarrow> node_ok env \<and> cell_ok env"
    and loc: "case locked of None \<Rightarrow> True | Some n \<Rightarrow> n < n_sid_locks st"
    and gen: "generate_automatic_gtid env mode specified 0 locked (ts ! k, st) = Some (status, (t', st'), l)"
  shows "step_post mem (Generate k (owner_of t')) (ts, st) (ts[k := t'], st')"
proof (cases "mode_on mode")
  case False
  then have "t' = (ts ! k)\<lparr>owned_gtid := (OWNED_SIDNO_ANONYMOUS, 0)\<rparr>" "st' = acquire_anonymous_ownership st"
    using gen by (auto simp: generate_automatic_gtid_def)
  then show ?thesis
    by (intro anonymous_step [OF inv un k none]) (simp_all add: is_anonymous_def owner_of_def OWNED_SIDNO_ANONYMOUS_def)
next
  case True
  have st: "st_ok st" using inv by (simp add: sys_inv_def)
  let ?s = "automatic_sidno st specified"
  have s: "1 \<le> ?s" "?s \<le> n_sidnos st" using automatic_sidno_range [OF st spec] by auto
  show ?thesis
  proof (rule generate_automatic_gtid_laws [OF st spec True loc, of env "ts ! k"])
    fix g og assume ff: "first_free (used_gno st ?s) (first_candidate st ?s) g"
      and r: "generate_automatic_gtid env mode specified 0 locked (ts ! k, st) =
        Some (if g = -1 then RETURN_STATUS_REPORTED_ERROR else RETURN_STATUS_OK,
          (if g = -1 then ts ! k else if node_ok env \<and> cell_ok env then own_session st ?s g (ts ! k) else clear_owned_gtids (ts ! k),
           st\<lparr>owned_gtids := og, next_free_gno := if g \<noteq> -1 \<and> ?s = server_sidno st then g + 1 else next_free_gno st,
              sidno_trace := sidno_trace st @ automatic_events ?s locked\<rparr>),
          map_option (\<lambda>_. ?s) locked)"
      and og: "og_inv og" "og_max_sidno og = og_max_sidno (owned_gtids st)"
        "og_nodes og = (if g \<noteq> -1 \<and> node_ok env \<and> cell_ok env
          then (nodes_of st)(?s := add_mset (owner_node g (thread_id (ts ! k))) (nodes_of st ?s)) else nodes_of st)"
    have eq: "t' = (if g = -1 then ts ! k else if node_ok env \<and> cell_ok env then own_session st ?s g (ts ! k) else clear_owned_gtids (ts ! k))"
      "st' = st\<lparr>owned_gtids := og, next_free_gno := if g \<noteq> -1 \<and> ?s = server_sidno st then g + 1 else next_free_gno st,
              sidno_trace := sidno_trace st @ automatic_events ?s locked\<rparr>"
      using gen r by auto
    have lo: "1 \<le> first_candidate st ?s" using st by (auto simp: first_candidate_def st_ok_def)
    have ok: "gno_ok g" if "g \<noteq> -1" using that ff lo by (auto simp: first_free_def gno_ok_def)
    have st': "st_ok st'" using st og ok by (auto simp: eq(2) st_ok_def gno_ok_def)
    have frame: "n_sidnos st' = n_sidnos st" "commit_group_sidnos st' = commit_group_sidnos st" by (simp_all add: eq(2))
    consider "g = -1" | "g \<noteq> -1" "node_ok env \<and> cell_ok env" | "g \<noteq> -1" "\<not> (node_ok env \<and> cell_ok env)" by blast
    then show ?thesis
    proof cases
      case 1
      show ?thesis
        by (rule nothing_step [OF inv un k none _ st' _ frame]) (use 1 none og in \<open>simp_all add: eq same_view_def owner_of_def\<close>)
    next
      case 2
      have "\<forall>x. next_free_gno st \<le> x \<and> x < g \<longrightarrow> used_gno st ?s x" if "?s = server_sidno st"
        using ff 2 that by (auto simp: first_free_def first_candidate_def)
      then show ?thesis
        by (intro own_step [OF inv un k none s ok [OF 2(1)] _ st'])
          (use 2 ff og in \<open>auto simp: eq first_free_def own_session_def\<close>)
    next
      case 3
      then have "\<not> mem" using mem by blast
      have c: "fst (owned_gtid t') = 0" using 3 by (auto simp: eq(1) clear_owned_gtids_def)
      let ?st0 = "st'\<lparr>next_free_gno := next_free_gno st\<rparr>"
      have "step_post False (Generate k (owner_of t')) (ts, st) (ts[k := t'], ?st0)"
      proof (rule nothing_step [OF inv un k none c])
        show "st_ok ?st0" using st st' by (simp add: st_ok_def)
        show "same_view st ?st0" using 3 og by (auto simp: eq(2) same_view_def)
      qed (use frame c in \<open>simp_all add: owner_of_def\<close>)
      moreover have "sys_inv (ts[k := t']) st'" if "sys_inv (ts[k := t']) ?st0"
        using that st' by (simp add: sys_inv_def)
      ultimately show ?thesis using \<open>\<not> mem\<close> unmarked_same [OF frame(2) un] by (simp add: step_post_def view_def)
    qed
  qed
qed

lemma specified_step:
  assumes inv: "sys_inv ts st" and un: "unmarked st" and k: "k < length ts" and none: "fst (owned_gtid (ts ! k)) = 0"
    and spec: "specified \<le> n_sidnos st" and g: "gno_ok g" and free: "\<not> used_gno st (automatic_sidno st specified) g"
    and loc: "case locked of None \<Rightarrow> True | Some n \<Rightarrow> n < n_sid_locks st"
    and gen: "generate_automatic_gtid env mode specified g locked (ts ! k, st) = Some (status, (t', st'), l)"
  shows "step_post mem (Generate k (owner_of t')) (ts, st) (ts[k := t'], st')"
proof (cases "mode_on mode")
  case False
  then have "t' = (ts ! k)\<lparr>owned_gtid := (OWNED_SIDNO_ANONYMOUS, 0)\<rparr>" "st' = acquire_anonymous_ownership st"
    using gen by (auto simp: generate_automatic_gtid_def)
  then show ?thesis
    by (intro anonymous_step [OF inv un k none]) (simp_all add: is_anonymous_def owner_of_def OWNED_SIDNO_ANONYMOUS_def)
next
  case True
  have st: "st_ok st" using inv by (simp add: sys_inv_def)
  let ?s = "automatic_sidno st specified"
  have s: "1 \<le> ?s" "?s \<le> n_sidnos st" using automatic_sidno_range [OF st spec] by auto
  show ?thesis
  proof (rule generate_specified_gtid_laws [OF st spec True g loc, of env "ts ! k"])
    fix og assume r: "generate_automatic_gtid env mode specified g locked (ts ! k, st) =
        Some (RETURN_STATUS_OK, (if node_ok env \<and> cell_ok env then own_session st ?s g (ts ! k) else clear_owned_gtids (ts ! k),
          st\<lparr>owned_gtids := og, sidno_trace := sidno_trace st @ automatic_events ?s locked\<rparr>), map_option (\<lambda>_. ?s) locked)"
      and og: "og_inv og" "og_max_sidno og = og_max_sidno (owned_gtids st)"
        "og_nodes og = (if node_ok env \<and> cell_ok env
          then (nodes_of st)(?s := add_mset (owner_node g (thread_id (ts ! k))) (nodes_of st ?s)) else nodes_of st)"
    have eq: "t' = (if node_ok env \<and> cell_ok env then own_session st ?s g (ts ! k) else clear_owned_gtids (ts ! k))"
      "st' = st\<lparr>owned_gtids := og, sidno_trace := sidno_trace st @ automatic_events ?s locked\<rparr>" using gen r by auto
    have st': "st_ok st'" using st og by (auto simp: eq(2) st_ok_def)
    show ?thesis
    proof (cases "node_ok env \<and> cell_ok env")
      case True
      then show ?thesis
        by (intro own_step [OF inv un k none s g free st']) (use og in \<open>simp_all add: eq own_session_def\<close>)
    next
      case False
      then show ?thesis
        by (intro nothing_step [OF inv un k none _ st'])
          (use og in \<open>auto simp: eq clear_owned_gtids_def same_view_def owner_of_def\<close>)
    qed
  qed
qed

lemma next_gtid_step:
  assumes inv: "sys_inv ts st" and un: "unmarked st" and k: "k < length ts" and none: "fst (owned_gtid (ts ! k)) = 0"
    and spec: "spec_gtid spec = (s, g)" and s: "1 \<le> s" "s \<le> n_sidnos st" and g: "gno_ok g"
    and pass: "set_gtid_next_pass env mode spec (ts ! k, st) = Some (pass, t', st')"
  shows "step_post mem (Set_next k (s, g) (owner_of t' \<noteq> None)) (ts, st) (ts[k := t'], st')"
proof -
  have st: "st_ok st" using inv by (simp add: sys_inv_def)
  have lu: "same_view st (lock_unlock s st)" "st_ok (lock_unlock s st)"
    "commit_group_sidnos (lock_unlock s st) = commit_group_sidnos st" using st by (simp_all add: lock_unlock_def)
  consider (off) "mode = GTID_MODE_OFF" | (busy) "mode \<noteq> GTID_MODE_OFF" "used_gno st s g"
    | (free) "mode \<noteq> GTID_MODE_OFF" "\<not> used_gno st s g" by blast
  then show ?thesis
  proof cases
    case off
    then have "t' = ts ! k" "st' = st" using pass by (simp_all add: set_gtid_next_pass_off)
    then show ?thesis using nothing_step [OF inv un k none none st] none by (simp add: same_view_def owner_of_def)
  next
    case busy
    then have "same_session (ts ! k) t'" "st' = lock_unlock s st"
      using pass set_gtid_next_pass_busy [OF st spec s g busy(1), of env "ts ! k"]
      by (cases "(s, g) \<in> gtids (executed_gtids st)"; simp add: same_session_def; blast)+
    then show ?thesis using nothing_step [OF inv un k none _ lu(2,1)] none lu(3) by (simp add: same_session_def owner_of_def)
  next
    case free
    show ?thesis
    proof (rule set_gtid_next_pass_free [OF st spec s g free, of env "ts ! k"])
      fix og assume r: "set_gtid_next_pass env mode spec (ts ! k, st) =
          Some (Pass_done, (if node_ok env \<and> cell_ok env then own_session st s g (ts ! k) else clear_owned_gtids (ts ! k))\<lparr>gtid_next := spec\<rparr>,
            lock_unlock s (st\<lparr>owned_gtids := og\<rparr>))"
        and og: "og_inv og" "og_max_sidno og = og_max_sidno (owned_gtids st)"
          "og_nodes og = (if node_ok env \<and> cell_ok env
            then (nodes_of st)(s := add_mset (owner_node g (thread_id (ts ! k))) (nodes_of st s)) else nodes_of st)"
      have eq: "t' = (if node_ok env \<and> cell_ok env then own_session st s g (ts ! k) else clear_owned_gtids (ts ! k))\<lparr>gtid_next := spec\<rparr>"
        "st' = lock_unlock s (st\<lparr>owned_gtids := og\<rparr>)" using pass r by auto
      have st': "st_ok st'" using st_ok_owned [OF st og(1,2)] by (simp add: eq(2))
      show ?thesis
      proof (cases "node_ok env \<and> cell_ok env")
        case True
        then show ?thesis
          by (intro own_step [OF inv un k none s g free(2) st'])
            (use og in \<open>simp_all add: eq own_session_def lock_unlock_def\<close>)
      next
        case False
        then show ?thesis
          by (intro nothing_step [OF inv un k none _ st'])
            (use og in \<open>auto simp: eq clear_owned_gtids_def lock_unlock_def same_view_def owner_of_def\<close>)
      qed
    qed
  qed
qed

lemma next_other_step:
  assumes inv: "sys_inv ts st" and un: "unmarked st" and k: "k < length ts"
    and spec: "spec_type spec = AUTOMATIC_GROUP \<or> spec_type spec = ANONYMOUS_GROUP"
    and next': "set_gtid_next env spec (ts ! k, st) = Some (err, t', st')"
  shows "step_post mem Unrelated (ts, st) (ts[k := t'], st')"
proof -
  have st: "st_ok st" using inv by (simp add: sys_inv_def)
  have same: "step_post mem Unrelated (ts, st) (ts[k := t'], st)" if "same_session (ts ! k) t'"
  proof -
    have "view (ts[k := t']) st = view ts st"
      by (rule view_same [OF k]) (use that in \<open>auto simp: same_session_def owner_of_def same_view_def\<close>)
    then show ?thesis using sys_inv_session [OF inv k that] un by (simp add: step_post_def)
  qed
  show ?thesis
  proof (cases "fst (owned_gtid (ts ! k)) > 0 \<or> fst (owned_gtid (ts ! k)) = OWNED_SIDNO_ANONYMOUS")
    case True
    then have "t' = ts ! k" "st' = st" using next' by (auto simp: set_gtid_next_def)
    then show ?thesis using same by (simp add: same_session_def)
  next
    case False
    have "session_ok (n_sidnos st) (ts ! k)" using inv k by (simp add: sys_inv_def)
    then have none: "fst (owned_gtid (ts ! k)) = 0" using False by (auto simp: session_ok_def is_anonymous_def)
    show ?thesis
    proof (cases "spec_type spec = ANONYMOUS_GROUP \<and> wait_mode env 0 \<noteq> GTID_MODE_ON")
      case True
      then have "is_anonymous t'" "st' = acquire_anonymous_ownership st"
        using next' False by (auto simp: set_gtid_next_def is_anonymous_def)
      then show ?thesis by (rule anonymous_step [OF inv un k none]) simp
    next
      case other: False
      then have "st' = st" "same_session (ts ! k) t'"
        using next' False spec by (auto simp: set_gtid_next_def same_session_def spec_set_type_def split: if_splits)
      then show ?thesis using same by simp
    qed
  qed
qed

lemma group_step:
  assumes inv: "sys_inv ts st" and un: "unmarked st" and ks: "distinct ks" "\<forall>k \<in> set ks. k < length ts"
    and grp: "update_commit_group env (map ((!) ts) ks) st = Some (us, st')"
  shows "step_post mem (Group_commit (map (member_of env ts) ks)) (ts, st) (put ts ks us, st')"
proof (rule update_commit_group_laws [OF inv un ks, of env])
  let ?ns = "sidno_list (length (commit_group_sidnos st)) (map ((!) ts) ks)"
  fix us1 fl and st1 :: gtid_state
  let ?st = "st1\<lparr>sidno_trace := sidno_trace st @ map Lock_sidno ?ns @ unlock_events ?ns, commit_group_sidnos := commit_group_sidnos st\<rparr>"
  assume a: "update_commit_group env (map ((!) ts) ks) st = Some (us1, ?st)" "sys_inv (put ts ks us1) ?st"
    "no_gaps st \<longrightarrow> no_gaps st1" "view (put ts ks us1) st1 = fold spec_member (map (member_of env ts) ks) (view ts st)"
  have eq: "us = us1" "st' = ?st" using grp a(1) by auto
  have "unmarked ?st" by (rule unmarked_same [OF _ un]) simp
  moreover have "no_gaps ?st \<longleftrightarrow> no_gaps st1" by (simp add: no_gaps_def)
  ultimately show ?thesis using a(2-4) by (simp add: step_post_def eq)
qed

lemma clear_step:
  assumes inv: "sys_inv ts st" and un: "unmarked st" and c: "st_clear ret st = (ret', st')"
  shows "step_post mem Reset (ts, st) (ts, st')"
proof -
  have st': "st' = snd (st_clear ret st)" using c by simp
  have "st_ok st" using inv by (simp add: sys_inv_def)
  note sets = st_ok_sets [OF this]
  have "view ts st' = (view ts st)\<lparr>spec_executed := {}, spec_lost := {}, spec_table := {}\<rparr>"
    using set_ok_clear(2) [OF sets(1)] set_ok_clear(2) [OF sets(2)] set_ok_clear(2) [OF sets(3)]
    by (simp add: view_def st' st_clear_def)
  then have "spec_step Reset (view ts st) (view ts st')" by simp
  then show ?thesis using sys_inv_clear [OF inv, of ret] un by (auto simp: step_post_def st')
qed

lemma purge_step:
  assumes inv: "sys_inv ts st" and un: "unmarked st" and gs: "set_fits (n_sidnos st) gs"
    and p: "add_lost_gtids gs_env_ok save_ret gs st = Some (status, st')"
  shows "step_post mem (Purge (gtids gs) (status = RETURN_STATUS_OK)) (ts, st) (ts, st')"
proof -
  have st: "st_ok st" using inv by (simp add: sys_inv_def)
  obtain e l o1 where r: "add_lost_gtids gs_env_ok save_ret gs st =
      Some (if purge_allowed save_ret st then (RETURN_STATUS_OK, st\<lparr>executed_gtids := e, lost_gtids := l, gtids_only_in_table := o1,
              sidno_trace := sidno_trace st @ purge_events gs\<rparr>)
            else (RETURN_STATUS_REPORTED_ERROR, st))"
      "set_ok (n_sidnos st) e" "set_ok (n_sidnos st) l" "set_ok (n_sidnos st) o1"
      "gtids e = gtids (executed_gtids st) \<union> gtids gs" "gtids l = gtids (lost_gtids st) \<union> gtids gs"
      "gtids o1 = gtids (gtids_only_in_table st) \<union> gtids gs"
    by (rule add_lost_gtids_laws [OF st gs])
  have "spec_step (Purge (gtids gs) (status = RETURN_STATUS_OK)) (view ts st) (view ts st')"
  proof (cases "purge_allowed save_ret st")
    case False
    then show ?thesis using p r(1) by simp
  next
    case True
    then have ex: "gtids (executed_gtids st) = {}" and no: "nodes_of st = (\<lambda>_. {#})" by (auto simp: purge_allowed_def)
    have "\<not> owned_gno (owned_gtids st) s g" for s g using no by (simp add: owned_gno_def gno_nodes_def)
    then have "owner_of (ts ! k) = None" if "k < length ts" for k
      using owner_of_owned [OF inv that] by (cases "owner_of (ts ! k)") auto
    then have own: "spec_owner (view ts st) = Map.empty" by (auto simp: view_def fun_eq_iff)
    have "view ts st' = (view ts st)\<lparr>spec_executed := gtids gs, spec_lost := spec_lost (view ts st) \<union> gtids gs,
        spec_table := spec_table (view ts st) \<union> gtids gs\<rparr>"
      using p r True ex by (auto simp: view_def)
    then show ?thesis using own ex p r(1) True by (simp add: view_def)
  qed
  then show ?thesis using sys_inv_purge [OF inv gs p] un by (simp add: step_post_def)
qed

text \<open>One step, and all the steps from the start.\<close>

lemma spec_finish_rollback: "spec_finish False u k = spec_finish False False k"
  by (simp add: fun_eq_iff spec_finish_def Let_def split: option.split)

lemma sys_step_post:
  assumes "sys_step mem op x y" and "sys_inv (fst x) (snd x)" and "unmarked (snd x)"
  shows "step_post mem op x y"
  using assms
proof (induction rule: sys_step.induct)
  case (automatic k ts specified st env gno locked mode status t' st' l)
  then show ?case
    using automatic_step [of ts st k specified mem env locked mode status t' st' l]
      specified_step [of ts st k specified gno locked env mode status t' st' l mem] by auto
next
  case (next_gtid k ts spec s g st env mode pass t' st')
  then show ?case using next_gtid_step [of ts st k spec s g env mode pass t' st' mem] by simp
next
  case (next_other k ts spec wenv st err t' st')
  then show ?case using next_other_step [of ts st k spec wenv err t' st' mem] by simp
next
  case (commit k ts eenv st t' st')
  have inv: "sys_inv ts st" using commit.prems by simp
  have "end_post (spec_finish True (unlogged eenv (ts ! k)) k) ts k (end_events (ts ! k)) st t' st'"
    using update_gtids_impl_post [OF inv commit(1), of eenv True] commit(2) by (auto simp: update_on_commit_def)
  then show ?case by (rule end_post_step) (use commit.prems in simp_all)
next
  case (rollback k ts eenv st t' st')
  show ?case
  proof (cases "skip_gtid_rollback (ts ! k)")
    case True
    then show ?thesis using rollback by (auto simp: update_on_rollback_def update_gtids_impl_check_skip_gtid_rollback_def step_post_def)
  next
    case False
    have inv: "sys_inv ts st" using rollback.prems by simp
    have "end_post (spec_finish False (unlogged eenv (ts ! k)) k) ts k (end_events (ts ! k)) st t' st'"
      using update_gtids_impl_post [OF inv rollback(1), of eenv False] rollback(2) False
      by (auto simp: update_on_rollback_def update_gtids_impl_check_skip_gtid_rollback_def)
    then show ?thesis
      by (rule end_post_step) (use rollback.prems False spec_finish_rollback [of "unlogged eenv (ts ! k)" k] in simp_all)
  qed
next
  case (group_commit ks ts eenv st us st')
  then show ?case using group_step [of ts st ks eenv us st' mem] by simp
next
  case (reset_master ret st ret' st' ts)
  then show ?case using clear_step by simp
next
  case (purge st gs save_ret status st' ts)
  then show ?case using purge_step by simp
next
  case (new_sid sid st n sm status st' ts)
  then show ?case
    using sys_inv_new_sid [of ts st sid n sm status st'] no_gaps_view [of st st'] by (simp add: step_post_def view_same_state)
next
  case (session k ts t' st)
  have "view (ts[k := t']) st = view ts st"
    by (rule view_same [OF session(1)]) (use session(2) in \<open>auto simp: same_session_def owner_of_def same_view_def\<close>)
  then show ?case using session sys_inv_session [of ts st k t'] by (simp add: step_post_def)
next
  case (connect t ts st)
  have "session_nodes (ts @ [t]) s = session_nodes ts s" for s
    using connect(1) by (simp add: session_nodes_def owns_def)
  moreover have "n_anonymous (ts @ [t]) = n_anonymous ts"
    using connect(1) by (simp add: n_anonymous_def is_anonymous_def OWNED_SIDNO_ANONYMOUS_def)
  moreover have "session_ok n t" for n using connect(1) by (simp add: session_ok_def)
  moreover have "view (ts @ [t]) st = view ts st"
    using connect(1) by (auto simp: view_def owner_of_def fun_eq_iff nth_append)
  ultimately show ?case using connect by (simp add: step_post_def sys_inv_def fun_eq_iff)
qed

lemma reachable_inv:
  assumes "reachable mem x"
  shows "sys_inv (fst x) (snd x)" and "unmarked (snd x)" and "mem \<Longrightarrow> no_gaps (snd x)"
  using assms
proof (induction rule: reachable.induct)
  case (start uuid a b st)
  note l = server_start_laws(2) [OF start]
  have o: "owned_gno (owned_gtids st) s g = False" for s g using l by (simp add: owned_gno_def gno_nodes_def)
  have "gno_nodes (owned_gtids st) s g = {#}" for s g using l by (simp add: gno_nodes_def)
  then have "sys_inv [] st" using l by (auto simp: sys_inv_def n_anonymous_def)
  then show "sys_inv (fst ([], st)) (snd ([], st))" "unmarked (snd ([], st))" "mem \<Longrightarrow> no_gaps (snd ([], st))"
    using l by (auto simp: no_gaps_def)
next
  case (step x op y)
  then show "sys_inv (fst y) (snd y)" "unmarked (snd y)" "mem \<Longrightarrow> no_gaps (snd y)"
    using sys_step_post [OF step(2)] by (auto simp: step_post_def)
qed

section \<open>The end of a transaction that owns a GTID\<close>

lemma update_gtids_impl_effect:
  assumes inv: "sys_inv ts st" and k: "k < length ts" and own: "owned_gtid (ts ! k) = (int s, g)" and s: "1 \<le> s"
  obtains t' st1 st' where "update_gtids_impl env is_commit (ts ! k, st) = Some (t', st')" and "owned_gtid t' = (0, 0)"
    and "end_effect env is_commit s g (ts ! k) st st1" and "same_view st1 st'" and "sys_inv (ts[k := t']) st'"
    and "n_sidnos st' = n_sidnos st" and "sidno_trace st' = sidno_trace st @ end_events (ts ! k)"
proof -
  let ?t = "ts ! k" and ?tr = "sidno_trace st @ [Lock_sidno s]"
  have st: "st_ok (st\<lparr>sidno_trace := ?tr\<rparr>)" and st0: "st_ok st" using inv by (auto simp: sys_inv_def)
  note o = sys_inv_owned [OF inv k own s]
  have all: "\<forall>n \<in># gno_nodes (owned_gtids (st\<lparr>sidno_trace := ?tr\<rparr>)) s g. node_owner n = thread_id ?t"
    using o(3) by (simp add: owner_node_def)
  have n: "s \<le> n_sidnos (st\<lparr>sidno_trace := ?tr\<rparr>)" using o(1) by simp
  obtain st1 where st1: "update_gtids_impl_own_gtid env is_commit (?t, st\<lparr>sidno_trace := ?tr\<rparr>) = Some (released ?t, st1)"
      "end_effect env is_commit s g ?t (st\<lparr>sidno_trace := ?tr\<rparr>) st1"
    by (rule own_gtid_laws [OF st own s n o(2) all])
  have frame: "n_sid_locks st1 = n_sid_locks st" "s < n_sid_locks st"
    using st1(2) st_ok_locks [OF st0 o(1)] by (auto simp: end_effect_def st_frame_def)
  let ?st2 = "st1\<lparr>sidno_trace := sidno_trace st1 @ [Broadcast_sidno s, Unlock_sidno s]\<rparr>"
  obtain t' st' where e: "update_gtids_impl_end (is_commit_in_middle_of_statement ?t) (released ?t, ?st2) = (t', st')" by fastforce
  have u: "update_gtids_impl env is_commit (?t, st) = Some (t', st')"
    using own s st1(1) frame e
    by (simp add: update_gtids_impl_def update_gtids_impl_do_nothing_def update_owned_def update_gtids_impl_begin_def
        lock_ok OWNED_SIDNO_GTID_SET_def)
  have post: "end_post (spec_finish is_commit (unlogged env ?t) k) ts k (end_events ?t) st t' st'"
    using update_gtids_impl_post [OF inv k, of env is_commit] u by auto
  have same: "owned_gtid t' = (0, 0) \<and> same_view st1 st'"
    using e by (auto simp: update_gtids_impl_end_def end_gtid_violating_transaction_def Let_def same_view_def
        end_automatic_gtid_violating_transaction_def end_anonymous_gtid_violating_transaction_def split: if_splits)
  show thesis
  proof (rule that [OF u])
    show "end_effect env is_commit s g ?t st st1" using st1(2) by (simp add: end_effect_def st_frame_def counters_same_def)
  qed (use same post in \<open>auto simp: end_post_def dest: st_frame_n\<close>)
qed

end
