(* ===== verification/Gtid_State_Properties.thy ===== *)
theory Gtid_State_Properties
  imports Gtid_Steps
begin

text \<open>
  The properties of the GTID state with its sessions, each with an instance on a server that has just
  been started and on one of its sessions that owns the first GTID.
\<close>

section \<open>The facts behind the properties\<close>

lemma reachable_laws:
  assumes "reachable mem (ts, st)"
  shows "sys_inv ts st" and "unmarked st" and "st_ok st" and "mem \<Longrightarrow> no_gaps st"
  using reachable_inv [OF assms] by (auto simp: sys_inv_def)




section \<open>An example: a started server with two sessions\<close>

definition ex_uuid :: string where
  "ex_uuid = ''3E11FA47-71CA-11E1-9E33-C80AA9429562''"

definition ex_start :: gtid_state where
  "ex_start = the (server_start ex_uuid 0 0)"

definition ex_thd :: "nat \<Rightarrow> thd" where
  "ex_thd n =
     \<lparr>thread_id = n, owned_gtid = (0, 0), owned_sid = sid_clear,
      gtid_next = \<lparr>spec_type = AUTOMATIC_GROUP, spec_gtid = (0, 0)\<rparr>, has_gtid_consistency_violation = False,
      is_commit_in_middle_of_statement = False, skip_gtid_rollback = False, commit_error = False,
      slave_thread = False, trx_cache_empty = False\<rparr>"

definition ex_mem :: og_env where
  "ex_mem = \<lparr>node_ok = True, cell_ok = True, fresh_cell = \<lparr>hl_next = None, hl_data = owner_node 0 0\<rparr>\<rparr>"

definition ex_end :: end_env where
  "ex_end = \<lparr>opt_bin_log = True, opt_log_slave_updates = True, search_state = (\<lambda>_. None)\<rparr>"

text \<open>The first session gets the first GTID of the server.\<close>

definition ex_own :: "thd \<times> gtid_state" where
  "ex_own = fst (snd (the (generate_automatic_gtid ex_mem GTID_MODE_ON 0 0 None (ex_thd 7, ex_start))))"

abbreviation ex_ts :: "thd list" where
  "ex_ts \<equiv> [fst ex_own, ex_thd 8]"

lemma ex_start:
  shows "server_start ex_uuid 0 0 = Some ex_start" and "st_ok ex_start" and "nodes_of ex_start = (\<lambda>_. {#})"
    and "gtids (executed_gtids ex_start) = {}" and "next_free_gno ex_start = 1" and "server_sidno ex_start = 1"
proof -
  have u: "uuid_is_valid ex_uuid" by code_simp
  show s: "server_start ex_uuid 0 0 = Some ex_start" using server_start_laws(1) [OF u, of 0 0] by (auto simp: ex_start_def)
  show "st_ok ex_start" "nodes_of ex_start = (\<lambda>_. {#})" "gtids (executed_gtids ex_start) = {}" "next_free_gno ex_start = 1"
    using server_start_laws(2) [OF u s] by auto
  show "server_sidno ex_start = 1" by code_simp
qed

lemma ex_sessions: "reachable True ([ex_thd 7, ex_thd 8], ex_start)"
proof -
  have "uuid_is_valid ex_uuid" by code_simp
  then have "reachable True ([], ex_start)" by (rule reachable.start [OF _ ex_start(1)])
  then have "reachable True ([ex_thd 7], ex_start)"
    using reachable.step sys_step.connect [of "ex_thd 7" True "[]" ex_start] by (fastforce simp: ex_thd_def)
  then show ?thesis
    using reachable.step sys_step.connect [of "ex_thd 8" True "[ex_thd 7]" ex_start] by (fastforce simp: ex_thd_def)
qed

lemma ex_not_used: "\<not> owned_gno (owned_gtids ex_start) s g"
  using ex_start(3) by (simp add: owned_gno_def gno_nodes_def)

lemma ex_own:
  shows "generate_automatic_gtid ex_mem GTID_MODE_ON 0 0 None (ex_thd 7, ex_start) = Some (RETURN_STATUS_OK, ex_own, None)"
    and "owned_gtid (fst ex_own) = (1, 1)" and "reachable True (ex_ts, snd ex_own)"
    and "gtids (executed_gtids (snd ex_own)) = {}" and "server_sidno (snd ex_own) = 1" and "next_free_gno (snd ex_own) = 2"
    and "fst ex_own = own_session ex_start 1 1 (ex_thd 7)" and "n_sidnos (snd ex_own) = n_sidnos ex_start"
proof -
  have on: "mode_on GTID_MODE_ON" and a: "automatic_sidno ex_start 0 = 1" "first_candidate ex_start 1 = 1"
    using ex_start by (simp_all add: mode_on_def automatic_sidno_def first_candidate_def)
  obtain g og where f: "first_free (used_gno ex_start 1) 1 g" and
    "generate_automatic_gtid ex_mem GTID_MODE_ON 0 0 None (ex_thd 7, ex_start) =
      Some (if g = -1 then RETURN_STATUS_REPORTED_ERROR else RETURN_STATUS_OK,
        (if g = -1 then ex_thd 7 else if node_ok ex_mem \<and> cell_ok ex_mem then own_session ex_start 1 g (ex_thd 7)
         else clear_owned_gtids (ex_thd 7),
         ex_start\<lparr>owned_gtids := og, next_free_gno := if g \<noteq> -1 \<and> 1 = server_sidno ex_start then g + 1 else next_free_gno ex_start,
           sidno_trace := sidno_trace ex_start @ automatic_events 1 None\<rparr>),
        map_option (\<lambda>_. 1) None)"
    by (rule generate_automatic_gtid_laws [OF ex_start(2) _ on, of 0 None, unfolded a]) auto
  moreover have g: "g = 1"
    using f ex_start(4) ex_not_used by (auto simp: first_free_def GNO_END_def split: if_splits dest: spec [of _ 1])
  ultimately have r: "generate_automatic_gtid ex_mem GTID_MODE_ON 0 0 None (ex_thd 7, ex_start) =
      Some (RETURN_STATUS_OK, (own_session ex_start 1 1 (ex_thd 7), ex_start\<lparr>owned_gtids := og, next_free_gno := 2,
        sidno_trace := sidno_trace ex_start @ automatic_events 1 None\<rparr>), None)"
    using ex_start(6) by (simp add: ex_mem_def)
  then have o: "ex_own = (own_session ex_start 1 1 (ex_thd 7), ex_start\<lparr>owned_gtids := og, next_free_gno := 2,
        sidno_trace := sidno_trace ex_start @ automatic_events 1 None\<rparr>)" by (simp add: ex_own_def)
  show "generate_automatic_gtid ex_mem GTID_MODE_ON 0 0 None (ex_thd 7, ex_start) = Some (RETURN_STATUS_OK, ex_own, None)"
    using r o by simp
  show "owned_gtid (fst ex_own) = (1, 1)" "gtids (executed_gtids (snd ex_own)) = {}" "server_sidno (snd ex_own) = 1"
      "next_free_gno (snd ex_own) = 2" "fst ex_own = own_session ex_start 1 1 (ex_thd 7)" "n_sidnos (snd ex_own) = n_sidnos ex_start"
    using ex_start by (simp_all add: o own_session_def)
  have "sys_step True (Generate 0 (owner_of (fst ex_own))) ([ex_thd 7, ex_thd 8], ex_start) ([ex_thd 7, ex_thd 8][0 := fst ex_own], snd ex_own)"
    by (rule sys_step.automatic [where k = 0 and specified = 0 and gno = 0 and locked = None and env = ex_mem and mode = GTID_MODE_ON
        and status = RETURN_STATUS_OK and l = None])
      (use r o in \<open>simp_all add: ex_thd_def ex_mem_def\<close>)
  then show "reachable True (ex_ts, snd ex_own)" using reachable.step [OF ex_sessions] by simp
qed

text \<open>The transaction of that session commits.\<close>

definition ex_done :: "thd \<times> gtid_state" where
  "ex_done = the (update_on_commit ex_end (ex_ts ! 0, snd ex_own))"


lemma ex_done:
  shows "update_on_commit ex_end (ex_ts ! 0, snd ex_own) = Some ex_done" and "reachable True ([fst ex_done, ex_thd 8], snd ex_done)"
    and "gtids (executed_gtids (snd ex_done)) = {(1, 1)}" and "n_sidnos (snd ex_done) = n_sidnos (snd ex_own)"
proof -
  note inv = reachable_laws(1) [OF ex_own(3)]
  have own: "owned_gtid (ex_ts ! 0) = (int 1, 1)" using ex_own(2) by simp
  obtain t' st1 st' where u: "update_gtids_impl ex_end True (ex_ts ! 0, snd ex_own) = Some (t', st')"
      "end_effect ex_end True 1 1 (ex_ts ! 0) (snd ex_own) st1" "same_view st1 st'" "n_sidnos st' = n_sidnos (snd ex_own)"
    by (rule update_gtids_impl_effect [OF inv _ own, of ex_end True]) simp_all
  then have d: "ex_done = (t', st')" by (simp add: ex_done_def update_on_commit_def)
  then show e: "update_on_commit ex_end (ex_ts ! 0, snd ex_own) = Some ex_done" using u(1) by (simp add: update_on_commit_def)
  show "gtids (executed_gtids (snd ex_done)) = {(1, 1)}" "n_sidnos (snd ex_done) = n_sidnos (snd ex_own)"
    using u(2-4) ex_own(4) by (auto simp: d end_effect_def same_view_def)
  have "sys_step True (Commit 0 (unlogged ex_end (ex_ts ! 0))) (ex_ts, snd ex_own) (ex_ts[0 := fst ex_done], snd ex_done)"
    by (rule sys_step.commit [where eenv = ex_end]) (use e in simp_all)
  then show "reachable True ([fst ex_done, ex_thd 8], snd ex_done)" using reachable.step [OF ex_own(3)] by simp
qed

section \<open>Ownership\<close>







section \<open>New GTIDs and the end of a transaction\<close>





text \<open>
  C28. A new GTID with a number that the context of the transaction gives, as in Group Replication: the
  session owns this GTID, or nothing when there is no memory for the owner; in both cases the result is
  success, \<open>next_free_gno\<close> and the sets stay as they are. Nothing is checked: every other session that owned
  this GTID owns it still, so that it has several owners then.
\<close>

theorem specified_gtid:
  assumes "reachable mem (ts, st)" and "k < length ts" and "mode_on mode" and "specified \<le> n_sidnos st" and "gno_ok g"
  shows "\<exists>t' st'. generate_automatic_gtid env mode specified g None (ts ! k, st) = Some (RETURN_STATUS_OK, (t', st'), None) \<and>
    next_free_gno st' = next_free_gno st \<and> executed_gtids st' = executed_gtids st \<and>
    (let s = (if specified = 0 then server_sidno st else specified); got = node_ok env \<and> cell_ok env in
     owner_of t' = (if got then Some (s, g) else None) \<and>
     (\<forall>r x w. 1 \<le> r \<and> r \<le> n_sidnos st \<and> gno_ok x \<and> w \<noteq> 0 \<longrightarrow>
        is_owned_by (owned_gtids st') r x w =
          Some (got \<and> (r, x, w) = (s, g, thread_id (ts ! k)) \<or> is_owned_by (owned_gtids st) r x w = Some True)))"
proof -
  note st = reachable_laws(3) [OF assms(1)]
  let ?s = "automatic_sidno st specified" and ?t = "ts ! k"
  have sd: "?s = (if specified = 0 then server_sidno st else specified)" by (simp add: automatic_sidno_def)
  have s: "1 \<le> ?s" using automatic_sidno_range [OF st assms(4)] by blast
  obtain og where r: "generate_automatic_gtid env mode specified g None (?t, st) =
      Some (RETURN_STATUS_OK, (if node_ok env \<and> cell_ok env then own_session st ?s g ?t else clear_owned_gtids ?t,
        st\<lparr>owned_gtids := og, sidno_trace := sidno_trace st @ automatic_events ?s None\<rparr>), None)"
      and og: "og_inv og" "og_max_sidno og = og_max_sidno (owned_gtids st)"
        "og_nodes og = (if node_ok env \<and> cell_ok env
          then (nodes_of st)(?s := add_mset (owner_node g (thread_id ?t)) (nodes_of st ?s)) else nodes_of st)"
    using generate_specified_gtid_laws [OF st assms(4,3,5), of None env ?t] by auto
  have o: "owner_of (own_session st ?s g ?t) = Some (?s, g)" "owner_of (clear_owned_gtids ?t) = None"
    using s by (simp_all add: owner_of_def own_session_def clear_owned_gtids_def)
  have "is_owned_by og r x w = Some ((node_ok env \<and> cell_ok env) \<and> (r, x, w) = (?s, g, thread_id ?t) \<or>
      is_owned_by (owned_gtids st) r x w = Some True)" if "1 \<le> r \<and> r \<le> n_sidnos st \<and> gno_ok x \<and> w \<noteq> 0" for r x w
    using that is_owned_by_laws [OF og(1), of r x w] is_owned_by_laws [of "owned_gtids st" r x w] st og(2,3)
    by (auto simp: st_ok_def owner_node_def)
  then show ?thesis using r o unfolding sd [symmetric] by (auto simp: Let_def)
qed

text \<open>In the instance the second session takes the GTID that the first one owns.\<close>

theorem specified_gtid_witness:
  "\<exists>t' st'. generate_automatic_gtid ex_mem GTID_MODE_ON 0 1 None (ex_ts ! 1, snd ex_own) = Some (RETURN_STATUS_OK, (t', st'), None) \<and>
     owner_of t' = Some (1, 1) \<and> is_owned_by (owned_gtids st') 1 1 7 = Some True \<and> is_owned_by (owned_gtids st') 1 1 8 = Some True"
proof -
  have n: "1 \<le> n_sidnos (snd ex_own)" using reachable_laws(3) [OF ex_own(3)] ex_own(5) by (simp add: st_ok_def)
  have m: "mode_on GTID_MODE_ON" "node_ok ex_mem" "cell_ok ex_mem" "thread_id (ex_ts ! 1) = 8" "gno_ok 1"
    by (simp_all add: mode_on_def ex_mem_def ex_thd_def gno_ok_def GNO_END_def)
  obtain t' st' where r: "generate_automatic_gtid ex_mem GTID_MODE_ON 0 1 None (ex_ts ! 1, snd ex_own) = Some (RETURN_STATUS_OK, (t', st'), None)"
      "owner_of t' = Some (1, 1)"
      "\<forall>r x w. 1 \<le> r \<and> r \<le> n_sidnos (snd ex_own) \<and> gno_ok x \<and> w \<noteq> 0 \<longrightarrow> is_owned_by (owned_gtids st') r x w =
         Some ((r, x, w) = (1, 1, 8) \<or> is_owned_by (owned_gtids (snd ex_own)) r x w = Some True)"
    using specified_gtid [OF ex_own(3), of 1 GTID_MODE_ON 0 1 ex_mem] m ex_own(5) by (auto simp: Let_def simp del: nth_Cons_Suc)
  have "nodes_of (snd ex_own) 1 = session_nodes ex_ts 1" using reachable_laws(1) [OF ex_own(3)] by (simp add: sys_inv_def)
  moreover have "thread_id (fst ex_own) = 7" using ex_own(7) by (simp add: own_session_def ex_thd_def)
  ultimately have "owner_node 1 7 \<in># nodes_of (snd ex_own) 1" using ex_own(2) by (simp add: session_nodes_def owns_def)
  then have "is_owned_by (owned_gtids (snd ex_own)) 1 1 7 = Some True"
    using is_owned_by_laws [of "owned_gtids (snd ex_own)" 1 1 7] n m(5) reachable_laws(3) [OF ex_own(3)] by (simp add: st_ok_def)
  then show ?thesis using r n m(5) by fastforce
qed

section \<open>The commit of a group\<close>

text \<open>
  C6. The commit of a group of sessions locks every SIDNO of which the group owns a GTID once, in
  increasing order, and after the changes broadcasts and unlocks each of them; no SIDNO stays marked, and
  the state is reachable again. As all groups lock in the same order, two of them cannot deadlock.
\<close>

theorem group_commit_locks:
  assumes "reachable mem (ts, st)" and "distinct ks" and "\<forall>k \<in> set ks. k < length ts"
  shows "\<exists>ns us st'. update_commit_group env (map ((!) ts) ks) st = Some (us, st') \<and> sorted_wrt (<) ns \<and>
    set ns = {s. 1 \<le> s \<and> (\<exists>k \<in> set ks. fst (owned_gtid (ts ! k)) = int s)} \<and>
    sidno_trace st' = sidno_trace st @ map Lock_sidno ns @ concat (map (\<lambda>n. [Broadcast_sidno n, Unlock_sidno n]) ns) \<and>
    True \<notin> set (commit_group_sidnos st') \<and> reachable mem (put ts ks us, st')"
proof -
  note inv = reachable_laws(1) [OF assms(1)] and un = reachable_laws(2) [OF assms(1)]
  let ?ns = "sidno_list (length (commit_group_sidnos st)) (map ((!) ts) ks)"
  have ns: "set ?ns = {s. 1 \<le> s \<and> (\<exists>k \<in> set ks. fst (owned_gtid (ts ! k)) = int s)}"
    unfolding sidno_list_set [OF group_in_range(2) [OF inv assms(3)]] by (auto simp: group_sidnos_def)
  show ?thesis
  proof (rule update_commit_group_laws [OF inv un assms(2,3), of env])
    fix us fl and st1 :: gtid_state
    let ?st = "st1\<lparr>sidno_trace := sidno_trace st @ map Lock_sidno ?ns @ unlock_events ?ns, commit_group_sidnos := commit_group_sidnos st\<rparr>"
    assume a: "update_commit_group env (map ((!) ts) ks) st = Some (us, ?st)"
    have "sys_step mem (Group_commit (map (member_of env ts) ks)) (ts, st) (put ts ks us, ?st)" by (rule sys_step.group_commit [OF assms(2) _ a]) (use assms(3) in simp)
    then have "reachable mem (put ts ks us, ?st)" by (rule reachable.step [OF assms(1)])
    moreover have "True \<notin> set (commit_group_sidnos st)" using un bspec [of "set (commit_group_sidnos st)" Not True] by (auto simp: unmarked_def)
    ultimately have "update_commit_group env (map ((!) ts) ks) st = Some (us, ?st) \<and> sorted_wrt (<) ?ns \<and>
        set ?ns = {s. 1 \<le> s \<and> (\<exists>k \<in> set ks. fst (owned_gtid (ts ! k)) = int s)} \<and>
        sidno_trace ?st = sidno_trace st @ map Lock_sidno ?ns @ concat (map (\<lambda>n. [Broadcast_sidno n, Unlock_sidno n]) ?ns) \<and>
        True \<notin> set (commit_group_sidnos ?st) \<and> reachable mem (put ts ks us, ?st)"
      using a ns by (simp add: sidno_list_ordered unlock_events_def)
    then show ?thesis by (intro exI)
  qed
qed

theorem group_commit_locks_witness:
  "\<exists>us st'. update_commit_group ex_end (map ((!) ex_ts) [1, 0]) (snd ex_own) = Some (us, st') \<and>
     sidno_trace st' = sidno_trace (snd ex_own) @ [Lock_sidno 1, Broadcast_sidno 1, Unlock_sidno 1]"
proof -
  obtain ns us st' where u: "update_commit_group ex_end (map ((!) ex_ts) [1, 0]) (snd ex_own) = Some (us, st')"
      "sorted_wrt (<) ns" "set ns = {s. 1 \<le> s \<and> (\<exists>k \<in> set [1, 0]. fst (owned_gtid (ex_ts ! k)) = int s)}"
      "sidno_trace st' = sidno_trace (snd ex_own) @ map Lock_sidno ns @ concat (map (\<lambda>n. [Broadcast_sidno n, Unlock_sidno n]) ns)"
    using group_commit_locks [OF ex_own(3), of "[1, 0]" ex_end] by (auto simp del: list.map)
  have "set ns = {1}" using u(3) ex_own(2) by (auto simp: ex_thd_def)
  moreover have "distinct ns" using u(2) by (simp add: strict_sorted_iff)
  ultimately have "ns = [1]" by (cases ns; cases "tl ns") auto
  then show ?thesis using u(1,4) by auto
qed

text \<open>
  C5. The commit of a group does to the state, but for the locks, what the commit of each session and
  the rollback of each session with an error do one after the other, in the order of the group. It does the
  same to every session, except to one with an error that skips its rollback: alone that session is left as
  it is, in the group its \<open>GTID_NEXT\<close> becomes undefined when it is a GTID and nothing is owned or violated.
\<close>

theorem group_commit_one_by_one:
  assumes "reachable mem (ts, st)" and "distinct ks" and "\<forall>k \<in> set ks. k < length ts"
  shows "\<exists>us vs st1 st2. update_commit_group env (map ((!) ts) ks) st = Some (us, st1) \<and>
    one_by_one env (map ((!) ts) ks) st = Some (vs, st2) \<and> core st1 = core st2 \<and>
    us = map2 (\<lambda>t v. if commit_error t \<and> skip_gtid_rollback t then snd (update_gtids_impl_do_nothing t) else v) (map ((!) ts) ks) vs"
proof -
  note inv = reachable_laws(1) [OF assms(1)] and un = reachable_laws(2) [OF assms(1)]
  let ?ns = "sidno_list (length (commit_group_sidnos st)) (map ((!) ts) ks)"
  obtain vs st2 where o: "one_by_one env (map ((!) ts) ks) st = Some (vs, st2)"
      "\<And>tr fl. commit_group_loop env (map ((!) ts) ks) (with_locks tr fl st) = Some (map2 in_group (map ((!) ts) ks) vs, with_locks tr fl st2)"
    using commit_group_one_by_one [OF inv assms(2,3), of env] by blast
  have g: "in_group = (\<lambda>t v. if commit_error t \<and> skip_gtid_rollback t then snd (update_gtids_impl_do_nothing t) else v)"
    by (simp add: fun_eq_iff in_group_def skips_def)
  show ?thesis
  proof (rule update_commit_group_laws [OF inv un assms(2,3), of env])
    fix us fl and st1 :: gtid_state
    let ?tr = "sidno_trace st @ map Lock_sidno ?ns"
    assume a: "commit_group_loop env (map ((!) ts) ks) (st\<lparr>sidno_trace := ?tr, commit_group_sidnos := fl\<rparr>) = Some (us, st1)"
      "update_commit_group env (map ((!) ts) ks) st =
        Some (us, st1\<lparr>sidno_trace := sidno_trace st @ map Lock_sidno ?ns @ unlock_events ?ns,
                      commit_group_sidnos := commit_group_sidnos st\<rparr>)"
    have "us = map2 in_group (map ((!) ts) ks) vs" "st1 = with_locks ?tr fl st2"
      using a(1) o(2) [of ?tr fl] by (simp_all add: with_locks_def)
    moreover from this(2) have "core (st1\<lparr>sidno_trace := sidno_trace st @ map Lock_sidno ?ns @ unlock_events ?ns,
        commit_group_sidnos := commit_group_sidnos st\<rparr>) = core st2" by (simp add: core_def with_locks_def)
    ultimately show ?thesis using a(2) o(1) unfolding g by blast
  qed
qed

theorem group_commit_one_by_one_witness:
  "\<exists>us st1 st2. update_commit_group ex_end (map ((!) ex_ts) [1, 0]) (snd ex_own) = Some (us, st1) \<and>
     one_by_one ex_end (map ((!) ex_ts) [1, 0]) (snd ex_own) = Some (us, st2) \<and> core st1 = core st2"
proof -
  obtain us vs st1 st2 where r: "update_commit_group ex_end (map ((!) ex_ts) [1, 0]) (snd ex_own) = Some (us, st1)"
      "one_by_one ex_end (map ((!) ex_ts) [1, 0]) (snd ex_own) = Some (vs, st2)" "core st1 = core st2"
      "us = map2 (\<lambda>t v. if commit_error t \<and> skip_gtid_rollback t then snd (update_gtids_impl_do_nothing t) else v) (map ((!) ex_ts) [1, 0]) vs"
    using group_commit_one_by_one [OF ex_own(3), of "[1, 0]" ex_end] by auto
  have n: "\<not> commit_error (ex_ts ! 1)" "\<not> commit_error (ex_ts ! 0)" using ex_own(7) by (simp_all add: ex_thd_def own_session_def)
  have "length vs = 2" using r(2) by (auto split: bind_splits)
  then obtain a b where "vs = [a, b]" by (auto simp: length_Suc_conv numeral_2_eq_2)
  then have "us = vs" using r(4) n by simp
  then show ?thesis using r(1-3) by blast
qed

section \<open>Waiting\<close>

text \<open>
  C8. \<open>set_gtid_next\<close> with a GTID returns as soon as the session need not wait any more. While it waits
  GTIDs are on, another session owns the GTID, the GTID is not executed, and the session is not killed.
  When it returns, GTIDs are off or the session was killed and there is an error; or the GTID is
  executed and the session owns nothing; or the session owns the GTID; or there was no memory for the
  owner, and then the session owns nothing although the result is success.
\<close>

theorem set_gtid_next_returns:
  assumes "reachable mem (ts, st)" and "k < length ts" and "fst (owned_gtid (ts ! k)) = 0"
    and "spec_type spec = GTID_GROUP" "spec_gtid spec = (s, g)" and "1 \<le> s" "s \<le> n_sidnos st" and "gno_ok g"
    and "others_ok env s" and "\<not> must_wait env m s g (waiting_state env s 0 m st)"
  shows "\<exists>n \<le> m. \<exists>err t' st'. set_gtid_next env spec (ts ! k, st) = Some (err, t', st') \<and>
    (let st1 = waiting_state env s 0 n st in
     if wait_mode env n = GTID_MODE_OFF then err = Some ER_CANT_SET_GTID_NEXT_TO_GTID_WHEN_GTID_MODE_IS_OFF
     else if (s, g) \<in> gtids (executed_gtids st1) then err = None \<and> owner_of t' = None \<and> gtid_next t' = spec
     else if owned_gno (owned_gtids st1) s g then err = Some Wait_interrupted \<and> interrupted env n \<and> t' = ts ! k
     else err = None \<and> gtid_next t' = spec \<and>
       owner_of t' = (if node_ok (wait_mem env n) \<and> cell_ok (wait_mem env n) then Some (s, g) else None))"
proof -
  obtain n err t' st' where n: "n \<le> m" "\<not> must_wait env n s g (waiting_state env s 0 n st)"
      "set_gtid_next env spec (ts ! k, st) = Some (err, t', st')"
      "next_outcome env n s g spec (ts ! k) (waiting_state env s 0 n st) err t' st'"
    using set_gtid_next_ends [OF reachable_laws(3) [OF assms(1)] assms(3-)] by blast
  have o: "owner_of ((ts ! k)\<lparr>gtid_next := spec\<rparr>) = None" "owner_of ((clear_owned_gtids (ts ! k))\<lparr>gtid_next := spec\<rparr>) = None"
      "owner_of ((own_session st1 s g (ts ! k))\<lparr>gtid_next := spec\<rparr>) = Some (s, g)" for st1
    using assms(3,6) by (simp_all add: owner_of_def clear_owned_gtids_def own_session_def)
  show ?thesis
    by (rule exI [of _ n], intro conjI exI [of _ err] exI [of _ t'] exI [of _ st'])
      (use n o in \<open>auto simp: next_outcome_def must_wait_def Let_def\<close>)
qed

text \<open>In the instance the other session rolls back while the session waits.\<close>

definition ex_wait :: wait_env where
  "ex_wait =
     \<lparr>wait_mode = (\<lambda>_. GTID_MODE_ON), wait_mem = (\<lambda>_. ex_mem),
      others = (\<lambda>_ st. if n_sidnos st = n_sidnos ex_start then st\<lparr>owned_gtids := owned_gtids ex_start\<rparr> else st),
      interrupted = (\<lambda>_. False), timed_out = (\<lambda>_. False)\<rparr>"

lemma ex_wait_ok: "others_ok ex_wait 1"
  using ex_start(2) by (auto simp: others_ok_def ex_wait_def st_ok_def)

theorem set_gtid_next_returns_witness:
  "\<exists>t' st'. set_gtid_next ex_wait \<lparr>spec_type = GTID_GROUP, spec_gtid = (1, 1)\<rparr> (ex_ts ! 1, snd ex_own) = Some (None, t', st') \<and>
     owner_of t' = Some (1, 1)"
proof -
  let ?spec = "\<lparr>spec_type = GTID_GROUP, spec_gtid = (1, 1)\<rparr>" and ?st = "\<lambda>n. waiting_state ex_wait 1 0 n (snd ex_own)"
  have "1 \<le> n_sidnos (snd ex_own)" using reachable_laws(3) [OF ex_own(3)] ex_own(5) by (simp add: st_ok_def)
  moreover have st: "owned_gtids (?st 1) = owned_gtids ex_start" "executed_gtids (?st 1) = executed_gtids (snd ex_own)"
    "?st 0 = snd ex_own" using ex_own(8) by (simp_all add: ex_wait_def)
  have "\<not> must_wait ex_wait 1 1 1 (?st 1)" using ex_not_used st(1) by (simp add: must_wait_def)
  ultimately obtain n err t' st' where n: "n \<le> 1" "set_gtid_next ex_wait ?spec (ex_ts ! 1, snd ex_own) = Some (err, t', st')"
    "let st1 = ?st n in
     if wait_mode ex_wait n = GTID_MODE_OFF then err = Some ER_CANT_SET_GTID_NEXT_TO_GTID_WHEN_GTID_MODE_IS_OFF
     else if (1, 1) \<in> gtids (executed_gtids st1) then err = None \<and> owner_of t' = None \<and> gtid_next t' = ?spec
     else if owned_gno (owned_gtids st1) 1 1 then err = Some Wait_interrupted \<and> interrupted ex_wait n \<and> t' = ex_ts ! 1
     else err = None \<and> gtid_next t' = ?spec \<and>
       owner_of t' = (if node_ok (wait_mem ex_wait n) \<and> cell_ok (wait_mem ex_wait n) then Some (1, 1) else None)"
    using set_gtid_next_returns [OF ex_own(3), of 1 ?spec 1 1 ex_wait 1] ex_wait_ok
    by (auto simp: ex_thd_def gno_ok_def GNO_END_def)
  have "n = 0 \<or> n = 1" using n(1) by auto
  then have "(1, 1) \<notin> gtids (executed_gtids (?st n))" using st ex_own(4) by auto
  moreover have "wait_mode ex_wait n \<noteq> GTID_MODE_OFF" "\<not> interrupted ex_wait n" "node_ok (wait_mem ex_wait n)" "cell_ok (wait_mem ex_wait n)"
    by (simp_all add: ex_wait_def ex_mem_def)
  ultimately show ?thesis using n(2,3) by (auto simp: Let_def split: if_splits)
qed


text \<open>In the instance the other session commits during the first wait.\<close>

definition ex_commits :: wait_env where
  "ex_commits =
     \<lparr>wait_mode = (\<lambda>_. GTID_MODE_ON), wait_mem = (\<lambda>_. ex_mem),
      others = (\<lambda>_ st. case commit_gtid ex_end (fst ex_own) st of Some st' \<Rightarrow> st' | None \<Rightarrow> st),
      interrupted = (\<lambda>_. False), timed_out = (\<lambda>_. False)\<rparr>"

abbreviation ex_set :: gtid_set where
  "ex_set \<equiv> executed_gtids (snd ex_done)"

lemma ex_commits:
  shows "waits_ok ex_commits" and "executed_after ex_commits 0 (gtids ex_set)" and "in_time ex_commits"
    and "set_fits (n_sidnos (snd ex_own)) ex_set"
proof -
  have own: "owned_gtid (fst ex_own) = (int 1, 1)" and g: "gno_ok 1" using ex_own(2) by (simp_all add: gno_ok_def GNO_END_def)
  have c: "st_ok (others ex_commits i st) \<and> n_sidnos (others ex_commits i st) = n_sidnos st \<and>
      (1, 1) \<in> gtids (executed_gtids (others ex_commits i st))" if st: "st_ok st" for i st
  proof -
    have n: "1 \<le> n_sidnos st" using st by (auto simp: st_ok_def)
    show ?thesis
      by (rule commit_gtid_laws [OF st own order_refl n g, of ex_end]) (use st in \<open>simp add: ex_commits_def st_ok_def\<close>)
  qed
  show "waits_ok ex_commits" "executed_after ex_commits 0 (gtids ex_set)" "in_time ex_commits"
    using c ex_done(3) by (auto simp: waits_ok_def executed_after_def) (simp add: in_time_def ex_commits_def)
  show "set_fits (n_sidnos (snd ex_own)) ex_set"
    using st_ok_sets(2) [OF reachable_laws(3) [OF ex_done(2)]] ex_done(4) by (auto intro: set_ok_fits)
qed


text \<open>
  C10. When from some time on the other sessions leave all GTIDs of the set executed, and the session is
  neither killed nor out of time, \<open>wait_for_gtid_set\<close> returns, with success.
\<close>

theorem wait_for_gtid_set_returns:
  assumes "reachable mem (ts, st)" and "waits_ok env" and "set_fits (n_sidnos st) wait_for"
    and "in_time env" and "executed_after env k (gtids wait_for)"
  shows "\<exists>st'. wait_for_gtid_set env gs_env_ok wait_for st = Some (False, st')"
  using wait_verify_loop_live [OF assms(2,4,5) reachable_laws(3) [OF assms(1)] set_fits_init assms(3)] set_with_memory_laws(2) [of 100 0]
  by (simp add: wait_for_gtid_set_def)

theorem wait_for_gtid_set_returns_witness:
  "\<exists>st'. wait_for_gtid_set ex_commits gs_env_ok ex_set (snd ex_own) = Some (False, st')"
  by (rule wait_for_gtid_set_returns [OF ex_own(3) ex_commits(1,4,3,2)])

end
