(* ===== verification/Rb_Tree.thy ===== *)
theory Rb_Tree
  imports Prelude "HOL-Library.Monad_Syntax"
begin

text \<open>
  The balanced binary trees of \<^verbatim>\<open>mysys/tree.c\<close> and \<^verbatim>\<open>include/my_tree.h\<close>: insertion and deletion with
  rebalancing along an array of parents, searches, steps to the next element and walks. An array of
  pointers to the links on the way from the root is a list of frames, the last link first; what the
  last link points to is kept beside it. An element is linked once, so comparing its address with a
  child of its parent tells on which side it hangs; only the shared \<open>null_element\<close> is linked many times.
  \<open>None\<close> as a result says that the code would follow a null pointer or use the array of parents outside
  its bounds.
\<close>

section \<open>Elements\<close>

datatype colour = RED | BLACK

datatype 'k tree_element =
    Null_element
  | Element (el_left: "'k tree_element") (el_count: "31 word") (el_colour: colour) (el_key: 'k) (el_right: "'k tree_element")

fun colour_of :: "'k tree_element \<Rightarrow> colour" where
  "colour_of Null_element = BLACK"
| "colour_of (Element l n c k r) = c"

text \<open>Setting a colour; \<open>null_element\<close> is only ever made black, which it is.\<close>

fun paint :: "colour \<Rightarrow> 'k tree_element \<Rightarrow> 'k tree_element" where
  "paint c Null_element = Null_element"
| "paint c (Element l n c' k r) = Element l n c k r"

subsection \<open>The way from the root\<close>

datatype side = Left | Right

datatype 'k frame = Frame (fr_side: side) (fr_other: "'k tree_element") (fr_count: "31 word") (fr_colour: colour) (fr_key: 'k)

fun link :: "'k frame \<Rightarrow> 'k tree_element \<Rightarrow> 'k tree_element" where
  "link (Frame Left s n c k) x = Element x n c k s"
| "link (Frame Right s n c k) x = Element s n c k x"

fun plug :: "'k tree_element \<Rightarrow> 'k frame list \<Rightarrow> 'k tree_element" where
  "plug x [] = x"
| "plug x (f # p) = plug (link f x) p"

definition MAX_TREE_HEIGHT :: nat where
  "MAX_TREE_HEIGHT = 64"

text \<open>\<open>*++parent= ...\<close>: the index of the last link is the number of frames.\<close>

definition push_parent :: "'k frame \<Rightarrow> 'k frame list \<Rightarrow> 'k frame list option" where
  "push_parent f p = (if length p + 1 < MAX_TREE_HEIGHT then Some (f # p) else None)"

section \<open>Rebalancing\<close>

fun left_rotate :: "'k tree_element \<Rightarrow> 'k tree_element option" where
  "left_rotate (Element a n c k (Element b n' c' k' d)) = Some (Element (Element a n c k b) n' c' k' d)"
| "left_rotate _ = None"

fun right_rotate :: "'k tree_element \<Rightarrow> 'k tree_element option" where
  "right_rotate (Element (Element a n c k b) n' c' k' d) = Some (Element a n c k (Element b n' c' k' d))"
| "right_rotate _ = None"

text \<open>
  The loop of \<open>rb_insert\<close>; the result is the new root. A red parent that is the root would have no link
  before it.
\<close>

fun rb_insert_loop :: "'k tree_element \<Rightarrow> 'k frame list \<Rightarrow> 'k tree_element option" where
  "rb_insert_loop leaf [] = Some leaf"
| "rb_insert_loop leaf [par] = (if fr_colour par = RED then None else Some (plug leaf [par]))"
| "rb_insert_loop leaf (Frame side other n c k # Frame side2 y n2 c2 k2 # p) =
     (if c \<noteq> RED then Some (plug leaf (Frame side other n c k # Frame side2 y n2 c2 k2 # p))
      else if colour_of y = RED then
        rb_insert_loop (link (Frame side2 (paint BLACK y) n2 RED k2) (link (Frame side other n BLACK k) leaf)) p
      else if side2 = Left then do {
        par \<leftarrow> (if side = Right then left_rotate (link (Frame side other n c k) leaf)
               else Some (link (Frame side other n c k) leaf));
        top \<leftarrow> right_rotate (link (Frame side2 y n2 RED k2) (paint BLACK par));
        Some (plug top p) }
      else do {
        par \<leftarrow> (if side = Left then right_rotate (link (Frame side other n c k) leaf)
               else Some (link (Frame side other n c k) leaf));
        top \<leftarrow> left_rotate (link (Frame side2 y n2 RED k2) (paint BLACK par));
        Some (plug top p) })"

definition rb_insert :: "'k tree_element \<Rightarrow> 'k frame list \<Rightarrow> 'k tree_element option" where
  "rb_insert leaf p = map_option (paint BLACK) (rb_insert_loop (paint RED leaf) p)"

text \<open>
  The end of an iteration of \<open>rb_delete_fixup\<close> when the sibling has a red child; \<open>x\<close> hangs on the left of
  the parent, or on the right in the second case.
\<close>

fun fixup_red_nephew :: "side \<Rightarrow> 'k tree_element \<Rightarrow> 'k frame \<Rightarrow> 'k frame list \<Rightarrow> 'k tree_element option" where
  "fixup_red_nephew Left x (Frame _ w n c k) p = do {
     w1 \<leftarrow> (if colour_of (el_right w) = BLACK then right_rotate (Element (paint BLACK (el_left w)) (el_count w) RED (el_key w) (el_right w))
           else Some w);
     w2 \<leftarrow> (case w1 of Null_element \<Rightarrow> None | Element l n' c' k' r \<Rightarrow> Some (Element l n' c k' (paint BLACK r)));
     top \<leftarrow> left_rotate (Element x n BLACK k w2);
     Some (paint BLACK (plug top p)) }"
| "fixup_red_nephew Right x (Frame _ w n c k) p = do {
     w1 \<leftarrow> (if colour_of (el_left w) = BLACK then left_rotate (Element (el_left w) (el_count w) RED (el_key w) (paint BLACK (el_right w)))
           else Some w);
     w2 \<leftarrow> (case w1 of Null_element \<Rightarrow> None | Element l n' c' k' r \<Rightarrow> Some (Element (paint BLACK l) n' c k' r));
     top \<leftarrow> right_rotate (Element w2 n BLACK k x);
     Some (paint BLACK (plug top p)) }"

text \<open>A red sibling is rotated above the parent, which adds a link to the way.\<close>

fun fixup_red_sibling :: "'k frame \<Rightarrow> 'k frame list \<Rightarrow> ('k frame \<times> 'k frame list) option" where
  "fixup_red_sibling (Frame Left (Element wl wn RED wk wr) n c k) p = do {
     q \<leftarrow> push_parent (Frame Left wl n RED k) (Frame Left wr wn BLACK wk # p);
     Some (hd q, tl q) }"
| "fixup_red_sibling (Frame Right (Element wl wn RED wk wr) n c k) p = do {
     q \<leftarrow> push_parent (Frame Right wr n RED k) (Frame Right wl wn BLACK wk # p);
     Some (hd q, tl q) }"
| "fixup_red_sibling f p = Some (f, p)"

lemma fixup_red_sibling_smaller:
  "fixup_red_sibling f p = Some (g, q) \<Longrightarrow> length q = length p \<or> length q = Suc (length p) \<and> fr_colour g = RED"
  by (induction f p rule: fixup_red_sibling.induct) (auto simp: push_parent_def split: if_splits bind_splits)

lemma colour_link [simp]: "colour_of (link f x) = fr_colour f"
  by (cases f; cases "fr_side f") auto

text \<open>
  \<open>rb_delete_fixup\<close>. The test \<open>x == par->left\<close> holds also when \<open>x\<close> is the \<open>null_element\<close> on the right and so is the
  left child; then the sibling is taken to be \<open>null_element\<close>, which has no children to look at.
\<close>

function rb_delete_fixup :: "'k tree_element \<Rightarrow> 'k frame list \<Rightarrow> 'k tree_element option" where
  "rb_delete_fixup x [] = Some (paint BLACK x)"
| "rb_delete_fixup x (f # p) =
     (if colour_of x = RED then Some (plug (paint BLACK x) (f # p))
      else if fr_side f = Right \<and> x = Null_element \<and> fr_other f = Null_element then None
      else do {
        (g, q) \<leftarrow> fixup_red_sibling f p;
        let w = fr_other g;
        if w = Null_element then None
        else if colour_of (el_left w) = BLACK \<and> colour_of (el_right w) = BLACK then
          rb_delete_fixup (link (Frame (fr_side g) (paint RED w) (fr_count g) (fr_colour g) (fr_key g)) x) q
        else fixup_red_nephew (fr_side g) x g q })"
  by pat_completeness auto
termination
  by (relation "measure (\<lambda>(x, p). 2 * length p + (if colour_of x = RED then 0 else 1))")
    (auto dest: fixup_red_sibling_smaller split: colour.splits)

section \<open>Trees\<close>

text \<open>
  \<open>sizeof(TREE_ELEMENT)\<close> and \<open>sizeof(void*)\<close> of a 64-bit machine. Keys are values: whether a key is stored in
  the element, behind it or by reference makes no difference to the functions that look at it. The
  custom argument of the comparison is the argument \<open>'c\<close>; \<open>free_fn\<close> says whether there is a function that
  frees keys, and what it is called with is a part of the results.
\<close>

definition SIZEOF_TREE_ELEMENT :: nat where
  "SIZEOF_TREE_ELEMENT = 24"

definition SIZEOF_VOID_P :: nat where
  "SIZEOF_VOID_P = 8"

record ('k, 'c) tree =
  root :: "'k tree_element"
  offset_to_key :: "32 word"
  elements_in_tree :: "32 word"
  size_of_element :: "32 word"
  memory_limit :: "64 word"
  allocated :: "64 word"
  compare :: "'c \<Rightarrow> 'k \<Rightarrow> 'k \<Rightarrow> int"
  with_delete :: bool
  free_fn :: bool
  flag_no_dups :: bool
  mem_root_block :: "64 word"
  mem_root_min :: "64 word"

datatype 'k tree_free = Free_init | Free_free 'k | Free_end

text \<open>\<open>MY_ALIGN(n, 8192)\<close> and the choice of where the key of an element is.\<close>

definition align_block :: "64 word \<Rightarrow> 64 word" where
  "align_block n = and (n + 8191) (not 8191)"

definition init_tree ::
  "64 word \<Rightarrow> 64 word \<Rightarrow> int \<Rightarrow> ('c \<Rightarrow> 'k \<Rightarrow> 'k \<Rightarrow> int) \<Rightarrow> bool \<Rightarrow> bool \<Rightarrow> ('k, 'c) tree" where
  "init_tree default_alloc_size limit sz cmp with_del has_free =
     (let block = align_block (if default_alloc_size < 8192 then 8192 else default_alloc_size);
          size1 = (if sz > 0 then word_of_int sz else 0 :: 32 word);
          usize = word_of_int sz :: 32 word;
          inside = (\<not> has_free \<and> sz \<ge> 0 \<and> (usize \<le> of_nat SIZEOF_VOID_P \<or> and usize (of_nat SIZEOF_VOID_P - 1) \<noteq> 0));
          unit = of_nat SIZEOF_TREE_ELEMENT + word_of_int sz :: 64 word;
          block1 = (if inside then (let n = block div unit in (if n = 0 then 1 else n) * unit) else block);
          size2 = (if inside then size1 else size1 + of_nat SIZEOF_VOID_P) in
      \<lparr>root = Null_element, offset_to_key = (if inside then of_nat SIZEOF_TREE_ELEMENT else 0), elements_in_tree = 0,
       size_of_element = size2, memory_limit = limit, allocated = 0, compare = cmp, with_delete = with_del,
       free_fn = has_free, flag_no_dups = False, mem_root_block = (if with_del then 0 else block1),
       mem_root_min = (if with_del then 0 else of_nat SIZEOF_TREE_ELEMENT + ucast size2)\<rparr>)"

subsection \<open>Freeing\<close>

fun delete_tree_element :: "bool \<Rightarrow> 'k tree_element \<Rightarrow> 'k tree_free list" where
  "delete_tree_element has_free Null_element = []"
| "delete_tree_element has_free (Element l n c k r) =
     delete_tree_element has_free l @ (if has_free then [Free_free k] else []) @ delete_tree_element has_free r"

definition free_tree :: "('k, 'c) tree \<Rightarrow> 'k tree_free list \<times> ('k, 'c) tree" where
  "free_tree t =
     (if with_delete t then delete_tree_element (free_fn t) (root t)
      else if free_fn t then
        (if memory_limit t \<noteq> 0 then [Free_init] else []) @ delete_tree_element True (root t) @
        (if memory_limit t \<noteq> 0 then [Free_end] else [])
      else [],
      t\<lparr>root := Null_element, elements_in_tree := 0, allocated := 0\<rparr>)"

definition delete_tree :: "('k, 'c) tree \<Rightarrow> 'k tree_free list \<times> ('k, 'c) tree" where
  "delete_tree t = free_tree t"

definition reset_tree :: "('k, 'c) tree \<Rightarrow> 'k tree_free list \<times> ('k, 'c) tree" where
  "reset_tree t = free_tree t"

subsection \<open>Insertion\<close>

text \<open>The loop that \<open>tree_insert\<close> and \<open>tree_delete\<close> share: down to the key or to a \<open>null_element\<close>.\<close>

fun find_link :: "('k \<Rightarrow> int) \<Rightarrow> 'k tree_element \<Rightarrow> 'k frame list \<Rightarrow> ('k tree_element \<times> 'k frame list) option" where
  "find_link cmp Null_element p = Some (Null_element, p)"
| "find_link cmp (Element l n c k r) p =
     (if cmp k = 0 then Some (Element l n c k r, p)
      else if cmp k < 0 then do {
        q \<leftarrow> push_parent (Frame Right l n c k) p;
        find_link cmp r q }
      else do {
        q \<leftarrow> push_parent (Frame Left r n c k) p;
        find_link cmp l q })"

text \<open>
  \<open>tree_insert\<close>. \<open>mem\<close> says whether there is memory for the element. The result is \<open>None\<close> for a null pointer, or
  the key and the counter of the element. The counter has 31 bits and does not wrap around. When the
  memory limit is reached the tree is emptied and the insertion starts again.
\<close>

definition count_up :: "31 word \<Rightarrow> 31 word" where
  "count_up n = (if n + 1 = 0 then n + 1 - 1 else n + 1)"

function tree_insert ::
  "bool \<Rightarrow> 'k \<Rightarrow> 32 word \<Rightarrow> 'c \<Rightarrow> ('k, 'c) tree \<Rightarrow> (('k \<times> 31 word) option \<times> 'k tree_free list \<times> ('k, 'c) tree) option" where
  "tree_insert mem key key_size arg t =
     (case find_link (\<lambda>k. compare t arg k key) (root t) [] of
        None \<Rightarrow> None
      | Some (Null_element, p) \<Rightarrow>
          let alloc_size = of_nat SIZEOF_TREE_ELEMENT + key_size + size_of_element t :: 32 word;
              t1 = t\<lparr>allocated := allocated t + ucast alloc_size\<rparr> in
          if memory_limit t \<noteq> 0 \<and> elements_in_tree t \<noteq> 0 \<and> allocated t1 > memory_limit t then
            map_option (\<lambda>(el, calls, t3). (el, fst (reset_tree t1) @ calls, t3))
              (tree_insert mem key key_size arg (snd (reset_tree t1)))
          else if \<not> mem then Some (None, [], t1)
          else map_option (\<lambda>rt. (Some (key, 1), [], t1\<lparr>root := rt, elements_in_tree := elements_in_tree t + 1\<rparr>))
                 (rb_insert (Element Null_element 1 RED key Null_element) p)
      | Some (Element l n c k r, p) \<Rightarrow>
          if flag_no_dups t then Some (None, [], t)
          else Some (Some (k, count_up n), [], t\<lparr>root := plug (Element l (count_up n) c k r) p\<rparr>))"
  by pat_completeness auto
termination
  by (relation "measure (\<lambda>(mem, key, key_size, arg, t). if elements_in_tree t = 0 then 0 else 1)")
    (auto simp: reset_tree_def free_tree_def)

declare tree_insert.simps [simp del]

subsection \<open>Deletion\<close>

text \<open>Down to the leftmost element below a link.\<close>

fun min_link :: "'k tree_element \<Rightarrow> 'k frame list \<Rightarrow> ('k tree_element \<times> 'k frame list) option" where
  "min_link Null_element p = None"
| "min_link (Element l n c k r) p =
     (if l = Null_element then Some (Element l n c k r, p)
      else do {
        q \<leftarrow> push_parent (Frame Left r n c k) p;
        min_link l q })"

text \<open>
  Unlinking an element: its only child, or the next element in its place, which gets its colour and its
  children. The result is what hangs at the last link, the way to it, and the colour that is missing.
\<close>

definition unlink_element :: "'k tree_element \<Rightarrow> 31 word \<Rightarrow> colour \<Rightarrow> 'k \<Rightarrow> 'k tree_element \<Rightarrow> 'k frame list
    \<Rightarrow> ('k tree_element \<times> 'k frame list \<times> colour) option" where
  "unlink_element l n c k r p =
     (if l = Null_element then Some (r, p, c)
      else if r = Null_element then Some (l, p, c)
      else do {
        p1 \<leftarrow> push_parent (Frame Right l n c k) p;
        (nod, q) \<leftarrow> min_link r p1;
        Some (el_right nod, take (length q - length p1) q @ Frame Right l (el_count nod) c (el_key nod) # p, el_colour nod) })"

definition tree_delete :: "'k \<Rightarrow> 32 word \<Rightarrow> 'c \<Rightarrow> ('k, 'c) tree \<Rightarrow> (int \<times> 'k tree_free list \<times> ('k, 'c) tree) option" where
  "tree_delete key key_size arg t =
     (if \<not> with_delete t then Some (1, [], t)
      else case find_link (\<lambda>k. compare t arg k key) (root t) [] of
        None \<Rightarrow> None
      | Some (Null_element, p) \<Rightarrow> Some (1, [], t)
      | Some (Element l n c k r, p) \<Rightarrow> do {
          (x, q, remove_colour) \<leftarrow> unlink_element l n c k r p;
          rt \<leftarrow> (if remove_colour = BLACK then rb_delete_fixup x q else Some (plug x q));
          Some (0, if free_fn t then [Free_free k] else [],
            t\<lparr>root := rt,
              allocated := allocated t - (of_nat SIZEOF_TREE_ELEMENT + ucast (size_of_element t) + ucast key_size),
              elements_in_tree := elements_in_tree t - 1\<rparr>) })"

subsection \<open>Searches\<close>

fun search_loop :: "('k \<Rightarrow> int) \<Rightarrow> 'k tree_element \<Rightarrow> 'k option" where
  "search_loop cmp Null_element = None"
| "search_loop cmp (Element l n c k r) =
     (if cmp k = 0 then Some k else if cmp k < 0 then search_loop cmp r else search_loop cmp l)"

definition tree_search :: "'k \<Rightarrow> 'c \<Rightarrow> ('k, 'c) tree \<Rightarrow> 'k option" where
  "tree_search key arg t = search_loop (\<lambda>k. compare t arg k key) (root t)"

text \<open>
  A position is the part of the array \<open>parents\<close> up to \<open>last_pos\<close>, the last entry first; every entry is an
  element with the side on which it hangs below the entry before. The first entry, \<open>null_element\<close>, is the
  empty position.
\<close>

datatype ha_rkey_function =
    HA_READ_KEY_EXACT | HA_READ_KEY_OR_NEXT | HA_READ_KEY_OR_PREV | HA_READ_AFTER_KEY | HA_READ_BEFORE_KEY
  | HA_READ_PREFIX | HA_READ_PREFIX_LAST | HA_READ_PREFIX_LAST_OR_PREV | HA_READ_MBR_CONTAIN
  | HA_READ_MBR_INTERSECT | HA_READ_MBR_WITHIN | HA_READ_MBR_DISJOINT | HA_READ_MBR_EQUAL | HA_READ_INVALID

type_synonym 'k pos = "(side \<times> 'k tree_element) list"

text \<open>What a comparison with result 0 counts as, and whether the element is remembered as equal.\<close>

definition equal_step :: "ha_rkey_function \<Rightarrow> (bool \<times> int) option" where
  "equal_step flag =
     (case flag of
        HA_READ_KEY_EXACT \<Rightarrow> Some (True, 1)
      | HA_READ_KEY_OR_NEXT \<Rightarrow> Some (True, 1)
      | HA_READ_BEFORE_KEY \<Rightarrow> Some (True, 1)
      | HA_READ_AFTER_KEY \<Rightarrow> Some (False, -1)
      | HA_READ_PREFIX_LAST \<Rightarrow> Some (True, -1)
      | HA_READ_PREFIX_LAST_OR_PREV \<Rightarrow> Some (True, -1)
      | _ \<Rightarrow> None)"

fun search_key_loop :: "ha_rkey_function \<Rightarrow> ('k \<Rightarrow> int) \<Rightarrow> side \<Rightarrow> 'k tree_element \<Rightarrow> 'k pos
    \<Rightarrow> 'k pos option \<times> 'k pos option \<times> 'k pos option \<Rightarrow> ('k pos option \<times> 'k pos option \<times> 'k pos option) option" where
  "search_key_loop flag cmp s Null_element ps lasts = Some lasts"
| "search_key_loop flag cmp s (Element l n c k r) ps (last_left, last_right, last_equal) =
     (let here = (s, Element l n c k r) # ps in
      case (if cmp k = 0 then equal_step flag else Some (False, cmp k)) of
        None \<Rightarrow> None
      | Some (eq, dir) \<Rightarrow>
          let last_equal1 = (if eq then Some here else last_equal) in
          if dir < 0 then search_key_loop flag cmp Right r here (last_left, Some here, last_equal1)
          else search_key_loop flag cmp Left l here (Some here, last_right, last_equal1))"

definition last_pos_of :: "ha_rkey_function \<Rightarrow> 'k pos option \<times> 'k pos option \<times> 'k pos option \<Rightarrow> 'k pos option option" where
  "last_pos_of flag lasts =
     (let (last_left, last_right, last_equal) = lasts in
      case flag of
        HA_READ_KEY_EXACT \<Rightarrow> Some last_equal
      | HA_READ_PREFIX_LAST \<Rightarrow> Some last_equal
      | HA_READ_KEY_OR_NEXT \<Rightarrow> Some (if last_equal \<noteq> None then last_equal else last_left)
      | HA_READ_AFTER_KEY \<Rightarrow> Some last_left
      | HA_READ_PREFIX_LAST_OR_PREV \<Rightarrow> Some (if last_equal \<noteq> None then last_equal else last_right)
      | HA_READ_BEFORE_KEY \<Rightarrow> Some last_right
      | _ \<Rightarrow> None)"

text \<open>The key of an entry. \<open>tree_search_key\<close> gives the key and the position; without one the flag is not supported.\<close>

fun pos_key :: "'k pos \<Rightarrow> 'k option" where
  "pos_key ((_, Element l n c k r) # _) = Some k"
| "pos_key _ = None"

definition tree_search_key :: "'k \<Rightarrow> ha_rkey_function \<Rightarrow> 'c \<Rightarrow> ('k, 'c) tree \<Rightarrow> 'k option \<times> 'k pos option option" where
  "tree_search_key key flag arg t =
     (case Option.bind (search_key_loop flag (\<lambda>k. compare t arg k key) Left (root t) [] (None, None, None)) (last_pos_of flag) of
        None \<Rightarrow> (None, None)
      | Some None \<Rightarrow> (None, Some None)
      | Some (Some pos) \<Rightarrow> (pos_key pos, Some (Some pos)))"

fun child :: "side \<Rightarrow> 'k tree_element \<Rightarrow> 'k tree_element option" where
  "child s Null_element = None"
| "child s (Element l n c k r) = Some (case s of Left \<Rightarrow> l | Right \<Rightarrow> r)"

fun edge_loop :: "side \<Rightarrow> side \<Rightarrow> 'k tree_element \<Rightarrow> 'k pos \<Rightarrow> 'k pos" where
  "edge_loop s at Null_element ps = ps"
| "edge_loop s at (Element l n c k r) ps =
     (case s of Left \<Rightarrow> edge_loop s Left l ((at, Element l n c k r) # ps)
              | Right \<Rightarrow> edge_loop s Right r ((at, Element l n c k r) # ps))"

definition tree_search_edge :: "side \<Rightarrow> ('k, 'c) tree \<Rightarrow> 'k option \<times> 'k pos" where
  "tree_search_edge s t = (let pos = edge_loop s Left (root t) [] in (pos_key pos, pos))"

text \<open>
  \<open>tree_search_next\<close>, with the sides in place of the two offsets. The children of \<open>null_element\<close> are null
  pointers.
\<close>

fun climb_loop :: "side \<Rightarrow> side \<Rightarrow> 'k pos \<Rightarrow> 'k pos" where
  "climb_loop r at [] = []"
| "climb_loop r at ((at1, y) # ps) = (if at = r then climb_loop r at1 ps else (at1, y) # ps)"

definition tree_search_next :: "side \<Rightarrow> side \<Rightarrow> 'k pos \<Rightarrow> ('k option \<times> 'k pos) option" where
  "tree_search_next l r pos =
     (case pos of
        [] \<Rightarrow> None
      | (at, x) # ps \<Rightarrow> do {
          next \<leftarrow> child r x;
          let pos1 = (if next \<noteq> Null_element then edge_loop l r next pos else climb_loop r at ps);
          Some (pos_key pos1, pos1) })"

subsection \<open>Walks and the check of the tree\<close>

fun tree_walk_left_root_right ::
  "('k \<Rightarrow> 32 word \<Rightarrow> 's \<Rightarrow> int \<times> 's) \<Rightarrow> 'k tree_element \<Rightarrow> 's \<Rightarrow> int \<times> 's" where
  "tree_walk_left_root_right action Null_element st = (0, st)"
| "tree_walk_left_root_right action (Element l n c k r) st =
     (let (error, st1) = tree_walk_left_root_right action l st in
      if error = 0 then
        (let (error2, st2) = action k (ucast n) st1 in
         if error2 = 0 then tree_walk_left_root_right action r st2 else (error2, st2))
      else (error, st1))"

fun tree_walk_right_root_left ::
  "('k \<Rightarrow> 32 word \<Rightarrow> 's \<Rightarrow> int \<times> 's) \<Rightarrow> 'k tree_element \<Rightarrow> 's \<Rightarrow> int \<times> 's" where
  "tree_walk_right_root_left action Null_element st = (0, st)"
| "tree_walk_right_root_left action (Element l n c k r) st =
     (let (error, st1) = tree_walk_right_root_left action r st in
      if error = 0 then
        (let (error2, st2) = action k (ucast n) st1 in
         if error2 = 0 then tree_walk_right_root_left action l st2 else (error2, st2))
      else (error, st1))"

datatype tree_walk_order = Left_root_right | Right_root_left

definition tree_walk :: "('k \<Rightarrow> 32 word \<Rightarrow> 's \<Rightarrow> int \<times> 's) \<Rightarrow> tree_walk_order \<Rightarrow> 's \<Rightarrow> ('k, 'c) tree \<Rightarrow> int \<times> 's" where
  "tree_walk action visit st t =
     (case visit of
        Left_root_right \<Rightarrow> tree_walk_left_root_right action (root t) st
      | Right_root_left \<Rightarrow> tree_walk_right_root_left action (root t) st)"

fun test_rb_tree :: "'k tree_element \<Rightarrow> int" where
  "test_rb_tree Null_element = 0"
| "test_rb_tree (Element l n c k r) =
     (if c = RED \<and> (colour_of l = RED \<or> colour_of r = RED) then -1
      else let count_l = test_rb_tree l; count_r = test_rb_tree r in
        if count_l \<ge> 0 \<and> count_r \<ge> 0 \<and> count_l = count_r then count_l + (if c = BLACK then 1 else 0) else -1)"

end
