(* ===== verification/Rb_Tree_Laws.thy ===== *)
theory Rb_Tree_Laws
  imports Rb_Tree
begin

text \<open>
  The trees of \<^verbatim>\<open>mysys/tree.c\<close> stay balanced: no red element has a red child, all ways down have the
  same number of black elements, and rebalancing keeps the elements in their order. The height is such
  that the array of parents is large enough for every number of elements.
\<close>

section \<open>Elements in order\<close>

fun elems :: "'k tree_element \<Rightarrow> ('k \<times> 31 word) list" where
  "elems Null_element = []"
| "elems (Element l n c k r) = elems l @ (k, n) # elems r"

fun before :: "'k frame list \<Rightarrow> ('k \<times> 31 word) list" where
  "before [] = []"
| "before (Frame Left s n c k # p) = before p"
| "before (Frame Right s n c k # p) = before p @ elems s @ [(k, n)]"

fun after :: "'k frame list \<Rightarrow> ('k \<times> 31 word) list" where
  "after [] = []"
| "after (Frame Left s n c k # p) = (k, n) # elems s @ after p"
| "after (Frame Right s n c k # p) = after p"

lemma elems_plug: "elems (plug x p) = before p @ elems x @ after p"
proof (induction p arbitrary: x)
  case Nil
  then show ?case by simp
next
  case (Cons f p)
  then show ?case by (cases f; cases "fr_side f") auto
qed

lemma elems_paint [simp]: "elems (paint c x) = elems x"
  by (cases x) simp_all

lemma paint_eq [simp]: "paint c x = Null_element \<longleftrightarrow> x = Null_element" "colour_of (paint BLACK x) = BLACK"
  by (cases x; simp)+

section \<open>Balance\<close>

fun bal :: "'k tree_element \<Rightarrow> nat \<Rightarrow> bool" where
  "bal Null_element h \<longleftrightarrow> h = 0"
| "bal (Element l n RED k r) h \<longleftrightarrow> bal l h \<and> bal r h \<and> colour_of l = BLACK \<and> colour_of r = BLACK"
| "bal (Element l n BLACK k r) h \<longleftrightarrow> (case h of 0 \<Rightarrow> False | Suc h' \<Rightarrow> bal l h' \<and> bal r h')"

definition path_black :: "'k frame list \<Rightarrow> bool" where
  "path_black p \<longleftrightarrow> p = [] \<or> fr_colour (hd p) = BLACK"

fun pbal :: "'k frame list \<Rightarrow> nat \<Rightarrow> bool" where
  "pbal [] h \<longleftrightarrow> True"
| "pbal (Frame s y n RED k # p) h \<longleftrightarrow> bal y h \<and> colour_of y = BLACK \<and> p \<noteq> [] \<and> path_black p \<and> pbal p h"
| "pbal (Frame s y n BLACK k # p) h \<longleftrightarrow> bal y h \<and> pbal p (Suc h)"

definition rb_tree :: "'k tree_element \<Rightarrow> bool" where
  "rb_tree x \<longleftrightarrow> colour_of x = BLACK \<and> (\<exists>h. bal x h)"

lemma paint_same [simp]: "colour_of x = c \<Longrightarrow> paint c x = x"
  by (cases x) simp_all

lemma bal_paint_red: "bal x h \<Longrightarrow> colour_of x = RED \<Longrightarrow> bal (paint BLACK x) (Suc h)"
  by (cases x) auto

lemma bal_paint: "bal x h \<Longrightarrow> \<exists>h'. bal (paint BLACK x) h'"
  using bal_paint_red [of x h] by (cases "colour_of x") auto

lemma bal_link:
  "bal x h \<Longrightarrow> bal y h \<Longrightarrow> bal (link (Frame s y n BLACK k) x) (Suc h)"
  "bal x h \<Longrightarrow> bal y h \<Longrightarrow> colour_of x = BLACK \<Longrightarrow> colour_of y = BLACK \<Longrightarrow> bal (link (Frame s y n RED k) x) h"
  by (cases s; simp)+

lemma bal_plug:
  assumes "bal x h" and "pbal p h" and "colour_of x = BLACK \<or> path_black p"
  shows "\<exists>h'. bal (plug x p) h'"
  using assms
proof (induction p arbitrary: x h)
  case Nil
  then show ?case by auto
next
  case (Cons f p)
  obtain s y n c k where f: "f = Frame s y n c k" by (cases f)
  show ?case
  proof (cases c)
    case RED
    then show ?thesis
      using Cons.prems Cons.IH [of "link f x" h] bal_link(2) [of x h y s n k] f by (auto simp: path_black_def)
  next
    case BLACK
    then show ?thesis using Cons.prems Cons.IH [of "link f x" "Suc h"] bal_link(1) [of x h y s n k] f by auto
  qed
qed

lemma bal_unlink:
  assumes "bal (link f x) h"
  shows "case f of Frame s y n c k \<Rightarrow>
    (\<exists>h'. bal x h' \<and> bal y h' \<and> h = (if c = RED then h' else Suc h')) \<and> (c = RED \<longrightarrow> colour_of x = BLACK \<and> colour_of y = BLACK)"
  using assms by (cases f; cases "fr_side f"; cases "fr_colour f") (auto split: nat.splits)

lemma plug_bal:
  assumes "bal (plug x p) h" and "colour_of (plug x p) = BLACK"
  shows "\<exists>h'. bal x h' \<and> pbal p h' \<and> (colour_of x = BLACK \<or> path_black p)"
  using assms
proof (induction p arbitrary: x)
  case Nil
  then show ?case by (auto simp: path_black_def)
next
  case (Cons f p)
  obtain s y n c k where f: "f = Frame s y n c k" by (cases f)
  obtain h1 where h1: "bal (link f x) h1" "pbal p h1" "colour_of (link f x) = BLACK \<or> path_black p"
    using Cons.IH [of "link f x"] Cons.prems by auto
  have root: "p \<noteq> []" if "c = RED" using Cons.prems(2) that f by auto
  show ?case using bal_unlink [OF h1(1)] h1(2,3) root f by (cases c) (auto simp: path_black_def)
qed

section \<open>Insertion\<close>

lemma elems_link: "elems (plug x (f # p)) = elems (plug (link f x) p)"
  by simp

lemma elems_plug_cong: "elems x = elems y \<Longrightarrow> elems (plug x p) = elems (plug y p)"
  by (simp add: elems_plug)

lemma bal_plug_black: "bal x h \<Longrightarrow> colour_of x = BLACK \<Longrightarrow> pbal p h \<Longrightarrow> \<exists>h'. bal (paint BLACK (plug x p)) h'"
  using bal_plug [of x h p] bal_paint by blast

text \<open>The rotations at the end of the loop: the three elements of the way become a black one with red children.\<close>

lemma insert_rotate:
  assumes "bal leaf h" and "colour_of leaf = RED" and "bal other h" and "colour_of other = BLACK"
    and "bal y h" and "colour_of y = BLACK"
  shows "\<exists>top. rb_insert_loop leaf (Frame side other n RED k # Frame side2 y n2 c2 k2 # p) = Some (plug top p) \<and>
    bal top (Suc h) \<and> colour_of top = BLACK \<and>
    elems top = elems (link (Frame side2 y n2 c2 k2) (link (Frame side other n RED k) leaf))"
proof -
  obtain a n0 k0 b where "leaf = Element a n0 RED k0 b" using assms(2) by (cases leaf) auto
  then show ?thesis using assms by (cases side; cases side2) auto
qed

lemma rb_insert_loop_laws:
  assumes "bal leaf h" and "colour_of leaf = RED" and "pbal p h"
  shows "\<exists>t h'. rb_insert_loop leaf p = Some t \<and> bal (paint BLACK t) h' \<and> elems t = elems (plug leaf p)"
  using assms
proof (induction leaf p arbitrary: h rule: rb_insert_loop.induct)
  case (1 leaf)
  then show ?case using bal_paint_red by auto
next
  case (2 leaf par)
  obtain s y n c k where par: "par = Frame s y n c k" by (cases par)
  have c: "c = BLACK" using "2.prems" par by (cases c) auto
  have "\<exists>h'. bal (plug leaf [par]) h'" by (rule bal_plug) (use 2 c par in \<open>auto simp: path_black_def\<close>)
  then show ?case using c par bal_paint by auto
next
  case (3 leaf side other n c k side2 y n2 c2 k2 p)
  let ?p = "Frame side other n c k # Frame side2 y n2 c2 k2 # p"
  show ?case
  proof (cases c)
    case BLACK
    have "\<exists>h'. bal (plug leaf ?p) h'" by (rule bal_plug) (use "3.prems" BLACK in \<open>auto simp: path_black_def\<close>)
    then show ?thesis using BLACK bal_paint by auto
  next
    case RED
    then have o: "bal other h" "colour_of other = BLACK" and c2: "c2 = BLACK" and y: "bal y h" "pbal p (Suc h)"
      using "3.prems"(3) by (auto simp: path_black_def)
    show ?thesis
    proof (cases "colour_of y")
      case yr: RED
      let ?leaf = "link (Frame side2 (paint BLACK y) n2 RED k2) (link (Frame side other n BLACK k) leaf)"
      have "bal ?leaf (Suc h)"
        using bal_link(1) [OF "3.prems"(1) o(1)] bal_paint_red [OF y(1) yr] by (intro bal_link(2)) auto
      then obtain t h' where t: "rb_insert_loop ?leaf p = Some t" "bal (paint BLACK t) h'" "elems t = elems (plug ?leaf p)"
        using "3.IH" [OF _ yr, of "Suc h"] RED y(2) by auto
      have "elems ?leaf = elems (link (Frame side2 y n2 c2 k2) (link (Frame side other n c k) leaf))"
        by (cases side; cases side2) simp_all
      then show ?thesis using t RED yr elems_plug_cong [of ?leaf _ p] by auto
    next
      case BLACK
      then obtain top where t: "rb_insert_loop leaf ?p = Some (plug top p)" "bal top (Suc h)" "colour_of top = BLACK"
          "elems top = elems (link (Frame side2 y n2 c2 k2) (link (Frame side other n c k) leaf))"
        using insert_rotate [OF "3.prems"(1,2) o y(1)] RED by blast
      then show ?thesis using bal_plug_black [OF t(2,3) y(2)] elems_plug_cong [OF t(4), of p] by auto
    qed
  qed
qed

lemma rb_insert_laws:
  assumes "bal (plug Null_element p) h" and "colour_of (plug Null_element p) = BLACK"
  shows "\<exists>t. rb_insert (Element Null_element n c k Null_element) p = Some t \<and> rb_tree t \<and> elems t = before p @ (k, n) # after p"
proof -
  have "pbal p 0" using plug_bal [OF assms] by auto
  then obtain t h' where "rb_insert_loop (Element Null_element n RED k Null_element) p = Some t" "bal (paint BLACK t) h'"
      "elems t = elems (plug (Element Null_element n RED k Null_element) p)"
    using rb_insert_loop_laws [of "Element Null_element n RED k Null_element" 0 p] by auto
  then show ?thesis by (auto simp: rb_insert_def rb_tree_def elems_plug)
qed

section \<open>Deletion\<close>

text \<open>
  The element at the end of the way is too low by one black element. A red one will be painted black,
  and may have a red child until then.
\<close>

definition low :: "'k tree_element \<Rightarrow> nat \<Rightarrow> bool" where
  "low x h \<longleftrightarrow> (if colour_of x = RED then bal (paint BLACK x) (Suc h) else bal x h)"

lemma bal_low: "bal x h \<Longrightarrow> low x h"
  using bal_paint_red by (auto simp: low_def)

lemma red_sibling:
  assumes "pbal (f # p) (Suc h)" and "length p + 2 < MAX_TREE_HEIGHT"
  shows "\<exists>g q. fixup_red_sibling f p = Some (g, q) \<and> pbal (g # q) (Suc h) \<and> colour_of (fr_other g) = BLACK \<and>
    elems (plug x (g # q)) = elems (plug x (f # p)) \<and> (q = p \<or> fr_colour g = RED)"
proof -
  obtain s w n c k where f: "f = Frame s w n c k" by (cases f)
  show ?thesis
  proof (cases "colour_of w")
    case BLACK
    then have "fixup_red_sibling f p = Some (f, p)"
      unfolding f by (cases s; cases w; cases "colour_of w") auto
    then show ?thesis using assms f BLACK by auto
  next
    case RED
    then obtain wl wn wk wr where w: "w = Element wl wn RED wk wr" by (cases w) auto
    have c: "c = BLACK" using assms(1) RED unfolding f by (cases c) auto
    show ?thesis using assms unfolding f w c by (cases s) (auto simp: push_parent_def path_black_def elems_plug)
  qed
qed

lemma red_nephew:
  assumes "bal x h" and w: "bal w (Suc h)" "colour_of w = BLACK" and "colour_of (el_left w) = RED \<or> colour_of (el_right w) = RED"
    and p: "pbal (Frame s w n c k # p) (Suc h)"
  shows "\<exists>t h'. fixup_red_nephew s x (Frame s w n c k) p = Some t \<and> bal t h' \<and> colour_of t = BLACK \<and>
    elems t = elems (plug x (Frame s w n c k # p))"
proof -
  obtain l wn wk r where e: "w = Element l wn BLACK wk r" using w by (cases w) auto
  have lr: "bal l h" "bal r h" using w(1) e by auto
  have "\<exists>top. fixup_red_nephew s x (Frame s w n c k) p = Some (paint BLACK (plug top p)) \<and> colour_of top = c \<and>
      bal top (if c = RED then Suc h else Suc (Suc h)) \<and> elems top = elems (link (Frame s w n c k) x)"
  proof (cases s)
    case Left
    then show ?thesis
      using assms(1,4) lr unfolding e by (cases l; cases r; cases c; cases "colour_of l"; cases "colour_of r") auto
  next
    case Right
    then show ?thesis
      using assms(1,4) lr unfolding e by (cases l; cases r; cases c; cases "colour_of l"; cases "colour_of r") auto
  qed
  then obtain top where t: "fixup_red_nephew s x (Frame s w n c k) p = Some (paint BLACK (plug top p))" "colour_of top = c"
      "bal top (if c = RED then Suc h else Suc (Suc h))" "elems top = elems (link (Frame s w n c k) x)" by blast
  have "\<exists>h'. bal (plug top p) h'" by (rule bal_plug [OF t(3)]) (use p t(2) in \<open>cases c; auto\<close>)+
  then show ?thesis using t bal_paint elems_plug_cong [OF t(4), of p] by auto
qed

lemma black_nephews:
  assumes "bal x h" and "colour_of x = BLACK" and w: "bal w (Suc h)" "colour_of w = BLACK" "colour_of (el_left w) = BLACK" "colour_of (el_right w) = BLACK"
  shows "low (link (Frame s (paint RED w) n c k) x) (if c = RED then h else Suc h)"
    and "elems (link (Frame s (paint RED w) n c k) x) = elems (link (Frame s w n c k) x)"
proof -
  obtain l wn wk r where e: "w = Element l wn BLACK wk r" using w by (cases w) auto
  show "low (link (Frame s (paint RED w) n c k) x) (if c = RED then h else Suc h)"
    using assms unfolding e low_def by (cases s; cases c) auto
  show "elems (link (Frame s (paint RED w) n c k) x) = elems (link (Frame s w n c k) x)" by (cases s) auto
qed

lemma pbal_root: "pbal p h \<Longrightarrow> p \<noteq> [] \<Longrightarrow> colour_of (plug x p) = BLACK"
proof (induction p arbitrary: x h)
  case Nil
  then show ?case by simp
next
  case (Cons f p)
  obtain s y n c k where f: "f = Frame s y n c k" by (cases f)
  show ?case
  proof (cases "p = []")
    case True
    then show ?thesis using Cons.prems f by (cases c) auto
  next
    case False
    then show ?thesis using Cons.IH [of h] Cons.IH [of "Suc h"] Cons.prems f by (cases c) auto
  qed
qed

lemma rb_delete_fixup_laws:
  assumes "low x h" and "pbal p (Suc h)" and "colour_of x = RED \<or> length p + 1 < MAX_TREE_HEIGHT"
  shows "\<exists>t. rb_delete_fixup x p = Some t \<and> rb_tree t \<and> elems t = elems (plug x p)"
  using assms
proof (induction x p arbitrary: h rule: rb_delete_fixup.induct)
  case (1 x)
  then show ?case using bal_paint [of "paint BLACK x"] bal_paint [of x] by (auto simp: rb_tree_def low_def split: if_splits)
next
  case (2 x f p)
  show ?case
  proof (cases "colour_of x")
    case RED
    have "\<exists>h'. bal (plug (paint BLACK x) (f # p)) h'"
      by (rule bal_plug [of _ "Suc h"]) (use 2 RED in \<open>auto simp: low_def\<close>)
    then show ?thesis
      using RED elems_plug_cong [of "paint BLACK x" x "f # p"] pbal_root [OF "2.prems"(2), of "paint BLACK x"]
      by (auto simp: rb_tree_def)
  next
    case BLACK
    then have x: "bal x h" and len: "length p + 2 < MAX_TREE_HEIGHT" using "2.prems" by (auto simp: low_def)
    obtain g q where gq: "fixup_red_sibling f p = Some (g, q)" "pbal (g # q) (Suc h)" "colour_of (fr_other g) = BLACK"
        "elems (plug x (g # q)) = elems (plug x (f # p))" "q = p \<or> fr_colour g = RED"
      using red_sibling [OF "2.prems"(2) len] by blast
    obtain s w n c k where g: "g = Frame s w n c k" by (cases g)
    have w: "bal w (Suc h)" "w \<noteq> Null_element" "colour_of w = BLACK" using gq(2,3) g by (cases c; auto)+
    have "bal (fr_other f) (Suc h)" using "2.prems"(2) by (cases f; cases "fr_colour f") auto
    then have other: "fr_other f \<noteq> Null_element" by auto
    show ?thesis
    proof (cases "colour_of (el_left w) = BLACK \<and> colour_of (el_right w) = BLACK")
      case True
      let ?x = "link (Frame s (paint RED w) n c k) x" and ?h = "if c = RED then h else Suc h"
      note b = black_nephews [OF x BLACK w(1,3) conjunct1 [OF True] conjunct2 [OF True], of s n c k]
      have q: "pbal q (Suc ?h)" "colour_of ?x = RED \<or> length q + 1 < MAX_TREE_HEIGHT"
        using gq(2,5) len g by (cases c; auto)+
      have "\<exists>t. rb_delete_fixup (link (Frame (fr_side g) (paint RED w) (fr_count g) (fr_colour g) (fr_key g)) x) q = Some t \<and>
          rb_tree t \<and> elems t = elems (plug (link (Frame (fr_side g) (paint RED w) (fr_count g) (fr_colour g) (fr_key g)) x) q)"
        by (rule "2.IH" [OF _ _ gq(1) refl _ _ True]) (use b(1) q BLACK other w(2) g in simp_all)
      then have "\<exists>t. rb_delete_fixup ?x q = Some t \<and> rb_tree t \<and> elems t = elems (plug ?x q)" by (simp add: g)
      then show ?thesis using gq(1,4) True BLACK other w g elems_plug_cong [OF b(2), of q] by auto
    next
      case False
      then have "colour_of (el_left w) = RED \<or> colour_of (el_right w) = RED" using colour.exhaust by blast
      then show ?thesis
        using red_nephew [OF x w(1,3) _ gq(2) [unfolded g]] gq(1,4) False BLACK other w(2) g by (auto simp: rb_tree_def)
    qed
  qed
qed

section \<open>Height\<close>

fun height :: "'k tree_element \<Rightarrow> nat" where
  "height Null_element = 0"
| "height (Element l n c k r) = Suc (max (height l) (height r))"

lemma bal_height:
  "bal x h \<Longrightarrow> (if colour_of x = RED then Suc h else h) \<le> height x \<and> height x \<le> 2 * h + (if colour_of x = RED then 1 else 0)"
  by (induction x h rule: bal.induct) (auto split: nat.splits if_splits)

lemma bal_length: "bal x h \<Longrightarrow> 2 ^ h \<le> length (elems x) + 1"
  by (induction x h rule: bal.induct) (auto split: nat.splits)

text \<open>
  The higher one of two subtrees with the same black height has many red elements, and these have
  siblings: a tree of height 63 has more elements than a counter of 32 bits.
\<close>

lemma power_step: "a \<le> b \<Longrightarrow> (2::nat) ^ a \<le> 2 ^ b"
  by (rule power_increasing) simp_all

definition crowded :: "'k tree_element \<Rightarrow> nat \<Rightarrow> bool" where
  "crowded x h \<longleftrightarrow>
     (if colour_of x = RED then 2 ^ Suc h + 2 ^ (height x - Suc h) \<le> length (elems x) + 2
      else 2 ^ h + 2 ^ (height x - h) \<le> length (elems x) + (2::nat))"

lemma crowded_red:
  assumes "crowded y h" and "colour_of y = BLACK" and "2 ^ h \<le> length (elems z) + 1" and "h \<le> height y"
    and "height x = Suc (height y)" and "length (elems x) = length (elems y) + length (elems z) + 1" and "colour_of x = RED"
  shows "crowded x h"
proof -
  have "height x - Suc h = height y - h" using assms(4,5) by simp
  then show ?thesis using assms by (simp add: crowded_def)
qed

lemma crowded_black:
  assumes "crowded y h" and "bal y h" and "2 ^ h \<le> length (elems z) + 1"
    and "height x = Suc (height y)" and "length (elems x) = length (elems y) + length (elems z) + 1" and "colour_of x = BLACK"
  shows "crowded x (Suc h)"
proof (cases "colour_of y")
  case BLACK
  have "height x - Suc h = height y - h" using assms(4) by simp
  then show ?thesis using assms BLACK by (simp add: crowded_def)
next
  case RED
  have b: "height y \<le> 2 * h + 1" "Suc h \<le> height y" using bal_height [OF assms(2)] RED by auto
  have "height x - Suc h = Suc (height y - Suc h)" using assms(4) b by simp
  then have "(2::nat) ^ (height x - Suc h) = 2 * 2 ^ (height y - Suc h)" by simp
  moreover have "(2::nat) ^ (height y - Suc h) \<le> 2 ^ h" by (rule power_step) (use b in simp)
  moreover have "2 * 2 ^ h + 2 ^ (height y - Suc h) \<le> length (elems y) + (2::nat)" using assms(1) RED by (simp add: crowded_def)
  ultimately have "2 * 2 ^ h + 2 ^ (height x - Suc h) \<le> length (elems x) + (2::nat)" using assms(3,5) by linarith
  then show ?thesis using assms(6) by (simp add: crowded_def)
qed

lemma bal_crowded: "bal x h \<Longrightarrow> crowded x h"
proof (induction x h rule: bal.induct)
  case (1 h)
  then show ?case by (simp add: crowded_def)
next
  case (2 l n k r h)
  have le: "h \<le> height l" "h \<le> height r" using 2 bal_height [of l h] bal_height [of r h] by (auto split: if_splits)
  show ?case
  proof (cases "height r \<le> height l")
    case True
    show ?thesis by (rule crowded_red [of l h r]) (use 2 True le bal_length [of r h] in auto)
  next
    case False
    show ?thesis by (rule crowded_red [of r h l]) (use 2 False le bal_length [of l h] in auto)
  qed
next
  case (3 l n k r h)
  then obtain h' where h: "h = Suc h'" "bal l h'" "bal r h'" by (auto split: nat.splits)
  show ?case
  proof (cases "height r \<le> height l")
    case True
    show ?thesis unfolding h(1) by (rule crowded_black [of l h' r]) (use 3 h True bal_length [of r h'] in auto)
  next
    case False
    show ?thesis unfolding h(1) by (rule crowded_black [of r h' l]) (use 3 h False bal_length [of l h'] in auto)
  qed
qed

lemma rb_tree_height:
  assumes "rb_tree x" and "length (elems x) < 2 ^ 32"
  shows "height x \<le> 62"
proof (rule ccontr)
  assume "\<not> height x \<le> 62"
  obtain h where h: "bal x h" "colour_of x = BLACK" using assms(1) by (auto simp: rb_tree_def)
  have le: "2 ^ h + 2 ^ (height x - h) \<le> length (elems x) + (2::nat)" using bal_crowded [OF h(1)] h(2) by (simp add: crowded_def)
  consider "33 \<le> h" | "33 \<le> height x - h" | "32 \<le> h" "31 \<le> height x - h" | "31 \<le> h" "32 \<le> height x - h"
    using \<open>\<not> height x \<le> 62\<close> by linarith
  then show False
    using le assms(2) power_step [of 33 h] power_step [of 33 "height x - h"] power_step [of 32 h] power_step [of 31 "height x - h"]
      power_step [of 31 h] power_step [of 32 "height x - h"]
    by cases simp_all
qed

lemma height_plug: "length p + height x \<le> height (plug x p)"
proof (induction p arbitrary: x)
  case Nil
  then show ?case by simp
next
  case (Cons f p)
  have "Suc (height x) \<le> height (link f x)" by (cases f; cases "fr_side f") auto
  then show ?case using Cons [of "link f x"] by simp
qed

end
