(* ===== verification/Rb_Tree_Order.thy ===== *)
theory Rb_Tree_Order
  imports Rb_Tree_Laws
begin

text \<open>
  The trees of \<^verbatim>\<open>mysys/tree.c\<close> are search trees: what the comparison function must satisfy, as the locale
  \<open>tree_order\<close>, two comparison functions of the source that do, and where a search ends. Insertion,
  deletion and searches agree with simple functions on the sorted list of the elements.
\<close>

section \<open>Comparison functions\<close>

locale tree_order =
  fixes cmp :: "'k \<Rightarrow> 'k \<Rightarrow> int"
  assumes cmp_refl: "cmp x x = 0"
    and cmp_swap: "cmp x y < 0 \<longleftrightarrow> 0 < cmp y x"
    and cmp_trans: "cmp x y \<le> 0 \<Longrightarrow> cmp y z \<le> 0 \<Longrightarrow> cmp x z \<le> 0"
begin

lemma cmp_less_trans: "cmp x y < 0 \<Longrightarrow> cmp y z < 0 \<Longrightarrow> cmp x z < 0"
  using cmp_trans [of x y z] cmp_trans [of z x y] cmp_swap [of x z] cmp_swap [of y z] by force

lemma cmp_between: "cmp a b < 0 \<Longrightarrow> cmp a x < 0 \<or> 0 < cmp b x"
  using cmp_trans [of b x a] cmp_swap [of a x] cmp_swap [of a b] cmp_swap [of x b] cmp_swap [of b x] by force

lemma sorted_splits: "sorted_wrt (\<lambda>a b. cmp a b < 0) ks \<Longrightarrow> sorted_wrt (\<lambda>a b. cmp a x < 0 \<or> 0 < cmp b x) ks"
  by (erule sorted_wrt_mono_rel [rotated]) (rule cmp_between)

lemma sorted_insert:
  assumes "sorted_wrt (\<lambda>a b. cmp a b < 0) (xs @ ys)" and "\<forall>a \<in> set xs. cmp a x < 0" and "\<forall>b \<in> set ys. 0 < cmp b x"
  shows "sorted_wrt (\<lambda>a b. cmp a b < 0) (xs @ x # ys)"
  using assms cmp_swap by (auto simp: sorted_wrt_append)

end

text \<open>The comparison of file offsets of \<^verbatim>\<open>storage/myisam/ft_boolean_search.c\<close>.\<close>

definition ftb_no_dupes_cmp :: "unit \<Rightarrow> 64 word \<Rightarrow> 64 word \<Rightarrow> int" where
  "ftb_no_dupes_cmp not_used a b = (if a < b then -1 else if a = b then 0 else 1)"

interpretation ftb: tree_order "ftb_no_dupes_cmp arg"
  by unfold_locales (auto simp: ftb_no_dupes_cmp_def split: if_splits)

section \<open>Where a search ends\<close>

text \<open>What follows an element that is not below the key is above it.\<close>

abbreviation splits :: "('k \<Rightarrow> int) \<Rightarrow> ('k \<times> 31 word) list \<Rightarrow> bool" where
  "splits cmp xs \<equiv> sorted_wrt (\<lambda>a b. cmp (fst a) < 0 \<or> 0 < cmp (fst b)) xs"

definition below :: "('k \<Rightarrow> int) \<Rightarrow> ('k \<times> 31 word) list \<Rightarrow> bool" where
  "below cmp xs \<longleftrightarrow> (\<forall>x \<in> set xs. cmp (fst x) < 0)"

definition above :: "('k \<Rightarrow> int) \<Rightarrow> ('k \<times> 31 word) list \<Rightarrow> bool" where
  "above cmp xs \<longleftrightarrow> (\<forall>x \<in> set xs. 0 < cmp (fst x))"

lemma below_simps [simp]: "below cmp []" "below cmp (x # xs) \<longleftrightarrow> cmp (fst x) < 0 \<and> below cmp xs"
    "below cmp (xs @ ys) \<longleftrightarrow> below cmp xs \<and> below cmp ys"
  by (auto simp: below_def)

lemma above_simps [simp]: "above cmp []" "above cmp (x # xs) \<longleftrightarrow> 0 < cmp (fst x) \<and> above cmp xs"
    "above cmp (xs @ ys) \<longleftrightarrow> above cmp xs \<and> above cmp ys"
  by (auto simp: above_def)

text \<open>The parts of an element: all of it is below, above or around the key.\<close>

lemma splits_less: "splits cmp (xs @ (k, n) # ys) \<Longrightarrow> cmp k < 0 \<Longrightarrow> below cmp xs"
  by (force simp: sorted_wrt_append below_def)

lemma splits_greater: "splits cmp (xs @ (k, n) # ys) \<Longrightarrow> 0 < cmp k \<Longrightarrow> above cmp ys"
  by (force simp: sorted_wrt_append above_def)

lemma splits_equal: "splits cmp (xs @ (k, n) # ys) \<Longrightarrow> cmp k = 0 \<Longrightarrow> below cmp xs \<and> above cmp ys"
  by (force simp: sorted_wrt_append above_def below_def)

lemma find_link_laws:
  assumes "length p + height x < MAX_TREE_HEIGHT" and "splits cmp (elems x)" and "below cmp (before p)" and "above cmp (after p)"
  shows "\<exists>y q. find_link cmp x p = Some (y, q) \<and> plug y q = plug x p \<and> below cmp (before q) \<and> above cmp (after q) \<and>
    (y \<noteq> Null_element \<longrightarrow> cmp (el_key y) = 0 \<and> below cmp (elems (el_left y)) \<and> above cmp (elems (el_right y)))"
  using assms
proof (induction cmp x p rule: find_link.induct)
  case (1 cmp p)
  then show ?case by simp
next
  case (2 cmp l n c k r p)
  consider "cmp k = 0" | "cmp k < 0" | "0 < cmp k" by linarith
  then show ?case
  proof cases
    case 1
    then show ?thesis using "2.prems" splits_equal [of cmp "elems l" k n "elems r"] by auto
  next
    case 2
    have push: "push_parent (Frame Right l n c k) p = Some (Frame Right l n c k # p)" using "2.prems"(1) by (simp add: push_parent_def)
    have "below cmp (elems l)" using splits_less [of cmp "elems l" k n "elems r"] "2.prems"(2) 2 by auto
    then show ?thesis using "2.IH"(1) [OF _ _ push] "2.prems" 2 push by (auto simp: sorted_wrt_append)
  next
    case 3
    have push: "push_parent (Frame Left r n c k) p = Some (Frame Left r n c k # p)" using "2.prems"(1) by (simp add: push_parent_def)
    have "above cmp (elems r)" using splits_greater [of cmp "elems l" k n "elems r"] "2.prems"(2) 3 by auto
    then show ?thesis using "2.IH"(2) [OF _ _ push] "2.prems" 3 push by (auto simp: sorted_wrt_append)
  qed
qed

section \<open>Unlinking an element\<close>

lemma plug_append: "plug x (p @ q) = plug (plug x p) q"
  by (induction p arbitrary: x) simp_all

lemma before_append: "before (p @ q) = before q @ before p"
  by (induction p rule: before.induct) simp_all

lemma after_append: "after (p @ q) = after p @ after q"
  by (induction p rule: after.induct) simp_all

lemma pbal_data: "pbal (p @ Frame s y n c k # q) h \<Longrightarrow> pbal (p @ Frame s y n' c k' # q) h"
proof (induction p arbitrary: h)
  case Nil
  then show ?case by (cases c) auto
next
  case (Cons f p)
  have "path_black (p @ Frame s y n' c k' # q) = path_black (p @ Frame s y n c k # q)" by (cases p) (simp_all add: path_black_def)
  then show ?case using Cons by (cases f; cases "fr_colour f") auto
qed

lemma min_link_laws:
  assumes "x \<noteq> Null_element" and "length p + height x \<le> MAX_TREE_HEIGHT"
  shows "\<exists>n c k r extra. min_link x p = Some (Element Null_element n c k r, extra @ p) \<and>
    plug (Element Null_element n c k r) extra = x \<and> before extra = []"
  using assms
proof (induction x p rule: min_link.induct)
  case (1 p)
  then show ?case by simp
next
  case (2 l n c k r p)
  show ?case
  proof (cases "l = Null_element")
    case True
    then show ?thesis by (intro exI [of _ n] exI [of _ c] exI [of _ k] exI [of _ r] exI [of _ "[]"]) simp
  next
    case False
    then have "1 \<le> height l" by (cases l) auto
    then have push: "push_parent (Frame Left r n c k) p = Some (Frame Left r n c k # p)"
      using "2.prems"(2) by (simp add: push_parent_def)
    have "length (Frame Left r n c k # p) + height l \<le> MAX_TREE_HEIGHT" using "2.prems"(2) by simp
    then obtain n' c' k' r' extra where e: "min_link l (Frame Left r n c k # p) = Some (Element Null_element n' c' k' r', extra @ Frame Left r n c k # p)"
        "plug (Element Null_element n' c' k' r') extra = l" "before extra = []"
      using "2.IH" [OF False push False] by blast
    then show ?thesis using False push
      by (intro exI [of _ n'] exI [of _ c'] exI [of _ k'] exI [of _ r'] exI [of _ "extra @ [Frame Left r n c k]"])
        (simp add: plug_append before_append)
  qed
qed

text \<open>What is left when an element with at most one child is taken out.\<close>

definition unlinked :: "'k tree_element \<Rightarrow> 'k frame list \<Rightarrow> colour \<Rightarrow> bool" where
  "unlinked x q c \<longleftrightarrow> (if c = RED then rb_tree (plug x q) else \<exists>h. low x h \<and> pbal q (Suc h))"

lemma unlinked_child:
  assumes "bal (Element l n c k r) h" and "pbal q h" and "q = [] \<longrightarrow> c = BLACK"
    and "l = Null_element \<and> x = r \<or> r = Null_element \<and> x = l"
  shows "unlinked x q c"
proof (cases c)
  case RED
  then have "bal x h" "colour_of x = BLACK" "q \<noteq> []" using assms by auto
  then show ?thesis using bal_plug [of x h q] assms(2) pbal_root [OF assms(2), of x] RED by (auto simp: unlinked_def rb_tree_def)
next
  case BLACK
  then obtain h' where "h = Suc h'" "bal l h'" "bal r h'" using assms(1) by (auto split: nat.splits)
  then show ?thesis using assms(2,4) BLACK bal_low by (auto simp: unlinked_def)
qed

lemma unlink_element_laws:
  assumes bal: "bal (plug (Element l n c k r) p) h" "colour_of (plug (Element l n c k r) p) = BLACK"
    and len: "height (plug (Element l n c k r) p) \<le> 62"
  shows "\<exists>x q c'. unlink_element l n c k r p = Some (x, q, c') \<and> unlinked x q c' \<and> length q + 1 < MAX_TREE_HEIGHT \<and>
    elems (plug x q) = before p @ elems l @ elems r @ after p"
proof -
  obtain h' where "bal (Element l n c k r) h'" "pbal p h'" using plug_bal [OF bal] by blast
  moreover have "p = [] \<longrightarrow> c = BLACK" using bal(2) by auto
  ultimately have h': "bal (Element l n c k r) h'" "pbal p h'" "p = [] \<longrightarrow> c = BLACK" .
  have p: "length p + height (Element l n c k r) \<le> 62" using height_plug [of p "Element l n c k r"] len by simp
  show ?thesis
  proof (cases "l = Null_element \<or> r = Null_element")
    case True
    then show ?thesis
      using unlinked_child [OF h', of "if l = Null_element then r else l"] p
      by (auto simp: unlink_element_def elems_plug MAX_TREE_HEIGHT_def)
  next
    case False
    let ?f = "Frame Right l n c k"
    have push: "push_parent ?f p = Some (?f # p)" using p by (simp add: push_parent_def MAX_TREE_HEIGHT_def)
    have hr: "length p + height r \<le> 61" using p by simp
    then obtain nn nc nk nr extra where e: "min_link r (?f # p) = Some (Element Null_element nn nc nk nr, extra @ ?f # p)"
        "plug (Element Null_element nn nc nk nr) extra = r" "before extra = []"
      using min_link_laws [of r "?f # p"] False by (auto simp: MAX_TREE_HEIGHT_def)
    let ?g = "Frame Right l nn c nk"
    have old: "plug (Element Null_element nn nc nk nr) (extra @ ?f # p) = plug (Element l n c k r) p"
      by (simp add: plug_append e(2))
    obtain h2 where h2: "bal (Element Null_element nn nc nk nr) h2" "pbal (extra @ ?f # p) h2"
      using plug_bal [of "Element Null_element nn nc nk nr" "extra @ ?f # p" h] bal old by auto
    have "unlinked nr (extra @ ?g # p) nc" by (rule unlinked_child [OF h2(1) pbal_data [OF h2(2)]]) auto
    moreover have "length extra + height (Element Null_element nn nc nk nr) \<le> height r"
      using height_plug [of extra "Element Null_element nn nc nk nr"] e(2) by simp
    moreover have "elems r = (nk, nn) # elems nr @ after extra" using elems_plug [of "Element Null_element nn nc nk nr" extra] e(2,3) by simp
    ultimately show ?thesis using False push e(1,3) hr
      by (auto simp: unlink_element_def elems_plug before_append after_append MAX_TREE_HEIGHT_def)
  qed
qed

end
