(* ===== verification/Rb_Tree_Ops.thy ===== *)
theory Rb_Tree_Ops
  imports Rb_Tree_Order
begin

text \<open>
  What the operations of \<^verbatim>\<open>mysys/tree.c\<close> do to the sorted list of elements and counters: \<open>tree_insert\<close> with
  its counters, its memory limit and its failures, \<open>tree_delete\<close>, \<open>tree_search\<close>, the walks and the check.
\<close>

section \<open>The invariant and the operations on lists\<close>

definition tree_ok :: "'c \<Rightarrow> ('k, 'c) tree \<Rightarrow> bool" where
  "tree_ok arg t \<longleftrightarrow>
     rb_tree (root t) \<and> sorted_wrt (\<lambda>a b. compare t arg a b < 0) (map fst (elems (root t))) \<and>
     length (elems (root t)) = unat (elements_in_tree t)"

fun ins_list :: "('k \<Rightarrow> int) \<Rightarrow> 'k \<Rightarrow> ('k \<times> 31 word) list \<Rightarrow> ('k \<times> 31 word) list" where
  "ins_list cmp key [] = [(key, 1)]"
| "ins_list cmp key ((k, n) # xs) =
     (if cmp k < 0 then (k, n) # ins_list cmp key xs
      else if cmp k = 0 then (k, count_up n) # xs else (key, 1) # (k, n) # xs)"

fun del_list :: "('k \<Rightarrow> int) \<Rightarrow> ('k \<times> 31 word) list \<Rightarrow> ('k \<times> 31 word) list" where
  "del_list cmp [] = []"
| "del_list cmp ((k, n) # xs) = (if cmp k = 0 then xs else (k, n) # del_list cmp xs)"

definition lookup :: "('k \<Rightarrow> int) \<Rightarrow> ('k \<times> 31 word) list \<Rightarrow> ('k \<times> 31 word) option" where
  "lookup cmp xs = List.find (\<lambda>x. cmp (fst x) = 0) xs"

lemma ins_list_absent: "below cmp xs \<Longrightarrow> above cmp ys \<Longrightarrow> ins_list cmp key (xs @ ys) = xs @ (key, 1) # ys"
proof (induction xs)
  case Nil
  then show ?case by (cases ys) auto
qed auto

lemma ins_list_present: "below cmp xs \<Longrightarrow> cmp k = 0 \<Longrightarrow> ins_list cmp key (xs @ (k, n) # ys) = xs @ (k, count_up n) # ys"
  by (induction xs) auto

lemma del_list_present: "below cmp xs \<Longrightarrow> cmp k = 0 \<Longrightarrow> del_list cmp (xs @ (k, n) # ys) = xs @ ys"
  by (induction xs) auto

lemma del_list_absent: "lookup cmp xs = None \<Longrightarrow> del_list cmp xs = xs"
  by (induction xs) (auto simp: lookup_def split: if_splits)

lemma lookup_present: "below cmp xs \<Longrightarrow> cmp k = 0 \<Longrightarrow> lookup cmp (xs @ (k, n) # ys) = Some (k, n)"
  by (induction xs) (auto simp: lookup_def)

lemma lookup_absent: "below cmp xs \<Longrightarrow> above cmp ys \<Longrightarrow> lookup cmp (xs @ ys) = None"
  by (auto simp: lookup_def find_None_iff below_def above_def)

section \<open>Finding the key\<close>

lemma tree_ok_height: "tree_ok arg t \<Longrightarrow> height (root t) \<le> 62"
  using unsigned_less [of "elements_in_tree t", where ?'a = nat] by (intro rb_tree_height) (auto simp: tree_ok_def)

lemma tree_ok_splits:
  assumes "tree_order (compare t arg)" and "tree_ok arg t"
  shows "splits (\<lambda>k. compare t arg k key) (elems (root t))"
  using tree_order.sorted_splits [OF assms(1), of "map fst (elems (root t))" key] assms(2)
  by (simp add: tree_ok_def sorted_wrt_map)

lemma find_key:
  assumes "tree_order (compare t arg)" and "tree_ok arg t" and cmp_def: "cmp = (\<lambda>k. compare t arg k key)"
  obtains (absent) p where "find_link cmp (root t) [] = Some (Null_element, p)" and "plug Null_element p = root t"
      and "below cmp (before p)" and "above cmp (after p)" and "elems (root t) = before p @ after p" and "lookup cmp (elems (root t)) = None"
  | (present) l n c k r p where "find_link cmp (root t) [] = Some (Element l n c k r, p)" and "plug (Element l n c k r) p = root t"
      and "below cmp (before p @ elems l)" and "above cmp (elems r @ after p)" and "cmp k = 0"
      and "elems (root t) = (before p @ elems l) @ (k, n) # elems r @ after p" and "lookup cmp (elems (root t)) = Some (k, n)"
proof -
  have h: "length [] + height (root t) < MAX_TREE_HEIGHT" using tree_ok_height [OF assms(2)] by (simp add: MAX_TREE_HEIGHT_def)
  obtain y p where f: "find_link cmp (root t) [] = Some (y, p)" "plug y p = root t" "below cmp (before p)" "above cmp (after p)"
      "y \<noteq> Null_element \<longrightarrow> cmp (el_key y) = 0 \<and> below cmp (elems (el_left y)) \<and> above cmp (elems (el_right y))"
    using find_link_laws [OF h tree_ok_splits [OF assms(1,2), of key, folded cmp_def]] by (auto simp: cmp_def)
  have e: "elems (root t) = before p @ elems y @ after p" using elems_plug [of y p] f(2) by simp
  show thesis
  proof (cases y)
    case Null_element
    show ?thesis by (rule absent [of p]) (use f e Null_element lookup_absent in auto)
  next
    case (Element l n c k r)
    have b: "below cmp (before p @ elems l)" using f(3,5) Element by simp
    show ?thesis
      by (rule present [of l n c k r p]) (use f e Element b lookup_present [OF b, of k n "elems r @ after p"] in auto)
  qed
qed

section \<open>Insertion\<close>

definition insert_size :: "32 word \<Rightarrow> ('k, 'c) tree \<Rightarrow> 64 word" where
  "insert_size key_size t = ucast (of_nat SIZEOF_TREE_ELEMENT + key_size + size_of_element t :: 32 word)"

definition over_limit :: "32 word \<Rightarrow> ('k, 'c) tree \<Rightarrow> bool" where
  "over_limit key_size t \<longleftrightarrow>
     memory_limit t \<noteq> 0 \<and> elements_in_tree t \<noteq> 0 \<and> memory_limit t < allocated t + insert_size key_size t"

lemma tree_ok_update:
  assumes "rb_tree rt" and "sorted_wrt (\<lambda>a b. compare t arg a b < 0) (map fst (elems rt))" and "length (elems rt) = unat n"
  shows "tree_ok arg (t\<lparr>root := rt, allocated := m, elements_in_tree := n\<rparr>)"
  using assms by (simp add: tree_ok_def)

lemma bal_count: "bal (Element l n c k r) h \<longleftrightarrow> bal (Element l n' c k r) h"
  by (cases c) auto

lemma rb_tree_count:
  assumes "rb_tree (plug (Element l n c k r) p)"
  shows "rb_tree (plug (Element l n' c k r) p)"
proof -
  obtain h where "bal (plug (Element l n c k r) p) h" "colour_of (plug (Element l n c k r) p) = BLACK" using assms by (auto simp: rb_tree_def)
  from plug_bal [OF this] obtain h' where h': "bal (Element l n c k r) h'" "pbal p h'" "c = BLACK \<or> path_black p" by auto
  moreover have "colour_of (plug (Element l n' c k r) p) = BLACK"
    using assms pbal_root [OF h'(2)] by (cases "p = []") (auto simp: rb_tree_def)
  ultimately show ?thesis using bal_plug [of "Element l n' c k r" h' p] bal_count [of l n c k r h' n'] by (auto simp: rb_tree_def)
qed

lemma tree_insert_present:
  assumes ord: "tree_order (compare t arg)" and ok: "tree_ok arg t" and look: "lookup (\<lambda>k. compare t arg k key) (elems (root t)) = Some (k, n)"
  shows "\<exists>rt. tree_insert mem key key_size arg t =
      Some (if flag_no_dups t then (None, [], t) else (Some (k, count_up n), [], t\<lparr>root := rt\<rparr>)) \<and>
    tree_ok arg (t\<lparr>root := rt\<rparr>) \<and> elems rt = ins_list (\<lambda>k. compare t arg k key) key (elems (root t))"
proof (rule find_key [OF ord ok refl, of key])
  fix l n' c k' r p
  let ?cmp = "\<lambda>k. compare t arg k key"
  assume f: "find_link ?cmp (root t) [] = Some (Element l n' c k' r, p)" "plug (Element l n' c k' r) p = root t"
    "below ?cmp (before p @ elems l)" "?cmp k' = 0" "elems (root t) = (before p @ elems l) @ (k', n') # elems r @ after p"
    "lookup ?cmp (elems (root t)) = Some (k', n')"
  let ?rt = "plug (Element l (count_up n') c k' r) p"
  have kn: "k' = k" "n' = n" using f(6) look by auto
  have e: "elems ?rt = (before p @ elems l) @ (k', count_up n') # elems r @ after p" by (simp add: elems_plug)
  have "rb_tree ?rt" using rb_tree_count [of l n' c k' r p] ok f(2) by (simp add: tree_ok_def)
  moreover have "map fst (elems ?rt) = map fst (elems (root t))" "length (elems ?rt) = length (elems (root t))"
    unfolding e f(5) by simp_all
  ultimately have "tree_ok arg (t\<lparr>root := ?rt\<rparr>)" using ok by (simp add: tree_ok_def)
  moreover have "elems ?rt = ins_list ?cmp key (elems (root t))" unfolding e f(5) using ins_list_present [OF f(3,4)] by simp
  moreover have "tree_insert mem key key_size arg t =
      Some (if flag_no_dups t then (None, [], t) else (Some (k, count_up n), [], t\<lparr>root := ?rt\<rparr>))"
    using f(1) kn by (subst tree_insert.simps) simp
  ultimately show ?thesis by blast
qed (use look in simp)

lemma unat_suc: "(n :: 32 word) \<noteq> -1 \<Longrightarrow> unat (n + 1) = Suc (unat n)"
  using unatSuc [of n] eq_neg_iff_add_eq_0 [of n 1] by (simp add: add.commute)

lemma tree_insert_absent:
  assumes ord: "tree_order (compare t arg)" and ok: "tree_ok arg t" and look: "lookup (\<lambda>k. compare t arg k key) (elems (root t)) = None"
    and limit: "\<not> over_limit key_size t" and room: "elements_in_tree t \<noteq> -1"
  shows "\<exists>rt. tree_insert mem key key_size arg t =
      Some (if mem then (Some (key, 1), [], t\<lparr>root := rt, allocated := allocated t + insert_size key_size t,
                                            elements_in_tree := elements_in_tree t + 1\<rparr>)
            else (None, [], t\<lparr>allocated := allocated t + insert_size key_size t\<rparr>)) \<and>
    tree_ok arg (t\<lparr>root := rt, allocated := allocated t + insert_size key_size t, elements_in_tree := elements_in_tree t + 1\<rparr>) \<and>
    elems rt = ins_list (\<lambda>k. compare t arg k key) key (elems (root t))"
proof (rule find_key [OF ord ok refl, of key])
  fix p
  let ?cmp = "\<lambda>k. compare t arg k key"
  assume f: "find_link ?cmp (root t) [] = Some (Null_element, p)" "plug Null_element p = root t"
    "below ?cmp (before p)" "above ?cmp (after p)" "elems (root t) = before p @ after p"
  obtain h where "bal (plug Null_element p) h" "colour_of (plug Null_element p) = BLACK"
    using ok f(2) by (auto simp: tree_ok_def rb_tree_def)
  from rb_insert_laws [OF this, of 1 RED key] obtain rt where
    rt: "rb_insert (Element Null_element 1 RED key Null_element) p = Some rt" "rb_tree rt" "elems rt = before p @ (key, 1) # after p"
    by blast
  have "sorted_wrt (\<lambda>a b. compare t arg a b < 0) (map fst (before p) @ key # map fst (after p))"
    by (rule tree_order.sorted_insert [OF ord]) (use ok f in \<open>auto simp: tree_ok_def below_def above_def\<close>)
  then have "tree_ok arg (t\<lparr>root := rt, allocated := allocated t + insert_size key_size t, elements_in_tree := elements_in_tree t + 1\<rparr>)"
    using ok f(5) rt(2,3) unat_suc [OF room] by (simp add: tree_ok_def)
  moreover have "elems rt = ins_list ?cmp key (elems (root t))" using ins_list_absent [OF f(3,4)] rt(3) f(5) by simp
  moreover have "tree_insert mem key key_size arg t =
      Some (if mem then (Some (key, 1), [], t\<lparr>root := rt, allocated := allocated t + insert_size key_size t,
                                            elements_in_tree := elements_in_tree t + 1\<rparr>)
            else (None, [], t\<lparr>allocated := allocated t + insert_size key_size t\<rparr>))"
    using f(1) rt(1) limit by (subst tree_insert.simps) (auto simp: over_limit_def insert_size_def Let_def)
  ultimately show ?thesis by blast
qed (use look in simp)

text \<open>At the memory limit the tree is emptied, and the key is then inserted into an empty tree.\<close>

lemma tree_insert_reset:
  assumes ord: "tree_order (compare t arg)" and ok: "tree_ok arg t" and look: "lookup (\<lambda>k. compare t arg k key) (elems (root t)) = None"
    and limit: "over_limit key_size t"
  shows "tree_insert mem key key_size arg t =
    Some (if mem then Some (key, 1) else None, fst (reset_tree t),
      t\<lparr>root := if mem then Element Null_element 1 BLACK key Null_element else Null_element,
        allocated := insert_size key_size t, elements_in_tree := if mem then 1 else 0\<rparr>)"
proof (rule find_key [OF ord ok refl, of key])
  fix p
  let ?cmp = "\<lambda>k. compare t arg k key" and ?t = "snd (reset_tree t)" and ?t1 = "t\<lparr>allocated := allocated t + insert_size key_size t\<rparr>"
  assume f: "find_link ?cmp (root t) [] = Some (Null_element, p)"
  have r: "snd (reset_tree ?t1) = ?t" "fst (reset_tree ?t1) = fst (reset_tree t)" by (simp_all add: reset_tree_def free_tree_def)
  have "tree_insert mem key key_size arg ?t =
      Some (if mem then Some (key, 1) else None, [],
        t\<lparr>root := if mem then Element Null_element 1 BLACK key Null_element else Null_element,
          allocated := insert_size key_size t, elements_in_tree := if mem then 1 else 0\<rparr>)"
    by (subst tree_insert.simps) (simp add: reset_tree_def free_tree_def Let_def rb_insert_def insert_size_def)
  then show ?thesis
    using f limit r by (subst tree_insert.simps) (simp add: over_limit_def insert_size_def Let_def)
qed (use look in simp)

lemma tree_ok_reset:
  "tree_ok arg (t\<lparr>root := if mem then Element Null_element 1 BLACK key Null_element else Null_element,
     allocated := m, elements_in_tree := if mem then 1 else 0\<rparr>)"
  by (auto simp: tree_ok_def rb_tree_def intro: exI [of _ "Suc 0"])

lemma tree_ok_init: "tree_ok arg (init_tree block limit sz cmp with_del has_free)"
  by (simp add: tree_ok_def init_tree_def Let_def rb_tree_def)

lemma tree_ok_free: "tree_ok arg (snd (free_tree t))"
  by (simp add: tree_ok_def free_tree_def rb_tree_def)

lemma delete_tree_element_calls: "delete_tree_element True x = map (Free_free \<circ> fst) (elems x)" "delete_tree_element False x = []"
  by (induction x) auto

section \<open>Deletion\<close>

lemma unat_pred: "(n :: 32 word) \<noteq> 0 \<Longrightarrow> unat (n - 1) = unat n - 1"
  by (simp add: unat_minus_one)

lemma tree_delete_absent:
  assumes ord: "tree_order (compare t arg)" and ok: "tree_ok arg t" and look: "lookup (\<lambda>k. compare t arg k key) (elems (root t)) = None"
  shows "tree_delete key key_size arg t = Some (1, [], t)"
  by (rule find_key [OF ord ok refl, of key]) (use look in \<open>auto simp: tree_delete_def\<close>)

lemma tree_delete_present:
  assumes ord: "tree_order (compare t arg)" and ok: "tree_ok arg t" and look: "lookup (\<lambda>k. compare t arg k key) (elems (root t)) = Some (k, n)"
    and del: "with_delete t"
  shows "\<exists>rt m. tree_delete key key_size arg t =
      Some (0, if free_fn t then [Free_free k] else [], t\<lparr>root := rt, allocated := m, elements_in_tree := elements_in_tree t - 1\<rparr>) \<and>
    m = allocated t - (of_nat SIZEOF_TREE_ELEMENT + ucast (size_of_element t) + ucast key_size) \<and>
    tree_ok arg (t\<lparr>root := rt, allocated := m, elements_in_tree := elements_in_tree t - 1\<rparr>) \<and>
    elems rt = del_list (\<lambda>k. compare t arg k key) (elems (root t))"
proof (rule find_key [OF ord ok refl, of key])
  fix l n' c k' r p
  let ?cmp = "\<lambda>k. compare t arg k key"
  assume f: "find_link ?cmp (root t) [] = Some (Element l n' c k' r, p)" "plug (Element l n' c k' r) p = root t"
    "below ?cmp (before p @ elems l)" "?cmp k' = 0" "elems (root t) = (before p @ elems l) @ (k', n') # elems r @ after p"
    "lookup ?cmp (elems (root t)) = Some (k', n')"
  have k: "k' = k" using f(6) look by simp
  obtain h where h: "bal (plug (Element l n' c k' r) p) h" "colour_of (plug (Element l n' c k' r) p) = BLACK"
    using ok f(2) by (auto simp: tree_ok_def rb_tree_def)
  obtain x q c' where u: "unlink_element l n' c k' r p = Some (x, q, c')" "unlinked x q c'" "length q + 1 < MAX_TREE_HEIGHT"
      "elems (plug x q) = before p @ elems l @ elems r @ after p"
    using unlink_element_laws [OF h] tree_ok_height [OF ok] f(2) by auto
  obtain rt where rt: "(if c' = BLACK then rb_delete_fixup x q else Some (plug x q)) = Some rt" "rb_tree rt" "elems rt = elems (plug x q)"
    using u(2,3) rb_delete_fixup_laws [of x _ q] by (cases c') (auto simp: unlinked_def)
  let ?m = "allocated t - (of_nat SIZEOF_TREE_ELEMENT + ucast (size_of_element t) + ucast key_size)"
  have d: "tree_delete key key_size arg t =
      Some (0, if free_fn t then [Free_free k] else [], t\<lparr>root := rt, allocated := ?m, elements_in_tree := elements_in_tree t - 1\<rparr>)"
    using del f(1) u(1) rt(1) k by (simp add: tree_delete_def)
  have e: "elems rt = (before p @ elems l) @ elems r @ after p" using rt(3) u(4) by simp
  have "elements_in_tree t \<noteq> 0" using ok f(5) by (auto simp: tree_ok_def)
  then have "unat (elements_in_tree t - 1) = length (elems rt)" using ok f(5) unat_pred [of "elements_in_tree t"] by (auto simp: tree_ok_def e)
  then have "tree_ok arg (t\<lparr>root := rt, allocated := ?m, elements_in_tree := elements_in_tree t - 1\<rparr>)"
    using ok rt(2) unfolding tree_ok_def f(5) by (simp add: e sorted_wrt_append)
  moreover have "elems rt = del_list ?cmp (elems (root t))" unfolding e f(5) using del_list_present [OF f(3,4)] by simp
  ultimately show ?thesis using d by blast
qed (use look in simp)

section \<open>Search, walks and the check\<close>

lemma find_app: "List.find P (xs @ ys) = (case List.find P xs of None \<Rightarrow> List.find P ys | Some x \<Rightarrow> Some x)"
  by (induction xs) auto

lemma search_loop_laws: "splits cmp (elems x) \<Longrightarrow> search_loop cmp x = map_option fst (lookup cmp (elems x))"
proof (induction x)
  case Null_element
  then show ?case by (simp add: lookup_def)
next
  case (Element l n c k r)
  consider "cmp k = 0" | "cmp k < 0" | "0 < cmp k" by linarith
  then show ?case
  proof cases
    case 1
    then show ?thesis using splits_equal [of cmp "elems l" k n "elems r"] Element.prems lookup_present by fastforce
  next
    case 2
    then have "below cmp (elems l @ [(k, n)])" using splits_less [of cmp "elems l" k n "elems r"] Element.prems by simp
    then have "lookup cmp (elems l @ [(k, n)]) = None" using lookup_absent [of cmp _ "[]"] by simp
    then have "lookup cmp ((elems l @ [(k, n)]) @ elems r) = lookup cmp (elems r)"
      unfolding lookup_def find_app [of _ "elems l @ [(k, n)]"] by simp
    then show ?thesis using 2 Element by (simp add: sorted_wrt_append)
  next
    case 3
    then have "above cmp ((k, n) # elems r)" using splits_greater [of cmp "elems l" k n "elems r"] Element.prems by simp
    then have "lookup cmp ((k, n) # elems r) = None" using lookup_absent [of cmp "[]"] by simp
    then have "lookup cmp (elems l @ (k, n) # elems r) = lookup cmp (elems l)"
      by (simp add: lookup_def find_app split: option.splits)
    then show ?thesis using 3 Element by (simp add: sorted_wrt_append)
  qed
qed

lemma tree_search_laws:
  assumes "tree_order (compare t arg)" and "tree_ok arg t"
  shows "tree_search key arg t = map_option fst (lookup (\<lambda>k. compare t arg k key) (elems (root t)))"
  unfolding tree_search_def by (rule search_loop_laws [OF tree_ok_splits [OF assms]])

text \<open>A walk is the action on the elements one after the other, until the first error.\<close>

fun walk_list :: "('k \<Rightarrow> 32 word \<Rightarrow> 's \<Rightarrow> int \<times> 's) \<Rightarrow> ('k \<times> 31 word) list \<Rightarrow> 's \<Rightarrow> int \<times> 's" where
  "walk_list action [] st = (0, st)"
| "walk_list action ((k, n) # xs) st =
     (let (error, st1) = action k (ucast n) st in if error = 0 then walk_list action xs st1 else (error, st1))"

lemma walk_list_append:
  "walk_list action (xs @ ys) st =
     (let (error, st1) = walk_list action xs st in if error = 0 then walk_list action ys st1 else (error, st1))"
proof (induction xs arbitrary: st)
  case Nil
  then show ?case by simp
next
  case (Cons x xs)
  then show ?case by (cases x) (auto simp: Let_def split: prod.splits)
qed

lemma tree_walk_lists:
  "tree_walk_left_root_right action x st = walk_list action (elems x) st"
  "tree_walk_right_root_left action x st = walk_list action (rev (elems x)) st"
  by (induction x arbitrary: st) (simp_all add: walk_list_append Let_def split: prod.splits)

lemma test_rb_tree_bal: "bal x h \<Longrightarrow> test_rb_tree x = int h"
  by (induction x h rule: bal.induct) (auto split: nat.splits)

lemma bal_test_rb_tree: "0 \<le> test_rb_tree x \<Longrightarrow> bal x (nat (test_rb_tree x))"
proof (induction x)
  case Null_element
  then show ?case by simp
next
  case (Element l n c k r)
  let ?l = "test_rb_tree l" and ?r = "test_rb_tree r"
  have "0 \<le> ?l" "?l = ?r" and red: "\<not> (c = RED \<and> (colour_of l = RED \<or> colour_of r = RED))"
    using Element.prems by (auto simp: Let_def split: if_splits)
  moreover have "test_rb_tree (Element l n c k r) = ?l + (if c = BLACK then 1 else 0)" using calculation by (auto simp: Let_def)
  ultimately show ?case using Element.IH by (cases c; cases "colour_of l"; cases "colour_of r") (auto simp: nat_add_distrib)
qed

end
