(* ===== verification/Rb_Tree_Positions.thy ===== *)
theory Rb_Tree_Positions
  imports Rb_Tree_Ops
begin

text \<open>
  Positions in the trees of \<^verbatim>\<open>mysys/tree.c\<close>: the steps to the next element in either direction go through
  the elements in order, and \<open>tree_search_key\<close> finds the element that its flag asks for, with a position
  from which the steps go on.
\<close>

section \<open>What is still to come at a position\<close>

fun opposite :: "side \<Rightarrow> side" where
  "opposite Left = Right"
| "opposite Right = Left"

lemma opposite_simps [simp]: "opposite (opposite s) = s" "opposite s \<noteq> s" "s \<noteq> opposite s"
  by (cases s; simp)+

fun kid :: "side \<Rightarrow> 'k tree_element \<Rightarrow> 'k tree_element" where
  "kid s Null_element = Null_element"
| "kid Left (Element l n c k r) = l"
| "kid Right (Element l n c k r) = r"

lemma child_kid: "x \<noteq> Null_element \<Longrightarrow> child s x = Some (kid s x)"
  by (cases x; cases s) simp_all

text \<open>The elements in the direction \<open>r\<close>: in order, or from the last to the first.\<close>

definition dir_elems :: "side \<Rightarrow> 'k tree_element \<Rightarrow> ('k \<times> 31 word) list" where
  "dir_elems r x = (if r = Right then elems x else rev (elems x))"

abbreviation entry :: "'k tree_element \<Rightarrow> 'k \<times> 31 word" where
  "entry x \<equiv> (el_key x, el_count x)"

lemma dir_elems_simps [simp]:
  "dir_elems r Null_element = []"
  "x \<noteq> Null_element \<Longrightarrow> dir_elems r x = dir_elems r (kid (opposite r) x) @ entry x # dir_elems r (kid r x)"
  by (simp add: dir_elems_def) (cases x; cases r; simp add: dir_elems_def)

fun rest_of :: "side \<Rightarrow> side \<Rightarrow> 'k pos \<Rightarrow> ('k \<times> 31 word) list" where
  "rest_of r s [] = []"
| "rest_of r s ((s', y) # ps) = (if s = r then [] else entry y # dir_elems r (kid r y)) @ rest_of r s' ps"

fun pos_rest :: "side \<Rightarrow> 'k pos \<Rightarrow> ('k \<times> 31 word) list" where
  "pos_rest r [] = []"
| "pos_rest r ((s, x) # ps) = dir_elems r (kid r x) @ rest_of r s ps"

fun pos_ok :: "'k tree_element \<Rightarrow> 'k pos \<Rightarrow> bool" where
  "pos_ok t [] \<longleftrightarrow> True"
| "pos_ok t [(s, x)] \<longleftrightarrow> x \<noteq> Null_element \<and> x = t"
| "pos_ok t ((s, x) # (s', y) # ps) \<longleftrightarrow> x \<noteq> Null_element \<and> x = kid s y \<and> pos_ok t ((s', y) # ps)"

lemma pos_ok_head: "pos_ok t ((s, x) # ps) \<Longrightarrow> x \<noteq> Null_element"
  by (cases ps) auto

lemma pos_ok_tail: "pos_ok t ((s, x) # ps) \<Longrightarrow> pos_ok t ps"
  by (cases ps) auto

lemma pos_ok_push: "pos_ok t ((s, x) # ps) \<Longrightarrow> kid s' x \<noteq> Null_element \<Longrightarrow> pos_ok t ((s', kid s' x) # (s, x) # ps)"
  by simp

lemma pos_key_head: "x \<noteq> Null_element \<Longrightarrow> pos_key ((s, x) # ps) = Some (el_key x)"
  by (cases x) simp_all

text \<open>The position and the element at its end, with everything that follows it.\<close>

definition upcoming :: "side \<Rightarrow> 'k pos \<Rightarrow> ('k \<times> 31 word) list" where
  "upcoming r pos = (case pos of [] \<Rightarrow> [] | (s, x) # ps \<Rightarrow> entry x # pos_rest r pos)"

lemma edge_loop_laws:
  assumes "pos_ok t ((s, x) # ps)"
  shows "pos_ok t (edge_loop (opposite r) s x ps) \<and> upcoming r (edge_loop (opposite r) s x ps) = dir_elems r x @ rest_of r s ps"
  using assms
proof (induction x arbitrary: s ps)
  case Null_element
  then show ?case by (cases ps) auto
next
  case (Element lt n c k rt)
  let ?x = "Element lt n c k rt"
  have step: "edge_loop (opposite r) s ?x ps = edge_loop (opposite r) (opposite r) (kid (opposite r) ?x) ((s, ?x) # ps)"
    by (cases r) simp_all
  show ?case
  proof (cases "kid (opposite r) ?x = Null_element")
    case True
    then show ?thesis using Element.prems unfolding step by (cases ps) (auto simp: upcoming_def)
  next
    case False
    have ok: "pos_ok t ((opposite r, kid (opposite r) ?x) # (s, ?x) # ps)" using pos_ok_push [OF Element.prems False] .
    have "pos_ok t (edge_loop (opposite r) (opposite r) (kid (opposite r) ?x) ((s, ?x) # ps)) \<and>
        upcoming r (edge_loop (opposite r) (opposite r) (kid (opposite r) ?x) ((s, ?x) # ps)) =
          dir_elems r (kid (opposite r) ?x) @ rest_of r (opposite r) ((s, ?x) # ps)"
      using Element.IH ok by (cases r) auto
    then show ?thesis unfolding step by simp
  qed
qed

lemma climb_loop_laws: "pos_ok t ps \<Longrightarrow> pos_ok t (climb_loop r s ps) \<and> upcoming r (climb_loop r s ps) = rest_of r s ps"
  by (induction r s ps rule: climb_loop.induct) (auto simp: upcoming_def dest: pos_ok_tail)

lemma tree_search_next_laws:
  assumes "pos_ok t pos" and "pos \<noteq> []"
  shows "\<exists>pos'. tree_search_next (opposite r) r pos = Some (pos_key pos', pos') \<and> pos_ok t pos' \<and> upcoming r pos' = pos_rest r pos"
proof -
  obtain s x ps where pos: "pos = (s, x) # ps" using assms(2) by (cases pos) auto
  have x: "x \<noteq> Null_element" using pos_ok_head assms(1) pos by blast
  show ?thesis
  proof (cases "kid r x = Null_element")
    case True
    then show ?thesis
      using climb_loop_laws [OF pos_ok_tail [OF assms(1) [unfolded pos]], of r s] by (simp add: Let_def tree_search_next_def pos child_kid [OF x])
  next
    case False
    then show ?thesis
      using edge_loop_laws [OF pos_ok_push [OF assms(1) [unfolded pos] False], of r] by (simp add: Let_def tree_search_next_def pos child_kid [OF x])
  qed
qed

text \<open>All keys from an edge on, by steps to the next element.\<close>

fun scan :: "nat \<Rightarrow> side \<Rightarrow> 'k pos \<Rightarrow> 'k list option" where
  "scan 0 r pos = Some []"
| "scan (Suc n) r pos =
     (case pos_key pos of
        None \<Rightarrow> Some []
      | Some k \<Rightarrow> do { (_, pos') \<leftarrow> tree_search_next (opposite r) r pos; ks \<leftarrow> scan n r pos'; Some (k # ks) })"

lemma scan_laws: "pos_ok t pos \<Longrightarrow> scan n r pos = Some (take n (map fst (upcoming r pos)))"
proof (induction n arbitrary: pos)
  case 0
  then show ?case by simp
next
  case (Suc n)
  show ?case
  proof (cases pos)
    case Nil
    then show ?thesis by (simp add: upcoming_def)
  next
    case (Cons e ps)
    obtain s x where e: "e = (s, x)" by fastforce
    have x: "x \<noteq> Null_element" using Suc.prems pos_ok_head Cons e by blast
    obtain pos' where p: "tree_search_next (opposite r) r pos = Some (pos_key pos', pos')" "pos_ok t pos'" "upcoming r pos' = pos_rest r pos"
      using tree_search_next_laws [OF Suc.prems] Cons by blast
    then show ?thesis using Suc.IH [OF p(2)] pos_key_head [OF x] Cons e by (simp add: upcoming_def)
  qed
qed

lemma edge_laws: "pos_ok (root t) (snd (tree_search_edge (opposite r) t)) \<and> upcoming r (snd (tree_search_edge (opposite r) t)) = dir_elems r (root t)"
proof (cases "root t = Null_element")
  case True
  then show ?thesis by (simp add: tree_search_edge_def Let_def upcoming_def)
next
  case False
  then show ?thesis using edge_loop_laws [of "root t" Left "root t" "[]" r] by (simp add: tree_search_edge_def Let_def)
qed

section \<open>The element a flag asks for\<close>

text \<open>The first element of a list at a position, if there is one.\<close>

definition first_at :: "'k tree_element \<Rightarrow> 'k pos option \<Rightarrow> ('k \<times> 31 word) option \<Rightarrow> bool" where
  "first_at t po e \<longleftrightarrow> (case e of None \<Rightarrow> po = None | Some (k, n) \<Rightarrow> \<exists>p. po = Some p \<and> pos_ok t p \<and> pos_key p = Some k)"

definition first :: "'a list \<Rightarrow> 'a option" where
  "first xs = (case xs of [] \<Rightarrow> None | x # _ \<Rightarrow> Some x)"

lemma first_simps [simp]: "first [] = None" "first (x # xs) = Some x"
  by (simp_all add: first_def)

text \<open>
  What the loop keeps: the elements before and after the place it is at, which of them were left last,
  and whether one of them is equal to the key. An equal element counts as \<open>dir\<close>.
\<close>

definition at_place :: "('k \<Rightarrow> int) \<Rightarrow> bool \<Rightarrow> int \<Rightarrow> 'k tree_element \<Rightarrow> side \<Rightarrow> 'k tree_element \<Rightarrow> 'k pos
    \<Rightarrow> 'k pos option \<times> 'k pos option \<times> 'k pos option \<Rightarrow> bool" where
  "at_place cmp eq dir t s x ps lasts \<longleftrightarrow>
     (case lasts of (last_left, last_right, last_equal) \<Rightarrow>
        elems t = rev (rest_of Left s ps) @ elems x @ rest_of Right s ps \<and>
        (x \<noteq> Null_element \<longrightarrow> pos_ok t ((s, x) # ps)) \<and>
        below (\<lambda>k. if cmp k = 0 then dir else cmp k) (rest_of Left s ps) \<and>
        above (\<lambda>k. if cmp k = 0 then dir else cmp k) (rest_of Right s ps) \<and>
        first_at t last_left (first (rest_of Right s ps)) \<and> first_at t last_right (first (rest_of Left s ps)) \<and>
        (eq \<longrightarrow> first_at t last_equal (lookup cmp (rev (rest_of Left s ps) @ rest_of Right s ps))))"

lemma lookup_app: "lookup cmp (xs @ ys) = (case lookup cmp xs of None \<Rightarrow> lookup cmp ys | Some x \<Rightarrow> Some x)"
  unfolding lookup_def by (rule find_app)

lemma lookup_none_iff: "lookup cmp xs = None \<longleftrightarrow> (\<forall>x \<in> set xs. cmp (fst x) \<noteq> 0)"
  by (auto simp: lookup_def find_None_iff)

text \<open>One step of the loop, in either direction.\<close>

lemma lookup_hit: "lookup cmp xs = None \<Longrightarrow> cmp k = 0 \<Longrightarrow> lookup cmp (xs @ (k, n) # ys) = Some (k, n)"
  by (simp add: lookup_app) (simp add: lookup_def)

lemma lookup_skip: "lookup cmp ys = None \<Longrightarrow> lookup cmp (xs @ ys @ zs) = lookup cmp (xs @ zs)"
  by (simp add: lookup_app split: option.splits)

lemma below_lookup: "below cmp xs \<Longrightarrow> lookup cmp xs = None"
  by (auto simp: lookup_none_iff below_def)

lemma above_lookup: "above cmp xs \<Longrightarrow> lookup cmp xs = None"
  by (auto simp: lookup_none_iff above_def)

lemma below_rev [simp]: "below cmp (rev xs) \<longleftrightarrow> below cmp xs" "above cmp (rev xs) \<longleftrightarrow> above cmp xs"
  by (simp_all add: below_def above_def)

lemma below_dir: "below cmp xs \<Longrightarrow> below (\<lambda>k. if cmp k = 0 then dir else cmp k) xs"
  by (auto simp: below_def)

lemma above_dir: "above cmp xs \<Longrightarrow> above (\<lambda>k. if cmp k = 0 then dir else cmp k) xs"
  by (auto simp: above_def)

lemma place_right:
  assumes at: "at_place cmp eq dir t s (Element l n c k r) ps (ll, lr, le)" and sp: "splits cmp (elems t)"
    and k: "cmp k < 0 \<or> cmp k = 0 \<and> dir < 0"
  defines "here \<equiv> (s, Element l n c k r) # ps"
  shows "at_place cmp eq dir t Right r here (ll, Some here, if eq \<and> cmp k = 0 then Some here else le)"
proof -
  let ?L = "rest_of Left s ps" and ?R = "rest_of Right s ps" and ?x = "Element l n c k r"
  have e: "elems t = (rev ?L @ elems l) @ (k, n) # elems r @ ?R" and ok: "pos_ok t here" using at by (auto simp: at_place_def here_def)
  have b: "below cmp (rev ?L @ elems l)"
    using splits_less [of cmp "rev ?L @ elems l" k n] splits_equal [of cmp "rev ?L @ elems l" k n] sp k unfolding e by blast
  have rest: "rest_of Left Right here = (k, n) # rev (elems l) @ ?L" "rest_of Right Right here = ?R"
    by (simp_all add: here_def dir_elems_def)
  have first: "first_at t (Some here) (Some (k, n))" using ok by (simp add: first_at_def) (simp add: here_def)
  have look: "lookup cmp (rev (rest_of Left Right here) @ rest_of Right Right here) =
      (if cmp k = 0 then Some (k, n) else lookup cmp (rev ?L @ ?R))"
    using lookup_hit [OF below_lookup [OF b], of k n ?R] below_lookup [of cmp "elems l @ [(k, n)]"] b k
      lookup_skip [of cmp "elems l @ [(k, n)]" "rev ?L" ?R] by (auto simp: rest)
  have kid: "r \<noteq> Null_element \<longrightarrow> pos_ok t ((Right, r) # here)" using pos_ok_push [of t s ?x ps Right] ok by (simp add: here_def)
  have "below (\<lambda>k. if cmp k = 0 then dir else cmp k) (rest_of Left Right here)" using below_dir [OF b, of dir] k by (auto simp: rest)
  moreover have "elems t = rev (rest_of Left Right here) @ elems r @ rest_of Right Right here" using e by (simp add: rest)
  ultimately show ?thesis using at first kid look unfolding at_place_def by (auto simp: rest)
qed

lemma place_left:
  assumes at: "at_place cmp eq dir t s (Element l n c k r) ps (ll, lr, le)" and sp: "splits cmp (elems t)"
    and k: "0 < cmp k \<or> cmp k = 0 \<and> 0 < dir"
  defines "here \<equiv> (s, Element l n c k r) # ps"
  shows "at_place cmp eq dir t Left l here (Some here, lr, if eq \<and> cmp k = 0 then Some here else le)"
proof -
  let ?L = "rest_of Left s ps" and ?R = "rest_of Right s ps" and ?x = "Element l n c k r"
  have e: "elems t = (rev ?L @ elems l) @ (k, n) # elems r @ ?R" and ok: "pos_ok t here" using at by (auto simp: at_place_def here_def)
  have a: "above cmp (elems r @ ?R)"
    using splits_greater [of cmp "rev ?L @ elems l" k n] splits_equal [of cmp "rev ?L @ elems l" k n] sp k unfolding e by blast
  have bl: "cmp k = 0 \<Longrightarrow> below cmp (rev ?L)"
    using splits_equal [of cmp "rev ?L @ elems l" k n] sp unfolding e by auto
  have rest: "rest_of Left Left here = ?L" "rest_of Right Left here = (k, n) # elems r @ ?R"
    by (simp_all add: here_def dir_elems_def)
  have first: "first_at t (Some here) (Some (k, n))" using ok by (simp add: first_at_def) (simp add: here_def)
  have look: "lookup cmp (rev (rest_of Left Left here) @ rest_of Right Left here) =
      (if cmp k = 0 then Some (k, n) else lookup cmp (rev ?L @ ?R))"
    using lookup_hit [OF below_lookup [OF bl], of k n "elems r @ ?R"] above_lookup [of cmp "(k, n) # elems r"] a k
      lookup_skip [of cmp "(k, n) # elems r" "rev ?L" ?R] by (auto simp: rest)
  have kid: "l \<noteq> Null_element \<longrightarrow> pos_ok t ((Left, l) # here)" using pos_ok_push [of t s ?x ps Left] ok by (simp add: here_def)
  have "above (\<lambda>k. if cmp k = 0 then dir else cmp k) (rest_of Right Left here)" using above_dir [OF a, of dir] k by (auto simp: rest)
  moreover have "elems t = rev (rest_of Left Left here) @ elems l @ rest_of Right Left here" using e by (simp add: rest)
  ultimately show ?thesis using at first kid look unfolding at_place_def by (auto simp: rest)
qed

lemma search_key_loop_laws:
  assumes "equal_step flag = Some (eq, dir)" and "splits cmp (elems t)" and "at_place cmp eq dir t s x ps lasts"
  shows "\<exists>lasts' s' ps'. search_key_loop flag cmp s x ps lasts = Some lasts' \<and> at_place cmp eq dir t s' Null_element ps' lasts'"
  using assms
proof (induction flag cmp s x ps lasts rule: search_key_loop.induct)
  case (1 flag cmp s ps lasts)
  then show ?case by auto
next
  case (2 flag cmp s l n c k r ps ll lr le)
  have dir: "dir < 0 \<or> 0 < dir" using "2.prems"(1) by (auto simp: equal_step_def split: ha_rkey_function.splits)
  note pr = place_right [OF "2.prems"(3,2)] and pl = place_left [OF "2.prems"(3,2)]
  consider "cmp k < 0" | "0 < cmp k" | "cmp k = 0" "dir < 0" | "cmp k = 0" "0 < dir" using dir by linarith
  then show ?case
  proof cases
    case 1
    then show ?thesis using "2.IH"(1) [OF refl, of "(False, cmp k)" False "cmp k"] "2.prems"(1,2) pr by (simp add: Let_def)
  next
    case 2
    then show ?thesis using "2.IH"(2) [OF refl, of "(False, cmp k)" False "cmp k"] "2.prems"(1,2) pl by (simp add: Let_def)
  next
    case 3
    then show ?thesis using "2.IH"(1) [OF refl, of "(eq, dir)" eq dir] "2.prems"(1,2) pr by (simp add: Let_def)
  next
    case 4
    then show ?thesis using "2.IH"(2) [OF refl, of "(eq, dir)" eq dir] "2.prems"(1,2) pl by (simp add: Let_def)
  qed
qed

text \<open>What each flag asks for, on the sorted list.\<close>

definition wanted :: "ha_rkey_function \<Rightarrow> ('k \<Rightarrow> int) \<Rightarrow> ('k \<times> 31 word) list \<Rightarrow> ('k \<times> 31 word) option" where
  "wanted flag cmp xs =
     (case flag of
        HA_READ_KEY_EXACT \<Rightarrow> List.find (\<lambda>x. cmp (fst x) = 0) xs
      | HA_READ_PREFIX_LAST \<Rightarrow> List.find (\<lambda>x. cmp (fst x) = 0) xs
      | HA_READ_KEY_OR_NEXT \<Rightarrow> List.find (\<lambda>x. 0 \<le> cmp (fst x)) xs
      | HA_READ_AFTER_KEY \<Rightarrow> List.find (\<lambda>x. 0 < cmp (fst x)) xs
      | HA_READ_BEFORE_KEY \<Rightarrow> List.find (\<lambda>x. cmp (fst x) < 0) (rev xs)
      | HA_READ_PREFIX_LAST_OR_PREV \<Rightarrow> List.find (\<lambda>x. cmp (fst x) \<le> 0) (rev xs)
      | _ \<Rightarrow> None)"

lemma find_first_of: "\<forall>x \<in> set xs. \<not> P x \<Longrightarrow> \<forall>y \<in> set ys. P y \<Longrightarrow> List.find P (xs @ ys) = first ys"
proof (induction xs)
  case Nil
  then show ?case by (cases ys) auto
qed auto

lemma lookup_split:
  assumes "lookup cmp xs = Some (k, n)" and "splits cmp xs"
  obtains as bs where "xs = as @ (k, n) # bs" and "below cmp as" and "above cmp bs" and "cmp k = 0"
proof -
  have "(k, n) \<in> set xs \<and> cmp k = 0" using assms(1) unfolding lookup_def find_Some_iff by (metis fst_conv nth_mem)
  then show thesis using that assms(2) splits_equal by (metis split_list)
qed

lemma lookup_next:
  assumes "lookup cmp xs = Some (k, n)" and "splits cmp xs"
  shows "List.find (\<lambda>x. 0 \<le> cmp (fst x)) xs = Some (k, n)" and "List.find (\<lambda>x. cmp (fst x) \<le> 0) (rev xs) = Some (k, n)"
proof -
  obtain as bs where x: "xs = as @ (k, n) # bs" "below cmp as" "above cmp bs" "cmp k = 0" by (rule lookup_split [OF assms])
  show "List.find (\<lambda>x. 0 \<le> cmp (fst x)) xs = Some (k, n)" unfolding x(1)
    using find_first_of [of as "\<lambda>x. 0 \<le> cmp (fst x)" "(k, n) # bs"] x(2-4) by (force simp: below_def above_def)
  show "List.find (\<lambda>x. cmp (fst x) \<le> 0) (rev xs) = Some (k, n)" unfolding x(1)
    using find_first_of [of "rev bs" "\<lambda>x. cmp (fst x) \<le> 0" "(k, n) # rev as"] x(2-4) by (force simp: below_def above_def)
qed

lemma last_pos_laws:
  assumes "at_place cmp eq dir t s Null_element ps lasts" and "equal_step flag = Some (eq, dir)" and "splits cmp (elems t)"
  shows "\<exists>po. last_pos_of flag lasts = Some po \<and> first_at t po (wanted flag cmp (elems t))"
proof -
  obtain ll lr le where lasts: "lasts = (ll, lr, le)" by (cases lasts) auto
  let ?L = "rest_of Left s ps" and ?R = "rest_of Right s ps"
  have e: "elems t = rev ?L @ ?R" and r: "rev (elems t) = rev ?R @ ?L"
    and L: "\<forall>x \<in> set ?L. (if cmp (fst x) = 0 then dir else cmp (fst x)) < 0"
    and R: "\<forall>x \<in> set ?R. 0 < (if cmp (fst x) = 0 then dir else cmp (fst x))"
    and ll: "first_at t ll (first ?R)" and lr: "first_at t lr (first ?L)"
    and le: "eq \<longrightarrow> first_at t le (lookup cmp (elems t))"
    using assms(1) unfolding at_place_def lasts below_def above_def by auto
  have L1: "dir > 0 \<Longrightarrow> \<forall>x \<in> set ?L. cmp (fst x) < 0" "dir < 0 \<Longrightarrow> \<forall>x \<in> set ?L. cmp (fst x) \<le> 0"
    and R1: "dir > 0 \<Longrightarrow> \<forall>x \<in> set ?R. 0 \<le> cmp (fst x)" "dir < 0 \<Longrightarrow> \<forall>x \<in> set ?R. 0 < cmp (fst x)"
    using L R by (force split: if_splits)+
  have next': "first_at t (if le \<noteq> None then le else ll) (List.find (\<lambda>x. 0 \<le> cmp (fst x)) (elems t))" if "dir > 0" eq
  proof (cases "lookup cmp (elems t)")
    case None
    then show ?thesis using le ll that find_first_of [of "rev ?L" "\<lambda>x. 0 \<le> cmp (fst x)" ?R] L1(1) R1(1) unfolding e
      by (force simp: first_at_def)
  next
    case (Some kn)
    then show ?thesis using le that lookup_next(1) [of cmp "elems t"] assms(3) by (cases kn) (auto simp: first_at_def)
  qed
  have prev: "first_at t (if le \<noteq> None then le else lr) (List.find (\<lambda>x. cmp (fst x) \<le> 0) (rev (elems t)))" if "dir < 0" eq
  proof (cases "lookup cmp (elems t)")
    case None
    then show ?thesis using le lr that find_first_of [of "rev ?R" "\<lambda>x. cmp (fst x) \<le> 0" ?L] L1(2) R1(2) unfolding r
      by (force simp: first_at_def)
  next
    case (Some kn)
    then show ?thesis using le that lookup_next(2) [of cmp "elems t"] assms(3) by (cases kn) (auto simp: first_at_def)
  qed
  have after: "first_at t ll (List.find (\<lambda>x. 0 < cmp (fst x)) (elems t))" if "dir < 0"
    using ll that find_first_of [of "rev ?L" "\<lambda>x. 0 < cmp (fst x)" ?R] L1(2) R1(2) unfolding e by force
  have bef: "first_at t lr (List.find (\<lambda>x. cmp (fst x) < 0) (rev (elems t)))" if "dir > 0"
    using lr that find_first_of [of "rev ?R" "\<lambda>x. cmp (fst x) < 0" ?L] L1(1) R1(1) unfolding r by force
  show ?thesis
    using assms(2) le next' prev after bef
    by (cases flag) (simp_all add: equal_step_def last_pos_of_def wanted_def lasts lookup_def)
qed

end
