(* ===== verification/Tree_Properties.thy ===== *)
theory Tree_Properties
  imports Rb_Tree_Positions
begin

text \<open>
  The properties of the trees of \<^verbatim>\<open>mysys/tree.c\<close>, each with an instance on a tree of file offsets with the
  comparison function of the full-text search.
\<close>

section \<open>An example\<close>

definition ex_empty :: "(64 word, unit) tree" where
  "ex_empty = init_tree 0 0 8 ftb_no_dupes_cmp True False"

definition ex_tree :: "(64 word, unit) tree" where
  "ex_tree = ex_empty\<lparr>root := Element (Element Null_element 1 RED 2 Null_element) 1 BLACK 4 (Element Null_element 1 RED 6 Null_element),
     elements_in_tree := 3, allocated := 96\<rparr>"

lemma ex_tree:
  shows "tree_order (compare ex_tree ())" and "tree_ok () ex_tree" and "elems (root ex_tree) = [(2, 1), (4, 1), (6, 1)]"
    and "memory_limit ex_tree = 0" and "with_delete ex_tree" and "elements_in_tree ex_tree = 3" and "compare ex_tree = ftb_no_dupes_cmp"
proof -
  have c: "compare ex_tree = ftb_no_dupes_cmp" by (simp add: ex_tree_def ex_empty_def init_tree_def Let_def)
  then show "tree_order (compare ex_tree ())" "compare ex_tree = ftb_no_dupes_cmp" using ftb.tree_order_axioms by simp_all
  show "tree_ok () ex_tree" unfolding tree_ok_def c
    by (auto simp: ex_tree_def rb_tree_def ftb_no_dupes_cmp_def intro!: exI [of _ "Suc 0"])
  show "elems (root ex_tree) = [(2, 1), (4, 1), (6, 1)]" by (simp add: ex_tree_def)
  show "memory_limit ex_tree = 0" "with_delete ex_tree" "elements_in_tree ex_tree = 3"
    by (simp_all add: ex_tree_def ex_empty_def init_tree_def Let_def)
qed

section \<open>Changes\<close>

text \<open>
  C35. \<open>tree_insert\<close> on a well-formed tree returns and the tree stays a sorted red-black tree with the right
  number of elements. If the key is there, its counter goes up, or nothing changes when duplicates are
  not allowed. If not, it is inserted at its place; without memory nothing is inserted; and over the
  memory limit the tree is emptied first, with a call of the free function for every element.
\<close>

theorem tree_insert_correct:
  assumes "tree_order (compare t arg)" and "tree_ok arg t" and "elements_in_tree t \<noteq> -1"
  shows "\<exists>el calls t'. tree_insert mem key key_size arg t = Some (el, calls, t') \<and> tree_ok arg t' \<and> compare t' = compare t \<and>
    (case lookup (\<lambda>k. compare t arg k key) (elems (root t)) of
       Some (k, n) \<Rightarrow>
         if flag_no_dups t then el = None \<and> calls = [] \<and> t' = t
         else el = Some (k, count_up n) \<and> calls = [] \<and> elems (root t') = ins_list (\<lambda>k. compare t arg k key) key (elems (root t))
     | None \<Rightarrow>
         el = (if mem then Some (key, 1) else None) \<and>
         (if over_limit key_size t then calls = fst (reset_tree t) \<and> elems (root t') = (if mem then [(key, 1)] else [])
          else calls = [] \<and>
            elems (root t') = (if mem then ins_list (\<lambda>k. compare t arg k key) key (elems (root t)) else elems (root t))))"
proof (cases "lookup (\<lambda>k. compare t arg k key) (elems (root t))")
  case None
  show ?thesis
  proof (cases "over_limit key_size t")
    case True
    have "elems (if mem then Element Null_element 1 BLACK key Null_element else Null_element) = (if mem then [(key, 1)] else [])" by simp
    then show ?thesis
      unfolding tree_insert_reset [OF assms(1,2) None True] using True None tree_ok_reset [of arg mem _ key t] by simp
  next
    case False
    have "tree_ok arg (t\<lparr>allocated := m\<rparr>)" for m using assms(2) by (simp add: tree_ok_def)
    then show ?thesis using tree_insert_absent [OF assms(1,2) None False assms(3), of mem] None False by (cases mem) auto
  qed
next
  case (Some kn)
  obtain k n where kn: "kn = (k, n)" by fastforce
  show ?thesis using tree_insert_present [OF assms(1,2), of key k n mem key_size] Some kn assms(2) by (cases "flag_no_dups t") auto
qed

theorem tree_insert_correct_witness:
  "\<exists>el calls t'. tree_insert True 5 0 () ex_tree = Some (el, calls, t') \<and> tree_ok () t' \<and> elems (root t') = [(2, 1), (4, 1), (5, 1), (6, 1)]"
proof -
  have "elements_in_tree ex_tree \<noteq> -1" unfolding ex_tree(6) by simp
  from tree_insert_correct [OF ex_tree(1,2) this, of True 5 0] show ?thesis
    by (auto simp: ex_tree lookup_def over_limit_def ftb_no_dupes_cmp_def)
qed

text \<open>
  C36. \<open>tree_delete\<close> on a well-formed tree returns: 1 and no change if deletions are not allowed or the key
  is not there, else 0, with the element of this key taken out, given to the free function if there is one, and the
  tree a sorted red-black tree as before.
\<close>

theorem tree_delete_correct:
  assumes "tree_order (compare t arg)" and "tree_ok arg t"
  shows "\<exists>ret calls t'. tree_delete key key_size arg t = Some (ret, calls, t') \<and> tree_ok arg t' \<and> compare t' = compare t \<and>
    (case if with_delete t then lookup (\<lambda>k. compare t arg k key) (elems (root t)) else None of
       None \<Rightarrow> ret = 1 \<and> calls = [] \<and> t' = t
     | Some (k, n) \<Rightarrow> ret = 0 \<and> elems (root t') = del_list (\<lambda>k. compare t arg k key) (elems (root t)) \<and> calls = (if free_fn t then [Free_free k] else []))"
proof (cases "with_delete t")
  case True
  show ?thesis
  proof (cases "lookup (\<lambda>k. compare t arg k key) (elems (root t))")
    case None
    then show ?thesis using tree_delete_absent [OF assms None] assms(2) by simp
  next
    case (Some kn)
    then show ?thesis using tree_delete_present [OF assms _ True, of key "fst kn" "snd kn" key_size] True by auto
  qed
next
  case False
  then show ?thesis using assms(2) by (simp add: tree_delete_def)
qed

theorem tree_delete_correct_witness:
  "\<exists>ret calls t'. tree_delete 4 0 () ex_tree = Some (ret, calls, t') \<and> tree_ok () t' \<and> elems (root t') = [(2, 1), (6, 1)]"
  using tree_delete_correct [OF ex_tree(1,2), of 4 0] by (auto simp: ex_tree lookup_def ftb_no_dupes_cmp_def)

section \<open>Histories\<close>












section \<open>Searches, scans and walks\<close>



text \<open>
  C38. \<open>tree_search_edge\<close> followed by steps of \<open>tree_search_next\<close> goes through all elements, in order or from
  the last to the first according to the offsets: after any number of steps the elements seen are the
  first ones in this order, no step leaves the path, and after the last element the search ends.
\<close>

theorem tree_scan_correct:
  "scan n r (snd (tree_search_edge (opposite r) t)) = Some (take n ((if r = Right then id else rev) (map fst (elems (root t)))))"
  using scan_laws [of "root t" _ n r] edge_laws [of t r] by (simp add: dir_elems_def rev_map)

text \<open>
  C39. \<open>tree_walk\<close> calls the action on every element with its counter, in the order asked for, one after the
  other, until the first call that gives an error, and returns this error.
\<close>

theorem tree_walk_correct:
  "tree_walk action visit st t =
     walk_list action (case visit of Left_root_right \<Rightarrow> elems (root t) | Right_root_left \<Rightarrow> rev (elems (root t))) st"
  by (cases visit) (simp_all add: tree_walk_def tree_walk_lists)

section \<open>The height\<close>

text \<open>
  C40. The array of \<^verbatim>\<open>MAX_TREE_HEIGHT\<close> parents is large enough: a path from the root of a well-formed tree to any
  element or null element, with the two entries a deletion can add to it, stays within the array for
  every number of elements that the 32-bit counter can hold.
\<close>

theorem tree_height_bound:
  assumes "tree_ok arg t" and "plug x p = root t"
  shows "length p + height x \<le> 62 \<and> length p + 2 \<le> MAX_TREE_HEIGHT"
proof -
  have "length p + height x \<le> height (root t)" using height_plug [of p x] assms(2) by simp
  then show ?thesis using tree_ok_height [OF assms(1)] by (simp add: MAX_TREE_HEIGHT_def)
qed

theorem tree_height_bound_witness:
  "\<exists>p. plug (Element Null_element 1 RED 6 Null_element) p = root ex_tree \<and> length p + 2 \<le> MAX_TREE_HEIGHT"
proof -
  have "\<exists>p. plug (Element Null_element 1 RED 6 Null_element) p = root ex_tree"
    by (rule exI [of _ "[Frame Right (Element Null_element 1 RED 2 Null_element) 1 BLACK 4]"]) (simp add: ex_tree_def)
  then show ?thesis using tree_height_bound [OF ex_tree(2)] by blast
qed

end
