(* ===== verification/Trx_Boundary.thy ===== *)
theory Trx_Boundary
  imports Byte_Order
begin

text \<open>
  The transaction boundary parser of \<^verbatim>\<open>sql/rpl_trx_boundary_parser.cc\<close>, with which the receiver of a replica
  finds the ends of the transactions in a stream of binary log events, and \<open>Query_log_event::get_query\<close> of
  \<^verbatim>\<open>sql/log_event.cc\<close>, which finds the text of a query event. The memory around the event is a function of
  the address, with the event at address 0, because the comparisons of the text can read behind it.
\<close>

section \<open>Events\<close>

datatype log_event_type =
    UNKNOWN_EVENT | START_EVENT_V3 | QUERY_EVENT | STOP_EVENT | ROTATE_EVENT | INTVAR_EVENT | LOAD_EVENT | SLAVE_EVENT
  | CREATE_FILE_EVENT | APPEND_BLOCK_EVENT | EXEC_LOAD_EVENT | DELETE_FILE_EVENT | NEW_LOAD_EVENT | RAND_EVENT
  | USER_VAR_EVENT | FORMAT_DESCRIPTION_EVENT | XID_EVENT | BEGIN_LOAD_QUERY_EVENT | EXECUTE_LOAD_QUERY_EVENT
  | TABLE_MAP_EVENT | PRE_GA_WRITE_ROWS_EVENT | PRE_GA_UPDATE_ROWS_EVENT | PRE_GA_DELETE_ROWS_EVENT
  | WRITE_ROWS_EVENT_V1 | UPDATE_ROWS_EVENT_V1 | DELETE_ROWS_EVENT_V1 | INCIDENT_EVENT | HEARTBEAT_LOG_EVENT
  | IGNORABLE_LOG_EVENT | ROWS_QUERY_LOG_EVENT | WRITE_ROWS_EVENT | UPDATE_ROWS_EVENT | DELETE_ROWS_EVENT
  | GTID_LOG_EVENT | ANONYMOUS_GTID_LOG_EVENT | PREVIOUS_GTIDS_LOG_EVENT | TRANSACTION_CONTEXT_EVENT
  | VIEW_CHANGE_EVENT | XA_PREPARE_LOG_EVENT

text \<open>The types in the order of their numbers; \<open>None\<close> is a number without a type.\<close>

definition log_event_types :: "log_event_type list" where
  "log_event_types =
    [UNKNOWN_EVENT, START_EVENT_V3, QUERY_EVENT, STOP_EVENT, ROTATE_EVENT, INTVAR_EVENT, LOAD_EVENT, SLAVE_EVENT,
     CREATE_FILE_EVENT, APPEND_BLOCK_EVENT, EXEC_LOAD_EVENT, DELETE_FILE_EVENT, NEW_LOAD_EVENT, RAND_EVENT,
     USER_VAR_EVENT, FORMAT_DESCRIPTION_EVENT, XID_EVENT, BEGIN_LOAD_QUERY_EVENT, EXECUTE_LOAD_QUERY_EVENT,
     TABLE_MAP_EVENT, PRE_GA_WRITE_ROWS_EVENT, PRE_GA_UPDATE_ROWS_EVENT, PRE_GA_DELETE_ROWS_EVENT,
     WRITE_ROWS_EVENT_V1, UPDATE_ROWS_EVENT_V1, DELETE_ROWS_EVENT_V1, INCIDENT_EVENT, HEARTBEAT_LOG_EVENT,
     IGNORABLE_LOG_EVENT, ROWS_QUERY_LOG_EVENT, WRITE_ROWS_EVENT, UPDATE_ROWS_EVENT, DELETE_ROWS_EVENT,
     GTID_LOG_EVENT, ANONYMOUS_GTID_LOG_EVENT, PREVIOUS_GTIDS_LOG_EVENT, TRANSACTION_CONTEXT_EVENT,
     VIEW_CHANGE_EVENT, XA_PREPARE_LOG_EVENT]"

definition event_type_of :: "byte \<Rightarrow> log_event_type option" where
  "event_type_of b = (if unat b < length log_event_types then Some (log_event_types ! unat b) else None)"

text \<open>What the code uses of the format description event: the sizes of the headers and the checksum.\<close>

record format_description =
  common_header_len :: byte
  query_header_len :: byte
  has_checksum :: bool

definition EVENT_TYPE_OFFSET :: int where "EVENT_TYPE_OFFSET = 4"

definition FLAGS_OFFSET :: int where "FLAGS_OFFSET = 17"

definition LOG_EVENT_IGNORABLE_F :: "16 word" where "LOG_EVENT_IGNORABLE_F = 128"

definition Q_DB_LEN_OFFSET :: int where "Q_DB_LEN_OFFSET = 8"

definition Q_STATUS_VARS_LEN_OFFSET :: int where "Q_STATUS_VARS_LEN_OFFSET = 11"

definition QUERY_HEADER_MINIMAL_LEN :: "32 word" where "QUERY_HEADER_MINIMAL_LEN = 4 + 4 + 1 + 2"

section \<open>The text of a query\<close>

text \<open>
  \<open>Query_log_event::get_query\<close>: the address of the text and its length. The length of the database name is
  put into a variable of type \<open>char\<close>, which is signed on the platform of the model; the sizes are added as
  32-bit numbers and compared with the 64-bit length of the event.
\<close>

definition get_query :: "(int \<Rightarrow> byte) \<Rightarrow> 64 word \<Rightarrow> format_description \<Rightarrow> (int \<times> nat) option" where
  "get_query mem len fd =
     (let chl = ucast (common_header_len fd) :: 32 word;
          qhl = ucast (query_header_len fd) :: 32 word;
          buf = uint chl;
          status_vars_len = (if qhl - QUERY_HEADER_MINIMAL_LEN > 0
            then ucast (uint2korr [mem (buf + Q_STATUS_VARS_LEN_OFFSET), mem (buf + Q_STATUS_VARS_LEN_OFFSET + 1)]) else 0 :: 32 word);
          checksum_size = (if has_checksum fd then 4 else 0 :: 32 word);
          db_len = sint (mem (buf + Q_DB_LEN_OFFSET)) in
      if len < ucast (chl + qhl) then None
      else if len < ucast (chl + qhl + word_of_int db_len + 1 + status_vars_len + checksum_size) then None
      else
        let query = buf + uint qhl + db_len + 1 + uint status_vars_len;
            end_of_query = buf + (uint len - uint chl) - uint checksum_size in
        Some (query, nat (end_of_query - query)))"

text \<open>
  \<open>strncmp\<close> and \<open>strncasecmp\<close> of the C library, for the text at an address and a literal: whether the first
  \<open>n\<close> characters are equal, up to the end of the literal.
\<close>

fun strncmp_eq :: "(byte \<Rightarrow> byte) \<Rightarrow> (int \<Rightarrow> byte) \<Rightarrow> int \<Rightarrow> string \<Rightarrow> nat \<Rightarrow> bool" where
  "strncmp_eq conv mem p s 0 \<longleftrightarrow> True"
| "strncmp_eq conv mem p [] (Suc n) \<longleftrightarrow> mem p = 0"
| "strncmp_eq conv mem p (c # s) (Suc n) \<longleftrightarrow> conv (mem p) = conv (of_char c) \<and> strncmp_eq conv mem (p + 1) s n"

definition tolower :: "byte \<Rightarrow> byte" where
  "tolower b = (if 65 \<le> b \<and> b \<le> 90 then b + 32 else b)"

abbreviation strncmp_same :: "(int \<Rightarrow> byte) \<Rightarrow> int \<Rightarrow> string \<Rightarrow> nat \<Rightarrow> bool" where
  "strncmp_same \<equiv> strncmp_eq (\<lambda>b. b)"

abbreviation strncasecmp_same :: "(int \<Rightarrow> byte) \<Rightarrow> int \<Rightarrow> string \<Rightarrow> nat \<Rightarrow> bool" where
  "strncasecmp_same \<equiv> strncmp_eq tolower"

section \<open>The boundary type of an event\<close>

datatype event_boundary_type =
    EVENT_BOUNDARY_TYPE_ERROR | EVENT_BOUNDARY_TYPE_GTID | EVENT_BOUNDARY_TYPE_BEGIN_TRX | EVENT_BOUNDARY_TYPE_END_TRX
  | EVENT_BOUNDARY_TYPE_END_XA_TRX | EVENT_BOUNDARY_TYPE_PRE_STATEMENT | EVENT_BOUNDARY_TYPE_STATEMENT
  | EVENT_BOUNDARY_TYPE_INCIDENT | EVENT_BOUNDARY_TYPE_IGNORE

definition query_boundary_type :: "(int \<Rightarrow> byte) \<Rightarrow> int \<Rightarrow> nat \<Rightarrow> event_boundary_type" where
  "query_boundary_type mem query qlen =
     (if strncmp_same mem query ''BEGIN'' qlen \<or> strncmp_same mem query ''XA START'' 8 then EVENT_BOUNDARY_TYPE_BEGIN_TRX
      else if strncmp_same mem query ''COMMIT'' qlen \<or>
        strncasecmp_same mem query ''ROLLBACK'' 8 \<and> \<not> strncasecmp_same mem query ''ROLLBACK TO '' 12 then EVENT_BOUNDARY_TYPE_END_TRX
      else if strncasecmp_same mem query ''XA ROLLBACK'' 11 then EVENT_BOUNDARY_TYPE_END_XA_TRX
      else EVENT_BOUNDARY_TYPE_STATEMENT)"

definition get_event_boundary_type :: "(int \<Rightarrow> byte) \<Rightarrow> 64 word \<Rightarrow> format_description \<Rightarrow> event_boundary_type" where
  "get_event_boundary_type mem len fd =
     (let unsupported = (if and (uint2korr [mem FLAGS_OFFSET, mem (FLAGS_OFFSET + 1)]) LOG_EVENT_IGNORABLE_F \<noteq> 0
            then EVENT_BOUNDARY_TYPE_IGNORE else EVENT_BOUNDARY_TYPE_ERROR) in
      if len < ucast (common_header_len fd) then EVENT_BOUNDARY_TYPE_ERROR
      else case event_type_of (mem EVENT_TYPE_OFFSET) of
        None \<Rightarrow> unsupported
      | Some event_type \<Rightarrow>
          if event_type \<in> {GTID_LOG_EVENT, ANONYMOUS_GTID_LOG_EVENT} then EVENT_BOUNDARY_TYPE_GTID
          else if event_type = QUERY_EVENT then
            (case get_query mem len fd of
               None \<Rightarrow> EVENT_BOUNDARY_TYPE_ERROR
             | Some (query, qlen) \<Rightarrow> if qlen = 0 then EVENT_BOUNDARY_TYPE_ERROR else query_boundary_type mem query qlen)
          else if event_type \<in> {XID_EVENT, XA_PREPARE_LOG_EVENT} then EVENT_BOUNDARY_TYPE_END_TRX
          else if event_type \<in> {INTVAR_EVENT, RAND_EVENT, USER_VAR_EVENT} then EVENT_BOUNDARY_TYPE_PRE_STATEMENT
          else if event_type \<in> {EXECUTE_LOAD_QUERY_EVENT, TABLE_MAP_EVENT, APPEND_BLOCK_EVENT, BEGIN_LOAD_QUERY_EVENT,
              ROWS_QUERY_LOG_EVENT, WRITE_ROWS_EVENT, UPDATE_ROWS_EVENT, DELETE_ROWS_EVENT, WRITE_ROWS_EVENT_V1,
              UPDATE_ROWS_EVENT_V1, DELETE_ROWS_EVENT_V1, PRE_GA_WRITE_ROWS_EVENT, PRE_GA_DELETE_ROWS_EVENT,
              PRE_GA_UPDATE_ROWS_EVENT, VIEW_CHANGE_EVENT} then EVENT_BOUNDARY_TYPE_STATEMENT
          else if event_type = INCIDENT_EVENT then EVENT_BOUNDARY_TYPE_INCIDENT
          else if event_type \<in> {ROTATE_EVENT, FORMAT_DESCRIPTION_EVENT, HEARTBEAT_LOG_EVENT, PREVIOUS_GTIDS_LOG_EVENT,
              START_EVENT_V3, STOP_EVENT, LOAD_EVENT, SLAVE_EVENT, CREATE_FILE_EVENT, DELETE_FILE_EVENT, NEW_LOAD_EVENT,
              EXEC_LOAD_EVENT, TRANSACTION_CONTEXT_EVENT} then EVENT_BOUNDARY_TYPE_IGNORE
          else unsupported)"

section \<open>The state of the parser\<close>

datatype event_parser_state =
  EVENT_PARSER_NONE | EVENT_PARSER_GTID | EVENT_PARSER_DDL | EVENT_PARSER_DML | EVENT_PARSER_ERROR

text \<open>
  \<open>update_state\<close>: the error and the new state, which is \<open>EVENT_PARSER_NONE\<close> where the code does not set it. The
  warnings are not part of the model.
\<close>

definition update_state :: "event_boundary_type \<Rightarrow> event_parser_state \<Rightarrow> bool \<times> event_parser_state" where
  "update_state boundary_type st =
     (case boundary_type of
        EVENT_BOUNDARY_TYPE_GTID \<Rightarrow>
          (st \<in> {EVENT_PARSER_GTID, EVENT_PARSER_DDL, EVENT_PARSER_DML, EVENT_PARSER_ERROR}, EVENT_PARSER_GTID)
      | EVENT_BOUNDARY_TYPE_BEGIN_TRX \<Rightarrow>
          (st \<in> {EVENT_PARSER_DDL, EVENT_PARSER_DML, EVENT_PARSER_ERROR}, EVENT_PARSER_DML)
      | EVENT_BOUNDARY_TYPE_END_TRX \<Rightarrow>
          (st \<in> {EVENT_PARSER_NONE, EVENT_PARSER_GTID, EVENT_PARSER_DDL, EVENT_PARSER_ERROR}, EVENT_PARSER_NONE)
      | EVENT_BOUNDARY_TYPE_END_XA_TRX \<Rightarrow>
          (st \<in> {EVENT_PARSER_NONE, EVENT_PARSER_DDL, EVENT_PARSER_ERROR}, EVENT_PARSER_NONE)
      | EVENT_BOUNDARY_TYPE_STATEMENT \<Rightarrow>
          (case st of
             EVENT_PARSER_NONE \<Rightarrow> (False, EVENT_PARSER_NONE)
           | EVENT_PARSER_GTID \<Rightarrow> (False, EVENT_PARSER_NONE)
           | EVENT_PARSER_DDL \<Rightarrow> (False, EVENT_PARSER_NONE)
           | EVENT_PARSER_DML \<Rightarrow> (False, st)
           | EVENT_PARSER_ERROR \<Rightarrow> (True, EVENT_PARSER_NONE))
      | EVENT_BOUNDARY_TYPE_PRE_STATEMENT \<Rightarrow>
          (case st of
             EVENT_PARSER_NONE \<Rightarrow> (False, EVENT_PARSER_DDL)
           | EVENT_PARSER_GTID \<Rightarrow> (False, EVENT_PARSER_DDL)
           | EVENT_PARSER_DDL \<Rightarrow> (False, st)
           | EVENT_PARSER_DML \<Rightarrow> (False, st)
           | EVENT_PARSER_ERROR \<Rightarrow> (True, EVENT_PARSER_NONE))
      | EVENT_BOUNDARY_TYPE_INCIDENT \<Rightarrow> (False, EVENT_PARSER_NONE)
      | EVENT_BOUNDARY_TYPE_IGNORE \<Rightarrow> (False, st)
      | EVENT_BOUNDARY_TYPE_ERROR \<Rightarrow> (True, EVENT_PARSER_ERROR))"

definition boundary_reset :: "event_parser_state \<Rightarrow> event_parser_state" where
  "boundary_reset st = EVENT_PARSER_NONE"

definition feed_event :: "(int \<Rightarrow> byte) \<Rightarrow> 64 word \<Rightarrow> format_description \<Rightarrow> event_parser_state \<Rightarrow> bool \<times> event_parser_state" where
  "feed_event mem len fd st = update_state (get_event_boundary_type mem len fd) st"

definition is_inside_transaction :: "event_parser_state \<Rightarrow> bool" where
  "is_inside_transaction st \<longleftrightarrow> st \<noteq> EVENT_PARSER_ERROR \<and> st \<noteq> EVENT_PARSER_NONE"

definition is_not_inside_transaction :: "event_parser_state \<Rightarrow> bool" where
  "is_not_inside_transaction st \<longleftrightarrow> st = EVENT_PARSER_NONE"

definition boundary_is_error :: "event_parser_state \<Rightarrow> bool" where
  "boundary_is_error st \<longleftrightarrow> st = EVENT_PARSER_ERROR"

end
