(* ===== verification/Query_Text.thy ===== *)
theory Query_Text
  imports Trx_Boundary
begin

text \<open>
  What \<open>Query_log_event::get_query\<close> finds in a query event as it is laid out, and which boundary type the text
  of the query has.
\<close>

section \<open>The text of a query event\<close>

lemma sint_byte: "sint (b :: byte) = (if unat b < 128 then int (unat b) else int (unat b) - 256)"
proof -
  have b: "0 \<le> uint b" "uint b < 256" using uint_bounded [of b] by simp_all
  have "sint b = (uint b + 128) mod 256 - 128"
    by (simp add: sint_uint signed_take_bit_eq_take_bit_shift take_bit_eq_mod)
  moreover have "(uint b + 128) mod 256 = uint b + 128" if "uint b < 128" using b that by simp
  moreover have "(uint b + 128) mod 256 = uint b - 128" if "\<not> uint b < 128"
  proof -
    have "(uint b + 128) mod 256 = (uint b + 128 - 256) mod 256" by (simp only: minus_mod_self2)
    also have "\<dots> = (uint b - 128) mod 256" by simp
    finally show ?thesis using b that by simp
  qed
  moreover have u: "int (unat b) = uint b" by (rule uint_nat [symmetric])
  moreover have "unat b < 128 \<longleftrightarrow> uint b < 128" using of_nat_less_iff [of "unat b" 128, where ?'a = int] by simp
  ultimately show ?thesis by (cases "uint b < 128") simp_all
qed

text \<open>
  A query event: the two headers, the status variables, the name of the database with a zero behind it,
  the text of the query, and the checksum.
\<close>

definition query_event :: "(int \<Rightarrow> byte) \<Rightarrow> 64 word \<Rightarrow> format_description \<Rightarrow> nat \<Rightarrow> nat \<Rightarrow> nat \<Rightarrow> bool" where
  "query_event mem len fd status db qlen \<longleftrightarrow>
     (let chl = unat (common_header_len fd); qhl = unat (query_header_len fd) in
      qhl > 11 \<and>
      unat (mem (int chl + Q_DB_LEN_OFFSET)) = db \<and>
      unat (uint2korr [mem (int chl + Q_STATUS_VARS_LEN_OFFSET), mem (int chl + Q_STATUS_VARS_LEN_OFFSET + 1)]) = status \<and>
      unat len = chl + qhl + status + db + 1 + qlen + (if has_checksum fd then 4 else 0))"

definition query_start :: "format_description \<Rightarrow> nat \<Rightarrow> nat \<Rightarrow> int" where
  "query_start fd status db = int (unat (common_header_len fd) + unat (query_header_len fd) + status + db + 1)"

lemma uint_ucast_up: "LENGTH('a::len) \<le> LENGTH('b::len) \<Longrightarrow> uint (ucast (w :: 'a word) :: 'b word) = uint w"
  by (rule uint_up_ucast) (simp add: is_up)

lemma less_word_of_int:
  assumes "0 \<le> n" and "n < 2 ^ 32"
  shows "(len :: 64 word) < ucast (word_of_int n :: 32 word) \<longleftrightarrow> uint len < n"
proof -
  have "uint (ucast (word_of_int n :: 32 word) :: 64 word) = n" using assms by (simp add: unsigned_ucast_eq uint_word_of_int take_bit_int_eq_self)
  then show ?thesis by (simp add: word_less_def)
qed

lemma get_query_layout:
  assumes "query_event mem len fd status db qlen"
  shows "if db < 128 then get_query mem len fd = Some (query_start fd status db, qlen)
    else get_query mem len fd \<in> {None, Some (query_start fd status db - 256, qlen + 256)}"
proof -
  let ?C = "uint (common_header_len fd)" and ?Q = "uint (query_header_len fd)" and ?K = "if has_checksum fd then 4 else 0 :: int"
  let ?d = "sint (mem (?C + Q_DB_LEN_OFFSET))"
  let ?S = "uint (uint2korr [mem (?C + Q_STATUS_VARS_LEN_OFFSET), mem (?C + Q_STATUS_VARS_LEN_OFFSET + 1)])"
  have q: "unat (query_header_len fd) > 11" "unat (mem (?C + Q_DB_LEN_OFFSET)) = db" "unat (uint2korr [mem (?C + Q_STATUS_VARS_LEN_OFFSET), mem (?C + Q_STATUS_VARS_LEN_OFFSET + 1)]) = status"
    "unat len = unat (common_header_len fd) + unat (query_header_len fd) + status + db + 1 + qlen + (if has_checksum fd then 4 else 0)"
    using assms unfolding query_event_def Let_def by simp_all
  have l: "uint len = ?C + ?Q + int status + int db + 1 + int qlen + ?K" using arg_cong [OF q(4), of int] by simp
  have h: "(ucast (query_header_len fd) :: 32 word) - QUERY_HEADER_MINIMAL_LEN > 0"
  proof -
    have "uint (ucast (query_header_len fd) :: 32 word) = ?Q" by (simp add: uint_ucast_up)
    moreover have "?Q \<noteq> 11" using q(1) by (metis unat_eq_nat_uint less_irrefl nat_numeral)
    ultimately have "(ucast (query_header_len fd) :: 32 word) \<noteq> 11" by auto
    then show ?thesis by (simp add: QUERY_HEADER_MINIMAL_LEN_def word_greater_zero_iff)
  qed
  have w: "(ucast (common_header_len fd) :: 32 word) = word_of_int ?C" "(ucast (query_header_len fd) :: 32 word) = word_of_int ?Q"
    "(ucast (uint2korr [mem (?C + Q_STATUS_VARS_LEN_OFFSET), mem (?C + Q_STATUS_VARS_LEN_OFFSET + 1)]) :: 32 word) = word_of_int ?S"
    "(if has_checksum fd then 4 else 0 :: 32 word) = word_of_int ?K" by (rule ucast_eq)+ simp
  have u: "uint (ucast (common_header_len fd) :: 32 word) = ?C" "uint (ucast (query_header_len fd) :: 32 word) = ?Q"
    "uint (ucast (uint2korr [mem (?C + Q_STATUS_VARS_LEN_OFFSET), mem (?C + Q_STATUS_VARS_LEN_OFFSET + 1)]) :: 32 word) = ?S"
    "uint (if has_checksum fd then 4 else 0 :: 32 word) = ?K"
    by (simp_all add: uint_ucast_up)
  have g: "get_query mem len fd =
      (if len < ucast (word_of_int (?C + ?Q) :: 32 word) then None
       else if len < ucast (word_of_int (?C + ?Q + ?d + 1 + ?S + ?K) :: 32 word) then None
       else Some (?C + ?Q + ?d + 1 + ?S, nat (?C + (uint len - ?C) - ?K - (?C + ?Q + ?d + 1 + ?S))))"
    unfolding get_query_def Let_def u if_P [OF h] by (simp only: w of_int_add of_int_1)
  have b: "0 \<le> ?C" "?C < 256" "0 \<le> ?Q" "?Q < 256" "0 \<le> ?S" "?S < 65536"
    using uint_bounded [of "common_header_len fd"] uint_bounded [of "query_header_len fd"]
      uint_bounded [of "uint2korr [mem (?C + Q_STATUS_VARS_LEN_OFFSET), mem (?C + Q_STATUS_VARS_LEN_OFFSET + 1)]"] by simp_all
  have st: "int status = ?S" "query_start fd status db = ?C + ?Q + ?S + int db + 1"
    using arg_cong [OF q(3), of int] by (simp_all add: query_start_def)
  have "\<not> uint len < ?C + ?Q" using l by simp
  then have 1: "\<not> len < ucast (word_of_int (?C + ?Q) :: 32 word)" using less_word_of_int [of "?C + ?Q" len] b by simp
  show ?thesis
  proof (cases "db < 128")
    case True
    then have d: "?d = int db" using sint_byte q(2) by simp
    have "\<not> uint len < ?C + ?Q + ?d + 1 + ?S + ?K" using l st(1) d by simp
    then have "\<not> len < ucast (word_of_int (?C + ?Q + ?d + 1 + ?S + ?K) :: 32 word)"
      using less_word_of_int [of "?C + ?Q + ?d + 1 + ?S + ?K" len] b d True by simp
    then show ?thesis using True unfolding g if_not_P [OF 1] by (simp add: d st l)
  next
    case False
    then have d: "?d = int db - 256" using sint_byte q(2) by simp
    then show ?thesis using False unfolding g if_not_P [OF 1] by (simp add: st l nat_add_distrib)
  qed
qed

section \<open>The boundary type of a text\<close>

fun text_at :: "(int \<Rightarrow> byte) \<Rightarrow> int \<Rightarrow> byte list \<Rightarrow> bool" where
  "text_at mem p [] \<longleftrightarrow> True"
| "text_at mem p (b # bs) \<longleftrightarrow> mem p = b \<and> text_at mem (p + 1) bs"

definition begins_with :: "(byte \<Rightarrow> byte) \<Rightarrow> string \<Rightarrow> byte list \<Rightarrow> bool" where
  "begins_with conv s q \<longleftrightarrow> map conv (take (length s) q) = map (conv \<circ> of_char) s"

definition begin_of :: "byte list \<Rightarrow> string \<Rightarrow> bool" where
  "begin_of q s \<longleftrightarrow> q = map of_char (take (length q) s)"

text \<open>A comparison up to the end of the text, and one up to the end of the literal.\<close>

lemma strncmp_text: "text_at mem p q \<Longrightarrow> 0 \<notin> set q \<Longrightarrow> strncmp_same mem p s (length q) \<longleftrightarrow> begin_of q s"
proof (induction q arbitrary: p s)
  case Nil
  then show ?case by (simp add: begin_of_def)
next
  case (Cons b q)
  then show ?case by (cases s) (auto simp: begin_of_def)
qed

lemma strncmp_literal:
  "text_at mem p q \<Longrightarrow> length s \<le> length q \<or> conv (mem (p + int (length q))) \<notin> (conv \<circ> of_char) ` set s \<Longrightarrow>
   strncmp_eq conv mem p s (length s) \<longleftrightarrow> begins_with conv s q"
proof (induction s arbitrary: p q)
  case Nil
  then show ?case by (simp add: begins_with_def)
next
  case (Cons c s)
  show ?case
  proof (cases q)
    case Nil
    then show ?thesis using Cons.prems by (auto simp: begins_with_def)
  next
    case (Cons b q')
    have "p + int (length q) = p + 1 + int (length q')" using Cons by simp
    then show ?thesis using Cons.IH [of "p + 1" q'] Cons.prems Cons by (auto simp: begins_with_def add.assoc)
  qed
qed

text \<open>
  The kind of a query, by its text alone. What stands behind a short text is the checksum or the memory
  behind the event; it does not matter unless it continues one of the literals.
\<close>

definition query_kind :: "byte list \<Rightarrow> event_boundary_type" where
  "query_kind q =
     (if begin_of q ''BEGIN'' \<or> begins_with id ''XA START'' q then EVENT_BOUNDARY_TYPE_BEGIN_TRX
      else if begin_of q ''COMMIT'' \<or> begins_with tolower ''ROLLBACK'' q \<and> \<not> begins_with tolower ''ROLLBACK TO '' q then EVENT_BOUNDARY_TYPE_END_TRX
      else if begins_with tolower ''XA ROLLBACK'' q then EVENT_BOUNDARY_TYPE_END_XA_TRX
      else EVENT_BOUNDARY_TYPE_STATEMENT)"

definition not_continued :: "byte \<Rightarrow> bool" where
  "not_continued b \<longleftrightarrow> tolower b \<notin> (tolower \<circ> of_char) ` set ''XASTRTOLBCK ''"

lemma query_boundary_type_kind:
  assumes "text_at mem p q" and "0 \<notin> set q" and "12 \<le> length q \<or> not_continued (mem (p + int (length q)))"
  shows "query_boundary_type mem p (length q) = query_kind q"
proof -
  have lit: "strncmp_eq tolower mem p s n \<longleftrightarrow> begins_with tolower s q"
    if "n = length s" "n \<le> 12" "set s \<subseteq> set ''XASTRTOLBCK ''" for s n
    unfolding that(1) using assms(3) that by (intro strncmp_literal [OF assms(1)]) (auto simp: not_continued_def)
  have xa: "strncmp_same mem p s n \<longleftrightarrow> begins_with id s q"
    if "n = length s" "n \<le> 12" "set s \<subseteq> set ''XASTRTOLBCK ''" for s n
    unfolding that(1) id_def using assms(3) that by (intro strncmp_literal [OF assms(1)]) (auto simp: not_continued_def)
  have "strncmp_same mem p ''XA START'' 8 \<longleftrightarrow> begins_with id ''XA START'' q"
    "strncasecmp_same mem p ''ROLLBACK'' 8 \<longleftrightarrow> begins_with tolower ''ROLLBACK'' q"
    "strncasecmp_same mem p ''ROLLBACK TO '' 12 \<longleftrightarrow> begins_with tolower ''ROLLBACK TO '' q"
    "strncasecmp_same mem p ''XA ROLLBACK'' 11 \<longleftrightarrow> begins_with tolower ''XA ROLLBACK'' q"
    by (rule xa lit; simp)+
  then show ?thesis unfolding query_boundary_type_def query_kind_def strncmp_text [OF assms(1,2)] by (simp only:)
qed

end
