(* ===== verification/Trx_Boundary_Laws.thy ===== *)
theory Trx_Boundary_Laws
  imports Trx_Boundary
begin

text \<open>
  The transaction boundary parser against the grammar of event streams that the comments of
  \<^verbatim>\<open>sql/rpl_trx_boundary_parser.h\<close> give.
\<close>

section \<open>The grammar\<close>

text \<open>
  A transaction is a statement with what it needs before it, or a sequence of statements between its
  beginning and its end, or the rollback of an XA transaction that was prepared earlier; a GTID can come
  first. An incident ends whatever was begun.
\<close>

abbreviation "GTID \<equiv> EVENT_BOUNDARY_TYPE_GTID"
abbreviation "BEGIN_TRX \<equiv> EVENT_BOUNDARY_TYPE_BEGIN_TRX"
abbreviation "END_TRX \<equiv> EVENT_BOUNDARY_TYPE_END_TRX"
abbreviation "END_XA_TRX \<equiv> EVENT_BOUNDARY_TYPE_END_XA_TRX"
abbreviation "PRE_STATEMENT \<equiv> EVENT_BOUNDARY_TYPE_PRE_STATEMENT"
abbreviation "STATEMENT \<equiv> EVENT_BOUNDARY_TYPE_STATEMENT"
abbreviation "INCIDENT \<equiv> EVENT_BOUNDARY_TYPE_INCIDENT"
abbreviation "IGNORE \<equiv> EVENT_BOUNDARY_TYPE_IGNORE"

inductive transaction :: "event_boundary_type list \<Rightarrow> bool" where
  ddl: "gtid \<in> {[], [GTID]} \<Longrightarrow> set pre \<subseteq> {PRE_STATEMENT} \<Longrightarrow> e \<in> {STATEMENT, INCIDENT} \<Longrightarrow> transaction (gtid @ pre @ [e])"
| dml: "gtid \<in> {[], [GTID]} \<Longrightarrow> set body \<subseteq> {PRE_STATEMENT, STATEMENT} \<Longrightarrow> e \<in> {END_TRX, END_XA_TRX, INCIDENT} \<Longrightarrow>
    transaction (gtid @ [BEGIN_TRX] @ body @ [e])"
| xa: "transaction [GTID, END_XA_TRX]"

inductive transactions :: "event_boundary_type list \<Rightarrow> bool" where
  none: "transactions []"
| more: "transaction t \<Longrightarrow> transactions ts \<Longrightarrow> transactions (t @ ts)"

text \<open>A stream through the parser: whether an event was refused, and the last state.\<close>

fun feed :: "event_boundary_type list \<Rightarrow> event_parser_state \<Rightarrow> bool \<times> event_parser_state" where
  "feed [] st = (False, st)"
| "feed (b # bs) st = (let (e, st1) = update_state b st; (e2, st2) = feed bs st1 in (e \<or> e2, st2))"

lemma update_state_simps [simp]:
  "update_state GTID st = (st \<noteq> EVENT_PARSER_NONE, EVENT_PARSER_GTID)"
  "update_state BEGIN_TRX st = (st \<in> {EVENT_PARSER_DDL, EVENT_PARSER_DML, EVENT_PARSER_ERROR}, EVENT_PARSER_DML)"
  "update_state END_TRX st = (st \<noteq> EVENT_PARSER_DML, EVENT_PARSER_NONE)"
  "update_state END_XA_TRX st = (st \<in> {EVENT_PARSER_NONE, EVENT_PARSER_DDL, EVENT_PARSER_ERROR}, EVENT_PARSER_NONE)"
  "update_state STATEMENT st = (st = EVENT_PARSER_ERROR, if st = EVENT_PARSER_DML then st else EVENT_PARSER_NONE)"
  "update_state PRE_STATEMENT st = (st = EVENT_PARSER_ERROR,
     if st = EVENT_PARSER_ERROR then EVENT_PARSER_NONE else if st = EVENT_PARSER_DML then st else EVENT_PARSER_DDL)"
  "update_state INCIDENT st = (False, EVENT_PARSER_NONE)"
  "update_state IGNORE st = (False, st)"
  "update_state EVENT_BOUNDARY_TYPE_ERROR st = (True, EVENT_PARSER_ERROR)"
  by (cases st; simp add: update_state_def)+

lemma feed_append: "feed (as @ bs) st = (let (e, st1) = feed as st; (e2, st2) = feed bs st1 in (e \<or> e2, st2))"
  by (induction as arbitrary: st) (auto simp: Let_def split: prod.splits)

lemma feed_ignore: "feed (filter (\<lambda>b. b \<noteq> IGNORE) bs) st = feed bs st"
proof (induction bs arbitrary: st)
  case (Cons b bs)
  then show ?case by (cases "b = IGNORE") (auto simp: Let_def split: prod.splits)
qed simp

subsection \<open>Transactions are accepted\<close>

lemma feed_pre: "set pre \<subseteq> {PRE_STATEMENT} \<Longrightarrow> st \<in> {EVENT_PARSER_NONE, EVENT_PARSER_GTID, EVENT_PARSER_DDL} \<Longrightarrow>
    feed pre st = (False, if pre = [] then st else EVENT_PARSER_DDL)"
  by (induction pre arbitrary: st) auto

lemma feed_body: "set body \<subseteq> {PRE_STATEMENT, STATEMENT} \<Longrightarrow> feed body EVENT_PARSER_DML = (False, EVENT_PARSER_DML)"
  by (induction body) auto

lemma feed_gtid: "gtid \<in> {[], [GTID]} \<Longrightarrow> \<exists>st. feed gtid EVENT_PARSER_NONE = (False, st) \<and> st \<in> {EVENT_PARSER_NONE, EVENT_PARSER_GTID}"
  by auto

lemma transaction_accepted: "transaction t \<Longrightarrow> feed t EVENT_PARSER_NONE = (False, EVENT_PARSER_NONE)"
proof (induction t rule: transaction.induct)
  case (ddl gtid pre e)
  obtain st where st: "feed gtid EVENT_PARSER_NONE = (False, st)" "st \<in> {EVENT_PARSER_NONE, EVENT_PARSER_GTID}"
    using feed_gtid [OF ddl.hyps(1)] by blast
  obtain st1 where st1: "feed pre st = (False, st1)" "st1 \<in> {EVENT_PARSER_NONE, EVENT_PARSER_GTID, EVENT_PARSER_DDL}"
    using feed_pre [OF ddl.hyps(2), of st] st(2) by (cases "pre = []") auto
  have "feed [e] st1 = (False, EVENT_PARSER_NONE)" using ddl.hyps(3) st1(2) by auto
  then show ?case unfolding feed_append st(1) Let_def prod.case st1(1) by simp
next
  case (dml gtid body e)
  obtain st where st: "feed gtid EVENT_PARSER_NONE = (False, st)" "st \<in> {EVENT_PARSER_NONE, EVENT_PARSER_GTID}"
    using feed_gtid [OF dml.hyps(1)] by blast
  have "feed [BEGIN_TRX] st = (False, EVENT_PARSER_DML)" using st(2) by auto
  moreover have "feed [e] EVENT_PARSER_DML = (False, EVENT_PARSER_NONE)" using dml.hyps(3) by auto
  ultimately show ?case using feed_body [OF dml.hyps(2)] unfolding feed_append st(1) Let_def prod.case by simp
next
  case xa
  then show ?case by simp
qed

lemma transactions_accepted: "transactions ts \<Longrightarrow> feed ts EVENT_PARSER_NONE = (False, EVENT_PARSER_NONE)"
  by (induction ts rule: transactions.induct) (simp_all add: feed_append transaction_accepted)

subsection \<open>Nothing else is accepted\<close>

text \<open>What was read of a transaction in each state.\<close>

definition begun :: "event_parser_state \<Rightarrow> event_boundary_type list \<Rightarrow> bool" where
  "begun st p \<longleftrightarrow>
     (case st of
        EVENT_PARSER_NONE \<Rightarrow> p = []
      | EVENT_PARSER_GTID \<Rightarrow> p = [GTID]
      | EVENT_PARSER_DDL \<Rightarrow> (\<exists>gtid pre. gtid \<in> {[], [GTID]} \<and> set pre \<subseteq> {PRE_STATEMENT} \<and> p = gtid @ pre)
      | EVENT_PARSER_DML \<Rightarrow> (\<exists>gtid body. gtid \<in> {[], [GTID]} \<and> set body \<subseteq> {PRE_STATEMENT, STATEMENT} \<and> p = gtid @ [BEGIN_TRX] @ body)
      | EVENT_PARSER_ERROR \<Rightarrow> False)"

text \<open>One event either goes on with the transaction or ends it.\<close>

lemma begun_step:
  assumes "begun st p" and "update_state b st = (False, st1)" and "b \<noteq> IGNORE"
  shows "begun st1 (p @ [b]) \<or> st1 = EVENT_PARSER_NONE \<and> transaction (p @ [b])"
proof (cases st)
  case EVENT_PARSER_NONE
  have "transaction ([] @ [] @ [e])" if "e \<in> {STATEMENT, INCIDENT}" for e using that by (intro ddl) auto
  then show ?thesis using assms EVENT_PARSER_NONE by (cases b) (auto simp: begun_def)
next
  case EVENT_PARSER_GTID
  have "transaction ([GTID] @ [] @ [e])" if "e \<in> {STATEMENT, INCIDENT}" for e using that by (intro ddl) auto
  moreover have "\<exists>gtid pre. gtid \<in> {[], [GTID]} \<and> set pre \<subseteq> {PRE_STATEMENT} \<and> [GTID, PRE_STATEMENT] = gtid @ pre"
    by (rule exI [of _ "[GTID]"]) auto
  moreover have "\<exists>gtid body. gtid \<in> {[], [GTID]} \<and> set body \<subseteq> {PRE_STATEMENT, STATEMENT} \<and> [GTID, BEGIN_TRX] = gtid @ [BEGIN_TRX] @ body"
    by (rule exI [of _ "[GTID]"]) auto
  ultimately show ?thesis using assms EVENT_PARSER_GTID xa by (cases b) (auto simp: begun_def)
next
  case EVENT_PARSER_DDL
  then obtain gtid pre where p: "gtid \<in> {[], [GTID]}" "set pre \<subseteq> {PRE_STATEMENT}" "p = gtid @ pre"
    using assms(1) by (auto simp: begun_def)
  have "transaction (p @ [e])" if "e \<in> {STATEMENT, INCIDENT}" for e using ddl [OF p(1,2) that] p(3) by simp
  moreover have "begun EVENT_PARSER_DDL (p @ [PRE_STATEMENT])" unfolding begun_def event_parser_state.case
    by (rule exI [of _ gtid], rule exI [of _ "pre @ [PRE_STATEMENT]"]) (use p in auto)
  ultimately show ?thesis using assms(2,3) EVENT_PARSER_DDL by (cases b) auto
next
  case EVENT_PARSER_DML
  then obtain gtid body where p: "gtid \<in> {[], [GTID]}" "set body \<subseteq> {PRE_STATEMENT, STATEMENT}" "p = gtid @ [BEGIN_TRX] @ body"
    using assms(1) by (auto simp: begun_def)
  have "transaction (p @ [e])" if "e \<in> {END_TRX, END_XA_TRX, INCIDENT}" for e using dml [OF p(1,2) that] p(3) by simp
  moreover have "begun EVENT_PARSER_DML (p @ [b])" if "b \<in> {PRE_STATEMENT, STATEMENT}" for b unfolding begun_def event_parser_state.case
    by (rule exI [of _ gtid], rule exI [of _ "body @ [b]"]) (use p that in auto)
  ultimately show ?thesis using assms(2,3) EVENT_PARSER_DML by (cases b) auto
next
  case EVENT_PARSER_ERROR
  then show ?thesis using assms(1) by (simp add: begun_def)
qed

lemma accepted_transactions:
  assumes "feed bs st = (False, EVENT_PARSER_NONE)" and "begun st p" and "IGNORE \<notin> set bs"
  shows "transactions (p @ bs)"
  using assms
proof (induction bs arbitrary: st p)
  case Nil
  then show ?case using transactions.none by (simp add: begun_def)
next
  case (Cons b bs)
  obtain st1 where u: "update_state b st = (False, st1)" "feed bs st1 = (False, EVENT_PARSER_NONE)"
    using Cons.prems(1) by (auto simp: Let_def split: prod.splits)
  from begun_step [OF Cons.prems(2) u(1)] Cons.prems(3) consider
    "begun st1 (p @ [b])" | "st1 = EVENT_PARSER_NONE" "transaction (p @ [b])" by auto
  then show ?case
  proof cases
    case 1
    then show ?thesis using Cons.IH [OF u(2) 1] Cons.prems(3) by simp
  next
    case 2
    have "transactions ([] @ bs)" by (rule Cons.IH [OF u(2)]) (use 2 Cons.prems(3) in \<open>auto simp: begun_def\<close>)
    then show ?thesis using transactions.more [OF 2(2)] by simp
  qed
qed

lemma feed_grammar: "feed bs EVENT_PARSER_NONE = (False, EVENT_PARSER_NONE) \<longleftrightarrow> transactions (filter (\<lambda>b. b \<noteq> IGNORE) bs)"
proof
  assume "feed bs EVENT_PARSER_NONE = (False, EVENT_PARSER_NONE)"
  then have "transactions ([] @ filter (\<lambda>b. b \<noteq> IGNORE) bs)"
    by (intro accepted_transactions) (auto simp: feed_ignore begun_def)
  then show "transactions (filter (\<lambda>b. b \<noteq> IGNORE) bs)" by simp
next
  assume "transactions (filter (\<lambda>b. b \<noteq> IGNORE) bs)"
  then show "feed bs EVENT_PARSER_NONE = (False, EVENT_PARSER_NONE)" using transactions_accepted feed_ignore by metis
qed

text \<open>From any state, the next transaction with a GTID brings the parser back.\<close>

lemma feed_resync: "transaction (GTID # t) \<Longrightarrow> feed (GTID # t) st = (st \<noteq> EVENT_PARSER_NONE, EVENT_PARSER_NONE)"
proof -
  assume "transaction (GTID # t)"
  from transaction_accepted [OF this] have "feed t EVENT_PARSER_GTID = (False, EVENT_PARSER_NONE)"
    by (auto simp: Let_def split: prod.splits)
  then show ?thesis by (cases st) (auto simp: Let_def)
qed

end
