(* ===== verification/Trx_Tracking.thy ===== *)
theory Trx_Tracking
  imports Prelude "HOL-Library.AList"
begin

text \<open>
  The logical timestamps of \<^verbatim>\<open>sql/rpl_trx_tracking.cc\<close>, with which a replica applies transactions in parallel:
  the clocks, the three trackers of dependencies, and the places of \<^verbatim>\<open>sql/binlog.cc\<close> that use them when a
  transaction is prepared, written to the binary log and committed.
\<close>

section \<open>Logical clocks\<close>

definition SEQ_UNINIT :: int where "SEQ_UNINIT = 0"

record logical_clock =
  clk_state :: int
  clk_offset :: int

definition Logical_clock :: logical_clock where
  "Logical_clock = \<lparr>clk_state = SEQ_UNINIT, clk_offset = 0\<rparr>"

definition clock_step :: "logical_clock \<Rightarrow> int \<times> logical_clock" where
  "clock_step c = (clk_state c + 1, c\<lparr>clk_state := clk_state c + 1\<rparr>)"

text \<open>
  The loop of compare-and-swap, which fails when the state is not \<open>old_val\<close> and then puts the state into
  \<open>old_val\<close>. The callers hold a mutex, so nobody else changes the state.
\<close>

function cas_loop :: "int \<Rightarrow> int \<Rightarrow> logical_clock \<Rightarrow> int \<times> logical_clock" where
  "cas_loop old_val new_val c =
     (if clk_state c = old_val then (new_val, c\<lparr>clk_state := new_val\<rparr>)
      else if clk_state c < new_val then cas_loop (clk_state c) new_val c
      else (clk_state c, c))"
  by pat_completeness auto
termination
  by (relation "measure (\<lambda>(old_val, new_val, c). if clk_state c = old_val then 0 else 1)") auto

declare cas_loop.simps [simp del]

definition set_if_greater :: "int \<Rightarrow> logical_clock \<Rightarrow> int \<times> logical_clock" where
  "set_if_greater new_val c =
     (let old_val = new_val - 1 in
      if new_val \<le> clk_offset c then (SEQ_UNINIT, c) else cas_loop old_val new_val c)"

definition update_offset :: "int \<Rightarrow> logical_clock \<Rightarrow> logical_clock" where
  "update_offset new_offset c = c\<lparr>clk_offset := new_offset\<rparr>"

section \<open>The trackers\<close>

text \<open>
  What the trackers use of a session: the timestamps of its transaction, the hashes of the rows that it
  writes (a sorted set), what is known about these hashes, the algorithm that computed them, and the last
  timestamp of the session.
\<close>

record trx_ctx =
  trx_sequence_number :: int
  trx_last_committed :: int
  write_set :: "64 word list"
  has_missing_keys :: bool
  has_related_foreign_keys :: bool
  write_set_limit_reached :: bool
  is_empty_transaction :: bool
  write_set_extraction :: nat
  last_session_sequence_number :: int

datatype tracking_mode =
  DEPENDENCY_TRACKING_COMMIT_ORDER | DEPENDENCY_TRACKING_WRITESET | DEPENDENCY_TRACKING_WRITESET_SESSION

record dependency_tracker =
  m_opt_tracking_mode :: tracking_mode
  m_max_committed_transaction :: logical_clock
  m_transaction_counter :: logical_clock
  m_opt_max_history_size :: nat
  m_writeset_history_start :: int
  m_writeset_history :: "(64 word \<times> int) list"
  global_write_set_extraction :: nat

definition Transaction_dependency_tracker :: dependency_tracker where
  "Transaction_dependency_tracker =
     \<lparr>m_opt_tracking_mode = DEPENDENCY_TRACKING_COMMIT_ORDER, m_max_committed_transaction = Logical_clock,
      m_transaction_counter = Logical_clock, m_opt_max_history_size = 25000, m_writeset_history_start = 0,
      m_writeset_history = [], global_write_set_extraction = 0\<rparr>"

subsection \<open>The commit order\<close>

definition commit_order_dependency :: "trx_ctx \<Rightarrow> dependency_tracker \<Rightarrow> int \<times> int" where
  "commit_order_dependency thd tr =
     (let off = clk_offset (m_max_committed_transaction tr) in
      (trx_sequence_number thd - off,
       if trx_last_committed thd \<le> off then SEQ_UNINIT else trx_last_committed thd - off))"

subsection \<open>The sets of written rows\<close>

definition can_use_writesets :: "trx_ctx \<Rightarrow> dependency_tracker \<Rightarrow> bool" where
  "can_use_writesets thd tr \<longleftrightarrow>
     (length (write_set thd) \<noteq> 0 \<or> has_missing_keys thd \<or> is_empty_transaction thd) \<and>
     global_write_set_extraction tr = write_set_extraction thd \<and>
     \<not> has_related_foreign_keys thd \<and>
     \<not> write_set_limit_reached thd"

text \<open>The loop over the hashes of the transaction: the greatest timestamp of a conflict and the new history.\<close>

fun writeset_loop :: "int \<Rightarrow> bool \<Rightarrow> 64 word list \<Rightarrow> int \<Rightarrow> (64 word \<times> int) list \<Rightarrow> int \<times> (64 word \<times> int) list" where
  "writeset_loop seq exceeds_capacity [] last_parent hist = (last_parent, hist)"
| "writeset_loop seq exceeds_capacity (it # ws) last_parent hist =
     (case map_of hist it of
        Some hst \<Rightarrow> writeset_loop seq exceeds_capacity ws (if hst > last_parent \<and> hst < seq then hst else last_parent) (AList.update it seq hist)
      | None \<Rightarrow> writeset_loop seq exceeds_capacity ws last_parent (if exceeds_capacity then hist else AList.update it seq hist))"

definition writeset_dependency :: "trx_ctx \<Rightarrow> int \<times> int \<Rightarrow> dependency_tracker \<Rightarrow> (int \<times> int) \<times> dependency_tracker" where
  "writeset_dependency thd stamps tr =
     (let (seq, commit_parent) = stamps;
          can_use = can_use_writesets thd tr;
          exceeds_capacity = (can_use \<and> length (m_writeset_history tr) + length (write_set thd) > m_opt_max_history_size tr);
          (last_parent, hist) = (if can_use
            then writeset_loop seq exceeds_capacity (write_set thd) (m_writeset_history_start tr) (m_writeset_history tr)
            else (0, m_writeset_history tr));
          commit_parent1 = (if can_use \<and> \<not> has_missing_keys thd then min last_parent commit_parent else commit_parent);
          tr1 = tr\<lparr>m_writeset_history := hist\<rparr> in
      ((seq, commit_parent1),
       if exceeds_capacity \<or> \<not> can_use then tr1\<lparr>m_writeset_history_start := seq, m_writeset_history := []\<rparr> else tr1))"

definition writeset_rotate :: "int \<Rightarrow> dependency_tracker \<Rightarrow> dependency_tracker" where
  "writeset_rotate start tr = tr\<lparr>m_writeset_history_start := start, m_writeset_history := []\<rparr>"

subsection \<open>The sessions\<close>

definition session_dependency :: "int \<times> int \<Rightarrow> trx_ctx \<Rightarrow> (int \<times> int) \<times> trx_ctx" where
  "session_dependency stamps thd =
     (let (seq, commit_parent) = stamps; session_parent = last_session_sequence_number thd in
      ((seq, if session_parent \<noteq> 0 \<and> session_parent < seq then max commit_parent session_parent else commit_parent),
       thd\<lparr>last_session_sequence_number := seq\<rparr>))"

subsection \<open>All of them\<close>

definition get_dependency :: "trx_ctx \<Rightarrow> dependency_tracker \<Rightarrow> (int \<times> int) \<times> trx_ctx \<times> dependency_tracker" where
  "get_dependency thd tr =
     (case m_opt_tracking_mode tr of
        DEPENDENCY_TRACKING_COMMIT_ORDER \<Rightarrow> (commit_order_dependency thd tr, thd, tr)
      | DEPENDENCY_TRACKING_WRITESET \<Rightarrow>
          (let (stamps, tr1) = writeset_dependency thd (commit_order_dependency thd tr) tr in (stamps, thd, tr1))
      | DEPENDENCY_TRACKING_WRITESET_SESSION \<Rightarrow>
          (let (stamps, tr1) = writeset_dependency thd (commit_order_dependency thd tr) tr;
               (stamps2, thd1) = session_dependency stamps thd in (stamps2, thd1, tr1)))"

definition tracking_mode_changed :: "dependency_tracker \<Rightarrow> dependency_tracker" where
  "tracking_mode_changed tr =
     (let c = m_max_committed_transaction tr in writeset_rotate (clk_state c - clk_offset c) tr)"

definition update_max_committed :: "trx_ctx \<Rightarrow> dependency_tracker \<Rightarrow> trx_ctx \<times> dependency_tracker" where
  "update_max_committed thd tr =
     (thd\<lparr>trx_sequence_number := SEQ_UNINIT\<rparr>,
      tr\<lparr>m_max_committed_transaction := snd (set_if_greater (trx_sequence_number thd) (m_max_committed_transaction tr))\<rparr>)"

definition tracker_step :: "dependency_tracker \<Rightarrow> int \<times> dependency_tracker" where
  "tracker_step tr = (let (n, c) = clock_step (m_transaction_counter tr) in (n, tr\<lparr>m_transaction_counter := c\<rparr>))"

definition commit_order_rotate :: "dependency_tracker \<Rightarrow> dependency_tracker" where
  "commit_order_rotate tr =
     (let now = clk_state (m_transaction_counter tr) in
      tr\<lparr>m_max_committed_transaction := update_offset now (m_max_committed_transaction tr),
         m_transaction_counter := update_offset now (m_transaction_counter tr)\<rparr>)"

definition tracker_rotate :: "trx_ctx option \<Rightarrow> dependency_tracker \<Rightarrow> trx_ctx option \<times> dependency_tracker" where
  "tracker_rotate current_thd tr =
     (map_option (trx_sequence_number_update (\<lambda>_. 2)) current_thd, writeset_rotate 1 (commit_order_rotate tr))"

definition get_max_committed_timestamp :: "dependency_tracker \<Rightarrow> int" where
  "get_max_committed_timestamp tr = clk_state (m_max_committed_transaction tr)"

section \<open>The binary log\<close>

text \<open>
  Preparing a transaction, writing its GTID event, and committing it. An error before the event is written
  leaves the session with its timestamp.
\<close>

definition binlog_prepare :: "trx_ctx \<Rightarrow> dependency_tracker \<Rightarrow> trx_ctx" where
  "binlog_prepare thd tr = thd\<lparr>trx_last_committed := get_max_committed_timestamp tr\<rparr>"

definition write_gtid :: "trx_ctx \<Rightarrow> dependency_tracker \<Rightarrow> (int \<times> int) \<times> trx_ctx \<times> dependency_tracker" where
  "write_gtid thd tr =
     (let (stamps, thd1, tr1) = get_dependency thd tr in (stamps, thd1\<lparr>trx_last_committed := SEQ_UNINIT\<rparr>, tr1))"

definition cache_flush :: "bool \<Rightarrow> trx_ctx \<Rightarrow> dependency_tracker \<Rightarrow> (int \<times> int) option \<times> trx_ctx \<times> dependency_tracker" where
  "cache_flush error thd tr =
     (let (n, tr1) = tracker_step tr;
          thd1 = thd\<lparr>trx_sequence_number := n\<rparr>;
          thd2 = (if trx_last_committed thd1 = SEQ_UNINIT then thd1\<lparr>trx_last_committed := n - 1\<rparr> else thd1) in
      if error then (None, thd2, tr1)
      else (let (stamps, thd3, tr3) = write_gtid thd2 tr1 in (Some stamps, thd3, tr3)))"

definition finish_commit :: "trx_ctx \<Rightarrow> dependency_tracker \<Rightarrow> trx_ctx \<times> dependency_tracker" where
  "finish_commit thd tr = (if trx_sequence_number thd \<noteq> SEQ_UNINIT then update_max_committed thd tr else (thd, tr))"

definition update_dependency_tracking :: "tracking_mode \<Rightarrow> dependency_tracker \<Rightarrow> dependency_tracker" where
  "update_dependency_tracking mode tr = tracking_mode_changed (tr\<lparr>m_opt_tracking_mode := mode\<rparr>)"

definition update_history_size :: "nat \<Rightarrow> dependency_tracker \<Rightarrow> dependency_tracker" where
  "update_history_size n tr = tr\<lparr>m_opt_max_history_size := n\<rparr>"

end
