(* ===== verification/Trx_Tracking_Laws.thy ===== *)
theory Trx_Tracking_Laws
  imports Trx_Tracking
begin

text \<open>
  The sessions of a source server as a transition system over the trackers of \<open>Trx_Tracking\<close>, with the
  timestamps written to the current binary log, and its invariant: which dependencies a timestamp keeps.
\<close>

section \<open>The clocks\<close>

lemma cas_loop_laws: "cas_loop old_val new_val c = (if clk_state c = old_val then new_val else max (clk_state c) new_val,
    c\<lparr>clk_state := if clk_state c = old_val then new_val else max (clk_state c) new_val\<rparr>)"
  by (subst cas_loop.simps) (auto simp: cas_loop.simps)

lemma set_if_greater_max:
  "set_if_greater n c = (if n \<le> clk_offset c then (0, c) else (max (clk_state c) n, c\<lparr>clk_state := max (clk_state c) n\<rparr>))"
  by (auto simp: set_if_greater_def SEQ_UNINIT_def Let_def cas_loop_laws)

section \<open>The loop over the hashes\<close>

lemma map_of_update: "map_of (AList.update k v xs) = (map_of xs)(k \<mapsto> v)"
  by (rule update_conv')

text \<open>The parent is the greatest of the start and of the timestamps of the conflicts.\<close>

lemma writeset_loop_start: "p \<le> fst (writeset_loop seq ex ws p hist)"
proof (induction ws arbitrary: p hist)
  case (Cons it ws)
  show ?case
  proof (cases "map_of hist it")
    case None
    then show ?thesis using Cons.IH by simp
  next
    case (Some hst)
    let ?p = "if hst > p \<and> hst < seq then hst else p"
    have "p \<le> ?p" by simp
    also have "?p \<le> fst (writeset_loop seq ex ws ?p (AList.update it seq hist))" by (rule Cons.IH)
    finally show ?thesis using Some by simp
  qed
qed simp

lemma writeset_loop_conflict:
  "h \<in> set ws \<Longrightarrow> map_of hist h = Some v \<Longrightarrow> v < seq \<Longrightarrow> v \<le> fst (writeset_loop seq ex ws p hist)"
proof (induction ws arbitrary: p hist)
  case (Cons it ws)
  let ?p = "case map_of hist it of None \<Rightarrow> p | Some hst \<Rightarrow> if hst > p \<and> hst < seq then hst else p"
  let ?hist = "if ex \<and> map_of hist it = None then hist else AList.update it seq hist"
  have step: "writeset_loop seq ex (it # ws) p hist = writeset_loop seq ex ws ?p ?hist" by (cases "map_of hist it") auto
  show ?case
  proof (cases "h = it")
    case True
    then have "v \<le> ?p" using Cons.prems by simp
    also have "?p \<le> fst (writeset_loop seq ex ws ?p ?hist)" by (rule writeset_loop_start)
    finally show ?thesis unfolding step .
  next
    case False
    then have "map_of ?hist h = Some v" using Cons.prems(2) by (simp add: map_of_update)
    then show ?thesis unfolding step using Cons.IH False Cons.prems by simp
  qed
qed simp

lemma writeset_loop_source:
  "fst (writeset_loop seq ex ws p hist) = p \<or>
   (\<exists>h \<in> set ws. map_of hist h = Some (fst (writeset_loop seq ex ws p hist)) \<and> fst (writeset_loop seq ex ws p hist) < seq)"
proof (induction ws arbitrary: p hist)
  case (Cons it ws)
  let ?p = "case map_of hist it of None \<Rightarrow> p | Some hst \<Rightarrow> if hst > p \<and> hst < seq then hst else p"
  let ?hist = "if ex \<and> map_of hist it = None then hist else AList.update it seq hist"
  have step: "writeset_loop seq ex (it # ws) p hist = writeset_loop seq ex ws ?p ?hist" by (cases "map_of hist it") auto
  let ?r = "fst (writeset_loop seq ex ws ?p ?hist)"
  have p: "?p = p \<or> map_of hist it = Some ?p \<and> ?p < seq" by (cases "map_of hist it") auto
  have h: "map_of hist h = Some v" if "map_of ?hist h = Some v" "v < seq" for h v
    using that by (simp add: map_of_update split: if_splits)
  from Cons.IH [of ?p ?hist] consider "?r = ?p" | h where "h \<in> set ws" "map_of ?hist h = Some ?r" "?r < seq" by blast
  then show ?case
  proof cases
    case 1
    then show ?thesis unfolding step 1 using p by auto
  next
    case 2
    then show ?thesis unfolding step using h [OF 2(2,3)] by auto
  qed
qed simp

text \<open>The history of a transaction that fits holds its timestamp for all its hashes.\<close>

lemma writeset_loop_history:
  "map_of (snd (writeset_loop seq False ws p hist)) h = (if h \<in> set ws then Some seq else map_of hist h)"
proof (induction ws arbitrary: p hist)
  case (Cons it ws)
  then show ?case by (cases "map_of hist it") (auto simp: map_of_update)
qed simp

section \<open>The source as a transition system\<close>

text \<open>
  An entry of the current binary log, with the parent that the commit order gives, whether the hashes of
  the transaction can be used, and the session and the mode it was written in.
\<close>

record log_entry =
  le_seq :: int
  le_order :: int
  le_parent :: int
  le_session :: nat
  le_ctx :: trx_ctx
  le_usable :: bool
  le_mode :: tracking_mode

record source =
  src_tracker :: dependency_tracker
  src_sessions :: "nat \<Rightarrow> trx_ctx"
  src_flushed :: "nat set"
  src_log :: "log_entry list"

definition new_entry :: "nat \<Rightarrow> trx_ctx \<Rightarrow> int \<times> int \<Rightarrow> dependency_tracker \<Rightarrow> log_entry" where
  "new_entry s thd stamps tr =
     (let n = clk_state (m_transaction_counter tr);
          thd2 = thd\<lparr>trx_sequence_number := n + 1, trx_last_committed := if trx_last_committed thd = 0 then n else trx_last_committed thd\<rparr> in
      \<lparr>le_seq = fst stamps, le_order = snd (commit_order_dependency thd2 tr), le_parent = snd stamps, le_session = s, le_ctx = thd,
       le_usable = can_use_writesets thd tr, le_mode = m_opt_tracking_mode tr\<rparr>)"

text \<open>
  The operations of the sessions. A session commits after it was written to the log, and it does not
  rotate the log in between. The mode changes while no transaction is between the log and its commit.
\<close>

definition quiet :: "dependency_tracker \<Rightarrow> bool" where
  "quiet tr \<longleftrightarrow> clk_state (m_max_committed_transaction tr) = clk_state (m_transaction_counter tr)"

inductive source_step :: "source \<Rightarrow> source \<Rightarrow> bool" where
  execute: "trx_sequence_number thd = trx_sequence_number (src_sessions y s) \<Longrightarrow> trx_last_committed thd = trx_last_committed (src_sessions y s) \<Longrightarrow>
    last_session_sequence_number thd = last_session_sequence_number (src_sessions y s) \<Longrightarrow>
    source_step y (y\<lparr>src_sessions := (src_sessions y)(s := thd)\<rparr>)"
| prepare: "source_step y (y\<lparr>src_sessions := (src_sessions y)(s := binlog_prepare (src_sessions y s) (src_tracker y))\<rparr>)"
| log_write: "cache_flush False (src_sessions y s) (src_tracker y) = (Some stamps, thd, tr) \<Longrightarrow>
    source_step y (y\<lparr>src_tracker := tr, src_sessions := (src_sessions y)(s := thd), src_flushed := insert s (src_flushed y),
      src_log := src_log y @ [new_entry s (src_sessions y s) stamps (src_tracker y)]\<rparr>)"
| log_error: "cache_flush True (src_sessions y s) (src_tracker y) = (None, thd, tr) \<Longrightarrow>
    source_step y (y\<lparr>src_tracker := tr, src_sessions := (src_sessions y)(s := thd), src_flushed := insert s (src_flushed y)\<rparr>)"
| commit: "s \<in> src_flushed y \<Longrightarrow> finish_commit (src_sessions y s) (src_tracker y) = (thd, tr) \<Longrightarrow>
    source_step y (y\<lparr>src_tracker := tr, src_sessions := (src_sessions y)(s := thd), src_flushed := src_flushed y - {s}\<rparr>)"
| rotate: "s \<notin> src_flushed y \<Longrightarrow> tracker_rotate (Some (src_sessions y s)) (src_tracker y) = (Some thd, tr) \<Longrightarrow>
    source_step y (y\<lparr>src_tracker := tr, src_sessions := (src_sessions y)(s := thd), src_log := []\<rparr>)"
| rotate_server: "tracker_rotate None (src_tracker y) = (None, tr) \<Longrightarrow> source_step y (y\<lparr>src_tracker := tr, src_log := []\<rparr>)"
| change_mode: "quiet (src_tracker y) \<Longrightarrow> source_step y (y\<lparr>src_tracker := update_dependency_tracking mode (src_tracker y)\<rparr>)"
| change_size: "source_step y (y\<lparr>src_tracker := update_history_size n (src_tracker y)\<rparr>)"
| change_extraction: "m_opt_tracking_mode (src_tracker y) = DEPENDENCY_TRACKING_COMMIT_ORDER \<Longrightarrow>
    source_step y (y\<lparr>src_tracker := (src_tracker y)\<lparr>global_write_set_extraction := n\<rparr>\<rparr>)"

definition new_session :: "trx_ctx \<Rightarrow> bool" where
  "new_session thd \<longleftrightarrow> trx_sequence_number thd = 0 \<and> trx_last_committed thd = 0 \<and> last_session_sequence_number thd = 0"

definition source_start :: "source \<Rightarrow> bool" where
  "source_start y \<longleftrightarrow>
     (\<exists>mode n alg. src_tracker y = Transaction_dependency_tracker\<lparr>m_opt_tracking_mode := mode, m_opt_max_history_size := n,
        global_write_set_extraction := alg\<rparr>) \<and>
     (\<forall>s. new_session (src_sessions y s)) \<and> src_flushed y = {} \<and> src_log y = []"

abbreviation source_run :: "source \<Rightarrow> source \<Rightarrow> bool" where
  "source_run \<equiv> source_step\<^sup>*\<^sup>*"

section \<open>The invariant\<close>

definition now :: "dependency_tracker \<Rightarrow> int" where
  "now tr = clk_state (m_transaction_counter tr) - clk_offset (m_transaction_counter tr)"

definition clocks_ok :: "dependency_tracker \<Rightarrow> bool" where
  "clocks_ok tr \<longleftrightarrow>
     clk_offset (m_max_committed_transaction tr) = clk_offset (m_transaction_counter tr) \<and>
     0 \<le> clk_offset (m_transaction_counter tr) \<and> clk_offset (m_transaction_counter tr) \<le> clk_state (m_transaction_counter tr) \<and>
     0 \<le> clk_state (m_max_committed_transaction tr) \<and> clk_state (m_max_committed_transaction tr) \<le> clk_state (m_transaction_counter tr)"

definition trx_ok :: "dependency_tracker \<Rightarrow> bool \<Rightarrow> trx_ctx \<Rightarrow> bool" where
  "trx_ok tr fl thd \<longleftrightarrow>
     0 \<le> trx_last_committed thd \<and> trx_last_committed thd \<le> clk_state (m_transaction_counter tr) \<and>
     (fl \<longrightarrow> trx_sequence_number thd \<le> clk_state (m_transaction_counter tr))"

text \<open>An entry is covered when a later conflict with it is found: by its hashes in the history, or by the start.\<close>

definition covered :: "dependency_tracker \<Rightarrow> log_entry \<Rightarrow> bool" where
  "covered tr e \<longleftrightarrow>
     le_seq e \<le> m_writeset_history_start tr \<or>
     le_usable e \<and> (\<forall>h \<in> set (write_set (le_ctx e)). \<exists>v. map_of (m_writeset_history tr) h = Some v \<and> le_seq e \<le> v)"

definition history_ok :: "dependency_tracker \<Rightarrow> log_entry list \<Rightarrow> bool" where
  "history_ok tr log \<longleftrightarrow>
     (m_opt_tracking_mode tr \<noteq> DEPENDENCY_TRACKING_COMMIT_ORDER \<longrightarrow>
        (\<forall>e \<in> set log. covered tr e) \<and> (\<forall>h v. map_of (m_writeset_history tr) h = Some v \<longrightarrow> v \<le> now tr))"

definition stamps_ok :: "dependency_tracker \<Rightarrow> log_entry \<Rightarrow> bool" where
  "stamps_ok tr e \<longleftrightarrow> 0 < le_seq e \<and> le_seq e \<le> now tr \<and> 0 \<le> le_order e \<and> le_order e < le_seq e \<and> le_parent e < le_seq e"

text \<open>Two transactions conflict if their hashes say so or cannot be used.\<close>

definition conflicts :: "log_entry \<Rightarrow> log_entry \<Rightarrow> bool" where
  "conflicts e e' \<longleftrightarrow>
     \<not> le_usable e \<or> \<not> le_usable e' \<or> has_missing_keys (le_ctx e') \<or>
     set (write_set (le_ctx e)) \<inter> set (write_set (le_ctx e')) \<noteq> {}"

definition same_session :: "log_entry \<Rightarrow> log_entry \<Rightarrow> bool" where
  "same_session e e' \<longleftrightarrow>
     le_session e = le_session e' \<and> le_mode e = DEPENDENCY_TRACKING_WRITESET_SESSION \<and> le_mode e' = DEPENDENCY_TRACKING_WRITESET_SESSION"

definition kept :: "log_entry \<Rightarrow> log_entry \<Rightarrow> bool" where
  "kept e e' \<longleftrightarrow>
     le_seq e < le_seq e' \<and>
     (le_seq e \<le> le_order e' \<and> conflicts e e' \<longrightarrow> le_seq e \<le> le_parent e') \<and> (same_session e e' \<longrightarrow> le_seq e \<le> le_parent e')"

definition source_ok :: "source \<Rightarrow> bool" where
  "source_ok y \<longleftrightarrow>
     clocks_ok (src_tracker y) \<and> (\<forall>s. trx_ok (src_tracker y) (s \<in> src_flushed y) (src_sessions y s)) \<and>
     history_ok (src_tracker y) (src_log y) \<and> (\<forall>e \<in> set (src_log y). stamps_ok (src_tracker y) e) \<and>
     (\<forall>e \<in> set (src_log y). le_mode e = DEPENDENCY_TRACKING_WRITESET_SESSION \<longrightarrow>
        le_seq e \<le> last_session_sequence_number (src_sessions y (le_session e)) \<and>
        last_session_sequence_number (src_sessions y (le_session e)) \<le> now (src_tracker y)) \<and>
     sorted_wrt kept (src_log y)"

section \<open>One dependency\<close>

text \<open>The result of the tracker of written rows, by cases.\<close>

lemma writeset_dependency_cases:
  obtains (reverted) "\<not> can_use_writesets thd tr" "writeset_dependency thd (seq, order) tr =
      ((seq, order), tr\<lparr>m_writeset_history_start := seq, m_writeset_history := []\<rparr>)"
  | (used) p hist where "can_use_writesets thd tr" and "p = fst (writeset_loop seq False (write_set thd) (m_writeset_history_start tr) (m_writeset_history tr))"
      and "hist = snd (writeset_loop seq False (write_set thd) (m_writeset_history_start tr) (m_writeset_history tr))"
      and "writeset_dependency thd (seq, order) tr =
        ((seq, if has_missing_keys thd then order else min p order), tr\<lparr>m_writeset_history := hist\<rparr>)"
  | (exceeded) p where "can_use_writesets thd tr" and "p = fst (writeset_loop seq True (write_set thd) (m_writeset_history_start tr) (m_writeset_history tr))"
      and "writeset_dependency thd (seq, order) tr =
        ((seq, if has_missing_keys thd then order else min p order), tr\<lparr>m_writeset_history_start := seq, m_writeset_history := []\<rparr>)"
proof -
  let ?ex = "length (m_writeset_history tr) + length (write_set thd) > m_opt_max_history_size tr"
  let ?loop = "\<lambda>ex. writeset_loop seq ex (write_set thd) (m_writeset_history_start tr) (m_writeset_history tr)"
  show thesis
  proof (cases "can_use_writesets thd tr")
    case False
    then show ?thesis by (intro reverted) (simp_all add: writeset_dependency_def)
  next
    case True
    show ?thesis
    proof (cases ?ex)
      case ex: True
      show ?thesis using True ex
        by (intro exceeded [of "fst (?loop True)"]) (auto simp: writeset_dependency_def Let_def split: prod.splits)
    next
      case ex: False
      show ?thesis using True ex
        by (intro used [of "fst (?loop False)" "snd (?loop False)"]) (auto simp: writeset_dependency_def Let_def split: prod.splits)
    qed
  qed
qed

lemma writeset_dependency_stamps:
  "fst (fst (writeset_dependency thd (seq, order) tr)) = seq \<and> snd (fst (writeset_dependency thd (seq, order) tr)) \<le> order"
  by (rule writeset_dependency_cases [of thd tr seq order]) auto

lemma writeset_dependency_frame:
  "\<exists>st hist. snd (writeset_dependency thd (seq, order) tr) = tr\<lparr>m_writeset_history_start := st, m_writeset_history := hist\<rparr>"
proof (rule writeset_dependency_cases [of thd tr seq order])
  fix p hist
  assume "writeset_dependency thd (seq, order) tr = ((seq, if has_missing_keys thd then order else min p order), tr\<lparr>m_writeset_history := hist\<rparr>)"
  then show ?thesis by (intro exI [of _ "m_writeset_history_start tr"] exI [of _ hist]) simp
qed auto

text \<open>A conflict with a covered transaction is kept, as far as the commit order keeps it.\<close>

lemma writeset_dependency_kept:
  assumes hist: "\<And>h v. map_of (m_writeset_history tr) h = Some v \<Longrightarrow> v < seq"
    and cov: "covered tr e" and ord: "le_seq e \<le> order"
    and con: "\<not> le_usable e \<or> \<not> can_use_writesets thd tr \<or> has_missing_keys thd \<or> set (write_set (le_ctx e)) \<inter> set (write_set thd) \<noteq> {}"
  shows "le_seq e \<le> snd (fst (writeset_dependency thd (seq, order) tr))"
proof -
  let ?loop = "\<lambda>ex. fst (writeset_loop seq ex (write_set thd) (m_writeset_history_start tr) (m_writeset_history tr))"
  have loop: "le_seq e \<le> ?loop ex" if "can_use_writesets thd tr" "\<not> has_missing_keys thd" for ex
  proof (cases "le_seq e \<le> m_writeset_history_start tr")
    case True
    then show ?thesis using writeset_loop_start order_trans by blast
  next
    case False
    with cov con that obtain h v where h: "h \<in> set (write_set thd)" "map_of (m_writeset_history tr) h = Some v" "le_seq e \<le> v"
      unfolding covered_def by blast
    show ?thesis using h(3) writeset_loop_conflict [OF h(1,2) hist [OF h(2)]] by (rule order_trans)
  qed
  show ?thesis by (rule writeset_dependency_cases [of thd tr seq order]) (use loop ord in auto)
qed

text \<open>The transactions before stay covered, and the new one is.\<close>

lemma writeset_dependency_covered:
  assumes "covered tr e \<and> le_seq e < seq \<or> le_seq e = seq \<and> write_set (le_ctx e) = write_set thd \<and> le_usable e = can_use_writesets thd tr"
  shows "covered (snd (writeset_dependency thd (seq, order) tr)) e"
proof (rule writeset_dependency_cases [of thd tr seq order])
  fix p hist
  assume u: "can_use_writesets thd tr" "hist = snd (writeset_loop seq False (write_set thd) (m_writeset_history_start tr) (m_writeset_history tr))"
    "writeset_dependency thd (seq, order) tr = ((seq, if has_missing_keys thd then order else min p order), tr\<lparr>m_writeset_history := hist\<rparr>)"
  have m: "map_of hist h = (if h \<in> set (write_set thd) then Some seq else map_of (m_writeset_history tr) h)" for h
    unfolding u(2) by (rule writeset_loop_history)
  show ?thesis using assms u(1) unfolding covered_def u(3) by (auto simp: m)
qed (use assms in \<open>auto simp: covered_def\<close>)

lemma writeset_dependency_history:
  assumes "\<And>h v. map_of (m_writeset_history tr) h = Some v \<Longrightarrow> v < seq" and "map_of (m_writeset_history (snd (writeset_dependency thd (seq, order) tr))) h = Some v"
  shows "v \<le> seq"
proof (rule writeset_dependency_cases [of thd tr seq order])
  fix p hist
  assume u: "hist = snd (writeset_loop seq False (write_set thd) (m_writeset_history_start tr) (m_writeset_history tr))"
    "writeset_dependency thd (seq, order) tr = ((seq, if has_missing_keys thd then order else min p order), tr\<lparr>m_writeset_history := hist\<rparr>)"
  have "map_of hist h = (if h \<in> set (write_set thd) then Some seq else map_of (m_writeset_history tr) h)"
    unfolding u(1) by (rule writeset_loop_history)
  then show ?thesis using assms(2) assms(1) [of h v] unfolding u(2) by (auto split: if_splits)
qed (use assms(2) in auto)

section \<open>Writing an entry\<close>

lemma get_dependency_cases:
  assumes "commit_order_dependency thd tr = (seq, order)"
  defines "wd \<equiv> writeset_dependency thd (seq, order) tr"
  shows "get_dependency thd tr =
    (case m_opt_tracking_mode tr of
       DEPENDENCY_TRACKING_COMMIT_ORDER \<Rightarrow> ((seq, order), thd, tr)
     | DEPENDENCY_TRACKING_WRITESET \<Rightarrow> ((seq, snd (fst wd)), thd, snd wd)
     | DEPENDENCY_TRACKING_WRITESET_SESSION \<Rightarrow>
         ((seq, if last_session_sequence_number thd \<noteq> 0 \<and> last_session_sequence_number thd < seq
                then max (snd (fst wd)) (last_session_sequence_number thd) else snd (fst wd)),
          thd\<lparr>last_session_sequence_number := seq\<rparr>, snd wd))"
  using writeset_dependency_stamps [of thd seq order tr]
  by (auto simp: get_dependency_def session_dependency_def assms Let_def split: prod.splits tracking_mode.splits)

text \<open>The session and the tracker when the dependency of a transaction is computed.\<close>

definition flush_trx :: "trx_ctx \<Rightarrow> dependency_tracker \<Rightarrow> trx_ctx" where
  "flush_trx thd tr =
     (let n = clk_state (m_transaction_counter tr) in
      thd\<lparr>trx_sequence_number := n + 1, trx_last_committed := if trx_last_committed thd = 0 then n else trx_last_committed thd\<rparr>)"

definition flush_tracker :: "dependency_tracker \<Rightarrow> dependency_tracker" where
  "flush_tracker tr = tr\<lparr>m_transaction_counter := (m_transaction_counter tr)\<lparr>clk_state := clk_state (m_transaction_counter tr) + 1\<rparr>\<rparr>"

lemma cache_flush_eq:
  "cache_flush error thd tr =
     (if error then (None, flush_trx thd tr, flush_tracker tr)
      else (let (stamps, thd3, tr3) = get_dependency (flush_trx thd tr) (flush_tracker tr) in
        (Some stamps, thd3\<lparr>trx_last_committed := 0\<rparr>, tr3)))"
  by (auto simp: cache_flush_def write_gtid_def tracker_step_def clock_step_def flush_trx_def flush_tracker_def SEQ_UNINIT_def
      Let_def split: prod.splits)

lemma flush_simps [simp]:
  "m_opt_tracking_mode (flush_tracker tr) = m_opt_tracking_mode tr" "m_writeset_history (flush_tracker tr) = m_writeset_history tr"
  "m_writeset_history_start (flush_tracker tr) = m_writeset_history_start tr" "covered (flush_tracker tr) = covered tr"
  "can_use_writesets (flush_trx thd tr) (flush_tracker tr) = can_use_writesets thd tr" "write_set (flush_trx thd tr) = write_set thd"
  "has_missing_keys (flush_trx thd tr) = has_missing_keys thd"
  "last_session_sequence_number (flush_trx thd tr) = last_session_sequence_number thd" "now (flush_tracker tr) = now tr + 1"
  "clocks_ok tr \<Longrightarrow> clocks_ok (flush_tracker tr)"
  "clk_state (m_transaction_counter (flush_tracker tr)) = clk_state (m_transaction_counter tr) + 1"
  by (auto simp: flush_tracker_def flush_trx_def covered_def can_use_writesets_def now_def clocks_ok_def Let_def)

lemma commit_order_bounds:
  assumes "clocks_ok tr" and "trx_ok tr fl thd"
  shows "fst (commit_order_dependency (flush_trx thd tr) (flush_tracker tr)) = now tr + 1"
    and "0 \<le> snd (commit_order_dependency (flush_trx thd tr) (flush_tracker tr))"
    and "snd (commit_order_dependency (flush_trx thd tr) (flush_tracker tr)) \<le> now tr"
  using assms by (auto simp: commit_order_dependency_def flush_trx_def flush_tracker_def now_def clocks_ok_def trx_ok_def SEQ_UNINIT_def Let_def)

lemma new_entry_simps:
  "le_seq (new_entry s thd stamps tr) = fst stamps" "le_parent (new_entry s thd stamps tr) = snd stamps"
  "le_order (new_entry s thd stamps tr) = snd (commit_order_dependency (flush_trx thd tr) (flush_tracker tr))"
  "le_ctx (new_entry s thd stamps tr) = thd" "le_usable (new_entry s thd stamps tr) = can_use_writesets thd tr"
  "le_session (new_entry s thd stamps tr) = s" "le_mode (new_entry s thd stamps tr) = m_opt_tracking_mode tr"
  by (simp_all add: new_entry_def Let_def commit_order_dependency_def flush_trx_def flush_tracker_def)

text \<open>What a new entry keeps of the entries before it.\<close>

lemma cache_flush_entry:
  assumes ok: "source_ok y" and fl: "cache_flush False (src_sessions y s) (src_tracker y) = (Some stamps, thd', tr')"
  defines "e' \<equiv> new_entry s (src_sessions y s) stamps (src_tracker y)"
  shows "le_seq e' = now (src_tracker y) + 1" and "0 \<le> le_order e'" and "le_order e' < le_seq e'" and "le_parent e' < le_seq e'"
    and "\<And>e. e \<in> set (src_log y) \<Longrightarrow> kept e e'"
proof -
  let ?tr = "src_tracker y" and ?thd = "src_sessions y s" and ?wd = "\<lambda>order. writeset_dependency (flush_trx (src_sessions y s) (src_tracker y)) (now (src_tracker y) + 1, order) (flush_tracker (src_tracker y))"
  have o: "clocks_ok ?tr" "trx_ok ?tr (s \<in> src_flushed y) ?thd" "history_ok ?tr (src_log y)" "\<And>e. e \<in> set (src_log y) \<Longrightarrow> stamps_ok ?tr e"
    using ok unfolding source_ok_def by auto
  obtain order where cod: "commit_order_dependency (flush_trx ?thd ?tr) (flush_tracker ?tr) = (now ?tr + 1, order)" "0 \<le> order" "order \<le> now ?tr"
    using commit_order_bounds [OF o(1,2)] by (cases "commit_order_dependency (flush_trx ?thd ?tr) (flush_tracker ?tr)") auto
  have st: "stamps = fst (get_dependency (flush_trx ?thd ?tr) (flush_tracker ?tr))"
    using fl unfolding cache_flush_eq by (auto split: prod.splits)
  have p: "snd (fst (?wd order)) \<le> order" using writeset_dependency_stamps by blast
  show "le_seq e' = now ?tr + 1" "0 \<le> le_order e'" "le_order e' < le_seq e'" "le_parent e' < le_seq e'"
    using cod p unfolding e'_def st get_dependency_cases [OF cod(1)] by (auto simp: new_entry_simps split: tracking_mode.splits)
  fix e assume e: "e \<in> set (src_log y)"
  have hist: "v < now ?tr + 1" if "m_opt_tracking_mode ?tr \<noteq> DEPENDENCY_TRACKING_COMMIT_ORDER" "map_of (m_writeset_history (flush_tracker ?tr)) h = Some v" for h v
    using o(3) that by (fastforce simp: history_ok_def)
  have wd: "le_seq e \<le> snd (fst (?wd order))"
    if "m_opt_tracking_mode ?tr \<noteq> DEPENDENCY_TRACKING_COMMIT_ORDER" "le_seq e \<le> order" "conflicts e e'"
    using that o(3) e hist [OF that(1)]
    by (intro writeset_dependency_kept) (auto simp: history_ok_def conflicts_def e'_def new_entry_simps)
  have sess: "le_seq e \<le> last_session_sequence_number ?thd \<and> last_session_sequence_number ?thd \<le> now ?tr" if "same_session e e'"
    using ok e that unfolding source_ok_def same_session_def by (auto simp: e'_def new_entry_simps)
  have "0 < le_seq e" "le_seq e \<le> now ?tr" using o(4) [OF e] by (auto simp: stamps_ok_def)
  then show "kept e e'"
    using cod wd sess unfolding kept_def e'_def st get_dependency_cases [OF cod(1)]
    by (auto simp: new_entry_simps same_session_def split: tracking_mode.splits)
qed

lemma cache_flush_state:
  assumes "clocks_ok tr" and "trx_ok tr fl thd" and "cache_flush False thd tr = (Some stamps, thd', tr')"
  obtains st hist order where "tr' = (flush_tracker tr)\<lparr>m_writeset_history_start := st, m_writeset_history := hist\<rparr>"
    and "m_opt_tracking_mode tr \<noteq> DEPENDENCY_TRACKING_COMMIT_ORDER \<longrightarrow>
      tr' = snd (writeset_dependency (flush_trx thd tr) (now tr + 1, order) (flush_tracker tr))"
    and "thd' = (flush_trx thd tr)\<lparr>trx_last_committed := 0, last_session_sequence_number :=
      (if m_opt_tracking_mode tr = DEPENDENCY_TRACKING_WRITESET_SESSION then now tr + 1 else last_session_sequence_number thd)\<rparr>"
proof -
  let ?thd = "flush_trx thd tr" and ?tr = "flush_tracker tr"
  obtain order where cod: "commit_order_dependency ?thd ?tr = (now tr + 1, order)"
    using commit_order_bounds [OF assms(1,2)] by (cases "commit_order_dependency ?thd ?tr") auto
  obtain st hist where wd: "snd (writeset_dependency ?thd (now tr + 1, order) ?tr) = ?tr\<lparr>m_writeset_history_start := st, m_writeset_history := hist\<rparr>"
    using writeset_dependency_frame by blast
  have r: "thd' = (fst (snd (get_dependency ?thd ?tr)))\<lparr>trx_last_committed := 0\<rparr>" "tr' = snd (snd (get_dependency ?thd ?tr))"
    using assms(3) unfolding cache_flush_eq by (auto split: prod.splits)
  have id: "?tr\<lparr>m_writeset_history_start := m_writeset_history_start tr, m_writeset_history := m_writeset_history tr\<rparr> = ?tr"
    "?thd\<lparr>trx_last_committed := 0, last_session_sequence_number := last_session_sequence_number ?thd\<rparr> = ?thd\<lparr>trx_last_committed := 0\<rparr>"
    by (cases tr, simp add: flush_tracker_def) (cases thd, simp add: flush_trx_def Let_def)
  show thesis
  proof (cases "m_opt_tracking_mode tr")
    case DEPENDENCY_TRACKING_COMMIT_ORDER
    show ?thesis
      by (rule that [of "m_writeset_history tr" "m_writeset_history_start tr" order])
        (use r id DEPENDENCY_TRACKING_COMMIT_ORDER in \<open>simp_all add: get_dependency_cases [OF cod]\<close>)
  next
    case DEPENDENCY_TRACKING_WRITESET
    show ?thesis
      by (rule that [of hist st order]) (use r id(2) wd DEPENDENCY_TRACKING_WRITESET in \<open>simp_all add: get_dependency_cases [OF cod]\<close>)
  next
    case DEPENDENCY_TRACKING_WRITESET_SESSION
    show ?thesis
      by (rule that [of hist st order]) (use r wd DEPENDENCY_TRACKING_WRITESET_SESSION in \<open>simp_all add: get_dependency_cases [OF cod]\<close>)
  qed
qed

section \<open>The invariant is kept\<close>

lemma trx_ok_later: "trx_ok tr fl thd \<Longrightarrow> clk_state (m_transaction_counter tr) \<le> clk_state (m_transaction_counter tr') \<Longrightarrow> trx_ok tr' fl thd"
  by (auto simp: trx_ok_def)

lemma stamps_ok_later: "stamps_ok tr e \<Longrightarrow> now tr \<le> now tr' \<Longrightarrow> stamps_ok tr' e"
  by (auto simp: stamps_ok_def)

lemma log_write_ok:
  assumes ok: "source_ok y" and fl: "cache_flush False (src_sessions y s) (src_tracker y) = (Some stamps, thd, tr)"
  shows "source_ok (y\<lparr>src_tracker := tr, src_sessions := (src_sessions y)(s := thd), src_flushed := insert s (src_flushed y),
      src_log := src_log y @ [new_entry s (src_sessions y s) stamps (src_tracker y)]\<rparr>)"
proof -
  let ?tr = "src_tracker y" and ?e = "new_entry s (src_sessions y s) stamps (src_tracker y)"
  have o: "clocks_ok ?tr" "trx_ok ?tr (s \<in> src_flushed y) (src_sessions y s)" "history_ok ?tr (src_log y)"
    "\<And>e. e \<in> set (src_log y) \<Longrightarrow> stamps_ok ?tr e" "\<And>s. trx_ok ?tr (s \<in> src_flushed y) (src_sessions y s)"
    "sorted_wrt kept (src_log y)"
    "\<And>e. e \<in> set (src_log y) \<Longrightarrow> le_mode e = DEPENDENCY_TRACKING_WRITESET_SESSION \<Longrightarrow>
        le_seq e \<le> last_session_sequence_number (src_sessions y (le_session e)) \<and>
        last_session_sequence_number (src_sessions y (le_session e)) \<le> now (src_tracker y)"
    using ok unfolding source_ok_def by auto
  note entry = cache_flush_entry [OF ok fl]
  obtain st hist order where tr: "tr = (flush_tracker ?tr)\<lparr>m_writeset_history_start := st, m_writeset_history := hist\<rparr>"
    and wd: "m_opt_tracking_mode ?tr \<noteq> DEPENDENCY_TRACKING_COMMIT_ORDER \<longrightarrow>
      tr = snd (writeset_dependency (flush_trx (src_sessions y s) ?tr) (now ?tr + 1, order) (flush_tracker ?tr))"
    and thd: "thd = (flush_trx (src_sessions y s) ?tr)\<lparr>trx_last_committed := 0, last_session_sequence_number :=
      (if m_opt_tracking_mode ?tr = DEPENDENCY_TRACKING_WRITESET_SESSION then now ?tr + 1 else last_session_sequence_number (src_sessions y s))\<rparr>"
    using cache_flush_state [OF o(1,2) fl] by blast
  have t: "now tr = now ?tr + 1" "m_opt_tracking_mode tr = m_opt_tracking_mode ?tr" "clocks_ok tr"
    "clk_state (m_transaction_counter tr) = clk_state (m_transaction_counter ?tr) + 1"
    using o(1) unfolding tr by (auto simp: now_def clocks_ok_def flush_tracker_def)
  have "trx_ok tr (s' \<in> insert s (src_flushed y)) (((src_sessions y)(s := thd)) s')" for s'
    using o(5) [of s'] t(4) o(1) by (auto simp: trx_ok_def thd clocks_ok_def flush_trx_def Let_def)
  moreover have "history_ok tr (src_log y @ [?e])"
  proof (cases "m_opt_tracking_mode ?tr = DEPENDENCY_TRACKING_COMMIT_ORDER")
    case False
    have hist: "v < now ?tr + 1" if "map_of (m_writeset_history (flush_tracker ?tr)) h = Some v" for h v
      using o(3) that False by (fastforce simp: history_ok_def)
    have "covered tr e" if "e \<in> set (src_log y)" for e
      unfolding wd [rule_format, OF False] using o(3) o(4) [OF that] that False
      by (intro writeset_dependency_covered) (auto simp: history_ok_def stamps_ok_def)
    moreover have "covered tr ?e"
      unfolding wd [rule_format, OF False] using entry(1) by (intro writeset_dependency_covered) (auto simp: new_entry_simps)
    moreover have "v \<le> now ?tr + 1" if "map_of (m_writeset_history tr) h = Some v" for h v
      by (rule writeset_dependency_history [OF hist that [unfolded wd [rule_format, OF False]]])
    ultimately show ?thesis using t(1) by (auto simp: history_ok_def)
  qed (simp add: history_ok_def t(2))
  moreover have "stamps_ok tr e" if "e \<in> set (src_log y @ [?e])" for e
  proof (cases "e \<in> set (src_log y)")
    case True
    then show ?thesis using stamps_ok_later [OF o(4), of e tr] t(1) by simp
  next
    case False
    then show ?thesis using that entry(1-4) t(1) by (auto simp: stamps_ok_def)
  qed
  moreover have "sorted_wrt kept (src_log y @ [?e])" using o(6) entry(5) by (simp add: sorted_wrt_append)
  moreover have "le_seq e \<le> last_session_sequence_number (((src_sessions y)(s := thd)) (le_session e)) \<and>
      last_session_sequence_number (((src_sessions y)(s := thd)) (le_session e)) \<le> now tr"
    if "e \<in> set (src_log y @ [?e])" "le_mode e = DEPENDENCY_TRACKING_WRITESET_SESSION" for e
  proof (cases "e \<in> set (src_log y)")
    case True
    then show ?thesis using o(7) [OF True that(2)] o(4) [OF True] t(1) by (auto simp: thd stamps_ok_def)
  next
    case False
    then show ?thesis using that entry(1) t(1) by (auto simp: thd new_entry_simps)
  qed
  ultimately show ?thesis using t(3) unfolding source_ok_def by auto
qed

text \<open>The other operations leave the log as it is, or empty it.\<close>

lemma source_ok_frame:
  assumes ok: "source_ok y" and tr: "clocks_ok tr" "clk_state (m_transaction_counter (src_tracker y)) \<le> clk_state (m_transaction_counter tr)"
    "now (src_tracker y) \<le> now tr" "history_ok tr (src_log y)"
    and ses: "\<And>s. trx_ok tr (s \<in> fl) (ses s)" "\<And>s. last_session_sequence_number (ses s) = last_session_sequence_number (src_sessions y s)"
  shows "source_ok (y\<lparr>src_tracker := tr, src_sessions := ses, src_flushed := fl\<rparr>)"
proof -
  have "stamps_ok tr e" if "e \<in> set (src_log y)" for e
    using that ok stamps_ok_later [of "src_tracker y" e tr] tr(3) by (auto simp: source_ok_def)
  moreover have "last_session_sequence_number (src_sessions y (le_session e)) \<le> now tr"
    if "e \<in> set (src_log y)" "le_mode e = DEPENDENCY_TRACKING_WRITESET_SESSION" for e
    using that ok tr(3) unfolding source_ok_def by fastforce
  ultimately show ?thesis using ok tr ses unfolding source_ok_def by auto
qed

lemma history_ok_frame:
  assumes "history_ok tr log" and "m_opt_tracking_mode tr' = m_opt_tracking_mode tr" and "m_writeset_history tr' = m_writeset_history tr"
    and "m_writeset_history_start tr' = m_writeset_history_start tr" and "now tr \<le> now tr'"
  shows "history_ok tr' log"
  using assms unfolding history_ok_def covered_def by fastforce

lemma commit_clocks:
  assumes "clocks_ok tr" and "trx_ok tr True thd" and "finish_commit thd tr = (thd', tr')"
  shows "clocks_ok tr'" and "m_transaction_counter tr' = m_transaction_counter tr" and "m_opt_tracking_mode tr' = m_opt_tracking_mode tr"
    and "m_writeset_history tr' = m_writeset_history tr" and "m_writeset_history_start tr' = m_writeset_history_start tr"
    and "trx_last_committed thd' = trx_last_committed thd" and "last_session_sequence_number thd' = last_session_sequence_number thd"
    and "trx_sequence_number thd' = 0"
  using assms by (auto simp: finish_commit_def update_max_committed_def set_if_greater_max clocks_ok_def trx_ok_def SEQ_UNINIT_def split: if_splits)

text \<open>A change of the mode covers all entries when nothing is between the log and its commit.\<close>

lemma change_mode_history:
  assumes "clocks_ok tr" and "quiet tr" and "\<And>e. e \<in> set log \<Longrightarrow> stamps_ok tr e"
  shows "history_ok (update_dependency_tracking mode tr) log"
  using assms by (auto simp: history_ok_def covered_def update_dependency_tracking_def tracking_mode_changed_def writeset_rotate_def
      stamps_ok_def now_def quiet_def clocks_ok_def Let_def)

lemma rotate_ok:
  assumes "source_ok y" and "snd (tracker_rotate cur (src_tracker y)) = tr"
    and "\<And>s. trx_last_committed (ses s) = trx_last_committed (src_sessions y s)"
    and "\<And>s. s \<in> src_flushed y \<Longrightarrow> ses s = src_sessions y s"
  shows "source_ok (y\<lparr>src_tracker := tr, src_sessions := ses, src_log := []\<rparr>)"
proof -
  have tr: "clocks_ok tr" "clk_state (m_transaction_counter tr) = clk_state (m_transaction_counter (src_tracker y))"
    "m_writeset_history tr = []"
    using assms(1,2) by (auto simp: source_ok_def tracker_rotate_def writeset_rotate_def commit_order_rotate_def update_offset_def
        clocks_ok_def Let_def)
  have "trx_ok tr (s \<in> src_flushed y) (ses s)" for s
  proof -
    have "trx_ok (src_tracker y) (s \<in> src_flushed y) (src_sessions y s)" using assms(1) by (simp add: source_ok_def)
    then show ?thesis using assms(3) [of s] assms(4) [of s] tr(2) by (auto simp: trx_ok_def)
  qed
  then show ?thesis using tr by (simp add: source_ok_def history_ok_def)
qed

lemma source_step_ok: "source_step y y' \<Longrightarrow> source_ok y \<Longrightarrow> source_ok y'"
proof (induction rule: source_step.induct)
  case (execute thd y s)
  then show ?case
    using source_ok_frame [of y "src_tracker y" "src_flushed y" "(src_sessions y)(s := thd)"] by (auto simp: source_ok_def trx_ok_def)
next
  case (prepare y s)
  then show ?case
    using source_ok_frame [of y "src_tracker y" "src_flushed y" "(src_sessions y)(s := binlog_prepare (src_sessions y s) (src_tracker y))"]
    by (auto simp: source_ok_def trx_ok_def binlog_prepare_def get_max_committed_timestamp_def clocks_ok_def)
next
  case (log_write y s stamps thd tr)
  then show ?case by (intro log_write_ok)
next
  case (log_error y s thd tr)
  let ?tr = "flush_tracker (src_tracker y)" and ?ses = "(src_sessions y)(s := flush_trx (src_sessions y s) (src_tracker y))"
  have e: "thd = flush_trx (src_sessions y s) (src_tracker y)" "tr = ?tr" using log_error(1) by (simp_all add: cache_flush_eq)
  have o: "clocks_ok (src_tracker y)" "history_ok (src_tracker y) (src_log y)" "\<And>s. trx_ok (src_tracker y) (s \<in> src_flushed y) (src_sessions y s)"
    using log_error(2) by (auto simp: source_ok_def)
  have "trx_ok ?tr (s' \<in> insert s (src_flushed y)) (?ses s')" for s'
    using o(3) [of s'] o(1) by (auto simp: trx_ok_def flush_trx_def clocks_ok_def Let_def)
  then show ?case unfolding e
    using o by (intro source_ok_frame [OF log_error(2)]) (auto intro: history_ok_frame)
next
  case (commit s y thd tr)
  have o: "clocks_ok (src_tracker y)" "history_ok (src_tracker y) (src_log y)" "\<And>s. trx_ok (src_tracker y) (s \<in> src_flushed y) (src_sessions y s)"
    using commit(3) by (auto simp: source_ok_def)
  have "trx_ok (src_tracker y) True (src_sessions y s)" using o(3) [of s] commit(1) by simp
  note c = commit_clocks [OF o(1) this commit(2)]
  have "trx_ok tr (s' \<in> src_flushed y - {s}) (((src_sessions y)(s := thd)) s')" for s'
    using o(3) [of s'] c by (auto simp: trx_ok_def)
  then show ?case
    using o(2) c by (intro source_ok_frame [OF commit(3)]) (auto simp: now_def intro: history_ok_frame)
next
  case (rotate s y thd tr)
  then show ?case by (intro rotate_ok) (auto simp: tracker_rotate_def)
next
  case (rotate_server y tr)
  then show ?case using rotate_ok [of y None tr "src_sessions y"] by (simp add: tracker_rotate_def)
next
  case (change_mode y mode)
  let ?tr = "update_dependency_tracking mode (src_tracker y)"
  have o: "clocks_ok (src_tracker y)" "\<And>s. trx_ok (src_tracker y) (s \<in> src_flushed y) (src_sessions y s)" "\<And>e. e \<in> set (src_log y) \<Longrightarrow> stamps_ok (src_tracker y) e"
    using change_mode(2) by (auto simp: source_ok_def)
  have "clocks_ok ?tr" "m_transaction_counter ?tr = m_transaction_counter (src_tracker y)"
    using o(1) by (auto simp: update_dependency_tracking_def tracking_mode_changed_def writeset_rotate_def clocks_ok_def Let_def)
  moreover have "history_ok ?tr (src_log y)" by (rule change_mode_history [OF o(1) change_mode(1) o(3)])
  ultimately show ?case
    using source_ok_frame [OF change_mode(2), of ?tr "src_flushed y" "src_sessions y"] o(2) by (auto simp: now_def trx_ok_def)
next
  case (change_size y n)
  then show ?case
    using source_ok_frame [of y "update_history_size n (src_tracker y)" "src_flushed y" "src_sessions y"]
    by (auto simp: source_ok_def update_history_size_def clocks_ok_def now_def trx_ok_def history_ok_def covered_def)
next
  case (change_extraction y n)
  then show ?case
    using source_ok_frame [of y "(src_tracker y)\<lparr>global_write_set_extraction := n\<rparr>" "src_flushed y" "src_sessions y"]
    by (auto simp: source_ok_def clocks_ok_def now_def trx_ok_def history_ok_def)
qed

lemma source_start_ok: "source_start y \<Longrightarrow> source_ok y"
  by (auto simp: source_start_def source_ok_def clocks_ok_def trx_ok_def history_ok_def Transaction_dependency_tracker_def
      Logical_clock_def SEQ_UNINIT_def new_session_def)

lemma source_run_ok: "source_run y y' \<Longrightarrow> source_ok y \<Longrightarrow> source_ok y'"
  by (induction rule: rtranclp_induct) (auto intro: source_step_ok)

end
