(* ===== verification/Circular_Queue.thy ===== *)
theory Circular_Queue
  imports Prelude
begin

text \<open>
  The queue in a circular buffer of \<^verbatim>\<open>sql/rpl_rli_pdb.h\<close>, which holds the groups that the coordinator of a
  replica has assigned and the events that a worker has to execute. The head index is \<open>size\<close> when the queue
  is empty, the index to append at is \<open>size\<close> when it is full. It refines a list of bounded length.
\<close>

section \<open>The queue\<close>

record 'e circular_buffer_queue =
  m_Q :: "'e list"
  size_of_queue :: nat
  avail :: nat
  queue_entry :: nat
  queue_len :: nat

text \<open>The elements of a new queue are what their constructor gives.\<close>

definition circular_buffer_queue :: "'e \<Rightarrow> nat \<Rightarrow> 'e circular_buffer_queue" where
  "circular_buffer_queue e n = \<lparr>m_Q = replicate n e, size_of_queue = n, avail = 0, queue_entry = n, queue_len = 0\<rparr>"

definition queue_empty :: "'e circular_buffer_queue \<Rightarrow> bool" where
  "queue_empty q \<longleftrightarrow> queue_entry q = size_of_queue q"

definition queue_full :: "'e circular_buffer_queue \<Rightarrow> bool" where
  "queue_full q \<longleftrightarrow> avail q = size_of_queue q"

text \<open>The results of the operations are an index, and the element that is taken out; \<open>None\<close> is the error.\<close>

definition en_queue :: "'e \<Rightarrow> 'e circular_buffer_queue \<Rightarrow> nat option \<times> 'e circular_buffer_queue" where
  "en_queue item q =
     (if avail q = size_of_queue q then (None, q)
      else
        let ret = avail q;
            ent = (if queue_entry q = size_of_queue q then avail q else queue_entry q);
            av = (avail q + 1) mod size_of_queue q in
        (Some ret,
         q\<lparr>m_Q := (m_Q q)[avail q := item], queue_entry := ent, queue_len := queue_len q + 1,
           avail := if av = ent then size_of_queue q else av\<rparr>))"

definition de_queue :: "'e circular_buffer_queue \<Rightarrow> (nat \<times> 'e) option \<times> 'e circular_buffer_queue" where
  "de_queue q =
     (if queue_entry q = size_of_queue q then (None, q)
      else
        let ret = queue_entry q;
            item = m_Q q ! queue_entry q;
            av = (if avail q = size_of_queue q then queue_entry q else avail q);
            ent = (queue_entry q + 1) mod size_of_queue q in
        (Some (ret, item),
         q\<lparr>queue_len := queue_len q - 1, avail := av, queue_entry := if av = ent then size_of_queue q else ent\<rparr>))"

definition de_tail :: "'e circular_buffer_queue \<Rightarrow> (nat \<times> 'e) option \<times> 'e circular_buffer_queue" where
  "de_tail q =
     (if queue_entry q = size_of_queue q then (None, q)
      else
        let av = (queue_entry q + queue_len q - 1) mod size_of_queue q;
            item = m_Q q ! av in
        (Some (av, item),
         q\<lparr>avail := av, queue_len := queue_len q - 1, queue_entry := if av = queue_entry q then size_of_queue q else queue_entry q\<rparr>))"

definition head_queue :: "'e circular_buffer_queue \<Rightarrow> 'e option" where
  "head_queue q = (if queue_empty q then None else Some (m_Q q ! queue_entry q))"

definition queue_gt :: "nat \<Rightarrow> nat \<Rightarrow> 'e circular_buffer_queue \<Rightarrow> bool" where
  "queue_gt i k q =
     (if i \<ge> queue_entry q then (if k \<ge> queue_entry q then i > k else False)
      else if k \<ge> queue_entry q then True else i > k)"

definition queue_in :: "nat \<Rightarrow> 'e circular_buffer_queue \<Rightarrow> bool" where
  "queue_in k q \<longleftrightarrow> \<not> queue_empty q \<and>
     (if queue_entry q > avail q then k \<ge> queue_entry q \<or> k < avail q else k \<ge> queue_entry q \<and> k < avail q)"

subsection \<open>The queue of a worker\<close>

text \<open>
  The functions of \<^verbatim>\<open>sql/rpl_rli_pdb.cc\<close> on the queue of events of a worker, which repeat the methods; the
  result of an insertion is the next free index, or -1.
\<close>

definition jobs_en_queue :: "'e \<Rightarrow> 'e circular_buffer_queue \<Rightarrow> int \<times> 'e circular_buffer_queue" where
  "jobs_en_queue item jobs =
     (if avail jobs = size_of_queue jobs then (-1, jobs)
      else
        let ent = (if queue_entry jobs = size_of_queue jobs then avail jobs else queue_entry jobs);
            av = (avail jobs + 1) mod size_of_queue jobs;
            av2 = (if av = ent then size_of_queue jobs else av) in
        (int av2, jobs\<lparr>m_Q := (m_Q jobs)[avail jobs := item], queue_entry := ent, avail := av2, queue_len := queue_len jobs + 1\<rparr>))"

definition jobs_head_queue :: "'e circular_buffer_queue \<Rightarrow> 'e option" where
  "jobs_head_queue jobs = (if queue_entry jobs = size_of_queue jobs then None else Some (m_Q jobs ! queue_entry jobs))"

definition jobs_de_queue :: "'e circular_buffer_queue \<Rightarrow> 'e option \<times> 'e circular_buffer_queue" where
  "jobs_de_queue jobs =
     (if queue_entry jobs = size_of_queue jobs then (None, jobs)
      else
        let ret = m_Q jobs ! queue_entry jobs;
            av = (if avail jobs = size_of_queue jobs then queue_entry jobs else avail jobs);
            ent = (queue_entry jobs + 1) mod size_of_queue jobs in
        (Some ret, jobs\<lparr>queue_len := queue_len jobs - 1, avail := av, queue_entry := if av = ent then size_of_queue jobs else ent\<rparr>))"

section \<open>The list it holds\<close>

definition slot :: "'e circular_buffer_queue \<Rightarrow> nat \<Rightarrow> nat" where
  "slot q i = (queue_entry q + i) mod size_of_queue q"

definition queue_list :: "'e circular_buffer_queue \<Rightarrow> 'e list" where
  "queue_list q = map (\<lambda>i. m_Q q ! slot q i) [0..<queue_len q]"

definition queue_ok :: "'e circular_buffer_queue \<Rightarrow> bool" where
  "queue_ok q \<longleftrightarrow>
     0 < size_of_queue q \<and> length (m_Q q) = size_of_queue q \<and>
     (if queue_entry q = size_of_queue q then queue_len q = 0 \<and> avail q < size_of_queue q
      else queue_entry q < size_of_queue q \<and> 0 < queue_len q \<and> queue_len q \<le> size_of_queue q \<and>
        avail q = (if queue_len q = size_of_queue q then size_of_queue q else slot q (queue_len q)))"

lemma queue_ok_new: "0 < n \<Longrightarrow> queue_ok (circular_buffer_queue e n) \<and> queue_list (circular_buffer_queue e n) = []"
  by (simp add: queue_ok_def circular_buffer_queue_def queue_list_def)

lemma length_queue_list [simp]: "length (queue_list q) = queue_len q"
  by (simp add: queue_list_def)

lemma queue_list_nth: "i < queue_len q \<Longrightarrow> queue_list q ! i = m_Q q ! slot q i"
  by (simp add: queue_list_def)

lemma queue_empty_iff: "queue_ok q \<Longrightarrow> queue_entry q = size_of_queue q \<longleftrightarrow> queue_list q = []"
  by (auto simp: queue_ok_def queue_list_def split: if_splits)

lemma slot_less: "0 < size_of_queue q \<Longrightarrow> slot q i < size_of_queue q"
  by (simp add: slot_def)

lemma queue_full_iff: "queue_ok q \<Longrightarrow> avail q = size_of_queue q \<longleftrightarrow> length (queue_list q) = size_of_queue q"
  using slot_less [of q "queue_len q"] by (auto simp: queue_ok_def split: if_splits)

text \<open>Different places of the queue are in different slots.\<close>

lemma mod_add_inj: "i < n \<Longrightarrow> j < n \<Longrightarrow> (a + i) mod n = (a + j) mod n \<Longrightarrow> i = (j :: nat)"
proof (induction i j rule: linorder_wlog)
  case (le i j)
  then have "n dvd (a + j) - (a + i)" using mod_eq_dvd_iff_nat [of "a + i" "a + j" n] by simp
  then have "n dvd j - i" by simp
  then show ?case using le by (auto dest: dvd_imp_le)
next
  case (sym i j)
  then show ?case by simp
qed

lemma slot_inj: "i < size_of_queue q \<Longrightarrow> j < size_of_queue q \<Longrightarrow> slot q i = slot q j \<longleftrightarrow> i = j"
  using mod_add_inj unfolding slot_def by blast

lemma slot_0: "queue_entry q < size_of_queue q \<Longrightarrow> slot q 0 = queue_entry q"
  by (simp add: slot_def)

lemma slot_Suc: "(slot q i + 1) mod size_of_queue q = slot q (Suc i)"
  by (simp add: slot_def mod_Suc_eq)

lemma slot_wrap: "queue_entry q < size_of_queue q \<Longrightarrow> 0 < i \<Longrightarrow> i \<le> size_of_queue q \<Longrightarrow> slot q i = queue_entry q \<longleftrightarrow> i = size_of_queue q"
  using slot_inj [of i q 0] slot_0 [of q] by (cases "i = size_of_queue q") (auto simp: slot_def)

section \<open>The operations on the list\<close>

lemma queue_list_cong:
  assumes "queue_len q' = n" and "\<And>i. i < n \<Longrightarrow> m_Q q' ! slot q' i = xs ! i" and "length xs = n"
  shows "queue_list q' = xs"
  using assms by (intro nth_equalityI) (auto simp: queue_list_nth)

lemma en_queue_empty:
  assumes "queue_ok q" and "queue_list q = []"
  shows "\<exists>q'. en_queue e q = (Some (avail q), q') \<and> queue_ok q' \<and> queue_list q' = [e] \<and> size_of_queue q' = size_of_queue q \<and> queue_entry q' = avail q"
proof -
  have e: "queue_entry q = size_of_queue q" "queue_len q = 0" "avail q < size_of_queue q" "length (m_Q q) = size_of_queue q"
    using assms queue_empty_iff [OF assms(1)] by (auto simp: queue_ok_def)
  let ?q = "snd (en_queue e q)"
  have q: "en_queue e q = (Some (avail q), ?q)" "queue_entry ?q = avail q" "queue_len ?q = 1" "size_of_queue ?q = size_of_queue q" "m_Q ?q = (m_Q q)[avail q := e]"
    "avail ?q = (if (avail q + 1) mod size_of_queue q = avail q then size_of_queue q else (avail q + 1) mod size_of_queue q)"
    using e by (simp_all add: en_queue_def Let_def)
  have s: "slot ?q 0 = avail q" "slot ?q 1 = (avail q + 1) mod size_of_queue q" using q(2,4) e(3) by (simp_all add: slot_def)
  have "slot ?q 1 = avail q \<longleftrightarrow> size_of_queue q = 1" using slot_wrap [of ?q 1] q(2,4) e(3) by auto
  then have "queue_ok ?q" using q e s by (auto simp: queue_ok_def)
  moreover have "queue_list ?q = [e]" by (rule queue_list_cong [where n = 1]) (use q s e in auto)
  ultimately show ?thesis using q by blast
qed

lemma en_queue_more:
  assumes "queue_ok q" and "queue_list q \<noteq> []" and "length (queue_list q) < size_of_queue q"
  shows "\<exists>q'. en_queue e q = (Some (slot q (queue_len q)), q') \<and> queue_ok q' \<and> queue_list q' = queue_list q @ [e] \<and>
    size_of_queue q' = size_of_queue q \<and> queue_entry q' = queue_entry q"
proof -
  have e: "queue_entry q < size_of_queue q" "0 < queue_len q" "queue_len q < size_of_queue q" "avail q = slot q (queue_len q)" "length (m_Q q) = size_of_queue q"
    using assms queue_empty_iff [OF assms(1)] by (auto simp: queue_ok_def split: if_splits)
  have a: "avail q < size_of_queue q" using e slot_less [of q] by simp
  let ?q = "snd (en_queue e q)"
  have av: "(avail q + 1) mod size_of_queue q = slot q (Suc (queue_len q))" unfolding e(4) by (rule slot_Suc)
  have q: "en_queue e q = (Some (slot q (queue_len q)), ?q)" "queue_entry ?q = queue_entry q" "queue_len ?q = Suc (queue_len q)"
    "size_of_queue ?q = size_of_queue q" "m_Q ?q = (m_Q q)[slot q (queue_len q) := e]"
    "avail ?q = (if slot q (Suc (queue_len q)) = queue_entry q then size_of_queue q else slot q (Suc (queue_len q)))"
    using e a av by (simp_all add: en_queue_def Let_def)
  have s: "slot ?q = slot q" using q(2,4) by (simp add: slot_def fun_eq_iff)
  have "queue_ok ?q" using q e s slot_wrap [of q "Suc (queue_len q)"] by (auto simp: queue_ok_def)
  moreover have "queue_list ?q = queue_list q @ [e]"
  proof (rule queue_list_cong [OF q(3)])
    fix i assume i: "i < Suc (queue_len q)"
    show "m_Q ?q ! slot ?q i = (queue_list q @ [e]) ! i"
    proof (cases "i = queue_len q")
      case True
      then show ?thesis using q(5) s a e(4,5) by (simp add: nth_append)
    next
      case False
      then have "slot q i \<noteq> slot q (queue_len q)" using slot_inj [of i q "queue_len q"] i e(3) by simp
      then show ?thesis using q(5) s i False by (simp add: nth_append queue_list_nth)
    qed
  qed simp
  ultimately show ?thesis using q by blast
qed

lemma queue_nonempty:
  assumes "queue_ok q" and "queue_list q \<noteq> []"
  shows "queue_entry q < size_of_queue q" "0 < queue_len q" "queue_len q \<le> size_of_queue q" "queue_entry q \<noteq> size_of_queue q"
    "avail q = (if queue_len q = size_of_queue q then size_of_queue q else slot q (queue_len q))" "length (m_Q q) = size_of_queue q"
  using assms queue_empty_iff [OF assms(1)] by (auto simp: queue_ok_def split: if_splits)

lemma de_queue_laws:
  assumes "queue_ok q" and "queue_list q \<noteq> []"
  shows "\<exists>q'. de_queue q = (Some (queue_entry q, hd (queue_list q)), q') \<and> queue_ok q' \<and> queue_list q' = tl (queue_list q) \<and>
    size_of_queue q' = size_of_queue q \<and> m_Q q' = m_Q q \<and> (tl (queue_list q) \<noteq> [] \<longrightarrow> queue_entry q' = slot q 1)"
proof -
  note e = queue_nonempty [OF assms]
  let ?q = "snd (de_queue q)"
  have item: "m_Q q ! queue_entry q = hd (queue_list q)" using assms(2) e(2) slot_0 [OF e(1)] queue_list_nth [of 0 q] by (simp add: hd_conv_nth)
  have ent: "(queue_entry q + 1) mod size_of_queue q = slot q 1" by (simp add: slot_def)
  have av: "(if avail q = size_of_queue q then queue_entry q else avail q) = slot q (queue_len q)"
    using e slot_less [of q "queue_len q"] slot_wrap [of q "queue_len q"] by (auto split: if_splits)
  have q: "de_queue q = (Some (queue_entry q, hd (queue_list q)), ?q)" "queue_len ?q = queue_len q - 1" "avail ?q = slot q (queue_len q)"
    "queue_entry ?q = (if slot q (queue_len q) = slot q 1 then size_of_queue q else slot q 1)" "size_of_queue ?q = size_of_queue q" "m_Q ?q = m_Q q"
    unfolding de_queue_def Let_def av ent item if_not_P [OF e(4)] by simp_all
  have one: "slot q (queue_len q) = slot q 1 \<longleftrightarrow> queue_len q = 1"
  proof (cases "queue_len q = size_of_queue q")
    case True
    then have "slot q (queue_len q) = queue_entry q" using slot_wrap [OF e(1-3)] by simp
    moreover have "slot q 1 = queue_entry q \<longleftrightarrow> 1 = size_of_queue q" using slot_wrap [OF e(1), of 1] e(1) by simp
    ultimately show ?thesis using True by metis
  next
    case False
    then show ?thesis using slot_inj [of "queue_len q" q 1] e(2,3) by simp
  qed
  have lt: "slot q i < size_of_queue q" for i using slot_less [of q i] e(1) by simp
  show ?thesis
  proof (cases "queue_len q = 1")
    case True
    then have "queue_ok ?q" "queue_list ?q = tl (queue_list q)" "tl (queue_list q) = []"
      using q e one lt assms(1) by (auto simp: queue_ok_def queue_list_def)
    then show ?thesis using q by blast
  next
    case False
    then have s: "slot ?q i = slot q (Suc i)" for i using q one by (simp add: slot_def mod_add_left_eq)
    have "queue_ok ?q" using q e one lt [of 1] lt [of "queue_len q"] False s by (auto simp: queue_ok_def)
    moreover have "queue_list ?q = tl (queue_list q)"
      by (rule queue_list_cong [OF q(2)]) (use s q(6) e(2) in \<open>auto simp: nth_tl queue_list_nth\<close>)
    ultimately show ?thesis using q one False by auto
  qed
qed

lemma de_tail_laws:
  assumes "queue_ok q" and "queue_list q \<noteq> []"
  shows "\<exists>q'. de_tail q = (Some (slot q (queue_len q - 1), last (queue_list q)), q') \<and> queue_ok q' \<and> queue_list q' = butlast (queue_list q) \<and>
    size_of_queue q' = size_of_queue q"
proof -
  note e = queue_nonempty [OF assms]
  let ?q = "snd (de_tail q)"
  have lt: "slot q i < size_of_queue q" for i using slot_less [of q i] e(1) by simp
  have av: "(queue_entry q + queue_len q - 1) mod size_of_queue q = slot q (queue_len q - 1)" using e(2) by (simp add: slot_def)
  have item: "m_Q q ! slot q (queue_len q - 1) = last (queue_list q)" using assms(2) e(2) queue_list_nth [of "queue_len q - 1" q] by (simp add: last_conv_nth)
  have q: "de_tail q = (Some (slot q (queue_len q - 1), last (queue_list q)), ?q)" "queue_len ?q = queue_len q - 1" "avail ?q = slot q (queue_len q - 1)"
    "queue_entry ?q = (if slot q (queue_len q - 1) = queue_entry q then size_of_queue q else queue_entry q)" "size_of_queue ?q = size_of_queue q" "m_Q ?q = m_Q q"
    unfolding de_tail_def Let_def av item if_not_P [OF e(4)] by simp_all
  have one: "slot q (queue_len q - 1) = queue_entry q \<longleftrightarrow> queue_len q = 1"
    using e slot_0 [OF e(1)] slot_wrap [of q "queue_len q - 1"] by (cases "queue_len q = 1") auto
  show ?thesis
  proof (cases "queue_len q = 1")
    case True
    then have "queue_ok ?q" using q e one lt by (auto simp: queue_ok_def)
    moreover have "queue_list ?q = butlast (queue_list q)" using q(2) True by (simp add: queue_list_def)
    ultimately show ?thesis using q by blast
  next
    case False
    then have s: "slot ?q = slot q" using q one by (simp add: slot_def fun_eq_iff)
    have "queue_ok ?q" using q e one lt False s by (auto simp: queue_ok_def)
    moreover have "queue_list ?q = butlast (queue_list q)"
      by (rule queue_list_cong [OF q(2)]) (use s q(6) e(2) in \<open>auto simp: nth_butlast queue_list_nth\<close>)
    ultimately show ?thesis using q by blast
  qed
qed

text \<open>The order of two indices in the queue, and the indices that are in it.\<close>

lemma queue_gt_order:
  assumes "queue_ok q" and "i < queue_len q" and "j < queue_len q"
  shows "queue_gt (slot q i) (slot q j) q \<longleftrightarrow> i > j"
proof -
  have e: "queue_entry q < size_of_queue q" "queue_len q \<le> size_of_queue q" using assms by (auto simp: queue_ok_def split: if_splits)
  have s: "slot q k = (if queue_entry q + k < size_of_queue q then queue_entry q + k else queue_entry q + k - size_of_queue q)"
    if "k < queue_len q" for k using that e by (simp add: slot_def mod_if le_mod_geq)
  show ?thesis using assms(2,3) e by (auto simp: queue_gt_def s)
qed

text \<open>In a full queue \<open>in\<close> leaves out the indices before the head, which are in the queue.\<close>

lemma queue_in_full: "queue_ok q \<Longrightarrow> queue_len q = size_of_queue q \<Longrightarrow> k < size_of_queue q \<Longrightarrow> queue_in k q \<longleftrightarrow> queue_entry q \<le> k"
  by (auto simp: queue_in_def queue_ok_def queue_empty_def split: if_splits)

section \<open>The interface of a bounded queue\<close>

text \<open>A history of operations on a queue: the answers, and what is left.\<close>

datatype 'e queue_op = Enqueue 'e | Dequeue

datatype 'e queue_answer = Inserted bool | Removed "'e option"

fun run_queue :: "('e \<Rightarrow> 'q \<Rightarrow> bool \<times> 'q) \<Rightarrow> ('q \<Rightarrow> 'e option \<times> 'q) \<Rightarrow> 'e queue_op list \<Rightarrow> 'q \<Rightarrow> 'e queue_answer list \<times> 'q" where
  "run_queue enq deq [] q = ([], q)"
| "run_queue enq deq (Enqueue e # ops) q = (let (b, q1) = enq e q; (as, q2) = run_queue enq deq ops q1 in (Inserted b # as, q2))"
| "run_queue enq deq (Dequeue # ops) q = (let (r, q1) = deq q; (as, q2) = run_queue enq deq ops q1 in (Removed r # as, q2))"

definition list_enq :: "nat \<Rightarrow> 'e \<Rightarrow> 'e list \<Rightarrow> bool \<times> 'e list" where
  "list_enq n e xs = (if length xs < n then (True, xs @ [e]) else (False, xs))"

definition list_deq :: "'e list \<Rightarrow> 'e option \<times> 'e list" where
  "list_deq xs = (case xs of [] \<Rightarrow> (None, []) | x # ys \<Rightarrow> (Some x, ys))"

locale bounded_queue =
  fixes inv :: "'q \<Rightarrow> bool" and contents :: "'q \<Rightarrow> 'e list" and capacity :: "'q \<Rightarrow> nat"
    and enq :: "'e \<Rightarrow> 'q \<Rightarrow> bool \<times> 'q" and deq :: "'q \<Rightarrow> 'e option \<times> 'q"
  assumes enq_refines: "inv q \<Longrightarrow> enq e q = (b, q') \<Longrightarrow> inv q' \<and> capacity q' = capacity q \<and> list_enq (capacity q) e (contents q) = (b, contents q')"
    and deq_refines: "inv q \<Longrightarrow> deq q = (r, q') \<Longrightarrow> inv q' \<and> capacity q' = capacity q \<and> list_deq (contents q) = (r, contents q')"
begin

lemma run_refines:
  "inv q \<Longrightarrow> run_queue enq deq ops q = (as, q') \<Longrightarrow>
   inv q' \<and> capacity q' = capacity q \<and> run_queue (list_enq (capacity q)) list_deq ops (contents q) = (as, contents q')"
proof (induction ops arbitrary: q as)
  case Nil
  then show ?case by simp
next
  case (Cons op ops)
  show ?case
  proof (cases op)
    case (Enqueue e)
    obtain b q1 as1 where q1: "enq e q = (b, q1)" "run_queue enq deq ops q1 = (as1, q')" "as = Inserted b # as1"
      using Cons.prems(2) Enqueue by (auto split: prod.splits)
    then show ?thesis using enq_refines [OF Cons.prems(1) q1(1)] Cons.IH [of q1 as1] Enqueue by auto
  next
    case Dequeue
    obtain r q1 as1 where q1: "deq q = (r, q1)" "run_queue enq deq ops q1 = (as1, q')" "as = Removed r # as1"
      using Cons.prems(2) Dequeue by (auto split: prod.splits)
    then show ?thesis using deq_refines [OF Cons.prems(1) q1(1)] Cons.IH [of q1 as1] Dequeue by auto
  qed
qed

end

text \<open>Both sets of functions provide it.\<close>

definition queue_enq :: "'e \<Rightarrow> 'e circular_buffer_queue \<Rightarrow> bool \<times> 'e circular_buffer_queue" where
  "queue_enq e q = (let (r, q') = en_queue e q in (r \<noteq> None, q'))"

definition queue_deq :: "'e circular_buffer_queue \<Rightarrow> 'e option \<times> 'e circular_buffer_queue" where
  "queue_deq q = (let (r, q') = de_queue q in (map_option snd r, q'))"

definition jobs_enq :: "'e \<Rightarrow> 'e circular_buffer_queue \<Rightarrow> bool \<times> 'e circular_buffer_queue" where
  "jobs_enq e q = (let (r, q') = jobs_en_queue e q in (r \<noteq> -1, q'))"

lemma jobs_same: "jobs_enq = queue_enq" "jobs_de_queue = queue_deq"
  by (simp_all add: fun_eq_iff jobs_enq_def queue_enq_def jobs_en_queue_def en_queue_def queue_deq_def jobs_de_queue_def de_queue_def Let_def)

lemma queue_enq_refines:
  assumes "queue_ok q" and "queue_enq e q = (b, q')"
  shows "queue_ok q' \<and> size_of_queue q' = size_of_queue q \<and> list_enq (size_of_queue q) e (queue_list q) = (b, queue_list q')"
proof (cases "length (queue_list q) = size_of_queue q")
  case True
  then show ?thesis using assms queue_full_iff [OF assms(1)] by (auto simp: queue_enq_def en_queue_def list_enq_def)
next
  case False
  then have "length (queue_list q) < size_of_queue q" using assms(1) by (auto simp: queue_ok_def split: if_splits)
  then show ?thesis
    using en_queue_empty [OF assms(1), of e] en_queue_more [OF assms(1), of e] assms(2)
    by (cases "queue_list q = []") (auto simp: queue_enq_def list_enq_def)
qed

lemma queue_deq_refines:
  assumes "queue_ok q" and "queue_deq q = (r, q')"
  shows "queue_ok q' \<and> size_of_queue q' = size_of_queue q \<and> list_deq (queue_list q) = (r, queue_list q')"
proof (cases "queue_list q = []")
  case True
  then show ?thesis using assms queue_empty_iff [OF assms(1)] by (auto simp: queue_deq_def de_queue_def list_deq_def)
next
  case False
  then show ?thesis using de_queue_laws [OF assms(1) False] assms(2) by (cases "queue_list q") (auto simp: queue_deq_def list_deq_def)
qed

interpretation cq: bounded_queue queue_ok queue_list size_of_queue queue_enq queue_deq
  by unfold_locales (rule queue_enq_refines queue_deq_refines; assumption)+

interpretation jq: bounded_queue queue_ok queue_list size_of_queue jobs_enq jobs_de_queue
  by (simp only: jobs_same cq.bounded_queue_axioms)

end
