(* ===== verification/Mts_Scheduler.thy ===== *)
theory Mts_Scheduler
  imports Circular_Queue Trx_Tracking "HOL-Library.Monad_Syntax"
begin

text \<open>
  The parallel applier of a replica: the queue of assigned groups of \<^verbatim>\<open>sql/rpl_rli_pdb.cc\<close>, the scheduler by
  logical timestamps of \<^verbatim>\<open>sql/rpl_mts_submode.cc\<close>, the checkpoint of \<^verbatim>\<open>sql/rpl_slave.cc\<close> and the places of
  \<^verbatim>\<open>sql/log_event.cc\<close> where a group begins and gets its worker. \<open>None\<close> says that the code would read
  outside an array; a loop that waits takes for every wait the function that the workers apply to the
  state, and is \<open>None\<close> when it never ends.
\<close>

section \<open>Groups and their queue\<close>

record job_group =
  group_master_log_pos :: nat
  group_relay_log_name :: "string option"
  group_relay_log_pos :: nat
  worker_id :: "nat option"
  total_seqno :: nat
  master_log_pos :: nat
  job_done :: bool
  job_last_committed :: int
  job_sequence_number :: int

text \<open>\<open>worker_id\<close> is \<open>None\<close> for \<open>MTS_WORKER_UNDEF\<close>.\<close>

definition job_reset :: "nat \<Rightarrow> nat \<Rightarrow> job_group" where
  "job_reset master_pos seqno =
     \<lparr>group_master_log_pos = 0, group_relay_log_name = None, group_relay_log_pos = 0, worker_id = None, total_seqno = seqno,
      master_log_pos = master_pos, job_done = False, job_last_committed = SEQ_UNINIT, job_sequence_number = SEQ_UNINIT\<rparr>"

record committed_queue =
  jobs :: "job_group circular_buffer_queue"
  lwm :: job_group
  last_done :: "nat list"
  assigned_group_index :: nat

text \<open>
  The constructor of the queue; the elements, the rest of the mark and the index of the group that is being
  assigned start with what the memory holds.
\<close>

definition Slave_committed_queue :: "job_group \<Rightarrow> job_group \<Rightarrow> nat \<Rightarrow> nat \<Rightarrow> nat \<Rightarrow> committed_queue" where
  "Slave_committed_queue e l ind max_len n =
     \<lparr>jobs = circular_buffer_queue e max_len, lwm = l\<lparr>group_relay_log_name := Some [], job_sequence_number := SEQ_UNINIT\<rparr>,
      last_done = replicate n 0, assigned_group_index = ind\<rparr>"

definition get_job_group :: "nat \<Rightarrow> committed_queue \<Rightarrow> job_group option" where
  "get_job_group ind g = (if ind < length (m_Q (jobs g)) then Some (m_Q (jobs g) ! ind) else None)"

definition set_job_group :: "nat \<Rightarrow> (job_group \<Rightarrow> job_group) \<Rightarrow> committed_queue \<Rightarrow> committed_queue" where
  "set_job_group ind f g = g\<lparr>jobs := (jobs g)\<lparr>m_Q := (m_Q (jobs g))[ind := f (m_Q (jobs g) ! ind)]\<rparr>\<rparr>"

text \<open>
  \<open>move_queue_head\<close>. The name of the relay log goes from the group into the buffer of \<open>lwm\<close>, which keeps
  its contents when the group has none.
\<close>

partial_function (option) move_head_loop :: "nat \<Rightarrow> nat \<Rightarrow> committed_queue \<Rightarrow> (nat \<times> committed_queue) option" where
  "move_head_loop i cnt g =
     (if i = avail (jobs g) \<or> queue_empty (jobs g) then Some (cnt, g)
      else do {
        ptr_g \<leftarrow> get_job_group i g;
        (if worker_id ptr_g = None \<or> \<not> job_done ptr_g then Some (cnt, g)
         else do {
           w \<leftarrow> worker_id ptr_g;
           let name = (case group_relay_log_name ptr_g of Some (c # cs) \<Rightarrow> Some (c # cs) | _ \<Rightarrow> group_relay_log_name (lwm g));
           let g1 = set_job_group i (group_relay_log_name_update (\<lambda>_. None)) g;
           let (r, q) = de_queue (jobs g1);
           (_, item) \<leftarrow> r;
           (if w < length (last_done g)
            then move_head_loop ((i + 1) mod size_of_queue q) (cnt + 1)
                   (g1\<lparr>jobs := q, lwm := item\<lparr>group_relay_log_name := name\<rparr>, last_done := (last_done g)[w := total_seqno ptr_g]\<rparr>)
            else None) }) })"

definition move_queue_head :: "committed_queue \<Rightarrow> (nat \<times> committed_queue) option" where
  "move_queue_head g = move_head_loop (queue_entry (jobs g)) 0 g"

text \<open>
  \<open>find_lwm\<close>: the loop runs over the groups from the start index to the end of the queue; the number of
  them is computed in unsigned arithmetic. The result is the index \<open>size\<close>, or the index and the group.
\<close>

fun find_lwm_loop :: "nat \<Rightarrow> nat \<Rightarrow> nat \<Rightarrow> committed_queue \<Rightarrow> nat option option" where
  "find_lwm_loop 0 i cnt g = Some (Some i)"
| "find_lwm_loop (Suc n) i cnt g = do {
     ptr_g \<leftarrow> get_job_group i g;
     (if \<not> job_done ptr_g then Some (if cnt = 0 then None else Some i)
      else find_lwm_loop n ((i + 1) mod size_of_queue (jobs g)) (cnt + 1) g) }"

definition find_lwm :: "nat \<Rightarrow> committed_queue \<Rightarrow> (nat \<times> job_group option) option" where
  "find_lwm start_index g =
     (let q = jobs g; size = size_of_queue q in
      if queue_empty q then Some (size, None)
      else
        let skipped = (start_index + size - queue_entry q) mod size;
            n = (if skipped \<le> queue_len q then queue_len q - skipped else 2 ^ 64 + queue_len q - skipped) in
        do {
          r \<leftarrow> find_lwm_loop n start_index 0 g;
          (case r of
             None \<Rightarrow> Some (size, None)
           | Some i \<Rightarrow> let k = (i + size - 1) mod size in do { ptr_g \<leftarrow> get_job_group k g; Some (k, Some ptr_g) }) })"

section \<open>The scheduler\<close>

datatype running_state = NOT_RUNNING | RUNNING | ERROR_LEAVING | STOP | STOP_ACCEPTED

text \<open>The state of \<open>Mts_submode_logical_clock\<close> and what it uses of \<open>Relay_log_info\<close> and of the sessions.\<close>

record mts =
  gaq :: committed_queue
  first_event :: bool
  force_new_group :: bool
  is_new_group :: bool
  delegated_jobs :: nat
  last_lwm_timestamp :: int
  last_lwm_index :: nat
  last_committed :: int
  sequence_number :: int
  jobs_done :: nat
  is_error :: bool
  min_waited_timestamp :: int
  slave_killed :: bool
  thd_killed :: bool
  running_status :: "running_state list"
  mts_in_group :: bool
  last_assigned_worker :: "nat option"
  mts_groups_assigned :: nat
  rli_master_log_pos :: nat
  rli_relay_log_pos :: nat
  rli_relay_log_name :: string
  jobs_len :: "nat list"

definition INDEX_UNDEF :: nat where
  "INDEX_UNDEF = 2 ^ 64 - 1"

definition Mts_submode_logical_clock :: "mts \<Rightarrow> mts" where
  "Mts_submode_logical_clock st =
     st\<lparr>first_event := True, force_new_group := False, is_new_group := True, delegated_jobs := 0, jobs_done := 0,
       last_lwm_timestamp := SEQ_UNINIT, last_lwm_index := INDEX_UNDEF, is_error := False, min_waited_timestamp := SEQ_UNINIT,
       last_committed := SEQ_UNINIT, sequence_number := SEQ_UNINIT\<rparr>"

definition clock_leq :: "int \<Rightarrow> int \<Rightarrow> bool" where
  "clock_leq a b = (if a = SEQ_UNINIT then True else if b = SEQ_UNINIT then False else a \<le> b)"

definition start_new_group :: "mts \<Rightarrow> mts" where
  "start_new_group st = st\<lparr>force_new_group := True, first_event := True\<rparr>"

definition withdraw_delegated_job :: "mts \<Rightarrow> mts" where
  "withdraw_delegated_job st = st\<lparr>delegated_jobs := delegated_jobs st - 1\<rparr>"

definition get_lwm_timestamp :: "mts \<Rightarrow> (int \<times> mts) option" where
  "get_lwm_timestamp st =
     (let lwm_estim = job_sequence_number (lwm (gaq st));
          is_stale = (lwm_estim \<noteq> SEQ_UNINIT \<and> clock_leq (last_lwm_timestamp st) lwm_estim);
          start = (if lwm_estim = SEQ_UNINIT \<or> is_stale then queue_entry (jobs (gaq st)) else last_lwm_index st) in
      do {
        (k, g) \<leftarrow> find_lwm start (gaq st);
        let st1 = st\<lparr>last_lwm_index := k\<rparr>;
        (if k \<noteq> size_of_queue (jobs (gaq st))
         then do { ptr_g \<leftarrow> g; Some (job_sequence_number ptr_g, st1\<lparr>last_lwm_timestamp := job_sequence_number ptr_g\<rparr>) }
         else if is_stale then Some (lwm_estim, st1\<lparr>last_lwm_timestamp := lwm_estim\<rparr>)
         else Some (last_lwm_timestamp st1, st1)) })"

subsection \<open>Waiting for a commit parent\<close>

partial_function (option) lwm_wait_loop :: "(nat \<Rightarrow> mts \<Rightarrow> mts) \<Rightarrow> nat \<Rightarrow> int \<Rightarrow> mts \<Rightarrow> mts option" where
  "lwm_wait_loop env n last_committed_arg st =
     (let st1 = env n st in
      if \<not> thd_killed st1 \<and> \<not> is_error st1 \<and> \<not> clock_leq last_committed_arg (last_lwm_timestamp st1)
      then lwm_wait_loop env (n + 1) last_committed_arg st1
      else Some st1)"

definition wait_for_last_committed_trx :: "(nat \<Rightarrow> mts \<Rightarrow> mts) \<Rightarrow> int \<Rightarrow> mts \<Rightarrow> (bool \<times> mts) option" where
  "wait_for_last_committed_trx env last_committed_arg st =
     (if last_committed_arg = SEQ_UNINIT then Some (False, st)
      else
        let st1 = st\<lparr>min_waited_timestamp := last_committed_arg\<rparr> in do {
          st2 \<leftarrow> (if \<not> thd_killed st1 \<and> \<not> is_error st1 then do {
                    (l, st3) \<leftarrow> get_lwm_timestamp st1;
                    (if \<not> clock_leq last_committed_arg l then lwm_wait_loop env 0 last_committed_arg st3 else Some st3) }
                  else Some st1);
          let st4 = st2\<lparr>min_waited_timestamp := SEQ_UNINIT\<rparr>;
          Some (thd_killed st4 \<or> is_error st4, st4) })"

subsection \<open>Checkpoints\<close>

text \<open>
  \<open>mts_checkpoint_routine\<close>. \<open>flush_error\<close> is the answer of \<open>flush_info\<close> in the checkpoint with this number of
  waits before it. The notification of the workers and the list of the least occupied workers, which the
  loop before the sort does not touch, are left out.
\<close>

partial_function (option) checkpoint_loop :: "(nat \<Rightarrow> mts \<Rightarrow> mts) \<Rightarrow> nat \<Rightarrow> bool \<Rightarrow> mts \<Rightarrow> (nat \<times> nat \<times> mts) option" where
  "checkpoint_loop env n force st =
     (case move_queue_head (gaq st) of
        None \<Rightarrow> None
      | Some (cnt, g) \<Rightarrow>
          let st1 = st\<lparr>gaq := g\<rparr> in
          if \<not> slave_killed st1 \<and> cnt = 0 \<and> force then checkpoint_loop env (n + 1) force (env n st1)
          else Some (cnt, n, st1))"

definition mts_checkpoint_routine ::
  "(nat \<Rightarrow> mts \<Rightarrow> mts) \<Rightarrow> (nat \<Rightarrow> bool) \<Rightarrow> nat \<Rightarrow> bool \<Rightarrow> bool \<Rightarrow> mts \<Rightarrow> (bool \<times> nat \<times> mts) option" where
  "mts_checkpoint_routine env flush_error n too_early force st =
     (if \<not> force \<and> too_early then Some (False, n, st)
      else do {
        (cnt, n1, st1) \<leftarrow> checkpoint_loop env n force st;
        (if cnt = 0 then Some (False, n1, st1)
         else
           let l = lwm (gaq st1) in
           Some (flush_error n1, n1,
             st1\<lparr>jobs_done := jobs_done st1 + cnt, rli_master_log_pos := group_master_log_pos l, rli_relay_log_pos := group_relay_log_pos l,
                 rli_relay_log_name := (case group_relay_log_name l of Some (c # cs) \<Rightarrow> c # cs | _ \<Rightarrow> rli_relay_log_name st1)\<rparr>)) })"

text \<open>The workers also go on between two checkpoints.\<close>

partial_function (option) finish_loop :: "(nat \<Rightarrow> mts \<Rightarrow> mts) \<Rightarrow> (nat \<Rightarrow> bool) \<Rightarrow> nat \<Rightarrow> mts \<Rightarrow> (bool \<times> mts) option" where
  "finish_loop env flush_error n st =
     (if delegated_jobs st > jobs_done st \<and> \<not> thd_killed st \<and> \<not> is_error st then
        (case mts_checkpoint_routine env flush_error n False True st of
           None \<Rightarrow> None
         | Some (error, n1, st1) \<Rightarrow> if error then Some (True, st1) else finish_loop env flush_error (n1 + 1) (env n1 st1))
      else Some (False, st))"

definition reset_lwm_sequence :: "mts \<Rightarrow> mts" where
  "reset_lwm_sequence st = st\<lparr>gaq := (gaq st)\<lparr>lwm := (lwm (gaq st))\<lparr>job_sequence_number := SEQ_UNINIT\<rparr>\<rparr>\<rparr>"

definition wait_for_workers_to_finish :: "(nat \<Rightarrow> mts \<Rightarrow> mts) \<Rightarrow> (nat \<Rightarrow> bool) \<Rightarrow> mts \<Rightarrow> (int \<times> mts) option" where
  "wait_for_workers_to_finish env flush_error st = do {
     (error, st1) \<leftarrow> finish_loop env flush_error 0 st;
     (if error \<or> \<not> list_all (\<lambda>s. s = RUNNING) (running_status st1) then Some (-1, st1)
      else Some (0, (reset_lwm_sequence st1)\<lparr>mts_in_group := False\<rparr>)) }"

subsection \<open>The next group\<close>

definition ER_MTS_CANT_PARALLEL :: int where "ER_MTS_CANT_PARALLEL = 1755"

definition ER_MTS_INCONSISTENT_DATA :: int where "ER_MTS_INCONSISTENT_DATA = 1756"

text \<open>
  \<open>schedule_next_event\<close>. The event is a GTID event with its timestamps, or another one. The first part reads
  and checks the timestamps, the second waits.
\<close>

definition take_timestamps :: "(int \<times> int) option \<Rightarrow> mts \<Rightarrow> mts option" where
  "take_timestamps ev st =
     (let ind = assigned_group_index (gaq st) in do {
        _ \<leftarrow> get_job_group ind (gaq st);
        Some (case ev of
          Some (seq, parent) \<Rightarrow>
            st\<lparr>gaq := set_job_group ind (\<lambda>j. j\<lparr>job_sequence_number := seq, job_last_committed := parent\<rparr>) (gaq st),
               sequence_number := seq, last_committed := parent\<rparr>
        | None \<Rightarrow> st\<lparr>sequence_number := SEQ_UNINIT, last_committed := SEQ_UNINIT\<rparr>) })"

definition inconsistent_timestamps :: "int \<Rightarrow> mts \<Rightarrow> bool" where
  "inconsistent_timestamps last_sequence_number st \<longleftrightarrow>
     clock_leq (sequence_number st) (last_committed st) \<and> last_committed st \<noteq> SEQ_UNINIT \<or>
     clock_leq (sequence_number st) last_sequence_number \<and> sequence_number st \<noteq> SEQ_UNINIT"

definition schedule_in_group :: "(nat \<Rightarrow> mts \<Rightarrow> mts) \<Rightarrow> bool \<Rightarrow> mts \<Rightarrow> (int \<times> mts) option" where
  "schedule_in_group env gap_successor st =
     (let lwm_estimate = last_lwm_timestamp st in do {
        (fail, st1) \<leftarrow>
          (if \<not> clock_leq (last_committed st) lwm_estimate \<and> assigned_group_index (gaq st) \<noteq> queue_entry (jobs (gaq st)) then do {
             (b, st2) \<leftarrow> wait_for_last_committed_trx env (last_committed st) st;
             Some (b, if \<not> b \<and> gap_successor then st2\<lparr>last_lwm_timestamp := sequence_number st2 - 1\<rparr> else st2) }
           else Some (False, st));
        Some (if fail then (-1, st1) else (0, st1\<lparr>delegated_jobs := delegated_jobs st1 + 1\<rparr>)) })"

definition schedule_new_group :: "(nat \<Rightarrow> mts \<Rightarrow> mts) \<Rightarrow> (nat \<Rightarrow> bool) \<Rightarrow> mts \<Rightarrow> (int \<times> mts) option" where
  "schedule_new_group env flush_error st = do {
     (r, st1) \<leftarrow> wait_for_workers_to_finish env flush_error st;
     Some (if r = -1 then (ER_MTS_INCONSISTENT_DATA, st1)
       else (0, (reset_lwm_sequence st1)\<lparr>mts_in_group := True, last_lwm_timestamp := SEQ_UNINIT, delegated_jobs := 1, jobs_done := 0,
         force_new_group := False,
         last_assigned_worker := if sequence_number st1 = SEQ_UNINIT \<and> last_committed st1 = SEQ_UNINIT then Some 0 else last_assigned_worker st1\<rparr>)) }"

definition schedule_next_event :: "(nat \<Rightarrow> mts \<Rightarrow> mts) \<Rightarrow> (nat \<Rightarrow> bool) \<Rightarrow> (int \<times> int) option \<Rightarrow> mts \<Rightarrow> (int \<times> mts) option" where
  "schedule_next_event env flush_error ev st =
     (let last_sequence_number = sequence_number st in
      if slave_killed st then Some (0, st)
      else do {
        st1 \<leftarrow> take_timestamps ev st;
        (if \<not> first_event st1 \<and> inconsistent_timestamps last_sequence_number st1 then Some (ER_MTS_CANT_PARALLEL, st1)
         else
           let gap_successor = (\<not> first_event st1 \<and> sequence_number st1 > last_sequence_number + 1);
               st2 = st1\<lparr>first_event := False\<rparr>;
               new = (first_event st2 \<or> force_new_group st2 \<or> sequence_number st2 = SEQ_UNINIT \<or> last_committed st2 = SEQ_UNINIT \<or>
                 gap_successor \<or> last_sequence_number = SEQ_UNINIT);
               st3 = st2\<lparr>is_new_group := new\<rparr> in
           if \<not> new then schedule_in_group env gap_successor st3 else schedule_new_group env flush_error st3) })"

subsection \<open>Groups begin, get a worker and end\<close>

text \<open>
  The places of \<open>Log_event::get_slave_worker\<close> where a group is put into the queue and scheduled, and where it
  gets the worker that was chosen.
\<close>

definition begin_group :: "(nat \<Rightarrow> mts \<Rightarrow> mts) \<Rightarrow> (nat \<Rightarrow> bool) \<Rightarrow> nat \<Rightarrow> (int \<times> int) option \<Rightarrow> mts \<Rightarrow> (int \<times> mts) option" where
  "begin_group env flush_error log_pos ev st =
     (let n = mts_groups_assigned st + 1;
          (r, q) = en_queue (job_reset log_pos n) (jobs (gaq st)) in do {
        ind \<leftarrow> r;
        schedule_next_event env flush_error ev
          (st\<lparr>mts_groups_assigned := n, gaq := (gaq st)\<lparr>jobs := q, assigned_group_index := ind\<rparr>\<rparr>) })"

definition assign_worker :: "nat \<Rightarrow> mts \<Rightarrow> mts option" where
  "assign_worker w st = do {
     _ \<leftarrow> get_job_group (assigned_group_index (gaq st)) (gaq st);
     Some (st\<lparr>gaq := set_job_group (assigned_group_index (gaq st)) (worker_id_update (\<lambda>_. Some w)) (gaq st)\<rparr>) }"

text \<open>
  The choice of the worker: the one that has the events before, or the first whose queue is empty, for which
  the coordinator waits unless it is killed.
\<close>

definition get_free_worker :: "mts \<Rightarrow> nat option" where
  "get_free_worker st = find (\<lambda>i. jobs_len st ! i = 0) [0..<length (jobs_len st)]"

partial_function (option) free_worker_loop :: "(nat \<Rightarrow> mts \<Rightarrow> mts) \<Rightarrow> nat \<Rightarrow> nat option \<Rightarrow> mts \<Rightarrow> (nat option \<times> mts) option" where
  "free_worker_loop env n worker st =
     (if worker = None \<and> \<not> thd_killed st
      then (let st1 = env n st in free_worker_loop env (n + 1) (get_free_worker st1) st1)
      else Some (worker, st))"

definition get_least_occupied_worker :: "(nat \<Rightarrow> mts \<Rightarrow> mts) \<Rightarrow> mts \<Rightarrow> (nat option \<times> mts) option" where
  "get_least_occupied_worker env st =
     (case last_assigned_worker st of
        Some w \<Rightarrow> Some (Some w, st)
      | None \<Rightarrow> free_worker_loop env 0 (get_free_worker st) st)"

text \<open>
  \<open>Slave_worker::slave_worker_ends_group\<close>, for the scheduler by timestamps: the worker marks its group as
  done with the positions it has reached; when the coordinator waits, it looks for the new low-water mark.
  After an error it stops the coordinator.
\<close>

definition slave_worker_ends_group :: "nat \<Rightarrow> nat \<Rightarrow> nat \<Rightarrow> nat \<Rightarrow> bool \<Rightarrow> mts \<Rightarrow> mts option" where
  "slave_worker_ends_group w gaq_index master_pos relay_pos error st =
     (if error then
        Some ((if w < length (running_status st) \<and> running_status st ! w \<noteq> STOP_ACCEPTED
               then st\<lparr>running_status := (running_status st)[w := ERROR_LEAVING], thd_killed := True\<rparr> else st)\<lparr>is_error := True\<rparr>)
      else do {
        _ \<leftarrow> get_job_group gaq_index (gaq st);
        let st1 = st\<lparr>gaq := set_job_group gaq_index
          (\<lambda>j. j\<lparr>group_master_log_pos := master_pos, group_relay_log_pos := relay_pos, job_done := True\<rparr>) (gaq st)\<rparr>;
        (if min_waited_timestamp st1 \<noteq> SEQ_UNINIT then do { (_, st2) \<leftarrow> get_lwm_timestamp st1; Some st2 } else Some st1) })"

end
