(* ===== verification/Mts_Queue_Laws.thy ===== *)
theory Mts_Queue_Laws
  imports Mts_Scheduler
begin

text \<open>
  What the operations of the queue of assigned groups do to the list of groups that it holds: reading and
  changing a group, moving the head behind the groups that are done, and finding the low-water mark.
\<close>

abbreviation groups :: "committed_queue \<Rightarrow> job_group list" where
  "groups g \<equiv> queue_list (jobs g)"

section \<open>One group\<close>

lemma get_job_group_slot:
  assumes "queue_ok (jobs g)" and "i < length (groups g)"
  shows "get_job_group (slot (jobs g) i) g = Some (groups g ! i)"
proof -
  have "slot (jobs g) i < length (m_Q (jobs g))" using assms slot_less [of "jobs g" i] by (auto simp: queue_ok_def)
  then show ?thesis using assms(2) by (simp add: get_job_group_def queue_list_nth)
qed

lemma set_job_group_frame [simp]:
  "size_of_queue (jobs (set_job_group ind f g)) = size_of_queue (jobs g)" "queue_entry (jobs (set_job_group ind f g)) = queue_entry (jobs g)"
  "queue_len (jobs (set_job_group ind f g)) = queue_len (jobs g)" "avail (jobs (set_job_group ind f g)) = avail (jobs g)"
  "lwm (set_job_group ind f g) = lwm g" "last_done (set_job_group ind f g) = last_done g"
  "assigned_group_index (set_job_group ind f g) = assigned_group_index g" "slot (jobs (set_job_group ind f g)) = slot (jobs g)"
  "queue_ok (jobs (set_job_group ind f g)) \<longleftrightarrow> queue_ok (jobs g)"
  by (auto simp: set_job_group_def slot_def fun_eq_iff queue_ok_def)

lemma set_job_group_slot:
  assumes "queue_ok (jobs g)" and "i < length (groups g)"
  shows "groups (set_job_group (slot (jobs g) i) f g) = (groups g)[i := f (groups g ! i)]"
proof (rule queue_list_cong)
  have s: "slot (jobs g) j < length (m_Q (jobs g))" for j using assms slot_less [of "jobs g" j] by (auto simp: queue_ok_def)
  have len: "queue_len (jobs g) \<le> size_of_queue (jobs g)" using assms(1) by (auto simp: queue_ok_def split: if_splits)
  fix j assume j: "j < queue_len (jobs g)"
  show "m_Q (jobs (set_job_group (slot (jobs g) i) f g)) ! slot (jobs (set_job_group (slot (jobs g) i) f g)) j = (groups g)[i := f (groups g ! i)] ! j"
  proof (cases "j = i")
    case True
    then show ?thesis using s assms(2) by (simp add: set_job_group_def slot_def queue_list_nth)
  next
    case False
    then have "slot (jobs g) j \<noteq> slot (jobs g) i" using slot_inj [of j "jobs g" i] j assms(2) len by simp
    then show ?thesis using False j by (simp add: set_job_group_def slot_def queue_list_nth)
  qed
qed simp_all

section \<open>Moving the head\<close>

definition finished :: "job_group \<Rightarrow> bool" where
  "finished j \<longleftrightarrow> worker_id j \<noteq> None \<and> job_done j"

definition workers_ok :: "committed_queue \<Rightarrow> bool" where
  "workers_ok g \<longleftrightarrow> (\<forall>j \<in> set (groups g). \<forall>w. worker_id j = Some w \<longrightarrow> w < length (last_done g))"

lemma move_head_loop_laws:
  assumes "queue_ok (jobs g)" and "workers_ok g" and "groups g \<noteq> [] \<longrightarrow> i = queue_entry (jobs g)"
  shows "\<exists>g'. move_head_loop i cnt g = Some (cnt + length (takeWhile finished (groups g)), g') \<and> queue_ok (jobs g') \<and>
    groups g' = dropWhile finished (groups g) \<and> size_of_queue (jobs g') = size_of_queue (jobs g) \<and>
    length (last_done g') = length (last_done g) \<and> assigned_group_index g' = assigned_group_index g \<and>
    (groups g' \<noteq> [] \<longrightarrow> queue_entry (jobs g') = slot (jobs g) (length (takeWhile finished (groups g)))) \<and>
    job_sequence_number (lwm g') = (if takeWhile finished (groups g) = [] then job_sequence_number (lwm g)
      else job_sequence_number (last (takeWhile finished (groups g))))"
  using assms
proof (induction "length (groups g)" arbitrary: i cnt g)
  case 0
  then have e: "groups g = []" by (metis length_0_conv)
  then have "queue_empty (jobs g)" using queue_empty_iff [OF "0.prems"(1)] by (simp add: queue_empty_def)
  then show ?case using "0.prems"(1) e by (subst move_head_loop.simps) simp
next
  case (Suc n)
  have ne: "groups g \<noteq> []" using Suc.hyps(2) by (metis length_0_conv nat.distinct(1))
  note e = queue_nonempty [OF Suc.prems(1) ne]
  have i: "i = queue_entry (jobs g)" "i = slot (jobs g) 0" using Suc.prems(3) ne slot_0 [OF e(1)] by simp_all
  have na: "i \<noteq> avail (jobs g)" "\<not> queue_empty (jobs g)"
    using e slot_wrap [OF e(1-3)] i(1) by (auto simp: queue_empty_def)
  let ?h = "hd (groups g)" and ?g1 = "set_job_group i (group_relay_log_name_update (\<lambda>_. None)) g"
  have h: "get_job_group i g = Some ?h" using get_job_group_slot [OF Suc.prems(1), of 0] ne i(2) e(2) by (simp add: hd_conv_nth)
  show ?case
  proof (cases "finished ?h")
    case False
    then have "takeWhile finished (groups g) = []" "dropWhile finished (groups g) = groups g" using ne by (cases "groups g"; simp)+
    moreover have "move_head_loop i cnt g = Some (cnt, g)"
      using na h False by (subst move_head_loop.simps) (auto simp: finished_def)
    ultimately show ?thesis using Suc.prems(1) slot_0 [OF e(1)] by simp
  next
    case True
    obtain w where w: "worker_id ?h = Some w" "job_done ?h" using True by (auto simp: finished_def)
    have wl: "w < length (last_done g)" using Suc.prems(2) w(1) ne by (auto simp: workers_ok_def)
    have g1: "groups ?g1 = (groups g)[0 := ?h\<lparr>group_relay_log_name := None\<rparr>]" "queue_ok (jobs ?g1)"
      using set_job_group_slot [OF Suc.prems(1), of 0] i(2) e(2) ne Suc.prems(1) by (simp_all add: hd_conv_nth)
    then have g1': "hd (groups ?g1) = ?h\<lparr>group_relay_log_name := None\<rparr>" "tl (groups ?g1) = tl (groups g)" "groups ?g1 \<noteq> []"
      using ne by (cases "groups g"; simp)+
    obtain q where q: "de_queue (jobs ?g1) = (Some (queue_entry (jobs ?g1), hd (groups ?g1)), q)" "queue_ok q" "queue_list q = tl (groups g)"
        "size_of_queue q = size_of_queue (jobs g)" "tl (groups g) \<noteq> [] \<longrightarrow> queue_entry q = slot (jobs g) 1"
      using de_queue_laws [OF g1(2) g1'(3)] g1'(2) by auto
    let ?name = "case group_relay_log_name ?h of Some (c # cs) \<Rightarrow> Some (c # cs) | _ \<Rightarrow> group_relay_log_name (lwm g)"
    define g2 where "g2 = ?g1\<lparr>jobs := q, lwm := ?h\<lparr>group_relay_log_name := ?name\<rparr>, last_done := (last_done g)[w := total_seqno ?h]\<rparr>"
    have step: "move_head_loop i cnt g = move_head_loop (slot (jobs g) 1) (cnt + 1) g2"
      using na h w wl q(1) g1'(1) i(1) by (subst move_head_loop.simps) (simp add: q(4) slot_def g2_def)
    have g2: "groups g2 = tl (groups g)" "queue_ok (jobs g2)" "n = length (groups g2)" "size_of_queue (jobs g2) = size_of_queue (jobs g)"
        "length (last_done g2) = length (last_done g)" "assigned_group_index g2 = assigned_group_index g"
        "job_sequence_number (lwm g2) = job_sequence_number ?h"
      using q(2-4) Suc.hyps(2) by (simp_all add: g2_def flip: length_queue_list)
    have p2: "workers_ok g2" using Suc.prems(2) list.set_sel(2) [OF ne] by (auto simp: workers_ok_def g2)
    have p3: "groups g2 \<noteq> [] \<longrightarrow> slot (jobs g) 1 = queue_entry (jobs g2)" using q(5) g2(1) by (simp add: g2_def)
    have tl: "slot (jobs g2) k = slot (jobs g) (Suc k)" if "groups g2 \<noteq> []" for k
    proof -
      have "queue_entry (jobs g2) = (queue_entry (jobs g) + 1) mod size_of_queue (jobs g)" using p3 that by (simp add: slot_def)
      then show ?thesis by (simp add: slot_def g2(4) mod_add_left_eq)
    qed
    have tw: "takeWhile finished (groups g) = ?h # takeWhile finished (groups g2)" "dropWhile finished (groups g) = dropWhile finished (groups g2)"
      using True ne g2(1) by (cases "groups g"; simp)+
    from Suc.hyps(1) [OF g2(3,2) p2 p3, of "cnt + 1"] obtain g' where g':
        "move_head_loop (slot (jobs g) 1) (cnt + 1) g2 = Some (cnt + 1 + length (takeWhile finished (groups g2)), g')"
        "queue_ok (jobs g')" "groups g' = dropWhile finished (groups g2)" "size_of_queue (jobs g') = size_of_queue (jobs g2)"
        "length (last_done g') = length (last_done g2)" "assigned_group_index g' = assigned_group_index g2"
        "groups g' \<noteq> [] \<longrightarrow> queue_entry (jobs g') = slot (jobs g2) (length (takeWhile finished (groups g2)))"
        "job_sequence_number (lwm g') = (if takeWhile finished (groups g2) = [] then job_sequence_number (lwm g2)
          else job_sequence_number (last (takeWhile finished (groups g2))))" by blast
    have "groups g' \<noteq> [] \<Longrightarrow> groups g2 \<noteq> []" using g'(3) by auto
    then show ?thesis unfolding step tw using g' tl g2 by auto
  qed
qed

lemma move_queue_head_laws:
  assumes "queue_ok (jobs g)" and "workers_ok g"
  shows "\<exists>g'. move_queue_head g = Some (length (takeWhile finished (groups g)), g') \<and> queue_ok (jobs g') \<and>
    groups g' = dropWhile finished (groups g) \<and> size_of_queue (jobs g') = size_of_queue (jobs g) \<and>
    length (last_done g') = length (last_done g) \<and> assigned_group_index g' = assigned_group_index g \<and>
    (groups g' \<noteq> [] \<longrightarrow> queue_entry (jobs g') = slot (jobs g) (length (takeWhile finished (groups g)))) \<and>
    job_sequence_number (lwm g') = (if takeWhile finished (groups g) = [] then job_sequence_number (lwm g)
      else job_sequence_number (last (takeWhile finished (groups g))))"
  using move_head_loop_laws [OF assms, of "queue_entry (jobs g)" 0] by (simp add: move_queue_head_def)

section \<open>The low-water mark\<close>

lemma find_lwm_loop_laws:
  assumes "queue_ok (jobs g)" and "s + n = length (groups g)"
  shows "find_lwm_loop n (slot (jobs g) s) cnt g =
    Some (if cnt = 0 \<and> n \<noteq> 0 \<and> \<not> job_done (groups g ! s) then None else Some (slot (jobs g) (s + length (takeWhile job_done (drop s (groups g))))))"
  using assms(2)
proof (induction n arbitrary: s cnt)
  case 0
  then show ?case by simp
next
  case (Suc n)
  have s: "s < length (groups g)" using Suc.prems by simp
  have d: "drop s (groups g) = groups g ! s # drop (Suc s) (groups g)" using s by (rule Cons_nth_drop_Suc [symmetric])
  have n: "(slot (jobs g) s + 1) mod size_of_queue (jobs g) = slot (jobs g) (Suc s)" by (rule slot_Suc)
  show ?case using get_job_group_slot [OF assms(1) s] Suc.IH [of "Suc s" "cnt + 1"] Suc.prems n by (auto simp: d)
qed

lemma slot_back:
  assumes "0 < size_of_queue q"
  shows "(slot q (Suc k) + size_of_queue q - 1) mod size_of_queue q = slot q k"
proof -
  have "slot q (Suc k) = (if Suc (slot q k) = size_of_queue q then 0 else Suc (slot q k))"
    using slot_Suc [of q k] slot_less [OF assms, of k] by (auto simp: mod_Suc)
  then show ?thesis using slot_less [OF assms, of k] by auto
qed

lemma slot_offset:
  assumes "queue_entry q < size_of_queue q" and "s < size_of_queue q"
  shows "(slot q s + size_of_queue q - queue_entry q) mod size_of_queue q = s"
proof (cases "queue_entry q + s < size_of_queue q")
  case True
  then show ?thesis using assms by (simp add: slot_def)
next
  case False
  then have "slot q s = queue_entry q + s - size_of_queue q" using assms by (simp add: slot_def mod_if)
  then show ?thesis using assms False by simp
qed

lemma takeWhile_drop_length:
  "s \<le> length xs \<Longrightarrow> \<forall>i < s. P (xs ! i) \<Longrightarrow> s + length (takeWhile P (drop s xs)) = length (takeWhile P xs)"
proof (induction xs arbitrary: s)
  case (Cons x xs)
  show ?case
  proof (cases s)
    case (Suc r)
    have "P x" "\<forall>i < r. P (xs ! i)" using Cons.prems(2) unfolding Suc by (force, auto)
    then show ?thesis using Cons.IH [of r] Cons.prems(1) by (simp add: Suc)
  qed simp
qed simp

lemma find_lwm_laws:
  assumes "queue_ok (jobs g)" and "s < length (groups g)" and "\<forall>i < s. job_done (groups g ! i)"
  shows "find_lwm (slot (jobs g) s) g =
    (if job_done (groups g ! s)
     then (let k = length (takeWhile job_done (groups g)) - 1 in Some (slot (jobs g) k, Some (groups g ! k)))
     else Some (size_of_queue (jobs g), None))"
proof -
  let ?d = "length (takeWhile job_done (groups g))"
  have ne: "groups g \<noteq> []" using assms(2) by (metis list.size(3) not_less_zero)
  have e: "queue_entry (jobs g) < size_of_queue (jobs g)" "s < size_of_queue (jobs g)" "queue_len (jobs g) = length (groups g)" "\<not> queue_empty (jobs g)"
    using queue_nonempty [OF assms(1)] ne assms(2) by (simp_all add: queue_empty_def)
  have loop: "find_lwm_loop (length (groups g) - s) (slot (jobs g) s) 0 g = Some (if job_done (groups g ! s) then Some (slot (jobs g) ?d) else None)"
    using find_lwm_loop_laws [OF assms(1), of s "length (groups g) - s" 0] takeWhile_drop_length [OF less_imp_le [OF assms(2)] assms(3)] assms(2) by simp
  show ?thesis
  proof (cases "job_done (groups g ! s)")
    case True
    have "drop s (groups g) = groups g ! s # drop (Suc s) (groups g)" using assms(2) by (rule Cons_nth_drop_Suc [symmetric])
    then have d: "0 < ?d" "?d \<le> length (groups g)"
      using True takeWhile_drop_length [OF less_imp_le [OF assms(2)] assms(3)] length_takeWhile_le [of job_done "groups g"] by (simp_all del: length_greater_0_conv)
    have k: "(slot (jobs g) ?d + size_of_queue (jobs g) - 1) mod size_of_queue (jobs g) = slot (jobs g) (?d - 1)"
      using slot_back [of "jobs g" "?d - 1"] d(1) e(1) by simp
    have "get_job_group (slot (jobs g) (?d - 1)) g = Some (groups g ! (?d - 1))"
      using d by (intro get_job_group_slot [OF assms(1)]) linarith
    then show ?thesis using True e assms(2) loop k slot_offset [OF e(1,2)] by (simp add: find_lwm_def Let_def)
  next
    case False
    then show ?thesis using e assms(2) loop slot_offset [OF e(1,2)] by (simp add: find_lwm_def Let_def)
  qed
qed

lemma find_lwm_empty: "queue_ok (jobs g) \<Longrightarrow> groups g = [] \<Longrightarrow> find_lwm i g = Some (size_of_queue (jobs g), None)"
  using queue_empty_iff [of "jobs g"] by (simp add: find_lwm_def queue_empty_def Let_def)

end
