(* ===== verification/Mts_Laws.thy ===== *)
theory Mts_Laws
  imports Mts_Queue_Laws
begin

text \<open>
  The invariant of the scheduler by logical timestamps and that every operation keeps it: the groups in the
  queue have consecutive sequence numbers, those up to the low-water mark are done, and a group that is
  dispatched has no commit parent that still runs.
\<close>

section \<open>The invariant\<close>

text \<open>
  The queue holds the dispatched groups \<open>L\<close> and behind them the group that is being scheduled. \<open>sn\<close> is the
  sequence number of the last dispatched group.
\<close>

definition seq_ok :: "int \<Rightarrow> job_group list \<Rightarrow> int \<Rightarrow> bool" where
  "seq_ok sn L lw \<longleftrightarrow>
     0 \<le> sn \<and> (\<forall>i < length L. job_sequence_number (L ! i) = sn + 1 - int (length L) + int i) \<and>
     (L \<noteq> [] \<longrightarrow> 0 \<le> sn + 1 - int (length L)) \<and> (1 < length L \<longrightarrow> 0 < sn + 1 - int (length L)) \<and>
     0 \<le> lw \<and> (lw = 0 \<or> lw = sn - int (length L))"

definition mark_ok :: "job_group list \<Rightarrow> mts \<Rightarrow> bool" where
  "mark_ok L st \<longleftrightarrow>
     last_lwm_timestamp st = 0 \<or>
     job_sequence_number (lwm (gaq st)) \<noteq> 0 \<and> last_lwm_timestamp st \<le> job_sequence_number (lwm (gaq st)) \<or>
     (\<exists>k < length L. last_lwm_index st = slot (jobs (gaq st)) k \<and> job_sequence_number (L ! k) = last_lwm_timestamp st \<and>
        (\<forall>i \<le> k. job_done (L ! i)))"

text \<open>A group that is not done is no commit parent of a later one.\<close>

definition in_flight_ok :: "job_group list \<Rightarrow> bool" where
  "in_flight_ok L \<longleftrightarrow> (\<forall>j < length L. \<forall>i < j. \<not> job_done (L ! i) \<longrightarrow> job_last_committed (L ! j) < job_sequence_number (L ! i))"

definition sched_ok :: "int \<Rightarrow> job_group list \<Rightarrow> job_group list \<Rightarrow> mts \<Rightarrow> bool" where
  "sched_ok sn L new st \<longleftrightarrow>
     queue_ok (jobs (gaq st)) \<and> groups (gaq st) = L @ new \<and> (\<forall>j \<in> set new. \<not> job_done j \<and> worker_id j = None) \<and>
     workers_ok (gaq st) \<and> (\<forall>j \<in> set L. job_done j \<longrightarrow> worker_id j \<noteq> None) \<and>
     seq_ok sn L (job_sequence_number (lwm (gaq st))) \<and> mark_ok L st \<and> delegated_jobs st = length L + jobs_done st \<and>
     in_flight_ok L \<and> (L @ new \<noteq> [] \<longrightarrow> assigned_group_index (gaq st) = slot (jobs (gaq st)) (length (L @ new) - 1))"

lemma sched_okD:
  assumes "sched_ok sn L new st"
  shows "queue_ok (jobs (gaq st))" "groups (gaq st) = L @ new" "\<forall>j \<in> set new. \<not> job_done j \<and> worker_id j = None"
    "workers_ok (gaq st)" "\<forall>j \<in> set L. job_done j \<longrightarrow> worker_id j \<noteq> None" "seq_ok sn L (job_sequence_number (lwm (gaq st)))"
    "mark_ok L st" "delegated_jobs st = length L + jobs_done st" "in_flight_ok L"
    "L @ new \<noteq> [] \<longrightarrow> assigned_group_index (gaq st) = slot (jobs (gaq st)) (length (L @ new) - 1)"
  using assms by (auto simp: sched_ok_def)

lemma sched_ok_cong:
  "gaq st' = gaq st \<Longrightarrow> last_lwm_timestamp st' = last_lwm_timestamp st \<Longrightarrow> last_lwm_index st' = last_lwm_index st \<Longrightarrow>
    delegated_jobs st' = delegated_jobs st \<Longrightarrow> jobs_done st' = jobs_done st \<Longrightarrow> sched_ok sn L new st' \<longleftrightarrow> sched_ok sn L new st"
  by (simp add: sched_ok_def mark_ok_def)

text \<open>What the low-water mark says: a group whose number is not above it is done.\<close>

lemma mark_done:
  assumes "sched_ok sn L new st" and "clock_leq p (last_lwm_timestamp st)" and "p \<noteq> 0" and "i < length L" and "job_sequence_number (L ! i) \<le> p"
  shows "job_done (L ! i)"
proof -
  let ?T = "last_lwm_timestamp st"
  have T: "?T \<noteq> 0" "p \<le> ?T" using assms(2,3) by (auto simp: clock_leq_def SEQ_UNINIT_def split: if_splits)
  have s: "job_sequence_number (L ! j) = sn + 1 - int (length L) + int j" if "j < length L" for j
    using sched_okD(6) [OF assms(1)] that by (simp add: seq_ok_def)
  have "job_sequence_number (lwm (gaq st)) < ?T \<or> job_sequence_number (lwm (gaq st)) = 0"
    using sched_okD(6) [OF assms(1)] s [OF assms(4)] assms(5) T by (auto simp: seq_ok_def)
  then obtain k where k: "k < length L" "job_sequence_number (L ! k) = ?T" "\<forall>i \<le> k. job_done (L ! i)"
    using sched_okD(7) [OF assms(1)] T by (auto simp: mark_ok_def)
  have "i \<le> k" using s [OF assms(4)] s [OF k(1)] k(2) T assms(5) by linarith
  then show ?thesis using k(3) by blast
qed

section \<open>The low-water mark\<close>

lemma takeWhile_new: "\<forall>j \<in> set new. \<not> P j \<Longrightarrow> takeWhile P (L @ new) = takeWhile P L"
  by (cases new) (auto simp: takeWhile_tail)

lemma takeWhile_last:
  assumes "length (takeWhile P xs) \<noteq> 0"
  shows "length (takeWhile P xs) - 1 < length xs" "\<forall>i \<le> length (takeWhile P xs) - 1. P (xs ! i)"
proof -
  have l: "0 < length (takeWhile P xs)" "length (takeWhile P xs) \<le> length xs" using assms length_takeWhile_le by (blast, blast)
  then show "length (takeWhile P xs) - 1 < length xs" by linarith
  show "\<forall>i \<le> length (takeWhile P xs) - 1. P (xs ! i)"
  proof (intro allI impI)
    fix i assume "i \<le> length (takeWhile P xs) - 1"
    then have i: "i < length (takeWhile P xs)" using l(1) by linarith
    then show "P (xs ! i)" using nth_mem [OF i] set_takeWhileD [of _ P xs] takeWhile_nth [OF i] by metis
  qed
qed

lemma entry_slot: "queue_ok q \<Longrightarrow> queue_list q \<noteq> [] \<Longrightarrow> queue_entry q = slot q 0"
  using queue_nonempty(1) [of q] slot_0 [of q] by simp

text \<open>The search from the head of the queue or from a place before which everything is done.\<close>

lemma find_lwm_sched:
  assumes "sched_ok sn L new st" and "start = queue_entry (jobs (gaq st)) \<or> (\<exists>k < length L. start = slot (jobs (gaq st)) k \<and> (\<forall>i \<le> k. job_done (L ! i)))"
  shows "find_lwm start (gaq st) = (let d = length (takeWhile job_done L) in
    if d = 0 then Some (size_of_queue (jobs (gaq st)), None) else Some (slot (jobs (gaq st)) (d - 1), Some (L ! (d - 1))))"
proof (cases "groups (gaq st) = []")
  case True
  then show ?thesis using find_lwm_empty [OF sched_okD(1) [OF assms(1)]] sched_okD(2) [OF assms(1)] by simp
next
  case False
  let ?d = "length (takeWhile job_done L)"
  note o = sched_okD [OF assms(1)]
  have tw: "takeWhile job_done (groups (gaq st)) = takeWhile job_done L" unfolding o(2) using o(3) by (intro takeWhile_new) blast
  have d: "?d = 0 \<longleftrightarrow> \<not> job_done (groups (gaq st) ! 0)" using False by (simp add: tw [symmetric] takeWhile_eq_Nil_iff hd_conv_nth)
  have L: "job_done (groups (gaq st) ! 0) \<Longrightarrow> groups (gaq st) ! (?d - 1) = L ! (?d - 1)"
    using d takeWhile_last(1) [of job_done L] by (simp add: o(2) nth_append)
  consider "start = slot (jobs (gaq st)) 0" | k where "k < length L" "start = slot (jobs (gaq st)) k" "\<forall>i \<le> k. job_done (L ! i)"
    using assms(2) entry_slot [OF o(1) False] by metis
  then show ?thesis
  proof cases
    case 1
    have "0 < length (groups (gaq st))" using False by (simp del: length_queue_list)
    then show ?thesis using find_lwm_laws [OF o(1), of 0] d L 1 tw by (auto simp: Let_def)
  next
    case 2
    have l: "k < length (groups (gaq st))" using 2(1) by (simp add: o(2) flip: length_queue_list)
    have k: "groups (gaq st) ! i = L ! i" if "i \<le> k" for i using 2(1) that by (simp add: o(2) nth_append)
    have "\<forall>i < k. job_done (groups (gaq st) ! i)" "job_done (groups (gaq st) ! k)" "job_done (groups (gaq st) ! 0)" using 2(3) k by auto
    then show ?thesis using find_lwm_laws [OF o(1) l] d L 2(2) tw by (auto simp: Let_def)
  qed
qed

text \<open>\<open>get_lwm_timestamp\<close> finds the exact mark.\<close>

definition exact_mark :: "int \<Rightarrow> job_group list \<Rightarrow> mts \<Rightarrow> int" where
  "exact_mark sn L st =
     (if takeWhile job_done L = [] \<and> job_sequence_number (lwm (gaq st)) = 0 then 0
      else sn - int (length L) + int (length (takeWhile job_done L)))"

lemma last_done_seq:
  assumes "seq_ok sn L lw" and nz: "length (takeWhile P L) \<noteq> 0"
  shows "job_sequence_number (L ! (length (takeWhile P L) - 1)) = sn - int (length L) + int (length (takeWhile P L))"
proof -
  obtain m where m: "length (takeWhile P L) = Suc m" using not0_implies_Suc [OF nz] by blast
  have "m < length L" using takeWhile_last(1) [OF nz] unfolding m by simp
  then show ?thesis using assms(1) unfolding m seq_ok_def by simp
qed

lemma get_lwm_exact:
  assumes "sched_ok sn L new st"
  shows "\<exists>k. get_lwm_timestamp st = Some (exact_mark sn L st, st\<lparr>last_lwm_index := k, last_lwm_timestamp := exact_mark sn L st\<rparr>) \<and>
    sched_ok sn L new (st\<lparr>last_lwm_index := k, last_lwm_timestamp := exact_mark sn L st\<rparr>)"
proof -
  note o = sched_okD [OF assms]
  let ?d = "length (takeWhile job_done L)" and ?lw = "job_sequence_number (lwm (gaq st))" and ?T = "last_lwm_timestamp st"
  define stale where "stale = (?lw \<noteq> 0 \<and> clock_leq ?T ?lw)"
  define start where "start = (if ?lw = 0 \<or> stale then queue_entry (jobs (gaq st)) else last_lwm_index st)"
  define k where "k = (if ?d = 0 then size_of_queue (jobs (gaq st)) else slot (jobs (gaq st)) (?d - 1))"
  have old: "?T = 0 \<or> stale \<or> (\<exists>k < length L. last_lwm_index st = slot (jobs (gaq st)) k \<and> (\<forall>i \<le> k. job_done (L ! i)))"
    using o(7) by (auto simp: mark_ok_def stale_def clock_leq_def SEQ_UNINIT_def)
  then have "start = queue_entry (jobs (gaq st)) \<or> (\<exists>k < length L. start = slot (jobs (gaq st)) k \<and> (\<forall>i \<le> k. job_done (L ! i)))"
    by (auto simp: start_def stale_def clock_leq_def SEQ_UNINIT_def)
  then have find: "find_lwm start (gaq st) = (if ?d = 0 then Some (k, None) else Some (k, Some (L ! (?d - 1))))"
    using find_lwm_sched [OF assms, of start] by (simp add: k_def Let_def)
  have d0: "?T = 0 \<or> stale" if "?d = 0" using old that by (cases L) (auto split: if_splits)
  have lw: "?lw = 0 \<or> ?lw = sn - int (length L)" using o(6) unfolding seq_ok_def by blast
  have d1: "?d - 1 < length L" "\<forall>i \<le> ?d - 1. job_done (L ! i)" "job_sequence_number (L ! (?d - 1)) = sn - int (length L) + int ?d" if nz: "?d \<noteq> 0"
    using takeWhile_last [OF nz] last_done_seq [OF o(6) nz] by blast+
  have k: "k = size_of_queue (jobs (gaq st)) \<longleftrightarrow> ?d = 0"
  proof -
    have "0 < size_of_queue (jobs (gaq st))" using o(1) by (simp add: queue_ok_def)
    then show ?thesis using slot_less [of "jobs (gaq st)" "?d - 1"] by (simp add: k_def)
  qed
  have get: "get_lwm_timestamp st = do {
      (k, g) \<leftarrow> find_lwm start (gaq st);
      let st1 = st\<lparr>last_lwm_index := k\<rparr>;
      (if k \<noteq> size_of_queue (jobs (gaq st))
       then do { ptr_g \<leftarrow> g; Some (job_sequence_number ptr_g, st1\<lparr>last_lwm_timestamp := job_sequence_number ptr_g\<rparr>) }
       else if stale then Some (?lw, st1\<lparr>last_lwm_timestamp := ?lw\<rparr>) else Some (last_lwm_timestamp st1, st1)) }"
    unfolding get_lwm_timestamp_def Let_def start_def stale_def SEQ_UNINIT_def by (rule refl)
  have "get_lwm_timestamp st = Some (exact_mark sn L st, st\<lparr>last_lwm_index := k, last_lwm_timestamp := exact_mark sn L st\<rparr>)"
  proof (cases "?d = 0")
    case True
    then have "stale \<longleftrightarrow> ?lw \<noteq> 0" "\<not> stale \<Longrightarrow> ?T = 0" using d0 by (auto simp: stale_def clock_leq_def SEQ_UNINIT_def)
    then show ?thesis using True k lw unfolding get find by (auto simp: exact_mark_def Let_def)
  next
    case False
    then show ?thesis using k d1(3) unfolding get find by (simp add: exact_mark_def Let_def)
  qed
  moreover have "mark_ok L (st\<lparr>last_lwm_index := k, last_lwm_timestamp := exact_mark sn L st\<rparr>)"
    using lw d1 by (auto simp: mark_ok_def exact_mark_def k_def)
  then have "sched_ok sn L new (st\<lparr>last_lwm_index := k, last_lwm_timestamp := exact_mark sn L st\<rparr>)"
    using o by (simp add: sched_ok_def)
  ultimately show ?thesis by blast
qed

section \<open>Workers\<close>

text \<open>
  What the workers and the other sessions do while the coordinator waits: a worker ends a group that it has,
  and the sessions are told to stop.
\<close>

inductive worker_step :: "mts \<Rightarrow> mts \<Rightarrow> bool" where
  ends: "i < length (groups (gaq st)) \<Longrightarrow> worker_id (groups (gaq st) ! i) = Some w \<Longrightarrow>
    slave_worker_ends_group w (slot (jobs (gaq st)) i) master_pos relay_pos error st = Some st' \<Longrightarrow> worker_step st st'"
| kill_thd: "worker_step st (st\<lparr>thd_killed := True\<rparr>)"
| kill_slave: "worker_step st (st\<lparr>slave_killed := True\<rparr>)"
| status: "worker_step st (st\<lparr>running_status := rs\<rparr>)"
| takes: "worker_step st (st\<lparr>jobs_len := ls\<rparr>)"

definition env_ok :: "(nat \<Rightarrow> mts \<Rightarrow> mts) \<Rightarrow> bool" where
  "env_ok env \<longleftrightarrow> (\<forall>n st. worker_step\<^sup>*\<^sup>* st (env n st))"

definition same_clock :: "mts \<Rightarrow> mts \<Rightarrow> bool" where
  "same_clock st st' \<longleftrightarrow>
     sequence_number st' = sequence_number st \<and> last_committed st' = last_committed st \<and>
     first_event st' = first_event st \<and> force_new_group st' = force_new_group st"

lemma same_clock_refl [simp]: "same_clock st st"
  by (simp add: same_clock_def)

lemma same_clock_trans: "same_clock a b \<Longrightarrow> same_clock b c \<Longrightarrow> same_clock a c"
  by (simp add: same_clock_def)

lemma seq_ok_map:
  assumes "length L' = length L" and "\<And>i. i < length L \<Longrightarrow> job_sequence_number (L' ! i) = job_sequence_number (L ! i)"
  shows "seq_ok sn L' lw = seq_ok sn L lw"
  using assms(2) unfolding seq_ok_def assms(1) length_greater_0_conv [symmetric] by auto

lemma mark_ok_more:
  assumes "mark_ok L st" and "length L \<le> length L'" and "\<And>i. i < length L \<Longrightarrow> job_sequence_number (L' ! i) = job_sequence_number (L ! i)"
    and "\<And>i. i < length L \<Longrightarrow> job_done (L ! i) \<longrightarrow> job_done (L' ! i)" and "slot (jobs (gaq st')) = slot (jobs (gaq st))"
    and "lwm (gaq st') = lwm (gaq st)" and "last_lwm_timestamp st' = last_lwm_timestamp st" and "last_lwm_index st' = last_lwm_index st"
  shows "mark_ok L' st'"
proof -
  have "\<exists>k < length L'. last_lwm_index st = slot (jobs (gaq st)) k \<and> job_sequence_number (L' ! k) = last_lwm_timestamp st \<and> (\<forall>i \<le> k. job_done (L' ! i))"
    if k: "k < length L" "last_lwm_index st = slot (jobs (gaq st)) k" "job_sequence_number (L ! k) = last_lwm_timestamp st" "\<forall>i \<le> k. job_done (L ! i)" for k
    using k assms(2,3) assms(4) [OF le_less_trans [OF _ k(1)]] by (intro exI [of _ k]) auto
  then show ?thesis using assms(1) unfolding mark_ok_def assms(5-8) by blast
qed

lemma in_flight_ok_more:
  assumes "in_flight_ok L" and "length L' = length L" and "\<And>i. i < length L \<Longrightarrow> job_sequence_number (L' ! i) = job_sequence_number (L ! i)"
    and "\<And>i. i < length L \<Longrightarrow> job_done (L ! i) \<longrightarrow> job_done (L' ! i)" and "\<And>i. i < length L \<Longrightarrow> job_last_committed (L' ! i) = job_last_committed (L ! i)"
  shows "in_flight_ok L'"
  unfolding in_flight_ok_def
proof (intro allI impI)
  fix j i assume *: "j < length L'" "i < j" "\<not> job_done (L' ! i)"
  then have ij: "i < length L" "j < length L" using assms(2) by simp_all
  have "\<not> job_done (L ! i)" using *(3) assms(4) [OF ij(1)] by blast
  then show "job_last_committed (L' ! j) < job_sequence_number (L' ! i)"
    using assms(1) * ij assms(3) [OF ij(1)] assms(5) [OF ij(2)] by (simp add: in_flight_ok_def)
qed

text \<open>A change of one dispatched group that keeps its timestamps.\<close>

lemma job_change_ok:
  assumes ok: "sched_ok sn L new st" and i: "i < length L"
    and seq: "job_sequence_number (f (L ! i)) = job_sequence_number (L ! i)" "job_last_committed (f (L ! i)) = job_last_committed (L ! i)"
    and don: "job_done (L ! i) \<longrightarrow> job_done (f (L ! i))" "job_done (f (L ! i)) \<longrightarrow> worker_id (f (L ! i)) \<noteq> None"
    and w: "\<And>w. worker_id (f (L ! i)) = Some w \<Longrightarrow> w < length (last_done (gaq st))"
  shows "sched_ok sn (L[i := f (L ! i)]) new (st\<lparr>gaq := set_job_group (slot (jobs (gaq st)) i) f (gaq st)\<rparr>)"
proof -
  note o = sched_okD [OF ok]
  let ?L = "L[i := f (L ! i)]"
  have ig: "i < length (groups (gaq st))" using i by (simp add: o(2) del: length_queue_list)
  have g: "groups (set_job_group (slot (jobs (gaq st)) i) f (gaq st)) = ?L @ new"
    using set_job_group_slot [OF o(1) ig, of f] i by (simp add: o(2) nth_append list_update_append)
  have nth: "job_done (L ! k) \<longrightarrow> job_done (?L ! k)" "job_sequence_number (?L ! k) = job_sequence_number (L ! k)"
    "job_last_committed (?L ! k) = job_last_committed (L ! k)" if "k < length L" for k
    using that seq don by (cases "k = i"; simp)+
  have "seq_ok sn ?L (job_sequence_number (lwm (gaq st)))" using o(6) nth(2) by (subst seq_ok_map [of _ L]) simp_all
  moreover have "mark_ok ?L (st\<lparr>gaq := set_job_group (slot (jobs (gaq st)) i) f (gaq st)\<rparr>)"
    by (rule mark_ok_more [OF o(7) _ nth(2,1)]) simp_all
  moreover have "in_flight_ok ?L" by (rule in_flight_ok_more [OF o(9) length_list_update nth(2,1,3)])
  moreover have "set ?L \<subseteq> insert (f (L ! i)) (set L)" by (rule set_update_subset_insert)
  then have "workers_ok (set_job_group (slot (jobs (gaq st)) i) f (gaq st))" "\<forall>j \<in> set ?L. job_done j \<longrightarrow> worker_id j \<noteq> None"
    using o(2,4,5) w don(2) unfolding workers_ok_def g by auto
  ultimately show ?thesis using o g by (simp add: sched_ok_def)
qed

lemma worker_step_ok:
  assumes ok: "sched_ok sn L new st" and step: "worker_step st st'"
  shows "same_clock st st' \<and> (\<exists>L'. sched_ok sn L' new st')"
  using step
proof cases
  case (ends i w master_pos relay_pos error)
  note o = sched_okD [OF ok]
  show ?thesis
  proof (cases error)
    case True
    then show ?thesis using ends(3) ok sched_ok_cong [of st' st] by (auto simp: slave_worker_ends_group_def same_clock_def split: if_splits)
  next
    case False
    let ?f = "\<lambda>j. j\<lparr>group_master_log_pos := master_pos, group_relay_log_pos := relay_pos, job_done := True\<rparr>"
    let ?st = "st\<lparr>gaq := set_job_group (slot (jobs (gaq st)) i) ?f (gaq st)\<rparr>"
    have i: "i < length L" "worker_id (L ! i) = Some w" "w < length (last_done (gaq st))"
    proof -
      have "i < length (L @ new)" using ends(1) by (simp add: o(2) del: length_queue_list)
      then show "i < length L" using ends(2) o(3) nth_mem [of "i - length L" new] by (auto simp: o(2) nth_append split: if_splits)
      then show "worker_id (L ! i) = Some w" using ends(2) by (simp add: o(2) nth_append)
      then show "w < length (last_done (gaq st))" using o(4) ends(1,2) nth_mem [OF ends(1)] unfolding workers_ok_def by blast
    qed
    have ok': "sched_ok sn (L[i := ?f (L ! i)]) new ?st" using i by (intro job_change_ok [OF ok]) simp_all
    have "st' = ?st \<or> (\<exists>l. get_lwm_timestamp ?st = Some (l, st'))"
      using ends(3) False get_job_group_slot [OF o(1) ends(1)] by (auto simp: slave_worker_ends_group_def Let_def split: if_splits bind_splits)
    then show ?thesis using ok' get_lwm_exact [OF ok'] by (auto simp: same_clock_def)
  qed
next
  case kill_thd
  then show ?thesis using ok sched_ok_cong [of st' st] by (auto simp: same_clock_def)
next
  case kill_slave
  then show ?thesis using ok sched_ok_cong [of st' st] by (auto simp: same_clock_def)
next
  case (takes ls)
  then show ?thesis using ok sched_ok_cong [of st' st] by (auto simp: same_clock_def)
next
  case (status rs)
  then show ?thesis using ok sched_ok_cong [of st' st] by (auto simp: same_clock_def)
qed

lemma worker_steps_ok:
  assumes "worker_step\<^sup>*\<^sup>* st st'" and "sched_ok sn L new st"
  shows "same_clock st st' \<and> (\<exists>L'. sched_ok sn L' new st')"
  using assms
proof (induction rule: rtranclp_induct)
  case (step y z)
  then show ?case using worker_step_ok same_clock_trans by blast
qed auto

lemma env_step_ok:
  "env_ok env \<Longrightarrow> sched_ok sn L new st \<Longrightarrow> same_clock st (env n st) \<and> (\<exists>L'. sched_ok sn L' new (env n st))"
  using worker_steps_ok unfolding env_ok_def by blast

section \<open>Checkpoints\<close>

lemma takeWhile_longer:
  assumes "k < length xs" and "\<forall>i \<le> k. P (xs ! i)"
  shows "k < length (takeWhile P xs)"
  using takeWhile_drop_length [of "Suc k" xs P] assms by simp

lemma slot_shift:
  assumes "queue_entry q' = slot q n" and "size_of_queue q' = size_of_queue q"
  shows "slot q' i = slot q (n + i)"
  unfolding slot_def assms by (simp add: slot_def mod_add_left_eq add.assoc)

lemma move_head_ok:
  assumes ok: "sched_ok sn L new st"
  defines "cnt \<equiv> length (takeWhile job_done L)"
  shows "\<exists>g. move_queue_head (gaq st) = Some (cnt, g) \<and> sched_ok sn (drop cnt L) new (st\<lparr>gaq := g, jobs_done := jobs_done st + cnt\<rparr>)"
proof -
  note o = sched_okD [OF ok]
  let ?lw = "job_sequence_number (lwm (gaq st))" and ?T = "last_lwm_timestamp st" and ?L = "drop cnt L"
  have fin: "takeWhile finished (groups (gaq st)) = takeWhile job_done L"
  proof -
    have "takeWhile finished (groups (gaq st)) = takeWhile finished L" unfolding o(2) using o(3) by (intro takeWhile_new) (auto simp: finished_def)
    also have "\<dots> = takeWhile job_done L" using o(5) by (intro takeWhile_cong) (auto simp: finished_def)
    finally show ?thesis .
  qed
  have cnt: "cnt \<le> length L" unfolding cnt_def by (rule length_takeWhile_le)
  have drp: "dropWhile finished (groups (gaq st)) = ?L @ new"
    unfolding dropWhile_eq_drop fin cnt_def [symmetric] unfolding o(2) using cnt by simp
  obtain g where g: "move_queue_head (gaq st) = Some (cnt, g)" "queue_ok (jobs g)" "groups g = ?L @ new" "size_of_queue (jobs g) = size_of_queue (jobs (gaq st))"
    "length (last_done g) = length (last_done (gaq st))" "assigned_group_index g = assigned_group_index (gaq st)"
    "groups g \<noteq> [] \<Longrightarrow> queue_entry (jobs g) = slot (jobs (gaq st)) cnt"
    "job_sequence_number (lwm g) = (if takeWhile job_done L = [] then ?lw else job_sequence_number (last (takeWhile job_done L)))"
    using move_queue_head_laws [OF o(1,4)] unfolding fin drp cnt_def by blast
  have lw: "job_sequence_number (lwm g) = (if cnt = 0 then ?lw else sn - int (length ?L))"
  proof (cases "cnt = 0")
    case False
    then have tw: "takeWhile job_done L \<noteq> []" by (simp add: cnt_def)
    have "last (takeWhile job_done L) = L ! (cnt - 1)" unfolding cnt_def last_conv_nth [OF tw] using tw by (intro takeWhile_nth) simp
    then show ?thesis using False tw g(8) last_done_seq [OF o(6), of job_done] cnt by (simp add: cnt_def [symmetric] of_nat_diff)
  qed (use g(8) in \<open>simp add: cnt_def\<close>)
  have "seq_ok sn ?L (job_sequence_number (lwm g))"
    using o(6) cnt unfolding lw seq_ok_def by (cases "cnt = 0"; cases "cnt = length L") (auto simp: of_nat_diff)
  moreover have "mark_ok ?L (st\<lparr>gaq := g, jobs_done := jobs_done st + cnt\<rparr>)"
  proof -
    have "0 \<le> ?T \<and> ?T \<le> job_sequence_number (lwm g)" if k: "k < length L" "job_sequence_number (L ! k) = ?T" "\<forall>i \<le> k. job_done (L ! i)" for k
    proof -
      have "k < cnt" using takeWhile_longer [OF k(1,3)] by (simp add: cnt_def)
      moreover have "?T = sn + 1 - int (length L) + int k" using o(6) k(1,2) by (simp add: seq_ok_def)
      moreover have "0 \<le> ?T" using o(6) k(1,2) unfolding seq_ok_def by auto
      ultimately show ?thesis using cnt lw by (simp add: of_nat_diff)
    qed
    moreover have "?lw \<le> job_sequence_number (lwm g)" using o(6) cnt unfolding lw seq_ok_def by (auto simp: of_nat_diff)
    moreover have "0 \<le> ?lw" using o(6) by (simp add: seq_ok_def)
    ultimately have "?T = 0 \<or> job_sequence_number (lwm g) \<noteq> 0 \<and> ?T \<le> job_sequence_number (lwm g)" using o(7) unfolding mark_ok_def by fastforce
    then show ?thesis by (auto simp: mark_ok_def)
  qed
  moreover have "in_flight_ok ?L" using o(9) cnt by (auto simp: in_flight_ok_def)
  moreover have "workers_ok g" "\<forall>j \<in> set ?L. job_done j \<longrightarrow> worker_id j \<noteq> None"
    using o(4,5) unfolding workers_ok_def g(3,5) o(2) by (auto dest: in_set_dropD)
  moreover have "?L @ new \<noteq> [] \<longrightarrow> assigned_group_index g = slot (jobs g) (length (?L @ new) - 1)"
  proof
    assume ne: "?L @ new \<noteq> []"
    then have "0 < length (?L @ new)" by (simp only: length_greater_0_conv not_False_eq_True)
    then have "cnt + (length (?L @ new) - 1) = length (L @ new) - 1" using cnt unfolding length_append length_drop by linarith
    moreover have "L @ new \<noteq> []" "groups g \<noteq> []" using ne g(3) by auto
    ultimately show "assigned_group_index g = slot (jobs g) (length (?L @ new) - 1)" using o(10) g(6) slot_shift [OF g(7) g(4)] by metis
  qed
  ultimately show ?thesis using o(3,8) g(1-4) cnt by (auto simp: sched_ok_def)
qed

lemma checkpoint_loop_ok:
  assumes env: "env_ok env" and ret: "checkpoint_loop env n force st = Some r" and ok: "sched_ok sn L new st"
  shows "case r of (cnt, n1, st1) \<Rightarrow> same_clock st st1 \<and> (\<exists>L'. sched_ok sn L' new (st1\<lparr>jobs_done := jobs_done st1 + cnt\<rparr>))"
proof -
  let ?Q = "\<lambda>st r. case r of (cnt, n1, st1) \<Rightarrow> same_clock st st1 \<and> (\<exists>L'. sched_ok sn L' new (st1\<lparr>jobs_done := jobs_done st1 + cnt\<rparr>))"
  have "env_ok env \<longrightarrow> (\<forall>L. sched_ok sn L new st \<longrightarrow> ?Q st r)"
  proof (rule checkpoint_loop.raw_induct [where P = "\<lambda>env n force st r. env_ok env \<longrightarrow> (\<forall>L. sched_ok sn L new st \<longrightarrow> ?Q st r)", OF _ ret])
    fix loop env n force st r
    assume IH: "\<And>env n force st r. loop env n force st = Some r \<Longrightarrow> env_ok env \<longrightarrow> (\<forall>L. sched_ok sn L new st \<longrightarrow> ?Q st r)"
      and eq: "(case move_queue_head (gaq st) of None \<Rightarrow> None | Some (cnt, g) \<Rightarrow> let st1 = st\<lparr>gaq := g\<rparr> in
        if \<not> slave_killed st1 \<and> cnt = 0 \<and> force then loop env (n + 1) force (env n st1) else Some (cnt, n, st1)) = Some r"
    show "env_ok env \<longrightarrow> (\<forall>L. sched_ok sn L new st \<longrightarrow> ?Q st r)"
    proof (intro impI allI)
      fix L assume env: "env_ok env" and ok: "sched_ok sn L new st"
      obtain cnt g where g: "move_queue_head (gaq st) = Some (cnt, g)" "sched_ok sn (drop cnt L) new (st\<lparr>gaq := g, jobs_done := jobs_done st + cnt\<rparr>)"
        using move_head_ok [OF ok] by blast
      show "?Q st r"
      proof (cases "\<not> slave_killed st \<and> cnt = 0 \<and> force")
        case True
        then have "sched_ok sn L new (st\<lparr>gaq := g\<rparr>)" using g(2) by simp
        from env_step_ok [OF env this, of n] obtain L' where e: "same_clock (st\<lparr>gaq := g\<rparr>) (env n (st\<lparr>gaq := g\<rparr>))" "sched_ok sn L' new (env n (st\<lparr>gaq := g\<rparr>))"
          by blast
        have "loop env (n + 1) force (env n (st\<lparr>gaq := g\<rparr>)) = Some r" using eq True by (simp add: g(1) Let_def)
        then have "?Q (env n (st\<lparr>gaq := g\<rparr>)) r" using IH env e(2) by blast
        moreover have "same_clock st (env n (st\<lparr>gaq := g\<rparr>))" using e(1) by (simp add: same_clock_def)
        ultimately show ?thesis using same_clock_trans by (auto split: prod.splits)
      next
        case False
        then have "r = (cnt, n, st\<lparr>gaq := g\<rparr>)" using eq by (auto simp: g(1) Let_def)
        then show ?thesis using g(2) by (auto simp: same_clock_def)
      qed
    qed
  qed
  then show ?thesis using env ok by blast
qed

lemma checkpoint_ok:
  assumes "env_ok env" and "mts_checkpoint_routine env flush_error n too_early force st = Some (error, n1, st1)" and ok: "sched_ok sn L new st"
  shows "same_clock st st1 \<and> (\<exists>L'. sched_ok sn L' new st1)"
proof (cases "\<not> force \<and> too_early")
  case True
  then show ?thesis using assms(2) ok by (auto simp: mts_checkpoint_routine_def)
next
  case False
  then obtain cnt m st2 where c: "checkpoint_loop env n force st = Some (cnt, m, st2)"
    using assms(2) by (auto simp: mts_checkpoint_routine_def split: bind_splits)
  obtain L' where "same_clock st st2" "sched_ok sn L' new (st2\<lparr>jobs_done := jobs_done st2 + cnt\<rparr>)"
    using checkpoint_loop_ok [OF assms(1) c ok] by auto
  moreover have f: "gaq st1 = gaq st2" "last_lwm_timestamp st1 = last_lwm_timestamp st2" "last_lwm_index st1 = last_lwm_index st2"
    "delegated_jobs st1 = delegated_jobs st2" "jobs_done st1 = jobs_done st2 + cnt" "same_clock st2 st1"
    using assms(2) False c by (auto simp: mts_checkpoint_routine_def Let_def same_clock_def split: if_splits)
  ultimately show ?thesis using same_clock_trans sched_ok_cong [of st1 "st2\<lparr>jobs_done := jobs_done st2 + cnt\<rparr>" sn L' new] by auto
qed

text \<open>Waiting for all workers: without an error nothing that was dispatched is left.\<close>

lemma finish_loop_ok:
  assumes env: "env_ok env" and ret: "finish_loop env flush_error n st = Some r" and ok: "sched_ok sn L new st"
  shows "case r of (error, st1) \<Rightarrow> same_clock st st1 \<and>
    (\<exists>L'. sched_ok sn L' new st1 \<and> (\<not> error \<and> \<not> thd_killed st1 \<and> \<not> is_error st1 \<longrightarrow> L' = []))"
proof -
  let ?Q = "\<lambda>st r. case r of (error, st1) \<Rightarrow> same_clock st st1 \<and>
    (\<exists>L'. sched_ok sn L' new st1 \<and> (\<not> error \<and> \<not> thd_killed st1 \<and> \<not> is_error st1 \<longrightarrow> L' = []))"
  have "env_ok env \<longrightarrow> (\<forall>L. sched_ok sn L new st \<longrightarrow> ?Q st r)"
  proof (rule finish_loop.raw_induct [where P = "\<lambda>env flush_error n st r. env_ok env \<longrightarrow> (\<forall>L. sched_ok sn L new st \<longrightarrow> ?Q st r)", OF _ ret])
    fix loop env flush_error n st r
    assume IH: "\<And>env flush_error n st r. loop env flush_error n st = Some r \<Longrightarrow> env_ok env \<longrightarrow> (\<forall>L. sched_ok sn L new st \<longrightarrow> ?Q st r)"
      and eq: "(if delegated_jobs st > jobs_done st \<and> \<not> thd_killed st \<and> \<not> is_error st then
        (case mts_checkpoint_routine env flush_error n False True st of
           None \<Rightarrow> None
         | Some (error, n1, st1) \<Rightarrow> if error then Some (True, st1) else loop env flush_error (n1 + 1) (env n1 st1))
      else Some (False, st)) = Some r"
    show "env_ok env \<longrightarrow> (\<forall>L. sched_ok sn L new st \<longrightarrow> ?Q st r)"
    proof (intro impI allI)
      fix L assume env: "env_ok env" and ok: "sched_ok sn L new st"
      show "?Q st r"
      proof (cases "delegated_jobs st > jobs_done st \<and> \<not> thd_killed st \<and> \<not> is_error st")
        case True
        then obtain error n1 st1 where c: "mts_checkpoint_routine env flush_error n False True st = Some (error, n1, st1)"
          "(if error then Some (True, st1) else loop env flush_error (n1 + 1) (env n1 st1)) = Some r"
          using eq by (auto split: option.splits)
        obtain L' where s: "same_clock st st1" "sched_ok sn L' new st1" using checkpoint_ok [OF env c(1) ok] by blast
        obtain L2 where e: "same_clock st1 (env n1 st1)" "sched_ok sn L2 new (env n1 st1)" using env_step_ok [OF env s(2)] by blast
        have "?Q (env n1 st1) r" if "\<not> error" using IH [THEN mp, THEN spec, THEN mp, OF _ env e(2)] c(2) that by simp
        then show ?thesis using s c(2) same_clock_trans [OF same_clock_trans [OF s(1) e(1)]] by (cases error) auto
      next
        case False
        then have "r = (False, st)" using eq by auto
        then show ?thesis using False ok sched_okD(8) [OF ok] by auto
      qed
    qed
  qed
  then show ?thesis using env ok by blast
qed

end
