(* ===== verification/Mts_Replica.thy ===== *)
theory Mts_Replica
  imports Mts_Laws
begin

text \<open>
  The coordinator of a replica and its workers as a transition system: groups are scheduled and get a worker,
  workers end them, checkpoints remove them. In every reachable state a group that still runs is no commit
  parent of a later one.
\<close>

section \<open>Scheduling a group\<close>

text \<open>The wait for the commit parent.\<close>

lemma lwm_wait_loop_ok:
  assumes env: "env_ok env" and ret: "lwm_wait_loop env n p st = Some r" and ok: "sched_ok sn L new st"
  shows "same_clock st r \<and> (\<exists>L'. sched_ok sn L' new r) \<and> (thd_killed r \<or> is_error r \<or> clock_leq p (last_lwm_timestamp r))"
proof -
  let ?Q = "\<lambda>p st r. same_clock st r \<and> (\<exists>L'. sched_ok sn L' new r) \<and> (thd_killed r \<or> is_error r \<or> clock_leq p (last_lwm_timestamp r))"
  have "env_ok env \<longrightarrow> (\<forall>L. sched_ok sn L new st \<longrightarrow> ?Q p st r)"
  proof (rule lwm_wait_loop.raw_induct [where P = "\<lambda>env n p st r. env_ok env \<longrightarrow> (\<forall>L. sched_ok sn L new st \<longrightarrow> ?Q p st r)", OF _ ret])
    fix loop env n p st r
    assume IH: "\<And>env n p st r. loop env n p st = Some r \<Longrightarrow> env_ok env \<longrightarrow> (\<forall>L. sched_ok sn L new st \<longrightarrow> ?Q p st r)"
      and eq: "(let st1 = env n st in if \<not> thd_killed st1 \<and> \<not> is_error st1 \<and> \<not> clock_leq p (last_lwm_timestamp st1)
        then loop env (n + 1) p st1 else Some st1) = Some r"
    show "env_ok env \<longrightarrow> (\<forall>L. sched_ok sn L new st \<longrightarrow> ?Q p st r)"
    proof (intro impI allI)
      fix L assume env: "env_ok env" and ok: "sched_ok sn L new st"
      obtain L' where e: "same_clock st (env n st)" "sched_ok sn L' new (env n st)" using env_step_ok [OF env ok] by blast
      show "?Q p st r"
      proof (cases "\<not> thd_killed (env n st) \<and> \<not> is_error (env n st) \<and> \<not> clock_leq p (last_lwm_timestamp (env n st))")
        case True
        then have "?Q p (env n st) r" using IH [THEN mp, THEN spec, THEN mp, OF _ env e(2)] eq by (simp add: Let_def)
        then show ?thesis using same_clock_trans [OF e(1)] by blast
      next
        case False
        then have "r = env n st" using eq by (auto simp: Let_def)
        then show ?thesis using False e by blast
      qed
    qed
  qed
  then show ?thesis using env ok by blast
qed

lemma wait_for_parent_ok:
  assumes "env_ok env" and ret: "wait_for_last_committed_trx env p st = Some (False, st')" and ok: "sched_ok sn L new st" and p: "p \<noteq> 0"
  shows "same_clock st st' \<and> (\<exists>L'. sched_ok sn L' new st') \<and> clock_leq p (last_lwm_timestamp st')"
proof -
  let ?st1 = "st\<lparr>min_waited_timestamp := p\<rparr>"
  have ok1: "sched_ok sn L new ?st1" using ok by (simp add: sched_ok_cong [of ?st1 st])
  obtain k where g: "get_lwm_timestamp ?st1 = Some (exact_mark sn L ?st1, ?st1\<lparr>last_lwm_index := k, last_lwm_timestamp := exact_mark sn L ?st1\<rparr>)"
    "sched_ok sn L new (?st1\<lparr>last_lwm_index := k, last_lwm_timestamp := exact_mark sn L ?st1\<rparr>)"
    using get_lwm_exact [OF ok1] by blast
  define st3 where "st3 = ?st1\<lparr>last_lwm_index := k, last_lwm_timestamp := exact_mark sn L ?st1\<rparr>"
  have c3: "same_clock st st3" "last_lwm_timestamp st3 = exact_mark sn L ?st1" by (simp_all add: st3_def same_clock_def)
  obtain st2 where st2: "st' = st2\<lparr>min_waited_timestamp := SEQ_UNINIT\<rparr>" "\<not> thd_killed st2" "\<not> is_error st2"
    "(if \<not> thd_killed st \<and> \<not> is_error st then if \<not> clock_leq p (last_lwm_timestamp st3) then lwm_wait_loop env 0 p st3 else Some st3 else Some ?st1) = Some st2"
    using ret p unfolding wait_for_last_committed_trx_def Let_def g(1) st3_def [symmetric] c3(2)
    by (auto simp: SEQ_UNINIT_def split: if_splits bind_splits)
  have "\<not> thd_killed st" "\<not> is_error st" using st2 by (auto split: if_splits)
  then have "same_clock st st2 \<and> (\<exists>L'. sched_ok sn L' new st2) \<and> clock_leq p (last_lwm_timestamp st2)"
    using st2 lwm_wait_loop_ok [OF assms(1) _ g(2) [folded st3_def], of 0 p st2] c3(1) same_clock_trans g(2) [folded st3_def]
    by (auto split: if_splits)
  then show ?thesis using sched_ok_cong [of st' st2] by (auto simp: st2(1) same_clock_def)
qed

section \<open>A group is dispatched\<close>

text \<open>The group that was scheduled behind the dispatched ones becomes one of them.\<close>

lemma seq_ok_snoc:
  assumes "seq_ok sn L lw" and "0 < sn" and "job_sequence_number cur = sn + 1"
  shows "seq_ok (sn + 1) (L @ [cur]) lw"
proof -
  have s: "\<forall>i < length L. job_sequence_number (L ! i) = sn + 1 - int (length L) + int i" "L \<noteq> [] \<longrightarrow> 0 \<le> sn + 1 - int (length L)"
    "1 < length L \<longrightarrow> 0 < sn + 1 - int (length L)" "0 \<le> lw" "lw = 0 \<or> lw = sn - int (length L)"
    using assms(1) unfolding seq_ok_def by blast+
  have "job_sequence_number ((L @ [cur]) ! i) = sn + 1 + 1 - int (length (L @ [cur])) + int i" if "i < length (L @ [cur])" for i
  proof (cases "i < length L")
    case True
    then show ?thesis using s(1) by (simp add: nth_append)
  next
    case False
    then have "i = length L" using that by simp
    then show ?thesis using assms(3) by simp
  qed
  moreover have "0 \<le> sn + 1 - int (length L)" "1 < length (L @ [cur]) \<longrightarrow> 0 < sn + 1 - int (length L)"
    using s(2,3) assms(2) by (cases L; cases "tl L"; simp)+
  ultimately show ?thesis using s(4,5) assms(2) unfolding seq_ok_def by auto
qed

lemma dispatch_ok:
  assumes ok: "sched_ok sn L [cur] st" and sn: "0 < sn" and cur: "job_sequence_number cur = sn + 1"
    and par: "\<And>i. i < length L \<Longrightarrow> \<not> job_done (L ! i) \<Longrightarrow> job_last_committed cur < job_sequence_number (L ! i)"
  shows "sched_ok (sn + 1) (L @ [cur]) [] (st\<lparr>delegated_jobs := delegated_jobs st + 1\<rparr>)"
proof -
  note o = sched_okD [OF ok]
  have "seq_ok (sn + 1) (L @ [cur]) (job_sequence_number (lwm (gaq st)))"
    using o(6) sn cur by (rule seq_ok_snoc)
  moreover have "mark_ok (L @ [cur]) (st\<lparr>delegated_jobs := delegated_jobs st + 1\<rparr>)"
    by (rule mark_ok_more [OF o(7)]) (simp_all add: nth_append)
  moreover have "in_flight_ok (L @ [cur])"
    using o(9) par unfolding in_flight_ok_def by (auto simp: nth_append less_Suc_eq)
  ultimately show ?thesis using o by (simp add: sched_ok_def)
qed

lemma dispatch_alone_ok:
  assumes ok: "sched_ok sn [] [cur] st" and cur: "job_sequence_number cur = m" "0 \<le> m"
    and st': "gaq st' = (gaq st)\<lparr>lwm := l\<rparr>" "job_sequence_number l = 0" "last_lwm_timestamp st' = 0" "delegated_jobs st' = 1" "jobs_done st' = 0"
  shows "sched_ok m [cur] [] st'"
  using sched_okD [OF ok] cur st' by (auto simp: sched_ok_def seq_ok_def mark_ok_def in_flight_ok_def workers_ok_def)

section \<open>The steps of the coordinator\<close>

lemma enqueue_ok:
  assumes ok: "sched_ok sn L [] st" and en: "en_queue item (jobs (gaq st)) = (Some ind, q)" and item: "\<not> job_done item" "worker_id item = None"
  shows "sched_ok sn L [item] (st\<lparr>mts_groups_assigned := n, gaq := (gaq st)\<lparr>jobs := q, assigned_group_index := ind\<rparr>\<rparr>)"
proof -
  note o = sched_okD [OF ok]
  let ?q = "jobs (gaq st)" and ?st = "st\<lparr>mts_groups_assigned := n, gaq := (gaq st)\<lparr>jobs := q, assigned_group_index := ind\<rparr>\<rparr>"
  have q: "queue_ok q \<and> queue_list q = L @ [item] \<and> ind = slot q (length L) \<and> (L \<noteq> [] \<longrightarrow> slot q = slot ?q)"
  proof (cases "L = []")
    case True
    then have e: "ind = avail ?q" "queue_ok q" "queue_list q = [item]" "queue_entry q = avail ?q" "size_of_queue q = size_of_queue ?q"
      using en_queue_empty [OF o(1), of item] o(2) en by auto
    then show ?thesis using True entry_slot [OF e(2)] by simp
  next
    case False
    have "avail ?q \<noteq> size_of_queue ?q" using en by (auto simp: en_queue_def)
    then have "length (queue_list ?q) < size_of_queue ?q" using queue_nonempty(3,5) [OF o(1)] o(2) False by (auto split: if_splits)
    then have e: "ind = slot ?q (queue_len ?q)" "queue_ok q" "queue_list q = L @ [item]" "queue_entry q = queue_entry ?q" "size_of_queue q = size_of_queue ?q"
      using en_queue_more [OF o(1), of item] o(2) en False by auto
    moreover have "slot q = slot ?q" using e(4,5) by (simp add: slot_def fun_eq_iff)
    moreover have "queue_len ?q = length L" using o(2) by (simp flip: length_queue_list)
    ultimately show ?thesis by simp
  qed
  have "mark_ok L ?st"
  proof (cases "L = []")
    case True
    then show ?thesis using o(7) by (simp add: mark_ok_def)
  next
    case False
    then show ?thesis using q by (intro mark_ok_more [OF o(7)]) simp_all
  qed
  then show ?thesis using o q item by (auto simp: sched_ok_def workers_ok_def)
qed

lemma take_timestamps_ok:
  assumes ok: "sched_ok sn L [cur] st" and cur: "job_sequence_number cur = 0" "job_last_committed cur = 0"
  shows "\<exists>st1 cur'. take_timestamps ev st = Some st1 \<and> sched_ok sn L [cur'] st1 \<and>
    job_sequence_number cur' = sequence_number st1 \<and> job_last_committed cur' = last_committed st1 \<and>
    (sequence_number st1, last_committed st1) = (case ev of Some e \<Rightarrow> e | None \<Rightarrow> (0, 0)) \<and>
    first_event st1 = first_event st \<and> force_new_group st1 = force_new_group st"
proof -
  note o = sched_okD [OF ok]
  let ?i = "assigned_group_index (gaq st)"
  have i: "?i = slot (jobs (gaq st)) (length L)" "length L < length (groups (gaq st))" "groups (gaq st) ! length L = cur"
    using o(10) by (simp_all add: o(2) del: length_queue_list)
  have get: "get_job_group ?i (gaq st) = Some cur" using get_job_group_slot [OF o(1) i(2)] by (simp add: i)
  show ?thesis
  proof (cases ev)
    case None
    let ?st = "st\<lparr>sequence_number := SEQ_UNINIT, last_committed := SEQ_UNINIT\<rparr>"
    have "take_timestamps ev st = Some ?st" by (simp add: take_timestamps_def get None Let_def)
    moreover have "sched_ok sn L [cur] ?st" using ok by (simp add: sched_ok_cong [of ?st st])
    ultimately show ?thesis using cur None by (intro exI [of _ ?st] exI [of _ cur]) (simp add: SEQ_UNINIT_def)
  next
    case (Some e)
    obtain seq par where e: "e = (seq, par)" by (cases e)
    let ?f = "\<lambda>j. j\<lparr>job_sequence_number := seq, job_last_committed := par\<rparr>"
    let ?st = "st\<lparr>gaq := set_job_group ?i ?f (gaq st), sequence_number := seq, last_committed := par\<rparr>"
    have g: "groups (set_job_group ?i ?f (gaq st)) = L @ [?f cur]"
      unfolding i(1) set_job_group_slot [OF o(1) i(2)] i(3) by (simp add: o(2))
    have "mark_ok L ?st" by (rule mark_ok_more [OF o(7)]) simp_all
    then have "sched_ok sn L [?f cur] ?st" using o g by (auto simp: sched_ok_def workers_ok_def)
    moreover have "take_timestamps ev st = Some ?st" by (simp add: take_timestamps_def get Some e Let_def)
    ultimately show ?thesis using Some e by (intro exI [of _ ?st] exI [of _ "?f cur"]) simp
  qed
qed

lemma schedule_in_group_ok:
  assumes env: "env_ok env" and ok: "sched_ok sn L [cur] st" and sn: "0 < sn" "sequence_number st = sn + 1" "last_committed st \<noteq> 0"
    and cur: "job_sequence_number cur = sequence_number st" "job_last_committed cur = last_committed st"
    and ret: "schedule_in_group env False st = Some (0, st')"
  shows "same_clock st st' \<and> (\<exists>L'. sched_ok (sequence_number st') (L' @ [cur]) [] st')"
proof -
  let ?p = "last_committed st"
  obtain st1 where st1: "st' = st1\<lparr>delegated_jobs := delegated_jobs st1 + 1\<rparr>"
    "(if \<not> clock_leq ?p (last_lwm_timestamp st) \<and> assigned_group_index (gaq st) \<noteq> queue_entry (jobs (gaq st))
      then wait_for_last_committed_trx env ?p st else Some (False, st)) = Some (False, st1)"
    using ret unfolding schedule_in_group_def Let_def by (auto split: bind_splits if_splits)
  have "\<exists>L'. same_clock st st1 \<and> sched_ok sn L' [cur] st1 \<and> (L' = [] \<or> clock_leq ?p (last_lwm_timestamp st1))"
  proof (cases "\<not> clock_leq ?p (last_lwm_timestamp st) \<and> assigned_group_index (gaq st) \<noteq> queue_entry (jobs (gaq st))")
    case True
    then show ?thesis using wait_for_parent_ok [OF env _ ok sn(3), of st1] st1(2) by auto
  next
    case False
    note o = sched_okD [OF ok]
    have "L = []" if "assigned_group_index (gaq st) = queue_entry (jobs (gaq st))"
    proof -
      have "queue_list (jobs (gaq st)) \<noteq> []" by (simp add: o(2))
      then have "slot (jobs (gaq st)) (length L) = slot (jobs (gaq st)) 0" "length L < size_of_queue (jobs (gaq st))" "0 < size_of_queue (jobs (gaq st))"
        using o(10) that entry_slot [OF o(1)] queue_nonempty(1,3) [OF o(1)] length_queue_list [of "jobs (gaq st)"] by (auto simp: o(2))
      then show ?thesis using slot_inj [of "length L" "jobs (gaq st)" 0] by simp
    qed
    then show ?thesis using False st1(2) ok by auto
  qed
  then obtain L' where L': "same_clock st st1" "sched_ok sn L' [cur] st1" "L' = [] \<or> clock_leq ?p (last_lwm_timestamp st1)" by blast
  have "?p < job_sequence_number (L' ! i)" if "i < length L'" "\<not> job_done (L' ! i)" for i
    using mark_done [OF L'(2) _ sn(3) that(1)] L'(3) that by force
  then have "sched_ok (sn + 1) (L' @ [cur]) [] st'" unfolding st1(1) using cur sn(2) by (intro dispatch_ok [OF L'(2) sn(1)]) simp_all
  moreover have "same_clock st st'" using L'(1) by (simp add: st1(1) same_clock_def)
  ultimately show ?thesis using sn(2) by (auto simp: same_clock_def)
qed

lemma schedule_new_group_ok:
  assumes env: "env_ok env" and ok: "sched_ok sn L [cur] st" and cur: "job_sequence_number cur = sequence_number st" "0 \<le> sequence_number st"
    and ret: "schedule_new_group env flush_error st = Some (0, st')" and flags: "\<not> thd_killed st'" "\<not> is_error st'"
  shows "sequence_number st' = sequence_number st \<and> first_event st' = first_event st \<and> sched_ok (sequence_number st') [cur] [] st'"
proof -
  obtain st1 where w: "wait_for_workers_to_finish env flush_error st = Some (0, st1)" and
    st': "gaq st' = gaq (reset_lwm_sequence st1)" "last_lwm_timestamp st' = 0" "delegated_jobs st' = 1" "jobs_done st' = 0"
      "sequence_number st' = sequence_number st1" "first_event st' = first_event st1" "\<not> thd_killed st1" "\<not> is_error st1"
    using ret flags unfolding schedule_new_group_def
    by (auto simp: reset_lwm_sequence_def SEQ_UNINIT_def ER_MTS_INCONSISTENT_DATA_def wait_for_workers_to_finish_def split: bind_splits if_splits)
  obtain st2 where f: "finish_loop env flush_error 0 st = Some (False, st2)" "st1 = (reset_lwm_sequence st2)\<lparr>mts_in_group := False\<rparr>"
    using w unfolding wait_for_workers_to_finish_def by (auto split: bind_splits if_splits)
  have "same_clock st st2" "sched_ok sn [] [cur] st2"
    using finish_loop_ok [OF env f(1) ok] st'(7,8) by (auto simp: f(2) reset_lwm_sequence_def)
  then show ?thesis using st' cur by (auto simp: f(2) same_clock_def reset_lwm_sequence_def SEQ_UNINIT_def intro!: dispatch_alone_ok)
qed

definition replica_ok :: "mts \<Rightarrow> bool" where
  "replica_ok st \<longleftrightarrow>
     (\<exists>L. sched_ok (sequence_number st) L [] st) \<and> (first_event st \<longrightarrow> force_new_group st \<or> sequence_number st = 0)"

text \<open>
  Scheduling a group: the timestamps are read, checked and waited for. The applier goes on only when the
  result is 0 and nobody told it to stop.
\<close>

lemma schedule_next_event_ok:
  assumes env: "env_ok env" and ok: "sched_ok (sequence_number st) L [cur] st" and fe: "first_event st \<longrightarrow> force_new_group st \<or> sequence_number st = 0"
    and cur: "job_sequence_number cur = 0" "job_last_committed cur = 0" and ev: "\<forall>seq par. ev = Some (seq, par) \<longrightarrow> 0 \<le> seq"
    and ret: "schedule_next_event env flush_error ev st = Some (0, st')" and flags: "\<not> slave_killed st" "\<not> thd_killed st'" "\<not> is_error st'"
  shows "\<not> first_event st' \<and> (\<exists>L cur. sched_ok (sequence_number st') (L @ [cur]) [] st' \<and>
    (job_sequence_number cur, job_last_committed cur) = (case ev of Some e \<Rightarrow> e | None \<Rightarrow> (0, 0)))"
proof -
  let ?sn = "sequence_number st"
  obtain st1 cur' where t: "take_timestamps ev st = Some st1" "sched_ok ?sn L [cur'] st1" "job_sequence_number cur' = sequence_number st1"
    "job_last_committed cur' = last_committed st1" "(sequence_number st1, last_committed st1) = (case ev of Some e \<Rightarrow> e | None \<Rightarrow> (0, 0))"
    "first_event st1 = first_event st" "force_new_group st1 = force_new_group st"
    using take_timestamps_ok [OF ok cur] by blast
  define gap where "gap \<longleftrightarrow> \<not> first_event st1 \<and> sequence_number st1 > ?sn + 1"
  define new where "new \<longleftrightarrow> force_new_group st1 \<or> sequence_number st1 = 0 \<or> last_committed st1 = 0 \<or> gap \<or> ?sn = 0"
  define st3 where "st3 = st1\<lparr>first_event := False, is_new_group := new\<rparr>"
  have st3: "sched_ok ?sn L [cur'] st3" "sequence_number st3 = sequence_number st1" "last_committed st3 = last_committed st1" "\<not> first_event st3"
    using t(2) sched_ok_cong [of st3 st1 ?sn L "[cur']"] by (simp_all add: st3_def)
  have r: "\<not> (\<not> first_event st1 \<and> inconsistent_timestamps ?sn st1)" "(if \<not> new then schedule_in_group env gap st3 else schedule_new_group env flush_error st3) = Some (0, st')"
    using ret flags(1) unfolding schedule_next_event_def Let_def t(1)
    by (auto simp: ER_MTS_CANT_PARALLEL_def st3_def new_def gap_def SEQ_UNINIT_def split: if_splits)
  have seq: "0 \<le> sequence_number st1" using t(5) ev by (cases ev) auto
  show ?thesis
  proof (cases new)
    case True
    then have "schedule_new_group env flush_error st3 = Some (0, st')" using r(2) by simp
    from schedule_new_group_ok [OF env st3(1) _ _ this flags(2,3)]
    have "\<not> first_event st'" "sched_ok (sequence_number st') ([] @ [cur']) [] st'" using t(3) st3(2,4) seq by auto
    then show ?thesis using t(3-5) by metis
  next
    case False
    have "\<not> first_event st1" using False fe t(6,7) by (auto simp: new_def)
    then have n: "sequence_number st1 = ?sn + 1" "0 < ?sn" "last_committed st1 \<noteq> 0"
      using False r(1) sched_okD(6) [OF ok] by (auto simp: new_def gap_def inconsistent_timestamps_def clock_leq_def SEQ_UNINIT_def seq_ok_def split: if_splits)
    have "schedule_in_group env False st3 = Some (0, st')" using r(2) False by (simp add: new_def)
    from schedule_in_group_ok [OF env st3(1) n(2) _ _ _ _ this]
    obtain L' where "same_clock st3 st'" "sched_ok (sequence_number st') (L' @ [cur']) [] st'" using n t(3,4) st3(2,3) by auto
    moreover have "\<not> first_event st'" using calculation(1) st3(4) by (simp add: same_clock_def)
    moreover have "(job_sequence_number cur', job_last_committed cur') = (case ev of Some e \<Rightarrow> e | None \<Rightarrow> (0, 0))" using t(3-5) by simp
    ultimately show ?thesis by blast
  qed
qed

lemma begin_group_ok:
  assumes env: "env_ok env" and ok: "replica_ok st" and ev: "\<forall>seq par. ev = Some (seq, par) \<longrightarrow> 0 \<le> seq"
    and ret: "begin_group env flush_error log_pos ev st = Some (0, st')" and flags: "\<not> slave_killed st" "\<not> thd_killed st'" "\<not> is_error st'"
  shows "replica_ok st' \<and> (\<exists>L cur. groups (gaq st') = L @ [cur] \<and>
    (job_sequence_number cur, job_last_committed cur) = (case ev of Some e \<Rightarrow> e | None \<Rightarrow> (0, 0)))"
proof -
  let ?item = "job_reset log_pos (mts_groups_assigned st + 1)"
  obtain L where L: "sched_ok (sequence_number st) L [] st" and fe: "first_event st \<longrightarrow> force_new_group st \<or> sequence_number st = 0"
    using ok by (auto simp: replica_ok_def)
  obtain ind q where en: "en_queue ?item (jobs (gaq st)) = (Some ind, q)"
    using ret unfolding begin_group_def Let_def by (auto split: prod.splits bind_splits)
  define st0 where "st0 = st\<lparr>mts_groups_assigned := mts_groups_assigned st + 1, gaq := (gaq st)\<lparr>jobs := q, assigned_group_index := ind\<rparr>\<rparr>"
  have st0: "sched_ok (sequence_number st0) L [?item] st0" "first_event st0 \<longrightarrow> force_new_group st0 \<or> sequence_number st0 = 0" "\<not> slave_killed st0"
    using enqueue_ok [OF L en] fe flags(1) by (simp_all add: st0_def job_reset_def)
  have ret0: "schedule_next_event env flush_error ev st0 = Some (0, st')" using ret unfolding begin_group_def Let_def en st0_def by simp
  have i: "job_sequence_number ?item = 0" "job_last_committed ?item = 0" by (simp_all add: job_reset_def SEQ_UNINIT_def)
  from schedule_next_event_ok [OF env st0(1,2) i ev ret0 st0(3) flags(2,3)]
  obtain L' cur where c: "\<not> first_event st'" "sched_ok (sequence_number st') (L' @ [cur]) [] st'"
    "(job_sequence_number cur, job_last_committed cur) = (case ev of Some e \<Rightarrow> e | None \<Rightarrow> (0, 0))" by blast
  then show ?thesis using sched_okD(2) [OF c(2)] unfolding replica_ok_def by auto
qed

section \<open>The replica\<close>

text \<open>
  The coordinator begins a group while nobody told it to stop, and the group gets a worker; a checkpoint may
  come at any time, and a new format description or log starts a new run of groups.
\<close>

inductive replica_step :: "mts \<Rightarrow> mts \<Rightarrow> bool" where
  begins: "env_ok env \<Longrightarrow> \<forall>seq par. ev = Some (seq, par) \<longrightarrow> 0 \<le> seq \<Longrightarrow> begin_group env flush_error log_pos ev st = Some (0, st') \<Longrightarrow>
    \<not> slave_killed st \<Longrightarrow> \<not> thd_killed st' \<Longrightarrow> \<not> is_error st' \<Longrightarrow> replica_step st st'"
| assigns: "groups (gaq st) \<noteq> [] \<Longrightarrow> worker_id (last (groups (gaq st))) = None \<Longrightarrow> w < length (last_done (gaq st)) \<Longrightarrow>
    assign_worker w st = Some st' \<Longrightarrow> replica_step st st'"
| works: "worker_step st st' \<Longrightarrow> replica_step st st'"
| checkpoint: "env_ok env \<Longrightarrow> mts_checkpoint_routine env flush_error n too_early force st = Some (error, n1, st') \<Longrightarrow> replica_step st st'"
| restarts: "replica_step st (start_new_group st)"

definition replica_start :: "mts \<Rightarrow> bool" where
  "replica_start st \<longleftrightarrow> (\<exists>st0 e l ind max_len n. 0 < max_len \<and>
     st = Mts_submode_logical_clock (st0\<lparr>gaq := Slave_committed_queue e l ind max_len n\<rparr>))"

abbreviation replica_run :: "mts \<Rightarrow> mts \<Rightarrow> bool" where
  "replica_run \<equiv> replica_step\<^sup>*\<^sup>*"

lemma replica_start_ok: "replica_start st \<Longrightarrow> replica_ok st"
  by (auto simp: replica_start_def replica_ok_def Mts_submode_logical_clock_def Slave_committed_queue_def sched_ok_def seq_ok_def mark_ok_def
      in_flight_ok_def workers_ok_def SEQ_UNINIT_def circular_buffer_queue_def queue_ok_def queue_list_def)

lemma assign_worker_ok:
  assumes ok: "sched_ok sn L [] st" and ne: "groups (gaq st) \<noteq> []" and w: "w < length (last_done (gaq st))"
    and ret: "assign_worker w st = Some st'"
  shows "same_clock st st' \<and> (\<exists>L'. sched_ok sn L' [] st')"
proof -
  note o = sched_okD [OF ok]
  have i: "assigned_group_index (gaq st) = slot (jobs (gaq st)) (length L - 1)" "length L - 1 < length L" using o(2,10) ne by auto
  have st': "st' = st\<lparr>gaq := set_job_group (slot (jobs (gaq st)) (length L - 1)) (worker_id_update (\<lambda>_. Some w)) (gaq st)\<rparr>"
    using ret unfolding assign_worker_def i(1) by (auto split: bind_splits)
  show ?thesis unfolding st' using job_change_ok [OF ok i(2), of "worker_id_update (\<lambda>_. Some w)"] w by (auto simp: same_clock_def)
qed

lemma replica_ok_clock: "replica_ok st \<Longrightarrow> same_clock st st' \<Longrightarrow> \<exists>L. sched_ok (sequence_number st) L [] st' \<Longrightarrow> replica_ok st'"
  by (simp add: replica_ok_def same_clock_def)

lemma replica_step_ok:
  assumes "replica_ok st" and step: "replica_step st st'"
  shows "replica_ok st'"
proof -
  obtain L where L: "sched_ok (sequence_number st) L [] st" using assms(1) by (auto simp: replica_ok_def)
  note clock = replica_ok_clock [OF assms(1), of st']
  show ?thesis
    using step
  proof cases
    case (begins env ev flush_error log_pos)
    then show ?thesis using begin_group_ok [OF _ assms(1)] by blast
  next
    case (assigns w)
    then show ?thesis using assign_worker_ok [OF L] clock by blast
  next
    case works
    then show ?thesis using worker_step_ok [OF L] clock by blast
  next
    case (checkpoint env flush_error n too_early force error n1)
    then show ?thesis using checkpoint_ok [OF _ _ L] clock by blast
  next
    case restarts
    then show ?thesis using assms(1) sched_ok_cong [of st' st] by (auto simp: replica_ok_def start_new_group_def)
  qed
qed

lemma replica_run_ok: "replica_run st st' \<Longrightarrow> replica_ok st \<Longrightarrow> replica_ok st'"
  by (induction rule: rtranclp_induct) (auto intro: replica_step_ok)

text \<open>A group that still runs is no commit parent of a later group in the queue.\<close>

lemma replica_ok_in_flight:
  assumes "replica_ok st" and "i < j" and "j < length (groups (gaq st))" and "\<not> job_done (groups (gaq st) ! i)"
  shows "job_last_committed (groups (gaq st) ! j) < job_sequence_number (groups (gaq st) ! i)"
proof -
  obtain L where L: "sched_ok (sequence_number st) L [] st" using assms(1) by (auto simp: replica_ok_def)
  show ?thesis using sched_okD(2,9) [OF L] assms(2-4) by (simp add: in_flight_ok_def flip: length_queue_list)
qed

end
