(* ===== verification/Spec2Isabelle.thy ===== *)
theory Spec2Isabelle
  imports Gtid_Properties Hash_Properties Gtid_State_Properties Tree_Properties Query_Text Trx_Boundary_Laws Trx_Tracking_Laws Mts_Replica
begin

text \<open>
  A verification library for the global transaction identifiers (GTIDs) of the MySQL 5.7 server and for
  the routines below them, whose sources are under \<^verbatim>\<open>src/\<close>.

  \<^bold>\<open>The program.\<close> Every transaction of a replicated server has a GTID: the UUID of the server it
  started on, and a number (GNO). A \<open>Sid_map\<close> gives the UUIDs small numbers (SIDNOs). A \<open>Gtid_set\<close> holds for
  every SIDNO a sorted list of intervals of GNOs, whose cells come from a pool; sets are written as text
  and as bytes, and read back. \<open>Owned_gtids\<close> holds, in one hash table of \<^verbatim>\<open>mysys/hash.c\<close> for every SIDNO,
  which session owns which GTID. \<open>Gtid_state\<close> combines them: sets of executed, lost and table-only GTIDs,
  the owned GTIDs, the next free number of this server, counters and a lock for every SIDNO. A session
  gets a GTID before it logs its transaction, automatically or with \<open>GTID_NEXT\<close>, and gives it up when it
  commits, alone or in a group, or rolls back; other sessions wait for GTIDs to be executed.

  \<^bold>\<open>The model.\<close> Source values are values of the same shape: structures are records, enumerations are
  datatypes, linked lists are lists, an array indexed by SIDNO is a list indexed by SIDNO - 1, a GNO is an
  \<open>int\<close> and bytes and hash values are words. Objects that several sets share (SID maps) are in a store
  indexed by address. A routine that changes an object takes it as an argument and returns it. \<open>None\<close> as a
  result of a routine of the state, the sets or the hash table says that the code would read or write
  memory it must not use; the properties show that it does not happen. Errors are the status values of
  the source. Everything the code asks for and cannot know is an argument: whether memory is there for
  each allocation, what an uninitialised variable holds, what the table \<open>mysql.gtid_executed\<close> answers,
  and what the other sessions do during a wait. Assertions are not evaluated, as in a release build.

  \<^bold>\<open>The theories\<close>, with the sources they model.
  \<^item> \<open>Prelude\<close>: status values and limits of \<^verbatim>\<open>sql/rpl_gtid.h\<close>; collections of theorems; generic lemmas.
  \<^item> \<open>Uuid\<close>: \<^verbatim>\<open>libbinlogevents/src/uuid.cpp\<close>. Parsing and printing are inverse.
  \<^item> \<open>Sid_Map\<close>: \<^verbatim>\<open>sql/rpl_gtid_sid_map.cc\<close>. Array, hash and sorted order stay consistent, numbers never
    change, a failed allocation changes nothing.
  \<^item> \<open>Gno_Intervals\<close>: \<open>add_gno_interval\<close>, \<open>remove_gno_interval\<close>, the interval iterators and the pool of cells of
    \<^verbatim>\<open>sql/rpl_gtid_set.cc\<close>. Lists stay sorted and apart, no cell is lost.
  \<^item> \<open>Gtid_Set\<close>, \<open>Gtid_Set_Algebra\<close>, \<open>Gtid_Set_Queries\<close>: the rest of \<open>Gtid_set\<close>. Union, difference and intersection
    are those of sets of pairs, also between sets with different SID maps; the queries decide what their
    names say, with the exceptions the properties state.
  \<^item> \<open>Number_Text\<close>, \<open>Gtid_Text\<close>, \<open>Gtid_Text_Laws\<close>, \<open>Gtid_Text_Length\<close>: numbers in text
    (\<^verbatim>\<open>strings/longlong2str.c\<close> and the \<open>strtoll\<close> of the C library), the text of sets
    (\<^verbatim>\<open>sql/rpl_gtid_set.cc\<close>), of GTIDs (\<^verbatim>\<open>sql/rpl_gtid_misc.cc\<close>) and of values of \<open>GTID_NEXT\<close>
    (\<^verbatim>\<open>sql/rpl_gtid_specification.cc\<close>). Which texts are accepted and what they denote; printing and parsing;
    the length of the text, which the code computes before it writes.
  \<^item> \<open>Byte_Order\<close>, \<open>Gtid_Encoding\<close>, \<open>Gtid_Encoding_Laws\<close>: the binary form, with the store and load
    functions of \<^verbatim>\<open>include/byte_order_generic.h\<close> and \<^verbatim>\<open>include/my_byteorder.h\<close>.
  \<^item> \<open>Gtid_Properties\<close>: the properties of all these, with instances.
  \<^item> \<open>Hash_Table\<close>, \<open>Hash_Table_Laws\<close>, \<open>Hash_Table_Insert\<close>, \<open>Hash_Table_Delete\<close>, \<open>Hash_Table_Update\<close>,
    \<open>Hash_Store\<close>, \<open>Hash_Properties\<close>: the linear hashing of \<^verbatim>\<open>mysys/hash.c\<close>. The invariant says that every
    record is in the chain of its position; the operations are those of a bag of records. The locale
    \<open>record_store\<close> is what callers rely on, interpreted on the hash table.
  \<^item> \<open>Owned_Gtids\<close>, \<open>Owned_Gtids_Laws\<close>: \<^verbatim>\<open>sql/rpl_gtid_owned.cc\<close> on the model of the hash tables, with the hash
    function of the binary collation (\<^verbatim>\<open>strings/ctype-bin.c\<close>).
  \<^item> \<open>Gtid_State\<close>: \<^verbatim>\<open>sql/rpl_gtid_state.cc\<close>, \<open>Mutex_cond_array\<close> and the fields of \<open>THD\<close> they use. \<open>Gtid_Execution\<close>:
    \<^verbatim>\<open>sql/rpl_gtid_execution.cc\<close> and the waits of \<open>Gtid_state\<close>.
  \<^item> \<open>Gtid_State_Laws\<close>, \<open>Gtid_Commit_Laws\<close>, \<open>Gtid_Growth_Laws\<close>, \<open>Gtid_Group_Commit\<close>, \<open>Gtid_Execution_Laws\<close>: what each
    operation does to the sets, the owners, the counters and the locks.
  \<^item> \<open>Gtid_System\<close>, \<open>Gtid_Steps\<close>, \<open>Gtid_State_Properties\<close>: the sessions of a server and the state they share
    as a transition system with one rule for every operation; its invariant; a specification with five
    rules (own, commit, rollback, reset, purge) which every step refines; the properties.

  \<^bold>\<open>Concurrency.\<close> A rule of the transition system is one operation under the locks it takes, so the
  interleavings are those of whole operations; the SIDNO locks are a trace of events, about which the
  order and the release are proved. A loop that waits has in its model, for every wait, the function that
  the other sessions apply to the state, and the properties hold for all such functions that keep the
  state well-formed.

  \<^bold>\<open>Loops and bounds.\<close> Loops over lists, arrays and ranges are structural recursions or have a termination
  proof. The loops of \<open>set_gtid_next\<close> and \<open>wait_for_gtid_set\<close> may run forever; they are partial functions, and it is
  proved under which conditions they return. GNOs are below \<open>GNO_END\<close> (2 to the 63, minus 1), which the code
  keeps so that they fit 64 bits; where the arithmetic of the source can wrap around (the decoder, hash
  values) the model wraps around.

  \<^bold>\<open>Not modelled.\<close> \<open>Gtid_table_persistor\<close> and the persistence of GTIDs in a table (storage engine calls), the
  session tracker and performance schema copies of \<open>GTID_NEXT\<close>, debug printers, the code under
  \<open>HAVE_GTID_NEXT_LIST\<close>, which no build defines, and the accounting of memory in the hash table. The lock
  \<open>global_sid_lock\<close> is modelled by the atomicity of the operations. Outside this part of the server nothing
  is modelled: the parser, the optimizer, the storage engines, the protocol and the plugins are reached
  by none of these routines.
\<close>

end
